(* ===== verification/Prelude.thy ===== *)
theory Prelude
  imports Main "HOL-Library.Word" "HOL-Library.Monad_Syntax"
begin

unbundle bit_operations_syntax

text \<open>
  Shared vocabulary of the development: the machine types of the C code, the error numbers it
  returns, byte-block copies with their bounds, and the list and word lemmas that several
  components use.

  A C computation that can meet undefined behaviour (a division by zero, an access outside an
  allocated block) is a function into \<^typ>\<open>'a option\<close>: \<^const>\<open>None\<close> is the undefined behaviour,
  so a theorem that the result is \<^const>\<open>Some\<close> is a memory-safety theorem.  The error returns of
  the code are ordinary values, negative integers as in the kernel.
\<close>

section \<open>Machine types\<close>

type_synonym u8 = "8 word"
type_synonym u32 = "32 word"
type_synonym u64 = "64 word"

text \<open>A C \<open>int\<close> has the same 32 bits as an \<open>unsigned int\<close>; \<open>sint\<close> reads it as signed.\<close>

type_synonym s32 = "32 word"

section \<open>Steps of concurrent code\<close>

text \<open>
  What the next step of a process can be in a given state: not possible now (it waits, or the
  environment offers nothing it accepts), undefined behaviour, or a step with its outcome.
\<close>

datatype 'a result = Blocked | Fault | Next 'a

section \<open>Error numbers (asm-generic/errno.h)\<close>

abbreviation EPERM :: int where "EPERM \<equiv> 1"
abbreviation ESRCH :: int where "ESRCH \<equiv> 3"
abbreviation EINTR :: int where "EINTR \<equiv> 4"
abbreviation ENOMEM :: int where "ENOMEM \<equiv> 12"
abbreviation EFAULT :: int where "EFAULT \<equiv> 14"
abbreviation EBUSY :: int where "EBUSY \<equiv> 16"
abbreviation EINVAL :: int where "EINVAL \<equiv> 22"
abbreviation ENOSPC :: int where "ENOSPC \<equiv> 28"
abbreviation EPIPE :: int where "EPIPE \<equiv> 32"

section \<open>Block copies\<close>

text \<open>
  \<open>memcpy(&dst[off], src, n)\<close>: \<open>n\<close> bytes of \<open>src\<close> replace the bytes of \<open>dst\<close> from \<open>off\<close> on.
  A negative or too large range is outside the block.
\<close>

definition memcpy :: "'a list \<Rightarrow> int \<Rightarrow> 'a list \<Rightarrow> int \<Rightarrow> 'a list option" where
  "memcpy dst off src n =
     (if 0 \<le> off \<and> 0 \<le> n \<and> off + n \<le> int (length dst) \<and> n \<le> int (length src)
      then Some (take (nat off) dst @ take (nat n) src @ drop (nat off + nat n) dst)
      else None)"

text \<open>The bytes \<open>&src[off]\<close>, as the source of a copy.\<close>

definition at_offset :: "'a list \<Rightarrow> int \<Rightarrow> 'a list option" where
  "at_offset xs off = (if 0 \<le> off \<and> off \<le> int (length xs) then Some (drop (nat off) xs) else None)"

definition read_at :: "'a list \<Rightarrow> int \<Rightarrow> 'a option" where
  "read_at xs i = (if 0 \<le> i \<and> i < int (length xs) then Some (xs ! nat i) else None)"

definition write_at :: "'a list \<Rightarrow> int \<Rightarrow> 'a \<Rightarrow> 'a list option" where
  "write_at xs i x = (if 0 \<le> i \<and> i < int (length xs) then Some (xs[nat i := x]) else None)"

lemma memcpy_nat:
  "n \<le> length src \<Longrightarrow> off + n \<le> length dst \<Longrightarrow>
   memcpy dst (int off) src (int n) = Some (take off dst @ take n src @ drop (off + n) dst)"
  by (simp add: memcpy_def nat_add_distrib)

lemma memcpy_length: "memcpy dst off src n = Some d \<Longrightarrow> length d = length dst"
  by (auto simp: memcpy_def min_def split: if_splits)

lemma at_offset_nat [simp]: "off \<le> length xs \<Longrightarrow> at_offset xs (int off) = Some (drop off xs)"
  by (simp add: at_offset_def)

lemma read_at_nat [simp]: "i < length xs \<Longrightarrow> read_at xs (int i) = Some (xs ! i)"
  by (simp add: read_at_def)

lemma write_at_nat [simp]: "i < length xs \<Longrightarrow> write_at xs (int i) x = Some (xs[i := x])"
  by (simp add: write_at_def)

lemma nth_spliced:
  "n \<le> length src \<Longrightarrow> off + n \<le> length dst \<Longrightarrow> j < length dst \<Longrightarrow>
   (take off dst @ take n src @ drop (off + n) dst) ! j =
     (if off \<le> j \<and> j < off + n then src ! (j - off) else dst ! j)"
  by (auto simp: nth_append min_def)

lemma length_spliced [simp]:
  "n \<le> length src \<Longrightarrow> off + n \<le> length dst \<Longrightarrow>
   length (take off dst @ take n src @ drop (off + n) dst) = length dst"
  by simp

section \<open>Counting the elements of a list after an update\<close>

definition count_if :: "('a \<Rightarrow> bool) \<Rightarrow> 'a list \<Rightarrow> nat" where
  "count_if P xs = length (filter P xs)"

lemma count_if_Nil [simp]: "count_if P [] = 0"
  by (simp add: count_if_def)

lemma count_if_Cons [simp]: "count_if P (x # xs) = of_bool (P x) + count_if P xs"
  by (simp add: count_if_def)

lemma count_if_append [simp]: "count_if P (xs @ ys) = count_if P xs + count_if P ys"
  by (simp add: count_if_def)

lemma count_if_replicate [simp]: "count_if P (replicate n x) = (if P x then n else 0)"
  by (induction n) auto

lemma count_if_le_length: "count_if P xs \<le> length xs"
  by (simp add: count_if_def)

lemma count_if_update:
  "i < length xs \<Longrightarrow> count_if P (xs[i := x]) + of_bool (P (xs ! i)) = count_if P xs + of_bool (P x)"
proof (induction xs arbitrary: i)
  case Nil
  then show ?case by simp
next
  case (Cons y ys)
  then show ?case by (cases i) (auto simp: add.assoc add.left_commute)
qed

lemma count_if_pos: "i < length xs \<Longrightarrow> P (xs ! i) \<Longrightarrow> 0 < count_if P xs"
  by (auto simp: count_if_def filter_empty_conv)

lemma count_if_two:
  assumes "i < length xs" "j < length xs" "i \<noteq> j" "P (xs ! i)" "P (xs ! j)"
  shows "2 \<le> count_if P xs"
proof -
  have "{i, j} \<subseteq> {k. k < length xs \<and> P (xs ! k)}" using assms by auto
  then have "card {i, j} \<le> card {k. k < length xs \<and> P (xs ! k)}"
    by (intro card_mono) auto
  then show ?thesis using assms(3) by (simp add: count_if_def length_filter_conv_card)
qed

lemma count_if_0: "count_if P xs = 0 \<longleftrightarrow> (\<forall>x \<in> set xs. \<not> P x)"
  by (simp add: count_if_def filter_empty_conv)

lemma count_if_mono: "(\<And>x. x \<in> set xs \<Longrightarrow> P x \<Longrightarrow> Q x) \<Longrightarrow> count_if P xs \<le> count_if Q xs"
  by (induction xs) (auto simp: le_SucI)

section \<open>Words\<close>

lemma sint_eq_unat:
  assumes "unat (w :: 32 word) < 2 ^ 31"
  shows "sint w = int (unat w)"
proof -
  have "nat (uint w) < 2 ^ 31" using assms by simp
  then have "int (nat (uint w)) < int (2 ^ 31)" by (simp only: of_nat_less_iff)
  then have u: "uint w < 2 ^ 31" by simp
  have "signed_take_bit 31 (uint w) = uint w"
    by (intro signed_take_bit_int_eq_self u order_trans [OF _ uint_ge_0]) simp
  then show ?thesis by (simp add: sint_uint)
qed

lemma unat_pos: "w \<noteq> (0 :: 'a::len word) \<longleftrightarrow> 0 < unat w"
  by (simp add: unat_gt_0)

lemma unat_Suc_minus: "w \<noteq> (0 :: 'a::len word) \<Longrightarrow> Suc (unat (w - 1)) = unat w"
  by (simp add: unat_minus_one unat_gt_0)

lemma of_nat_eq_0_small:
  assumes "n < 2 ^ LENGTH('a)"
  shows "(of_nat n :: 'a::len word) = 0 \<longleftrightarrow> n = 0"
proof
  assume "(of_nat n :: 'a word) = 0"
  then have "unat (of_nat n :: 'a word) = 0" by simp
  then show "n = 0" using assms by (simp only: unat_of_nat mod_less)
qed simp

lemma unat_plus_small:
  "unat (a :: 'a::len word) + unat b < 2 ^ LENGTH('a) \<Longrightarrow> unat (a + b) = unat a + unat b"
  by (simp add: unat_word_ariths)

lemma unat_minus_le: "unat (b :: 'a::len word) \<le> unat a \<Longrightarrow> unat (a - b) = unat a - unat b"
  by (simp add: unat_sub word_le_nat_alt)


end
