(* ===== verification/Queues.thy ===== *)
theory Queues
  imports Prelude
begin

text \<open>
  The two contracts that the clients of a ring buffer rely on: a bounded queue that takes and
  gives whole blocks of elements (fifo.c over the bulk operations) and one that takes and gives
  single elements, overwriting the oldest when it is full (the single-item operations, and the
  pointer buffers of the two producer/consumer modules).  Each contract is a locale with the
  consequences its clients use.
\<close>

section \<open>Block queues\<close>

datatype 'a qop = Put "'a list" | Get nat

text \<open>A run of operations; the result is the buffer and the blocks taken out, concatenated.\<close>

fun run_qops ::
  "('b \<Rightarrow> 'a list \<Rightarrow> 'b option) \<Rightarrow> ('b \<Rightarrow> nat \<Rightarrow> ('b \<times> 'a list) option) \<Rightarrow> 'b \<Rightarrow> 'a qop list
     \<Rightarrow> ('b \<times> 'a list) option" where
  "run_qops put get b [] = Some (b, [])"
| "run_qops put get b (Put xs # ops) = do { b' \<leftarrow> put b xs; run_qops put get b' ops }"
| "run_qops put get b (Get n # ops) = do {
     (b', out) \<leftarrow> get b n;
     (b'', outs) \<leftarrow> run_qops put get b' ops;
     Some (b'', out @ outs) }"

text \<open>The operations fit: no block is put without room for it or taken before it is there.\<close>

fun qops_fit :: "nat \<Rightarrow> nat \<Rightarrow> 'a qop list \<Rightarrow> bool" where
  "qops_fit cap len [] \<longleftrightarrow> True"
| "qops_fit cap len (Put xs # ops) \<longleftrightarrow> len + length xs \<le> cap \<and> qops_fit cap (len + length xs) ops"
| "qops_fit cap len (Get n # ops) \<longleftrightarrow> n \<le> len \<and> qops_fit cap (len - n) ops"

fun qops_input :: "'a qop list \<Rightarrow> 'a list" where
  "qops_input [] = []"
| "qops_input (Put xs # ops) = xs @ qops_input ops"
| "qops_input (Get n # ops) = qops_input ops"

locale block_queue =
  fixes ok :: "'b \<Rightarrow> bool" and elems :: "'b \<Rightarrow> 'a list" and cap :: "'b \<Rightarrow> nat"
    and put :: "'b \<Rightarrow> 'a list \<Rightarrow> 'b option" and get :: "'b \<Rightarrow> nat \<Rightarrow> ('b \<times> 'a list) option"
  assumes put_fits: "ok b \<Longrightarrow> length (elems b) + length xs \<le> cap b \<Longrightarrow>
      \<exists>b'. put b xs = Some b' \<and> ok b' \<and> cap b' = cap b \<and> elems b' = elems b @ xs"
    and get_avail: "ok b \<Longrightarrow> n \<le> length (elems b) \<Longrightarrow>
      \<exists>b'. get b n = Some (b', take n (elems b)) \<and> ok b' \<and> cap b' = cap b \<and> elems b' = drop n (elems b)"
begin

lemma run_fifo:
  "ok b \<Longrightarrow> qops_fit (cap b) (length (elems b)) ops \<Longrightarrow>
   \<exists>b' outs. run_qops put get b ops = Some (b', outs) \<and> ok b' \<and> cap b' = cap b \<and>
     outs @ elems b' = elems b @ qops_input ops"
proof (induction ops arbitrary: b)
  case Nil
  then show ?case by simp
next
  case (Cons a ops)
  show ?case
  proof (cases a)
    case (Put xs)
    with Cons.prems obtain b1 where
      b1: "put b xs = Some b1" "ok b1" "cap b1 = cap b" "elems b1 = elems b @ xs"
      using put_fits [of b xs] by auto
    with Cons.prems Put Cons.IH [of b1] show ?thesis by auto
  next
    case (Get n)
    with Cons.prems obtain b1 where
      b1: "get b n = Some (b1, take n (elems b))" "ok b1" "cap b1 = cap b" "elems b1 = drop n (elems b)"
      using get_avail [of b n] by auto
    with Cons.prems Get obtain b2 outs where
      b2: "run_qops put get b1 ops = Some (b2, outs)" "ok b2" "cap b2 = cap b"
        "outs @ elems b2 = drop n (elems b) @ qops_input ops"
      using Cons.IH [of b1] by auto
    have "take n (elems b) @ outs @ elems b2 = elems b @ qops_input ops"
      using b2(4) by (simp add: append_assoc [symmetric] del: append_assoc)
    with b1 b2 Get show ?thesis by auto
  qed
qed

end

section \<open>Item queues that overwrite\<close>

fun insert_all :: "('b \<Rightarrow> 'a \<Rightarrow> 'b option) \<Rightarrow> 'b \<Rightarrow> 'a list \<Rightarrow> 'b option" where
  "insert_all ins b [] = Some b"
| "insert_all ins b (x # xs) = do { b' \<leftarrow> ins b x; insert_all ins b' xs }"

fun remove_all :: "('b \<Rightarrow> ('b \<times> 'a) option) \<Rightarrow> 'b \<Rightarrow> nat \<Rightarrow> ('b \<times> 'a list) option" where
  "remove_all del b 0 = Some (b, [])"
| "remove_all del b (Suc n) = do {
     (b', x) \<leftarrow> del b;
     (b'', xs) \<leftarrow> remove_all del b' n;
     Some (b'', x # xs) }"

locale item_queue =
  fixes ok :: "'b \<Rightarrow> bool" and elems :: "'b \<Rightarrow> 'a list" and cap :: "'b \<Rightarrow> nat"
    and ins :: "'b \<Rightarrow> 'a \<Rightarrow> 'b option" and del :: "'b \<Rightarrow> ('b \<times> 'a) option"
  assumes within: "ok b \<Longrightarrow> length (elems b) \<le> cap b \<and> 0 < cap b"
    and ins_ok: "ok b \<Longrightarrow> \<exists>b'. ins b x = Some b' \<and> ok b' \<and> cap b' = cap b \<and>
      elems b' = drop (Suc (length (elems b)) - cap b) (elems b @ [x])"
    and del_ok: "ok b \<Longrightarrow> elems b = x # xs \<Longrightarrow>
      \<exists>b'. del b = Some (b', x) \<and> ok b' \<and> cap b' = cap b \<and> elems b' = xs"
begin

lemma insert_all_keeps_last:
  "ok b \<Longrightarrow> \<exists>b'. insert_all ins b xs = Some b' \<and> ok b' \<and> cap b' = cap b \<and>
     elems b' = drop (length (elems b) + length xs - cap b) (elems b @ xs)"
proof (induction xs arbitrary: b)
  case Nil
  then show ?case using within [of b] by simp
next
  case (Cons x xs)
  then obtain b1 where
    b1: "ins b x = Some b1" "ok b1" "cap b1 = cap b"
      "elems b1 = drop (Suc (length (elems b)) - cap b) (elems b @ [x])"
    using ins_ok [of b x] by auto
  let ?k = "Suc (length (elems b)) - cap b"
  have w: "length (elems b) \<le> cap b" "0 < cap b" using within [OF Cons.prems] by auto
  from Cons.IH [OF b1(2)] obtain b2 where
    b2: "insert_all ins b1 xs = Some b2" "ok b2" "cap b2 = cap b"
      "elems b2 = drop (length (elems b1) + length xs - cap b) (elems b1 @ xs)"
    using b1(3) by auto
  have "elems b1 @ xs = drop ?k (elems b @ x # xs)" using b1(4) w by simp
  then have "elems b2 = drop (length (elems b1) + length xs - cap b + ?k) (elems b @ x # xs)"
    using b2(4) by (simp add: drop_drop del: drop_append)
  also have "length (elems b1) + length xs - cap b + ?k = length (elems b) + length (x # xs) - cap b"
    using b1(4) w by simp
  finally show ?case using b1 b2 by simp
qed

lemma remove_all_in_order:
  "ok b \<Longrightarrow> n \<le> length (elems b) \<Longrightarrow>
   \<exists>b'. remove_all del b n = Some (b', take n (elems b)) \<and> ok b' \<and> cap b' = cap b \<and>
     elems b' = drop n (elems b)"
proof (induction n arbitrary: b)
  case 0
  then show ?case by simp
next
  case (Suc n)
  then obtain x xs where xs: "elems b = x # xs" by (cases "elems b") auto
  then obtain b1 where b1: "del b = Some (b1, x)" "ok b1" "cap b1 = cap b" "elems b1 = xs"
    using del_ok [OF Suc.prems(1) xs] by auto
  with Suc.IH [of b1] Suc.prems xs show ?case by auto
qed

end

end
