(* ===== verification/CBuffer.thy ===== *)
theory CBuffer
  imports Queues
begin

text \<open>
  The byte ring buffer of parteB/cbuffer.c (the file FicherosP3/cbuffer.c is the same text):
  its structure, every operation with its unsigned and signed 32-bit arithmetic, and the
  refinement of the bulk and single-byte operations to lists.
\<close>

section \<open>The structure\<close>

text \<open>\<open>cb_data\<close> is the block that \<open>data\<close> points to; its length is the size that was allocated.\<close>

record cbuffer =
  cb_data :: "u8 list"
  cb_head :: u32
  cb_size :: u32
  cb_max :: u32

text \<open>The two blocks that a buffer consists of, for the account of what is allocated.\<close>

datatype block = HeaderBlock | DataBlock

section \<open>Operations\<close>

text \<open>
  \<open>create_cbuffer_t\<close>: the first argument says whether the allocation of the header succeeds, the
  second is the (uninitialised) data block, or \<^const>\<open>None\<close> when its allocation fails.  The result
  is the returned pointer and the blocks that stay allocated.
\<close>

definition create_cbuffer_t :: "bool \<Rightarrow> u8 list option \<Rightarrow> u32 \<Rightarrow> cbuffer option \<times> block list" where
  "create_cbuffer_t header_ok raw max_size =
     (if \<not> header_ok then (None, [])
      else case raw of
             None \<Rightarrow> (None, [HeaderBlock])
           | Some d \<Rightarrow> (Some \<lparr>cb_data = d, cb_head = 0, cb_size = 0, cb_max = max_size\<rparr>,
                        [HeaderBlock, DataBlock]))"

text \<open>\<open>destroy_cbuffer_t\<close>: the fields are reset before the two blocks are released.\<close>

definition destroy_cbuffer_t :: "cbuffer \<Rightarrow> block list \<Rightarrow> cbuffer \<times> block list" where
  "destroy_cbuffer_t b live =
     (b\<lparr>cb_size := 0, cb_head := 0, cb_max := 0\<rparr>, removeAll HeaderBlock (removeAll DataBlock live))"

definition size_cbuffer_t :: "cbuffer \<Rightarrow> s32" where
  "size_cbuffer_t b = cb_size b"

definition nr_gaps_cbuffer_t :: "cbuffer \<Rightarrow> s32" where
  "nr_gaps_cbuffer_t b = cb_max b - cb_size b"

definition is_full_cbuffer_t :: "cbuffer \<Rightarrow> bool" where
  "is_full_cbuffer_t b \<longleftrightarrow> cb_size b = cb_max b"

definition is_empty_cbuffer_t :: "cbuffer \<Rightarrow> bool" where
  "is_empty_cbuffer_t b \<longleftrightarrow> cb_size b = 0"

definition insert_cbuffer_t :: "cbuffer \<Rightarrow> u8 \<Rightarrow> cbuffer option" where
  "insert_cbuffer_t b new_item =
     (if cb_size b = cb_max b then do {
        d \<leftarrow> write_at (cb_data b) (uint (cb_head b)) new_item;
        Some (b\<lparr>cb_data := d,
                cb_head := (if cb_size b \<noteq> 0 then (cb_head b + 1) mod cb_max b else cb_head b)\<rparr>)
      } else do {
        let pos = (if cb_max b \<noteq> 0 then (cb_head b + cb_size b) mod cb_max b else 0);
        d \<leftarrow> write_at (cb_data b) (uint pos) new_item;
        Some (b\<lparr>cb_data := d, cb_size := cb_size b + 1\<rparr>)
      })"

text \<open>
  \<open>insert_items_cbuffer_t\<close>: the remainder by \<open>max_size\<close> is taken before any check, so an
  unallocated buffer is a division by zero.  \<open>nr_items\<close> is an \<open>int\<close>; compared with the unsigned
  \<open>max_size\<close> it is converted to unsigned, compared with the \<open>int\<close> \<open>nr_gaps\<close> it is not.
\<close>

definition insert_items_cbuffer_t :: "cbuffer \<Rightarrow> u8 list \<Rightarrow> s32 \<Rightarrow> cbuffer option" where
  "insert_items_cbuffer_t b items nr_items =
     (if cb_max b = 0 then None
      else let nr_gaps = cb_max b - cb_size b;
               whead = (cb_head b + cb_size b) mod cb_max b
      in if cb_max b < nr_items then Some b
      else do {
        (d1, rest, left, whead1) \<leftarrow>
          (if cb_max b < whead + nr_items then do {
             let items_copied = cb_max b - whead;
             d \<leftarrow> memcpy (cb_data b) (sint whead) items (sint items_copied);
             Some (d, drop (nat (sint items_copied)) items, nr_items - items_copied, 0)
           } else Some (cb_data b, items, nr_items, whead));
        d2 \<leftarrow> (if left \<noteq> 0 then memcpy d1 (sint whead1) rest (sint left) else Some d1);
        Some (if sint nr_items \<le> sint nr_gaps
              then b\<lparr>cb_data := d2, cb_size := cb_size b + nr_items\<rparr>
              else b\<lparr>cb_data := d2, cb_size := cb_max b,
                     cb_head := (cb_head b + (nr_items - nr_gaps)) mod cb_max b\<rparr>)
      })"

text \<open>
  \<open>remove_items_cbuffer_t\<close>: \<open>items\<close> is the caller's block; the result is the buffer and that
  block after the copy.
\<close>

definition remove_items_cbuffer_t ::
  "cbuffer \<Rightarrow> u8 list \<Rightarrow> s32 \<Rightarrow> (cbuffer \<times> u8 list) option" where
  "remove_items_cbuffer_t b items nr_items =
     (if cb_size b < nr_items then Some (b, items)
      else do {
        (head1, items1, skip, left) \<leftarrow>
          (if cb_max b < cb_head b + nr_items then do {
             let items_copied = cb_max b - cb_head b;
             src \<leftarrow> at_offset (cb_data b) (uint (cb_head b));
             out \<leftarrow> memcpy items 0 src (sint items_copied);
             Some (0, out, sint items_copied, nr_items - items_copied)
           } else Some (cb_head b, items, 0, nr_items));
        (head2, items2) \<leftarrow>
          (if left \<noteq> 0 then do {
             src \<leftarrow> at_offset (cb_data b) (uint head1);
             out \<leftarrow> memcpy items1 skip src (sint left);
             Some (head1 + left, out)
           } else Some (head1, items1));
        Some (b\<lparr>cb_head := head2, cb_size := cb_size b - nr_items\<rparr>, items2)
      })"

definition remove_cbuffer_t :: "cbuffer \<Rightarrow> (cbuffer \<times> u8) option" where
  "remove_cbuffer_t b =
     (if cb_size b \<noteq> 0 then do {
        ret \<leftarrow> read_at (cb_data b) (uint (cb_head b));
        (if cb_max b = 0 then None
         else Some (b\<lparr>cb_head := (cb_head b + 1) mod cb_max b, cb_size := cb_size b - 1\<rparr>, ret))
      } else Some (b, 0))"

text \<open>\<open>head_cbuffer_t\<close> returns \<open>NULL\<close> or the address \<open>&data[head]\<close>, given by its index.\<close>

definition head_cbuffer_t :: "cbuffer \<Rightarrow> nat option" where
  "head_cbuffer_t b = (if cb_size b \<noteq> 0 then Some (unat (cb_head b)) else None)"

section \<open>Rings: a block read and written modulo its length\<close>

definition ring_get :: "'a list \<Rightarrow> nat \<Rightarrow> nat \<Rightarrow> 'a list" where
  "ring_get d h n = map (\<lambda>i. d ! ((h + i) mod length d)) [0..<n]"

definition ring_put :: "'a list \<Rightarrow> nat \<Rightarrow> 'a list \<Rightarrow> 'a list" where
  "ring_put d p xs =
     map (\<lambda>j. let k = nat ((int j - int p) mod int (length d))
               in if k < length xs then xs ! k else d ! j) [0..<length d]"

lemma length_ring_get [simp]: "length (ring_get d h n) = n"
  by (simp add: ring_get_def)

lemma length_ring_put [simp]: "length (ring_put d p xs) = length d"
  by (simp add: ring_put_def)

lemma ring_get_nth [simp]: "i < n \<Longrightarrow> ring_get d h n ! i = d ! ((h + i) mod length d)"
  by (simp add: ring_get_def)

lemma ring_get_0 [simp]: "ring_get d h 0 = []"
  by (simp add: ring_get_def)

lemma ring_get_mod: "ring_get d (h mod length d) n = ring_get d h n"
  by (simp add: ring_get_def mod_simps)

lemma ring_get_add: "ring_get d h (m + n) = ring_get d h m @ ring_get d (h + m) n"
  by (rule nth_equalityI) (auto simp: nth_append ac_simps)

lemma ring_get_take: "m \<le> n \<Longrightarrow> take m (ring_get d h n) = ring_get d h m"
  by (rule nth_equalityI) auto

lemma ring_get_drop: "m \<le> n \<Longrightarrow> drop m (ring_get d h n) = ring_get d (h + m) (n - m)"
  by (rule nth_equalityI) (auto simp: add.assoc)

lemma ring_get_straight:
  "h + n \<le> length d \<Longrightarrow> ring_get d h n = take n (drop h d)"
  by (rule nth_equalityI) auto

lemma ring_offset:
  fixes h s i m :: nat
  assumes "0 < m"
  shows "(int ((h + i) mod m) - int ((h + s) mod m)) mod int m = (int i - int s) mod int m"
proof -
  have "(int ((h + i) mod m) - int ((h + s) mod m)) mod int m
      = (int (h + i) mod int m - int (h + s) mod int m) mod int m"
    by (simp add: zmod_int)
  also have "\<dots> = (int (h + i) - int (h + s)) mod int m"
    by (rule mod_diff_eq)
  also have "int (h + i) - int (h + s) = int i - int s"
    by simp
  finally show ?thesis .
qed

text \<open>
  What a ring holds after writing \<open>xs\<close> behind its \<open>s\<close> elements: element \<open>i\<close> of the old and new
  elements together, as long as the last \<open>length d\<close> of them are asked for.
\<close>

lemma ring_put_nth:
  assumes len: "length xs \<le> length d" "s \<le> length d" and i: "i < s + length xs"
    and recent: "s + length xs \<le> i + length d"
  shows "ring_put d ((h + s) mod length d) xs ! ((h + i) mod length d) =
           (if i < s then d ! ((h + i) mod length d) else xs ! (i - s))"
proof -
  let ?m = "length d" and ?j = "(h + i) mod length d"
  have m: "0 < ?m" using len i by (cases d) auto
  then have j: "?j < ?m" by simp
  have k: "(int ?j - int ((h + s) mod ?m)) mod int ?m = (int i - int s) mod int ?m"
    using m by (rule ring_offset)
  have "nat ((int i - int s) mod int ?m) = (if i < s then i + ?m - s else i - s)"
  proof (cases "i < s")
    case True
    then have "(int i - int s) mod int ?m = (int i - int s + int ?m) mod int ?m"
      by simp
    also have "\<dots> = int i - int s + int ?m"
      using True len by (intro mod_pos_pos_trivial) auto
    finally show ?thesis using True len by simp
  next
    case False
    then have "(int i - int s) mod int ?m = int i - int s"
      using i len by (intro mod_pos_pos_trivial) auto
    then show ?thesis using False by simp
  qed
  with j k i recent show ?thesis
    by (auto simp: ring_put_def Let_def)
qed

lemma ring_get_put:
  assumes "length xs \<le> length d" "s \<le> length d"
    and "over \<le> s + length xs" "s + length xs - over \<le> length d"
  shows "ring_get (ring_put d ((h + s) mod length d) xs) (h + over) (s + length xs - over)
           = drop over (ring_get d h s @ xs)"
proof (rule nth_equalityI)
  fix i assume "i < length (ring_get (ring_put d ((h + s) mod length d) xs) (h + over) (s + length xs - over))"
  then have i: "over + i < s + length xs" by simp
  have "ring_put d ((h + s) mod length d) xs ! ((h + (over + i)) mod length d) =
          (if over + i < s then d ! ((h + (over + i)) mod length d) else xs ! (over + i - s))"
    using assms i by (intro ring_put_nth) auto
  moreover have "drop over (ring_get d h s @ xs) ! i = (ring_get d h s @ xs) ! (over + i)"
    using assms(3) by (intro nth_drop) simp
  ultimately show "ring_get (ring_put d ((h + s) mod length d) xs) (h + over) (s + length xs - over) ! i
      = drop over (ring_get d h s @ xs) ! i"
    using i by (simp only: ring_get_nth length_ring_put nth_append length_ring_get add.assoc) simp
qed (use assms in simp)

text \<open>The copies of the code, in one piece or split at the end of the block, are ring writes.\<close>

lemma ring_put_straight:
  assumes "p + length xs \<le> length d"
  shows "take p d @ xs @ drop (p + length xs) d = ring_put d p xs"
proof (rule nth_equalityI)
  fix j assume "j < length (take p d @ xs @ drop (p + length xs) d)"
  then have j: "j < length d" using assms by auto
  have k: "nat ((int j - int p) mod int (length d)) = (if p \<le> j then j - p else j + length d - p)"
  proof (cases "p \<le> j")
    case False
    then have "(int j - int p) mod int (length d) = (int j - int p + int (length d)) mod int (length d)"
      by simp
    also have "\<dots> = int j - int p + int (length d)"
      using False j assms by (intro mod_pos_pos_trivial) auto
    finally show ?thesis using False assms by simp
  qed (use j in \<open>simp add: mod_pos_pos_trivial\<close>)
  have "(take p d @ xs @ drop (p + length xs) d) ! j =
          (if p \<le> j \<and> j < p + length xs then xs ! (j - p) else d ! j)"
    using nth_spliced [of "length xs" xs p d j] assms j by simp
  also have "\<dots> = ring_put d p xs ! j"
    using assms j k by (auto simp: ring_put_def Let_def)
  finally show "(take p d @ xs @ drop (p + length xs) d) ! j = ring_put d p xs ! j" .
qed (use assms in simp)

lemma ring_put_split:
  assumes p: "p \<le> length d" and over: "length d < p + length xs" and fits: "length xs \<le> length d"
  defines "k \<equiv> length d - p"
  shows "take 0 (take p d @ take k xs @ drop (p + k) d) @ drop k xs
           @ drop (0 + (length xs - k)) (take p d @ take k xs @ drop (p + k) d) = ring_put d p xs"
proof (rule nth_equalityI)
  let ?d1 = "take p d @ take k xs @ drop (p + k) d"
  have k: "k \<le> length xs" "p + k = length d" using assms by auto
  have l1: "length ?d1 = length d" using k by simp
  fix j assume "j < length (take 0 ?d1 @ drop k xs @ drop (0 + (length xs - k)) ?d1)"
  then have j: "j < length d" using k fits by simp
  have off: "nat ((int j - int p) mod int (length d)) = (if p \<le> j then j - p else j + length d - p)"
  proof (cases "p \<le> j")
    case False
    then have "(int j - int p) mod int (length d) = (int j - int p + int (length d)) mod int (length d)"
      by simp
    also have "\<dots> = int j - int p + int (length d)"
      using False j p by (intro mod_pos_pos_trivial) auto
    finally show ?thesis using False p by simp
  qed (use j in \<open>simp add: mod_pos_pos_trivial\<close>)
  have "(take 0 ?d1 @ drop k xs @ drop (0 + (length xs - k)) ?d1) ! j =
          (if j < length xs - k then xs ! (k + j) else ?d1 ! j)"
    using nth_spliced [of "length xs - k" "drop k xs" 0 ?d1 j] k fits j l1 by simp
  also have "?d1 ! j = (if p \<le> j \<and> j < p + k then xs ! (j - p) else d ! j)"
    using k j by (intro nth_spliced) auto
  also have "(if j < length xs - k then xs ! (k + j)
              else if p \<le> j \<and> j < p + k then xs ! (j - p) else d ! j) = ring_put d p xs ! j"
    using assms k j off by (auto simp: ring_put_def Let_def ac_simps)
  finally show "(take 0 ?d1 @ drop k xs @ drop (0 + (length xs - k)) ?d1) ! j = ring_put d p xs ! j" .
qed (use assms in simp)

section \<open>The invariant and the queue a buffer represents\<close>

definition contents :: "cbuffer \<Rightarrow> u8 list" where
  "contents b = ring_get (cb_data b) (unat (cb_head b)) (unat (cb_size b))"

text \<open>
  What the operations that \<open>fifo.c\<close> uses keep.  The head may be equal to \<open>max_size\<close>:
  \<open>remove_items_cbuffer_t\<close> leaves it there.
\<close>

definition cb_wf :: "cbuffer \<Rightarrow> bool" where
  "cb_wf b \<longleftrightarrow> length (cb_data b) = unat (cb_max b) \<and> 0 < unat (cb_max b) \<and> unat (cb_max b) < 2 ^ 31
     \<and> unat (cb_head b) \<le> unat (cb_max b) \<and> unat (cb_size b) \<le> unat (cb_max b)"

text \<open>The range that cbuffer.h documents for the head: \<open>head in [0 .. max_size-1]\<close>.\<close>

definition cb_documented :: "cbuffer \<Rightarrow> bool" where
  "cb_documented b \<longleftrightarrow> cb_wf b \<and> unat (cb_head b) < unat (cb_max b)"

lemma length_contents [simp]: "length (contents b) = unat (cb_size b)"
  by (simp add: contents_def)

lemma cb_wf_bounds:
  assumes "cb_wf b"
  shows "length (cb_data b) = unat (cb_max b)" "0 < unat (cb_max b)" "unat (cb_max b) < 2 ^ 31"
    "unat (cb_head b) \<le> unat (cb_max b)" "unat (cb_size b) \<le> unat (cb_max b)" "cb_max b \<noteq> 0"
  using assms by (auto simp: cb_wf_def)

lemma unat_whead:
  assumes "cb_wf b"
  shows "unat ((cb_head b + cb_size b) mod cb_max b) = (unat (cb_head b) + unat (cb_size b)) mod unat (cb_max b)"
proof -
  have "unat (cb_head b + cb_size b) = unat (cb_head b) + unat (cb_size b)"
    using cb_wf_bounds [OF assms] by (intro unat_plus_small) simp
  then show ?thesis by (simp add: unat_mod_distrib)
qed

lemma create_cbuffer_t_wf:
  "create_cbuffer_t True (Some d) m = (Some b, live) \<Longrightarrow> length d = unat m \<Longrightarrow> 0 < unat m \<Longrightarrow>
   unat m < 2 ^ 31 \<Longrightarrow> cb_documented b \<and> contents b = [] \<and> cb_max b = m"
  by (auto simp: create_cbuffer_t_def cb_documented_def cb_wf_def contents_def)

section \<open>The bulk operations refine lists\<close>

lemma insert_items_copy:
  assumes wf: "cb_wf b" and fits: "unat n \<le> unat (cb_max b)" and src: "unat n \<le> length items"
  defines "w \<equiv> (cb_head b + cb_size b) mod cb_max b"
  shows "insert_items_cbuffer_t b items n =
     Some (if unat n \<le> unat (cb_max b) - unat (cb_size b)
           then b\<lparr>cb_data := ring_put (cb_data b) (unat w) (take (unat n) items), cb_size := cb_size b + n\<rparr>
           else b\<lparr>cb_data := ring_put (cb_data b) (unat w) (take (unat n) items), cb_size := cb_max b,
                  cb_head := (cb_head b + (n - (cb_max b - cb_size b))) mod cb_max b\<rparr>)"
proof -
  note bnd = cb_wf_bounds [OF wf]
  let ?M = "unat (cb_max b)" and ?N = "unat n" and ?W = "unat w" and ?d = "cb_data b"
  have W: "?W < ?M" using bnd unfolding w_def unat_whead [OF wf] by simp
  have sW: "sint w = int ?W" using W bnd by (intro sint_eq_unat) simp
  have sN: "sint n = int ?N" using fits bnd by (intro sint_eq_unat) simp
  have gaps: "unat (cb_max b - cb_size b) = ?M - unat (cb_size b)"
    using bnd by (intro unat_minus_le) simp
  then have sG: "sint (cb_max b - cb_size b) = int (?M - unat (cb_size b))"
    using bnd by (subst sint_eq_unat) auto
  have notbig: "\<not> cb_max b < n" using fits by (simp add: word_less_nat_alt)
  have sum: "unat (w + n) = ?W + ?N" using W fits bnd by (intro unat_plus_small) simp
  have fin: "sint n \<le> sint (cb_max b - cb_size b) \<longleftrightarrow> ?N \<le> ?M - unat (cb_size b)"
    by (simp only: sN sG of_nat_le_iff)
  show ?thesis
  proof (cases "?M < ?W + ?N")
    case True
    let ?k = "?M - ?W"
    have k: "unat (cb_max b - w) = ?k" using W by (intro unat_minus_le) simp
    then have sk: "sint (cb_max b - w) = int ?k" using bnd by (subst sint_eq_unat) auto
    have left: "unat (n - (cb_max b - w)) = ?N - ?k" using k True by (subst unat_minus_le) auto
    then have sl: "sint (n - (cb_max b - w)) = int (?N - ?k)" using fits bnd by (subst sint_eq_unat) auto
    have nz: "n - (cb_max b - w) \<noteq> 0" using left True W by (auto simp: unat_pos)
    have c1: "memcpy ?d (int ?W) items (int ?k) = Some (take ?W ?d @ take ?k items @ drop (?W + ?k) ?d)"
      using W True src bnd by (intro memcpy_nat) auto
    have c2: "memcpy (take ?W ?d @ take ?k items @ drop (?W + ?k) ?d) 0 (drop ?k items) (int (?N - ?k))
        = Some (take 0 (take ?W ?d @ take ?k items @ drop (?W + ?k) ?d) @ take (?N - ?k) (drop ?k items)
            @ drop (0 + (?N - ?k)) (take ?W ?d @ take ?k items @ drop (?W + ?k) ?d))"
      using memcpy_nat [of "?N - ?k" "drop ?k items" 0 "take ?W ?d @ take ?k items @ drop (?W + ?k) ?d"]
        W True src bnd fits by simp
    have r: "take 0 (take ?W ?d @ take ?k items @ drop (?W + ?k) ?d) @ take (?N - ?k) (drop ?k items)
            @ drop (0 + (?N - ?k)) (take ?W ?d @ take ?k items @ drop (?W + ?k) ?d)
          = ring_put ?d ?W (take ?N items)"
    proof -
      have l: "length (take ?N items) = ?N" using src by simp
      have m: "take ?k (take ?N items) = take ?k items" "drop ?k (take ?N items) = take (?N - ?k) (drop ?k items)"
        using True W by (auto simp: min_def drop_take)
      show ?thesis
        using ring_put_split [of ?W ?d "take ?N items", unfolded l m bnd(1)] True W fits by simp
    qed
    from True have "cb_max b < w + n" using sum by (simp add: word_less_nat_alt)
    then show ?thesis
      using c1 c2 nz notbig bnd fin r sW sk sl
      by (simp add: insert_items_cbuffer_t_def w_def [symmetric] Let_def)
  next
    case False
    then have nb: "\<not> cb_max b < w + n" using sum by (simp add: word_less_nat_alt)
    have c: "memcpy ?d (int ?W) items (int ?N) = Some (ring_put ?d ?W (take ?N items))"
    proof -
      have l: "length (take ?N items) = ?N" using src by simp
      show ?thesis
        using memcpy_nat [of ?N items ?W ?d] ring_put_straight [of ?W "take ?N items" ?d, unfolded l] False src bnd
        by simp
    qed
    have z: "n = 0 \<Longrightarrow> ring_put ?d ?W (take ?N items) = ?d"
      using ring_put_straight [of ?W "[]" ?d] W bnd by simp
    show ?thesis
      using nb c z notbig bnd fin sW sN
      by (cases "n = 0") (simp_all add: insert_items_cbuffer_t_def w_def [symmetric] Let_def)
  qed
qed

lemma insert_items_refines:
  assumes wf: "cb_wf b" and fits: "unat n \<le> unat (cb_max b)" and src: "unat n \<le> length items"
  obtains b' where "insert_items_cbuffer_t b items n = Some b'" "cb_wf b'" "cb_max b' = cb_max b"
    "contents b' = drop (unat (cb_size b) + unat n - unat (cb_max b)) (contents b @ take (unat n) items)"
    "cb_documented b \<Longrightarrow> cb_documented b'"
proof -
  note bnd = cb_wf_bounds [OF wf]
  let ?M = "unat (cb_max b)" and ?N = "unat n" and ?S = "unat (cb_size b)" and ?H = "unat (cb_head b)"
  let ?d = "cb_data b" and ?d' = "ring_put (cb_data b) ((?H + ?S) mod ?M) (take ?N items)"
  note copy = insert_items_copy [OF wf fits src, unfolded unat_whead [OF wf]]
  have l: "length (take ?N items) = ?N" using src by simp
  have put: "ring_get ?d' (?H + (?S + ?N - ?M)) (?S + ?N - (?S + ?N - ?M))
      = drop (?S + ?N - ?M) (ring_get ?d ?H ?S @ take ?N items)"
    using ring_get_put [of "take ?N items" ?d ?S "?S + ?N - ?M" ?H] l bnd fits
    by (simp del: length_take drop_append)
  show thesis
  proof (cases "?N \<le> ?M - ?S")
    case True
    let ?b = "b\<lparr>cb_data := ?d', cb_size := cb_size b + n\<rparr>"
    have s: "unat (cb_size b + n) = ?S + ?N"
      using True bnd by (intro unat_plus_small) simp
    show thesis
    proof (rule that [of ?b])
      show "insert_items_cbuffer_t b items n = Some ?b" using copy True by simp
      show "cb_wf ?b" using wf s True bnd by (simp add: cb_wf_def)
      show "contents ?b = drop (?S + ?N - ?M) (contents b @ take ?N items)"
        using put s True bnd by (simp add: contents_def)
      show "cb_documented b \<Longrightarrow> cb_documented ?b"
        using s True bnd by (simp add: cb_documented_def cb_wf_def)
    qed simp
  next
    case False
    let ?h = "(cb_head b + (n - (cb_max b - cb_size b))) mod cb_max b"
    let ?b = "b\<lparr>cb_data := ?d', cb_size := cb_max b, cb_head := ?h\<rparr>"
    have g: "unat (cb_max b - cb_size b) = ?M - ?S" using bnd by (intro unat_minus_le) simp
    have over: "unat (n - (cb_max b - cb_size b)) = ?S + ?N - ?M"
      using g False bnd by (subst unat_minus_le) auto
    have "unat (cb_head b + (n - (cb_max b - cb_size b))) = ?H + (?S + ?N - ?M)"
      using over fits bnd by (subst unat_plus_small) auto
    then have h: "unat ?h = (?H + (?S + ?N - ?M)) mod ?M"
      by (simp add: unat_mod_distrib)
    have hl: "unat ?h < ?M" unfolding h using bnd by simp
    have "ring_get ?d' (unat ?h) ?M = ring_get ?d' (?H + (?S + ?N - ?M)) ?M"
      using ring_get_mod [of ?d' "?H + (?S + ?N - ?M)" ?M] bnd unfolding h by simp
    also have "?M = ?S + ?N - (?S + ?N - ?M)" using False bnd by simp
    finally have c: "ring_get ?d' (unat ?h) ?M = drop (?S + ?N - ?M) (ring_get ?d ?H ?S @ take ?N items)"
      using put False bnd by simp
    show thesis
    proof (rule that [of ?b])
      show "insert_items_cbuffer_t b items n = Some ?b" using copy False by simp
      show "cb_wf ?b" using wf hl by (simp add: cb_wf_def)
      show "contents ?b = drop (?S + ?N - ?M) (contents b @ take ?N items)"
        using c by (simp add: contents_def)
      show "cb_documented b \<Longrightarrow> cb_documented ?b" using wf hl by (simp add: cb_documented_def cb_wf_def)
    qed simp
  qed
qed

lemma ring_get_shift: "ring_get d (h + length d) n = ring_get d h n"
  using ring_get_mod [of d "h + length d" n] ring_get_mod [of d h n] by simp

lemma ring_get_two_pieces:
  assumes "h \<le> length d" "length d \<le> h + n" "h + n \<le> 2 * length d"
  shows "ring_get d h n = drop h d @ take (n - (length d - h)) d"
proof -
  have "ring_get d h n = ring_get d h (length d - h) @ ring_get d (length d) (n - (length d - h))"
    using ring_get_add [of d h "length d - h" "n - (length d - h)"] assms by simp
  also have "ring_get d (length d) (n - (length d - h)) = ring_get d 0 (n - (length d - h))"
    using ring_get_shift [of d 0] by simp
  finally show ?thesis using assms by (simp add: ring_get_straight)
qed

lemma remove_items_copy:
  assumes wf: "cb_wf b" and avail: "unat n \<le> unat (cb_size b)" and dst: "unat n \<le> length items"
  shows "remove_items_cbuffer_t b items n =
     Some (b\<lparr>cb_head := (if cb_max b < cb_head b + n then n - (cb_max b - cb_head b) else cb_head b + n),
             cb_size := cb_size b - n\<rparr>,
           take (unat n) (contents b) @ drop (unat n) items)"
proof -
  note bnd = cb_wf_bounds [OF wf]
  let ?M = "unat (cb_max b)" and ?N = "unat n" and ?H = "unat (cb_head b)" and ?d = "cb_data b"
  have sN: "sint n = int ?N" using avail bnd by (intro sint_eq_unat) simp
  have notbig: "\<not> cb_size b < n" using avail by (simp add: word_less_nat_alt)
  have sum: "unat (cb_head b + n) = ?H + ?N" using avail bnd by (intro unat_plus_small) simp
  have cond: "cb_max b < cb_head b + n \<longleftrightarrow> ?M < ?H + ?N" by (simp add: word_less_nat_alt sum)
  have out: "take ?N (contents b) = ring_get ?d ?H ?N"
    using avail by (simp add: contents_def ring_get_take)
  have src: "at_offset ?d (int ?H) = Some (drop ?H ?d)" using bnd by (intro at_offset_nat) simp
  show ?thesis
  proof (cases "?M < ?H + ?N")
    case True
    let ?k = "?M - ?H" and ?out1 = "take (?M - ?H) (drop ?H ?d) @ drop (?M - ?H) items"
    have k: "unat (cb_max b - cb_head b) = ?k" using bnd by (intro unat_minus_le) simp
    then have sk: "sint (cb_max b - cb_head b) = int ?k" using bnd by (subst sint_eq_unat) auto
    have left: "unat (n - (cb_max b - cb_head b)) = ?N - ?k" using k True by (subst unat_minus_le) auto
    then have sl: "sint (n - (cb_max b - cb_head b)) = int (?N - ?k)"
      using avail bnd by (subst sint_eq_unat) auto
    have nz: "n - (cb_max b - cb_head b) \<noteq> 0" using left True bnd by (auto simp: unat_pos)
    have c1: "memcpy items 0 (drop ?H ?d) (int ?k) = Some ?out1"
      using memcpy_nat [of ?k "drop ?H ?d" 0 items] True dst bnd by simp
    have l1: "length ?out1 = length items" using True dst bnd by simp
    have c2: "memcpy ?out1 (int ?k) ?d (int (?N - ?k))
        = Some (take ?k ?out1 @ take (?N - ?k) ?d @ drop (?k + (?N - ?k)) ?out1)"
      using True dst avail bnd l1 by (intro memcpy_nat) auto
    have "take ?k ?out1 @ take (?N - ?k) ?d @ drop (?k + (?N - ?k)) ?out1
        = (drop ?H ?d @ take (?N - ?k) ?d) @ drop ?N items"
      using True bnd by simp
    also have "drop ?H ?d @ take (?N - ?k) ?d = ring_get ?d ?H ?N"
      using ring_get_two_pieces [of ?H ?d ?N] True avail bnd by simp
    finally have r: "take ?k ?out1 @ take (?N - ?k) ?d @ drop (?k + (?N - ?k)) ?out1
        = take ?N (contents b) @ drop ?N items" by (simp only: out)
    show ?thesis
      using True cond notbig src c1 c2 nz sk sl r
      by (simp add: remove_items_cbuffer_t_def at_offset_def Let_def)
  next
    case False
    have c: "memcpy items 0 (drop ?H ?d) (int ?N) = Some (take ?N (contents b) @ drop ?N items)"
      using memcpy_nat [of ?N "drop ?H ?d" 0 items] False dst bnd
      by (simp add: out ring_get_straight)
    show ?thesis
      using False cond notbig src c sN out
      by (cases "n = 0") (simp_all add: remove_items_cbuffer_t_def Let_def)
  qed
qed

lemma remove_items_refines:
  assumes wf: "cb_wf b" and avail: "unat n \<le> unat (cb_size b)" and dst: "unat n \<le> length items"
  obtains b' where
    "remove_items_cbuffer_t b items n = Some (b', take (unat n) (contents b) @ drop (unat n) items)"
    "cb_wf b'" "cb_max b' = cb_max b" "contents b' = drop (unat n) (contents b)"
proof -
  note bnd = cb_wf_bounds [OF wf]
  let ?M = "unat (cb_max b)" and ?N = "unat n" and ?H = "unat (cb_head b)" and ?d = "cb_data b"
  let ?h = "if cb_max b < cb_head b + n then n - (cb_max b - cb_head b) else cb_head b + n"
  let ?b = "b\<lparr>cb_head := ?h, cb_size := cb_size b - n\<rparr>"
  have s: "unat (cb_size b - n) = unat (cb_size b) - ?N" using avail by (intro unat_minus_le)
  have sum: "unat (cb_head b + n) = ?H + ?N" using avail bnd by (intro unat_plus_small) simp
  have k: "unat (cb_max b - cb_head b) = ?M - ?H" using bnd by (intro unat_minus_le) simp
  have cond: "cb_max b < cb_head b + n \<longleftrightarrow> ?M < ?H + ?N" by (simp add: word_less_nat_alt sum)
  have h: "unat ?h = (if ?M < ?H + ?N then ?H + ?N - ?M else ?H + ?N)"
  proof (cases "?M < ?H + ?N")
    case True
    then have "unat (n - (cb_max b - cb_head b)) = ?N - (?M - ?H)" using k by (subst unat_minus_le) auto
    with True show ?thesis using bnd by (simp add: cond)
  qed (simp add: cond sum)
  have "ring_get ?d (unat ?h) (unat (cb_size b) - ?N) = ring_get ?d (?H + ?N) (unat (cb_size b) - ?N)"
  proof (cases "?M < ?H + ?N")
    case True
    then have "?H + ?N = (?H + ?N - ?M) + length ?d" using bnd by simp
    then show ?thesis using True ring_get_shift [of ?d "?H + ?N - ?M"] unfolding h by simp
  qed (simp only: h if_False)
  then have c: "contents ?b = drop ?N (contents b)"
    using avail s by (simp add: contents_def ring_get_drop)
  show thesis
  proof (rule that)
    show "remove_items_cbuffer_t b items n = Some (?b, take ?N (contents b) @ drop ?N items)"
      by (rule remove_items_copy [OF wf avail dst])
    show "cb_wf ?b" using wf s h avail bnd by (auto simp: cb_wf_def split: if_splits)
    show "contents ?b = drop ?N (contents b)" by (rule c)
  qed simp
qed

section \<open>The single-item operations, where the head is in its documented range\<close>

lemma ring_put_single: "p < length d \<Longrightarrow> ring_put d p [x] = d[p := x]"
  using ring_put_straight [of p "[x]" d] by (simp add: upd_conv_take_nth_drop)

lemma unat_head_next:
  assumes "cb_documented b"
  shows "unat ((cb_head b + 1) mod cb_max b) = Suc (unat (cb_head b)) mod unat (cb_max b)"
proof -
  have "unat (cb_head b + 1) = Suc (unat (cb_head b))"
    using assms by (subst unat_plus_small) (auto simp: cb_documented_def cb_wf_def)
  then show ?thesis by (simp add: unat_mod_distrib)
qed

lemma insert_cbuffer_refines:
  assumes doc: "cb_documented b"
  shows "\<exists>b'. insert_cbuffer_t b x = Some b' \<and> cb_documented b' \<and> cb_max b' = cb_max b \<and>
           contents b' = drop (Suc (unat (cb_size b)) - unat (cb_max b)) (contents b @ [x])"
proof -
  have wf: "cb_wf b" and hd: "unat (cb_head b) < unat (cb_max b)" using doc by (auto simp: cb_documented_def)
  note bnd = cb_wf_bounds [OF wf]
  let ?M = "unat (cb_max b)" and ?S = "unat (cb_size b)" and ?H = "unat (cb_head b)" and ?d = "cb_data b"
  let ?p = "(?H + ?S) mod ?M" and ?over = "Suc ?S - ?M"
  have put: "ring_get (?d[?p := x]) (?H + ?over) (Suc ?S - ?over) = drop ?over (ring_get ?d ?H ?S @ [x])"
    using ring_get_put [of "[x]" ?d ?S ?over ?H] bnd by (simp add: ring_put_single del: drop_append)
  show ?thesis
  proof (cases "cb_size b = cb_max b")
    case True
    let ?b = "b\<lparr>cb_data := ?d[?H := x], cb_head := (cb_head b + 1) mod cb_max b\<rparr>"
    have p: "?p = ?H" using True hd by simp
    have s: "cb_size b \<noteq> 0" using True bnd by auto
    have "insert_cbuffer_t b x = Some ?b"
      using True s write_at_nat [of ?H ?d x] hd bnd by (simp add: insert_cbuffer_t_def)
    moreover have "cb_documented ?b"
      using wf unat_head_next [OF doc] bnd by (simp add: cb_documented_def cb_wf_def mod_le_divisor)
    moreover have "contents ?b = drop ?over (contents b @ [x])"
      using put p True ring_get_mod [of "?d[?H := x]" "Suc ?H" ?M] bnd
      by (simp add: contents_def unat_head_next [OF doc] del: drop_append)
    ultimately show ?thesis by (intro exI [of _ ?b]) simp
  next
    case False
    then have lt: "?S < ?M" using bnd by (simp add: word_unat_eq_iff le_neq_implies_less)
    let ?b = "b\<lparr>cb_data := ?d[?p := x], cb_size := cb_size b + 1\<rparr>"
    have s: "unat (cb_size b + 1) = Suc ?S" using lt bnd by (subst unat_plus_small) auto
    have pl: "?p < length ?d" using bnd by simp
    have "write_at ?d (uint ((cb_head b + cb_size b) mod cb_max b)) x = Some (?d[?p := x])"
      unfolding uint_nat unat_whead [OF wf] using pl by (rule write_at_nat)
    then have "insert_cbuffer_t b x = Some ?b" using False bnd by (simp add: insert_cbuffer_t_def)
    moreover have "cb_documented ?b" using wf hd s lt by (simp add: cb_documented_def cb_wf_def)
    moreover have "contents ?b = drop ?over (contents b @ [x])"
      using put s lt by (simp add: contents_def)
    ultimately show ?thesis by (intro exI [of _ ?b]) simp
  qed
qed

lemma remove_cbuffer_refines:
  assumes doc: "cb_documented b" and cs: "contents b = x # xs"
  shows "\<exists>b'. remove_cbuffer_t b = Some (b', x) \<and> cb_documented b' \<and> cb_max b' = cb_max b \<and> contents b' = xs"
proof -
  have wf: "cb_wf b" and hd: "unat (cb_head b) < unat (cb_max b)" using doc by (auto simp: cb_documented_def)
  note bnd = cb_wf_bounds [OF wf]
  let ?M = "unat (cb_max b)" and ?S = "unat (cb_size b)" and ?H = "unat (cb_head b)" and ?d = "cb_data b"
  let ?b = "b\<lparr>cb_head := (cb_head b + 1) mod cb_max b, cb_size := cb_size b - 1\<rparr>"
  have s0: "0 < ?S" using arg_cong [OF cs, of length] by simp
  then have nz: "cb_size b \<noteq> 0" by auto
  have s: "unat (cb_size b - 1) = ?S - 1" using s0 by (subst unat_minus_le) auto
  have x: "?d ! ?H = x" using arg_cong [OF cs, of "\<lambda>l. l ! 0"] s0 hd bnd by (simp add: contents_def)
  have xs: "xs = drop 1 (contents b)" using cs by simp
  have "remove_cbuffer_t b = Some (?b, x)"
    using nz bnd hd x read_at_nat [of ?H ?d] by (simp add: remove_cbuffer_t_def)
  moreover have "cb_documented ?b"
    using wf unat_head_next [OF doc] s bnd by (auto simp: cb_documented_def cb_wf_def mod_le_divisor)
  moreover have "contents ?b = xs"
    unfolding xs contents_def using s s0 ring_get_mod [of ?d "Suc ?H" "?S - 1"] bnd
    by (simp add: unat_head_next [OF doc] ring_get_drop)
  ultimately show ?thesis by (intro exI [of _ ?b]) simp
qed

section \<open>The buffer meets both contracts\<close>

definition put_block :: "cbuffer \<Rightarrow> u8 list \<Rightarrow> cbuffer option" where
  "put_block b xs = insert_items_cbuffer_t b xs (of_nat (length xs))"

definition get_block :: "cbuffer \<Rightarrow> nat \<Rightarrow> (cbuffer \<times> u8 list) option" where
  "get_block b n = remove_items_cbuffer_t b (replicate n 0) (of_nat n)"

lemma unat_of_nat_block: "cb_wf b \<Longrightarrow> n \<le> unat (cb_max b) \<Longrightarrow> unat (of_nat n :: s32) = n"
  using cb_wf_bounds [of b] by (simp add: unat_of_nat)

interpretation blocks: block_queue cb_wf contents "\<lambda>b. unat (cb_max b)" put_block get_block
proof unfold_locales
  fix b :: cbuffer and xs :: "u8 list"
  assume wf: "cb_wf b" and fits: "length (contents b) + length xs \<le> unat (cb_max b)"
  then have n: "unat (of_nat (length xs) :: s32) = length xs" by (simp add: unat_of_nat_block)
  obtain b' where "insert_items_cbuffer_t b xs (of_nat (length xs)) = Some b'" "cb_wf b'" "cb_max b' = cb_max b"
    "contents b' = drop (unat (cb_size b) + length xs - unat (cb_max b)) (contents b @ xs)"
    using insert_items_refines [OF wf, of "of_nat (length xs)" xs] fits unfolding n by auto
  then show "\<exists>b'. put_block b xs = Some b' \<and> cb_wf b' \<and> unat (cb_max b') = unat (cb_max b) \<and>
      contents b' = contents b @ xs"
    using fits by (simp add: put_block_def)
next
  fix b :: cbuffer and n :: nat
  assume wf: "cb_wf b" and avail: "n \<le> length (contents b)"
  then have n: "unat (of_nat n :: s32) = n"
    using cb_wf_bounds [OF wf] by (intro unat_of_nat_block) auto
  obtain b' where "remove_items_cbuffer_t b (replicate n 0) (of_nat n) = Some (b', take n (contents b) @ drop n (replicate n 0))"
    "cb_wf b'" "cb_max b' = cb_max b" "contents b' = drop n (contents b)"
    using remove_items_refines [OF wf, of "of_nat n" "replicate n 0"] avail unfolding n by auto
  then show "\<exists>b'. get_block b n = Some (b', take n (contents b)) \<and> cb_wf b' \<and> unat (cb_max b') = unat (cb_max b) \<and>
      contents b' = drop n (contents b)"
    by (simp add: get_block_def)
qed

interpretation bytes: item_queue cb_documented contents "\<lambda>b. unat (cb_max b)" insert_cbuffer_t remove_cbuffer_t
proof unfold_locales
  fix b assume "cb_documented b"
  then show "length (contents b) \<le> unat (cb_max b) \<and> 0 < unat (cb_max b)"
    by (simp add: cb_documented_def cb_wf_def)
next
  fix b x assume "cb_documented b"
  then show "\<exists>b'. insert_cbuffer_t b x = Some b' \<and> cb_documented b' \<and> unat (cb_max b') = unat (cb_max b) \<and>
      contents b' = drop (Suc (length (contents b)) - unat (cb_max b)) (contents b @ [x])"
    using insert_cbuffer_refines [of b x] by auto
next
  fix b x xs assume "cb_documented b" "contents b = x # xs"
  then show "\<exists>b'. remove_cbuffer_t b = Some (b', x) \<and> cb_documented b' \<and> unat (cb_max b') = unat (cb_max b) \<and>
      contents b' = xs"
    using remove_cbuffer_refines [of b x xs] by auto
qed

end
