(* ===== verification/CBufferProps.thy ===== *)
theory CBufferProps
  imports CBuffer
begin

text \<open>
  The properties of parteB/cbuffer.c: the bulk insertion and extraction against lists, delivery in
  order over any run of fitting operations, the agreement of the bulk insertion with repeated
  single insertions, and the head position that the header file excludes but the bulk extraction
  produces.
\<close>

definition small_ring :: cbuffer where
  "small_ring = \<lparr>cb_data = [10, 11, 12, 13], cb_head = 2, cb_size = 2, cb_max = 4\<rparr>"

lemma small_ring_wf: "cb_wf small_ring" and small_ring_documented: "cb_documented small_ring"
  and small_ring_contents: "contents small_ring = [12, 13]"
  by (simp_all add: small_ring_def cb_wf_def cb_documented_def contents_def ring_get_def upt_rec)

text \<open>
  C1 (insert_items_keeps_newest): on a well-formed buffer, \<open>insert_items_cbuffer_t\<close> with \<open>n\<close> items, at
  most \<open>max_size\<close>, is memory safe, keeps the buffer well formed, and leaves in it the last
  \<open>max_size\<close> bytes of the old contents followed by the \<open>n\<close> items.
\<close>

theorem insert_items_keeps_newest:
  assumes "cb_wf b" and "unat n \<le> unat (cb_max b)" and "unat n \<le> length items"
  shows "\<exists>b'. insert_items_cbuffer_t b items n = Some b' \<and> cb_wf b' \<and> cb_max b' = cb_max b \<and>
           contents b' = drop (length (contents b) + unat n - unat (cb_max b)) (contents b @ take (unat n) items)"
  using insert_items_refines [OF assms] by (metis length_contents)

theorem insert_items_keeps_newest_witness:
  "\<exists>b'. insert_items_cbuffer_t small_ring [1, 2, 3] 3 = Some b' \<and> contents b' = [13, 1, 2, 3]"
proof -
  have "unat (3 :: s32) \<le> unat (cb_max small_ring)" "unat (3 :: s32) \<le> length [1, 2, 3 :: u8]"
    by (simp_all add: small_ring_def)
  from insert_items_keeps_newest [OF small_ring_wf this] show ?thesis
    by (auto simp: small_ring_contents) (simp add: small_ring_def)
qed

text \<open>
  C2 (remove_items_takes_oldest): on a well-formed buffer holding at least \<open>n\<close> bytes,
  \<open>remove_items_cbuffer_t\<close> is memory safe, copies the \<open>n\<close> oldest bytes to the front of the caller's
  block, leaves the rest of that block alone and the rest of the contents in the buffer.
\<close>

theorem remove_items_takes_oldest:
  assumes "cb_wf b" and "unat n \<le> length (contents b)" and "unat n \<le> length items"
  shows "\<exists>b'. remove_items_cbuffer_t b items n = Some (b', take (unat n) (contents b) @ drop (unat n) items)
           \<and> cb_wf b' \<and> cb_max b' = cb_max b \<and> contents b' = drop (unat n) (contents b)"
  using remove_items_refines [OF assms(1) _ assms(3)] assms(2) by (metis length_contents)

theorem remove_items_takes_oldest_witness:
  "\<exists>b'. remove_items_cbuffer_t small_ring [0, 0, 0] 2 = Some (b', [12, 13, 0]) \<and> contents b' = []"
proof -
  have "unat (2 :: s32) \<le> length (contents small_ring)" "unat (2 :: s32) \<le> length [0, 0, 0 :: u8]"
    by (simp_all add: small_ring_def)
  from remove_items_takes_oldest [OF small_ring_wf this] show ?thesis
    by (auto simp: small_ring_contents)
qed

text \<open>
  C3 (block_operations_are_fifo): over any sequence of bulk insertions that fit and bulk extractions
  that are covered, all operations succeed and the extracted bytes followed by what remains are
  the initial contents followed by the inserted bytes.
\<close>

theorem block_operations_are_fifo:
  assumes "cb_wf b" and "qops_fit (unat (cb_max b)) (length (contents b)) ops"
  shows "\<exists>b' outs. run_qops put_block get_block b ops = Some (b', outs) \<and> cb_wf b'
           \<and> outs @ contents b' = contents b @ qops_input ops"
  using blocks.run_fifo [OF assms] by blast

theorem block_operations_are_fifo_witness:
  "\<exists>b' outs. run_qops put_block get_block small_ring [Put [1], Get 2, Put [2, 3, 4]] = Some (b', outs)
     \<and> outs @ contents b' = [12, 13, 1, 2, 3, 4]"
proof -
  have "qops_fit (unat (cb_max small_ring)) (length (contents small_ring)) [Put [1], Get 2, Put [2, 3, 4]]"
    by (simp add: small_ring_def)
  from block_operations_are_fifo [OF small_ring_wf this] show ?thesis by (auto simp: small_ring_contents)
qed

text \<open>
  From a buffer whose head is in the documented range, inserting
  the items with one \<open>insert_items_cbuffer_t\<close> and inserting them one by one with
  \<open>insert_cbuffer_t\<close> both succeed and leave the same queue of bytes.
\<close>

theorem bulk_insert_is_repeated_insert:
  assumes "cb_documented b" and "length items \<le> unat (cb_max b)"
  shows "\<exists>b1 b2. insert_items_cbuffer_t b items (of_nat (length items)) = Some b1
           \<and> insert_all insert_cbuffer_t b items = Some b2 \<and> contents b1 = contents b2"
proof -
  have wf: "cb_wf b" using assms(1) by (simp add: cb_documented_def)
  then have n: "unat (of_nat (length items) :: s32) = length items"
    using assms(2) by (rule unat_of_nat_block)
  obtain b1 where "insert_items_cbuffer_t b items (of_nat (length items)) = Some b1"
    "contents b1 = drop (unat (cb_size b) + length items - unat (cb_max b)) (contents b @ items)"
    using insert_items_refines [OF wf, of "of_nat (length items)" items] assms(2) unfolding n by auto
  moreover obtain b2 where "insert_all insert_cbuffer_t b items = Some b2"
    "contents b2 = drop (length (contents b) + length items - unat (cb_max b)) (contents b @ items)"
    using bytes.insert_all_keeps_last [OF assms(1), of items] by auto
  ultimately show ?thesis by (simp del: drop_append)
qed

theorem bulk_insert_is_repeated_insert_witness:
  "\<exists>b1 b2. insert_items_cbuffer_t small_ring [1, 2, 3] 3 = Some b1
     \<and> insert_all insert_cbuffer_t small_ring [1, 2, 3] = Some b2 \<and> contents b1 = contents b2"
  using bulk_insert_is_repeated_insert [OF small_ring_documented, of "[1, 2, 3]"]
  by (simp add: small_ring_def)

text \<open>
  When the extracted bytes end exactly at the end of the
  block, \<open>remove_items_cbuffer_t\<close> leaves the head at \<open>max_size\<close>, outside the range cbuffer.h states;
  after one more byte is inserted, \<open>remove_cbuffer_t\<close> reads outside the block.
\<close>

theorem bulk_remove_leaves_head_past_the_end:
  assumes "cb_documented b" and "unat n \<le> length (contents b)" and "unat n \<le> length items"
    and "unat (cb_head b) + unat n = unat (cb_max b)"
  shows "\<exists>b' out b''. remove_items_cbuffer_t b items n = Some (b', out) \<and> cb_head b' = cb_max b'
           \<and> \<not> cb_documented b'
           \<and> insert_items_cbuffer_t b' [x] 1 = Some b'' \<and> remove_cbuffer_t b'' = None"
proof -
  have wf: "cb_wf b" using assms(1) by (simp add: cb_documented_def)
  note bnd = cb_wf_bounds [OF wf]
  have sum: "unat (cb_head b + n) = unat (cb_max b)"
    using assms(4) bnd by (subst unat_plus_small) simp_all
  then have hd: "cb_head b + n = cb_max b" by (simp only: word_unat_eq_iff)
  let ?b = "b\<lparr>cb_head := cb_max b, cb_size := cb_size b - n\<rparr>"
  have r: "remove_items_cbuffer_t b items n = Some (?b, take (unat n) (contents b) @ drop (unat n) items)"
    using remove_items_copy [OF wf _ assms(3)] assms(2) hd by simp
  then have wf': "cb_wf ?b"
    using remove_items_refines [OF wf _ assms(3)] assms(2) by (metis length_contents option.inject prod.inject)
  have npos: "0 < unat n" using assms(1,4) by (simp add: cb_documented_def)
  have s: "unat (cb_size b - n) < unat (cb_max b)"
    using npos assms(2) bnd by (subst unat_minus_le) auto
  have one: "unat (1 :: s32) \<le> unat (cb_max ?b)" "unat (1 :: s32) \<le> length [x]" using bnd by simp_all
  have gap: "unat (1 :: s32) \<le> unat (cb_max ?b) - unat (cb_size ?b)" using s by simp
  obtain d where i: "insert_items_cbuffer_t ?b [x] 1 = Some (?b\<lparr>cb_data := d, cb_size := cb_size ?b + 1\<rparr>)"
    and d: "length d = unat (cb_max b)"
    using insert_items_copy [OF wf' one] gap bnd by simp
  have "unat (cb_size b - n + 1) = Suc (unat (cb_size b - n))"
    using s bnd by (subst unat_plus_small) auto
  then have nz: "cb_size b - n + 1 \<noteq> 0" by auto
  have "remove_cbuffer_t (?b\<lparr>cb_data := d, cb_size := cb_size ?b + 1\<rparr>) = None"
    using nz d by (simp add: remove_cbuffer_t_def read_at_def)
  with r i show ?thesis by (intro exI [of _ ?b] exI) (auto simp: cb_documented_def)
qed

theorem bulk_remove_leaves_head_past_the_end_witness:
  "\<exists>b' out b''. remove_items_cbuffer_t small_ring [0, 0] 2 = Some (b', out) \<and> cb_head b' = cb_max b'
     \<and> \<not> cb_documented b' \<and> insert_items_cbuffer_t b' [7] 1 = Some b'' \<and> remove_cbuffer_t b'' = None"
proof -
  have "unat (2 :: s32) \<le> length (contents small_ring)" "unat (2 :: s32) \<le> length [0, 0 :: u8]"
    "unat (cb_head small_ring) + unat (2 :: s32) = unat (cb_max small_ring)"
    by (simp_all add: small_ring_def)
  from bulk_remove_leaves_head_past_the_end [OF small_ring_documented this] show ?thesis .
qed

end
