(* ===== verification/Fifo.thy ===== *)
theory Fifo
  imports CBuffer
begin

text \<open>
  The character device of parteB/fifo.c: module state, the condition-variable idiom \<open>cond_wait\<close>
  built from counting semaphores, and the four file operations, cut at the points where another
  process can run (taking and leaving the mutex, sleeping in a queue).  A process runs one
  handler at a time; \<open>fifo_step\<close> interleaves any number of them.

  A semaphore is the value of its counter: \<open>up\<close> adds one, \<open>down\<close> takes one and blocks at zero, and
  \<open>down_interruptible\<close> may also return early because of a signal.  When a signal arrives, whether
  an allocation succeeds and how many bytes a user copy leaves out are choices of the environment.
\<close>

section \<open>Module state\<close>

definition BUF_LEN :: u32 where "BUF_LEN = 512"

record fifo =
  buf :: cbuffer
  num_prod :: s32
  num_cons :: s32
  num_bloq_prod :: s32
  num_bloq_cons :: s32
  mutex :: nat
  cola_prod :: nat
  cola_cons :: nat

text \<open>
  \<open>init_module\<close>: \<open>major\<close> is what \<open>register_chrdev\<close> returned; the result is the return value,
  whether the device is left registered, and the module's state when there is one.  The
  counters and \<open>mutex\<close> have their static initial values.
\<close>

definition init_module :: "int \<Rightarrow> bool \<Rightarrow> u8 list option \<Rightarrow> int \<times> bool \<times> fifo option" where
  "init_module major header_ok raw =
     (if major < 0 then (major, False, None)
      else case fst (create_cbuffer_t header_ok raw BUF_LEN) of
             None \<Rightarrow> (- ENOMEM, True, None)
           | Some b \<Rightarrow> (0, True, Some \<lparr>buf = b, num_prod = 0, num_cons = 0, num_bloq_prod = 0,
                          num_bloq_cons = 0, mutex = 1, cola_prod = 0, cola_cons = 0\<rparr>))"

text \<open>\<open>cleanup_module\<close>: whether the device stays registered, and the blocks that stay allocated.\<close>

definition cleanup_module :: "fifo \<Rightarrow> block list \<Rightarrow> bool \<times> block list" where
  "cleanup_module s live = (False, snd (destroy_cbuffer_t (buf s) live))"

section \<open>Condition variables\<close>

datatype queue = ProdQ | ConsQ

text \<open>
  The loop \<open>while (count) { count--; up(queue); }\<close>: it ends when the counter is zero, so a negative
  counter runs through the whole range of \<open>int\<close>.
\<close>

function broadcast :: "s32 \<Rightarrow> nat \<Rightarrow> s32 \<times> nat" where
  "broadcast count sem = (if count \<noteq> 0 then broadcast (count - 1) (sem + 1) else (count, sem))"
  by pat_completeness auto
termination
  by (relation "measure (\<lambda>(count, sem). unat count)") (auto simp: measure_unat)

declare broadcast.simps [simp del]

fun wake :: "queue \<Rightarrow> fifo \<Rightarrow> fifo" where
  "wake ProdQ s = (let (n, q) = broadcast (num_bloq_prod s) (cola_prod s)
                   in s\<lparr>num_bloq_prod := n, cola_prod := q\<rparr>)"
| "wake ConsQ s = (let (n, q) = broadcast (num_bloq_cons s) (cola_cons s)
                   in s\<lparr>num_bloq_cons := n, cola_cons := q\<rparr>)"

definition up_mutex :: "fifo \<Rightarrow> fifo" where
  "up_mutex s = s\<lparr>mutex := mutex s + 1\<rparr>"

text \<open>\<open>cond_wait\<close>, up to the point where the process sleeps: \<open>count++; up(mtx)\<close>.\<close>

fun cond_wait_enter :: "queue \<Rightarrow> fifo \<Rightarrow> fifo" where
  "cond_wait_enter ProdQ s = up_mutex (s\<lparr>num_bloq_prod := num_bloq_prod s + 1\<rparr>)"
| "cond_wait_enter ConsQ s = up_mutex (s\<lparr>num_bloq_cons := num_bloq_cons s + 1\<rparr>)"

text \<open>\<open>cond_wait\<close> after an interrupted sleep, with the mutex taken again: \<open>count--; up(mtx)\<close>.\<close>

fun cond_wait_interrupted :: "queue \<Rightarrow> fifo \<Rightarrow> fifo" where
  "cond_wait_interrupted ProdQ s = up_mutex (s\<lparr>num_bloq_prod := num_bloq_prod s - 1\<rparr>)"
| "cond_wait_interrupted ConsQ s = up_mutex (s\<lparr>num_bloq_cons := num_bloq_cons s - 1\<rparr>)"

fun queue_sem :: "queue \<Rightarrow> fifo \<Rightarrow> nat" where
  "queue_sem ProdQ s = cola_prod s"
| "queue_sem ConsQ s = cola_cons s"

fun down_queue :: "queue \<Rightarrow> fifo \<Rightarrow> fifo" where
  "down_queue ProdQ s = s\<lparr>cola_prod := cola_prod s - 1\<rparr>"
| "down_queue ConsQ s = s\<lparr>cola_cons := cola_cons s - 1\<rparr>"

section \<open>The critical sections of the handlers\<close>

text \<open>\<open>fifo_open\<close>, first part: count the new process and wake the other side.\<close>

definition open_register :: "bool \<Rightarrow> fifo \<Rightarrow> fifo" where
  "open_register is_cons s =
     (if is_cons then wake ProdQ (s\<lparr>num_cons := num_cons s + 1\<rparr>)
      else wake ConsQ (s\<lparr>num_prod := num_prod s + 1\<rparr>))"

text \<open>\<open>fifo_open\<close>, the condition of its two waiting loops.\<close>

definition open_must_wait :: "bool \<Rightarrow> fifo \<Rightarrow> bool" where
  "open_must_wait is_cons s \<longleftrightarrow> (if is_cons then num_prod s = 0 else num_cons s = 0)"

text \<open>\<open>fifo_open\<close>, the interrupt handlers passed to \<open>cond_wait\<close>, with the mutex taken.\<close>

definition open_undo :: "bool \<Rightarrow> fifo \<Rightarrow> fifo" where
  "open_undo is_cons s =
     up_mutex (if is_cons then s\<lparr>num_cons := num_cons s - 1\<rparr> else s\<lparr>num_prod := num_prod s - 1\<rparr>)"

definition release_body :: "bool \<Rightarrow> fifo \<Rightarrow> fifo" where
  "release_body is_cons s =
     (let s1 = (if is_cons
                then let s0 = s\<lparr>num_cons := num_cons s - 1\<rparr>
                     in if num_cons s0 = 0 then wake ProdQ s0 else s0
                else s\<lparr>num_prod := num_prod s - 1\<rparr>);
          s2 = (if \<not> (num_prod s1 \<noteq> 0 \<or> num_cons s1 \<noteq> 0)
                then s1\<lparr>buf := (buf s1)\<lparr>cb_size := 0\<rparr>\<rparr> else s1)
      in up_mutex s2)"

text \<open>What a critical section ends with: a return, a sleep in a queue, or data for the user.\<close>

datatype verdict = Return int | Wait | Finish

text \<open>
  \<open>fifo_read\<close> with the mutex taken, from the end-of-file test on.  The test before the loop and
  the one after each \<open>cond_wait\<close> are the same, so the section starts here both times.
\<close>

definition read_body :: "u32 \<Rightarrow> u8 list \<Rightarrow> fifo \<Rightarrow> (fifo \<times> u8 list \<times> verdict) option" where
  "read_body len kbuff s =
     (if num_prod s = 0 \<and> is_empty_cbuffer_t (buf s) then Some (up_mutex s, kbuff, Return 0)
      else if size_cbuffer_t (buf s) < len then Some (cond_wait_enter ConsQ s, kbuff, Wait)
      else do {
        (b, kbuff') \<leftarrow> remove_items_cbuffer_t (buf s) kbuff len;
        Some (up_mutex (wake ProdQ (s\<lparr>buf := b\<rparr>)), kbuff', Finish)
      })"

text \<open>\<open>fifo_write\<close> with the mutex taken: the waiting loop and what follows it.\<close>

definition write_loop :: "u32 \<Rightarrow> u8 list \<Rightarrow> fifo \<Rightarrow> (fifo \<times> verdict) option" where
  "write_loop len kbuff s =
     (if 0 < sint (num_cons s) \<and> nr_gaps_cbuffer_t (buf s) < len
      then Some (cond_wait_enter ProdQ s, Wait)
      else if num_cons s = 0 then Some (up_mutex s, Return (- EPIPE))
      else do {
        b \<leftarrow> insert_items_cbuffer_t (buf s) kbuff len;
        Some (up_mutex (wake ConsQ (s\<lparr>buf := b\<rparr>)), Finish)
      })"

section \<open>Processes\<close>

text \<open>The wait loop a process is in.\<close>

datatype site = AtOpen | AtRead | AtWrite

text \<open>
  Program points.  \<open>Loop\<close>, the points ending in \<open>CS\<close> and \<open>IntrCS\<close> are inside the mutex.  \<open>Orphan\<close> is
  a process whose \<open>fifo_release\<close> was interrupted: its file is gone, its count is not.
\<close>

datatype pc =
    Closed | OpenEnter | OpenCS | Opened
  | Loop site | Sleep site | IntrEnter site | IntrCS site | Relock site
  | UndoEnter | UndoCS
  | ReadEnter | CopyOut | WriteEnter | WriteCS
  | ReleaseEnter | ReleaseCS | Orphan

record proc =
  pc :: pc
  reads :: bool
  writes :: bool
  len :: u32
  kbuff :: "u8 list"
  ret :: int

text \<open>
  What the environment decides at a step.  \<open>Go\<close> continues; \<open>Signal\<close> makes an interruptible \<open>down\<close>
  return early.  A read is called with the block \<open>vmalloc\<close> returned; a write with the user's
  bytes, whether \<open>vmalloc\<close> succeeds and how many bytes \<open>copy_from_user\<close> left out; \<open>Copied\<close> says how
  many bytes \<open>copy_to_user\<close> left out.
\<close>

datatype choice =
    Go | Signal
  | CallOpen bool bool
  | CallRead u32 "u8 list option"
  | CallWrite "u8 list" bool nat
  | CallRelease
  | Copied u32

text \<open>What a step does to the stream of bytes.\<close>

datatype event = Silent | Inserted "u8 list" | Taken "u8 list" | Discarded "u8 list"

definition wait_queue :: "site \<Rightarrow> proc \<Rightarrow> queue" where
  "wait_queue w p = (case w of AtOpen \<Rightarrow> if reads p then ConsQ else ProdQ | AtRead \<Rightarrow> ConsQ | AtWrite \<Rightarrow> ProdQ)"

text \<open>\<open>down\<close> of the mutex, on the way to program point \<open>q\<close>.\<close>

definition enter :: "pc \<Rightarrow> fifo \<Rightarrow> proc \<Rightarrow> (fifo \<times> proc \<times> event) result" where
  "enter q s p = (if mutex s = 0 then Blocked else Next (s\<lparr>mutex := mutex s - 1\<rparr>, p\<lparr>pc := q\<rparr>, Silent))"

text \<open>A return to user space, to the program point \<open>q\<close> of an open or closed file.\<close>

definition return_to :: "pc \<Rightarrow> int \<Rightarrow> fifo \<Rightarrow> proc \<Rightarrow> event \<Rightarrow> (fifo \<times> proc \<times> event) result" where
  "return_to q r s p e = Next (s, p\<lparr>pc := q, ret := r\<rparr>, e)"

text \<open>Where an interrupted \<open>cond_wait\<close> goes: the interrupt handler, then \<open>return -EINTR\<close>.\<close>

definition intr_handler :: "site \<Rightarrow> fifo \<Rightarrow> proc \<Rightarrow> (fifo \<times> proc \<times> event) result" where
  "intr_handler w s p =
     (case w of AtOpen \<Rightarrow> Next (s, p\<lparr>pc := UndoEnter\<rparr>, Silent) | _ \<Rightarrow> return_to Opened (- EINTR) s p Silent)"

definition open_step :: "choice \<Rightarrow> fifo \<Rightarrow> proc \<Rightarrow> (fifo \<times> proc \<times> event) result" where
  "open_step c s p =
     (case (pc p, c) of
        (Closed, CallOpen r w) \<Rightarrow>
          if r \<or> w then Next (s, p\<lparr>pc := OpenEnter, reads := r, writes := w\<rparr>, Silent) else Blocked
      | (OpenEnter, Go) \<Rightarrow> enter OpenCS s p
      | (OpenEnter, Signal) \<Rightarrow> return_to Closed (- EINTR) s p Silent
      | (OpenCS, Go) \<Rightarrow> Next (open_register (reads p) s, p\<lparr>pc := Loop AtOpen\<rparr>, Silent)
      | (Loop AtOpen, Go) \<Rightarrow>
          if open_must_wait (reads p) s
          then Next (cond_wait_enter (wait_queue AtOpen p) s, p\<lparr>pc := Sleep AtOpen\<rparr>, Silent)
          else return_to Opened 0 (up_mutex s) p Silent
      | (UndoEnter, Go) \<Rightarrow> enter UndoCS s p
      | (UndoCS, Go) \<Rightarrow> return_to Closed (- EINTR) (open_undo (reads p) s) p Silent
      | _ \<Rightarrow> Blocked)"

definition cond_wait_step :: "choice \<Rightarrow> fifo \<Rightarrow> proc \<Rightarrow> (fifo \<times> proc \<times> event) result" where
  "cond_wait_step c s p =
     (case (pc p, c) of
        (Sleep w, Go) \<Rightarrow>
          if queue_sem (wait_queue w p) s = 0 then Blocked
          else Next (down_queue (wait_queue w p) s, p\<lparr>pc := Relock w\<rparr>, Silent)
      | (Sleep w, Signal) \<Rightarrow> Next (s, p\<lparr>pc := IntrEnter w\<rparr>, Silent)
      | (IntrEnter w, Go) \<Rightarrow> enter (IntrCS w) s p
      | (IntrCS w, Go) \<Rightarrow> intr_handler w (cond_wait_interrupted (wait_queue w p) s) p
      | (Relock w, Go) \<Rightarrow> enter (Loop w) s p
      | (Relock w, Signal) \<Rightarrow> intr_handler w s p
      | _ \<Rightarrow> Blocked)"

definition read_step :: "choice \<Rightarrow> fifo \<Rightarrow> proc \<Rightarrow> (fifo \<times> proc \<times> event) result" where
  "read_step c s p =
     (case (pc p, c) of
        (Opened, CallRead l block) \<Rightarrow>
          if \<not> reads p then Blocked
          else if BUF_LEN < l then return_to Opened (- EINVAL) s p Silent
          else (case block of
                  None \<Rightarrow> return_to Opened (- ENOMEM) s p Silent
                | Some k \<Rightarrow> if length k = unat l
                            then Next (s, p\<lparr>pc := ReadEnter, len := l, kbuff := k\<rparr>, Silent) else Blocked)
      | (ReadEnter, Go) \<Rightarrow> enter (Loop AtRead) s p
      | (ReadEnter, Signal) \<Rightarrow> return_to Opened (- EINTR) s p Silent
      | (Loop AtRead, Go) \<Rightarrow>
          (case read_body (len p) (kbuff p) s of
             None \<Rightarrow> Fault
           | Some (s', k, Return r) \<Rightarrow> return_to Opened r s' p Silent
           | Some (s', k, Wait) \<Rightarrow> Next (s', p\<lparr>pc := Sleep AtRead\<rparr>, Silent)
           | Some (s', k, Finish) \<Rightarrow>
               Next (s', p\<lparr>pc := CopyOut, kbuff := k\<rparr>, Taken (take (unat (len p)) k)))
      | (CopyOut, Copied u) \<Rightarrow>
          if u \<le> len p then return_to Opened (uint (len p - u)) s p Silent else Blocked
      | _ \<Rightarrow> Blocked)"

definition write_step :: "choice \<Rightarrow> fifo \<Rightarrow> proc \<Rightarrow> (fifo \<times> proc \<times> event) result" where
  "write_step c s p =
     (case (pc p, c) of
        (Opened, CallWrite bytes ok u) \<Rightarrow>
          if \<not> writes p then Blocked
          else if unat BUF_LEN < length bytes then return_to Opened (- EINVAL) s p Silent
          else if \<not> ok then return_to Opened (- ENOMEM) s p Silent
          else if u \<le> length bytes
               then Next (s, p\<lparr>pc := WriteEnter, len := of_nat (length bytes) - of_nat u, kbuff := bytes\<rparr>, Silent)
               else Blocked
      | (WriteEnter, Go) \<Rightarrow> enter WriteCS s p
      | (WriteEnter, Signal) \<Rightarrow> return_to Opened (- EINTR) s p Silent
      | (WriteCS, Go) \<Rightarrow>
          if num_cons s = 0 then return_to Opened (- EPIPE) (up_mutex s) p Silent
          else Next (s, p\<lparr>pc := Loop AtWrite\<rparr>, Silent)
      | (Loop AtWrite, Go) \<Rightarrow>
          (case write_loop (len p) (kbuff p) s of
             None \<Rightarrow> Fault
           | Some (s', Return r) \<Rightarrow> return_to Opened r s' p Silent
           | Some (s', Wait) \<Rightarrow> Next (s', p\<lparr>pc := Sleep AtWrite\<rparr>, Silent)
           | Some (s', Finish) \<Rightarrow>
               return_to Opened (uint (len p)) s' p (Inserted (take (unat (len p)) (kbuff p))))
      | _ \<Rightarrow> Blocked)"

definition release_step :: "choice \<Rightarrow> fifo \<Rightarrow> proc \<Rightarrow> (fifo \<times> proc \<times> event) result" where
  "release_step c s p =
     (case (pc p, c) of
        (Opened, CallRelease) \<Rightarrow> Next (s, p\<lparr>pc := ReleaseEnter\<rparr>, Silent)
      | (ReleaseEnter, Go) \<Rightarrow> enter ReleaseCS s p
      | (ReleaseEnter, Signal) \<Rightarrow> return_to Orphan (- EINTR) s p Silent
      | (ReleaseCS, Go) \<Rightarrow>
          let s' = release_body (reads p) s
          in return_to Closed 0 s' p
               (if cb_size (buf s') = 0 then Discarded (contents (buf s)) else Silent)
      | _ \<Rightarrow> Blocked)"

text \<open>The handler a process is in decides which of the step functions applies.\<close>

definition proc_step :: "choice \<Rightarrow> fifo \<Rightarrow> proc \<Rightarrow> (fifo \<times> proc \<times> event) result" where
  "proc_step c s p =
     (case pc p of
        Closed \<Rightarrow> open_step c s p | OpenEnter \<Rightarrow> open_step c s p | OpenCS \<Rightarrow> open_step c s p
      | UndoEnter \<Rightarrow> open_step c s p | UndoCS \<Rightarrow> open_step c s p
      | Loop w \<Rightarrow> (case w of AtOpen \<Rightarrow> open_step c s p | AtRead \<Rightarrow> read_step c s p | AtWrite \<Rightarrow> write_step c s p)
      | Sleep w \<Rightarrow> cond_wait_step c s p | IntrEnter w \<Rightarrow> cond_wait_step c s p
      | IntrCS w \<Rightarrow> cond_wait_step c s p | Relock w \<Rightarrow> cond_wait_step c s p
      | Opened \<Rightarrow> (case c of CallRead _ _ \<Rightarrow> read_step c s p | CallWrite _ _ _ \<Rightarrow> write_step c s p
                          | _ \<Rightarrow> release_step c s p)
      | ReadEnter \<Rightarrow> read_step c s p | CopyOut \<Rightarrow> read_step c s p
      | WriteEnter \<Rightarrow> write_step c s p | WriteCS \<Rightarrow> write_step c s p
      | ReleaseEnter \<Rightarrow> release_step c s p | ReleaseCS \<Rightarrow> release_step c s p
      | Orphan \<Rightarrow> Blocked)"

section \<open>The system\<close>

record system =
  mem :: fifo
  procs :: "proc list"
  trace :: "event list"

definition closed_proc :: proc where
  "closed_proc = \<lparr>pc = Closed, reads = False, writes = False, len = 0, kbuff = [], ret = 0\<rparr>"

definition boot :: "fifo \<Rightarrow> nat \<Rightarrow> system" where
  "boot s n = \<lparr>mem = s, procs = replicate n closed_proc, trace = []\<rparr>"

inductive fifo_step :: "system \<Rightarrow> system \<Rightarrow> bool" where
  proc: "i < length (procs S) \<Longrightarrow> proc_step c (mem S) (procs S ! i) = Next (s, p, e) \<Longrightarrow>
    fifo_step S (S\<lparr>mem := s, procs := (procs S)[i := p], trace := trace S @ [e]\<rparr>)"

inductive fifo_reach :: "nat \<Rightarrow> system \<Rightarrow> bool" for n where
  start: "init_module major True (Some raw) = (0, True, Some s) \<Longrightarrow> length raw = 512 \<Longrightarrow>
    fifo_reach n (boot s n)"
| step: "fifo_reach n S \<Longrightarrow> fifo_step S T \<Longrightarrow> fifo_reach n T"

text \<open>A schedule, run from a given system, for concrete executions.\<close>

fun run :: "system \<Rightarrow> (nat \<times> choice) list \<Rightarrow> system option" where
  "run S [] = Some S"
| "run S ((i, c) # cs) =
     (if i < length (procs S)
      then case proc_step c (mem S) (procs S ! i) of
             Next (s, p, e) \<Rightarrow> run (S\<lparr>mem := s, procs := (procs S)[i := p], trace := trace S @ [e]\<rparr>) cs
           | _ \<Rightarrow> None
      else None)"

end
