(* ===== verification/FifoInv.thy ===== *)
theory FifoInv
  imports Fifo
begin

text \<open>
  Invariants of parteB/fifo.c over all interleavings: the moves of a process as an inductive
  relation, what each move does to the mutex, to the counters of sleeping and of open processes
  and to the byte stream, and the system invariant these give in every reachable state.
\<close>

section \<open>The moves of a process\<close>

inductive moves :: "fifo \<Rightarrow> proc \<Rightarrow> fifo \<Rightarrow> proc \<Rightarrow> event \<Rightarrow> bool" for s p where
  lock: "(pc p, q) \<in> {(OpenEnter, OpenCS), (UndoEnter, UndoCS), (ReadEnter, Loop AtRead), (WriteEnter, WriteCS),
      (ReleaseEnter, ReleaseCS), (IntrEnter w, IntrCS w), (Relock w, Loop w)} \<Longrightarrow> 0 < mutex s \<Longrightarrow>
    moves s p (s\<lparr>mutex := mutex s - Suc 0\<rparr>) (p\<lparr>pc := q\<rparr>) Silent"
| give_up: "(pc p, q) \<in> {(OpenEnter, Closed), (ReadEnter, Opened), (WriteEnter, Opened), (ReleaseEnter, Orphan),
      (Relock AtRead, Opened), (Relock AtWrite, Opened)} \<Longrightarrow>
    moves s p s (p\<lparr>pc := q, ret := - EINTR\<rparr>) Silent"
| goto: "(pc p, q) \<in> {(Relock AtOpen, UndoEnter), (Sleep w, IntrEnter w), (Opened, ReleaseEnter)} \<Longrightarrow>
    moves s p s (p\<lparr>pc := q\<rparr>) Silent"
| call_open: "pc p = Closed \<Longrightarrow> moves s p s (p\<lparr>pc := OpenEnter, reads := r, writes := w\<rparr>) Silent"
| register: "pc p = OpenCS \<Longrightarrow> moves s p (open_register (reads p) s) (p\<lparr>pc := Loop AtOpen\<rparr>) Silent"
| open_wait: "pc p = Loop AtOpen \<Longrightarrow> open_must_wait (reads p) s \<Longrightarrow>
    moves s p (cond_wait_enter (wait_queue AtOpen p) s) (p\<lparr>pc := Sleep AtOpen\<rparr>) Silent"
| open_done: "pc p = Loop AtOpen \<Longrightarrow> \<not> open_must_wait (reads p) s \<Longrightarrow>
    moves s p (up_mutex s) (p\<lparr>pc := Opened, ret := 0\<rparr>) Silent"
| undo: "pc p = UndoCS \<Longrightarrow> moves s p (open_undo (reads p) s) (p\<lparr>pc := Closed, ret := - EINTR\<rparr>) Silent"
| woken: "pc p = Sleep w \<Longrightarrow> 0 < queue_sem (wait_queue w p) s \<Longrightarrow>
    moves s p (down_queue (wait_queue w p) s) (p\<lparr>pc := Relock w\<rparr>) Silent"
| uncount: "pc p = IntrCS w \<Longrightarrow> w \<noteq> AtOpen \<Longrightarrow>
    moves s p (cond_wait_interrupted (wait_queue w p) s) (p\<lparr>pc := Opened, ret := - EINTR\<rparr>) Silent"
| uncount_open: "pc p = IntrCS AtOpen \<Longrightarrow>
    moves s p (cond_wait_interrupted (wait_queue AtOpen p) s) (p\<lparr>pc := UndoEnter\<rparr>) Silent"
| refused: "pc p = Opened \<Longrightarrow> moves s p s (p\<lparr>pc := Opened, ret := r\<rparr>) Silent"
| call_read: "pc p = Opened \<Longrightarrow> reads p \<Longrightarrow> l \<le> BUF_LEN \<Longrightarrow> length k = unat l \<Longrightarrow>
    moves s p s (p\<lparr>pc := ReadEnter, len := l, kbuff := k\<rparr>) Silent"
| read_return: "pc p = Loop AtRead \<Longrightarrow> read_body (len p) (kbuff p) s = Some (s', k, Return r) \<Longrightarrow>
    moves s p s' (p\<lparr>pc := Opened, ret := r\<rparr>) Silent"
| read_wait: "pc p = Loop AtRead \<Longrightarrow> read_body (len p) (kbuff p) s = Some (s', k, Wait) \<Longrightarrow>
    moves s p s' (p\<lparr>pc := Sleep AtRead\<rparr>) Silent"
| read_finish: "pc p = Loop AtRead \<Longrightarrow> read_body (len p) (kbuff p) s = Some (s', k, Finish) \<Longrightarrow>
    moves s p s' (p\<lparr>pc := CopyOut, kbuff := k\<rparr>) (Taken (take (unat (len p)) k))"
| copied: "pc p = CopyOut \<Longrightarrow> u \<le> len p \<Longrightarrow> moves s p s (p\<lparr>pc := Opened, ret := uint (len p - u)\<rparr>) Silent"
| call_write: "pc p = Opened \<Longrightarrow> writes p \<Longrightarrow> length bytes \<le> unat BUF_LEN \<Longrightarrow> u \<le> length bytes \<Longrightarrow>
    moves s p s (p\<lparr>pc := WriteEnter, len := of_nat (length bytes) - of_nat u, kbuff := bytes\<rparr>) Silent"
| no_reader: "pc p = WriteCS \<Longrightarrow> num_cons s = 0 \<Longrightarrow> moves s p (up_mutex s) (p\<lparr>pc := Opened, ret := - EPIPE\<rparr>) Silent"
| enter_loop: "pc p = WriteCS \<Longrightarrow> num_cons s \<noteq> 0 \<Longrightarrow> moves s p s (p\<lparr>pc := Loop AtWrite\<rparr>) Silent"
| write_return: "pc p = Loop AtWrite \<Longrightarrow> write_loop (len p) (kbuff p) s = Some (s', Return r) \<Longrightarrow>
    moves s p s' (p\<lparr>pc := Opened, ret := r\<rparr>) Silent"
| write_wait: "pc p = Loop AtWrite \<Longrightarrow> write_loop (len p) (kbuff p) s = Some (s', Wait) \<Longrightarrow>
    moves s p s' (p\<lparr>pc := Sleep AtWrite\<rparr>) Silent"
| write_finish: "pc p = Loop AtWrite \<Longrightarrow> write_loop (len p) (kbuff p) s = Some (s', Finish) \<Longrightarrow>
    moves s p s' (p\<lparr>pc := Opened, ret := uint (len p)\<rparr>) (Inserted (take (unat (len p)) (kbuff p)))"
| release: "pc p = ReleaseCS \<Longrightarrow> s' = release_body (reads p) s \<Longrightarrow>
    e = (if cb_size (buf s') = 0 then Discarded (contents (buf s)) else Silent) \<Longrightarrow>
    moves s p s' (p\<lparr>pc := Closed, ret := 0\<rparr>) e"

lemma open_step_moves: "open_step c s p = Next (s', p', e) \<Longrightarrow> moves s p s' p' e"
  by (cases "pc p"; cases c)
     (auto simp: open_step_def enter_def return_to_def intro: moves.intros split: if_splits site.splits)

lemma cond_wait_step_moves: "cond_wait_step c s p = Next (s', p', e) \<Longrightarrow> moves s p s' p' e"
  by (cases "pc p"; cases c)
     (auto simp: cond_wait_step_def enter_def return_to_def intr_handler_def intro: moves.intros split: if_splits site.splits)

lemma release_step_moves: "release_step c s p = Next (s', p', e) \<Longrightarrow> moves s p s' p' e"
  by (cases "pc p"; cases c)
     (auto simp: release_step_def enter_def return_to_def Let_def intro: moves.intros split: if_splits)

lemma read_step_moves: "read_step c s p = Next (s', p', e) \<Longrightarrow> moves s p s' p' e"
  by (cases "pc p"; cases c)
     (auto simp: read_step_def enter_def return_to_def not_less intro: moves.intros
       split: if_splits site.splits option.splits verdict.splits)

lemma write_step_moves: "write_step c s p = Next (s', p', e) \<Longrightarrow> moves s p s' p' e"
  by (cases "pc p"; cases c)
     (auto simp: write_step_def enter_def return_to_def not_less intro: moves.intros
       split: if_splits site.splits option.splits verdict.splits)

lemma proc_step_moves:
  "proc_step c s p = Next (s', p', e) \<Longrightarrow> moves s p s' p' e"
  by (auto simp: proc_step_def split: pc.splits site.splits choice.splits
      intro: open_step_moves cond_wait_step_moves read_step_moves write_step_moves release_step_moves)

lemmas moves_cases = moves.cases [case_names lock give_up goto call_open register open_wait open_done undo woken
  uncount uncount_open refused call_read read_return read_wait read_finish copied call_write no_reader
  enter_loop write_return write_wait write_finish release]

section \<open>Broadcasts\<close>

lemma broadcast_eq: "broadcast n q = (0, q + unat n)"
proof (induction n q rule: broadcast.induct)
  case (1 n q)
  then show ?case
    by (subst broadcast.simps) (auto simp: unat_Suc_minus)
qed

lemma wake_eq [simp]:
  "wake ProdQ s = s\<lparr>num_bloq_prod := 0, cola_prod := cola_prod s + unat (num_bloq_prod s)\<rparr>"
  "wake ConsQ s = s\<lparr>num_bloq_cons := 0, cola_cons := cola_cons s + unat (num_bloq_cons s)\<rparr>"
  by (simp_all add: broadcast_eq)

declare wake.simps [simp del]

section \<open>The mutex\<close>

text \<open>The program points at which a process holds the mutex.\<close>

fun in_cs :: "pc \<Rightarrow> bool" where
  "in_cs OpenCS = True" | "in_cs (Loop w) = True" | "in_cs (IntrCS w) = True" | "in_cs UndoCS = True"
| "in_cs WriteCS = True" | "in_cs ReleaseCS = True"
| "in_cs _ = False"

lemmas body_defs = open_register_def open_undo_def release_body_def read_body_def write_loop_def up_mutex_def

lemma mutex_open_register [simp]: "mutex (open_register r s) = mutex s"
  by (simp add: open_register_def)

lemma mutex_leaving [simp]:
  "mutex (up_mutex s) = Suc (mutex s)" "mutex (cond_wait_enter q s) = Suc (mutex s)"
  "mutex (cond_wait_interrupted q s) = Suc (mutex s)" "mutex (down_queue q s) = mutex s"
  "mutex (open_undo r s) = Suc (mutex s)" "mutex (release_body r s) = Suc (mutex s)"
  by (cases q; simp add: body_defs Let_def)+

lemma mutex_read_body: "read_body l k s = Some (s', k', v) \<Longrightarrow> mutex s' = Suc (mutex s)"
  by (auto simp: read_body_def Let_def bind_eq_Some_conv split: if_splits)

lemma mutex_write_loop: "write_loop l k s = Some (s', v) \<Longrightarrow> mutex s' = Suc (mutex s)"
  by (auto simp: write_loop_def Let_def bind_eq_Some_conv split: if_splits)

lemma moves_mutex:
  "moves s p s' p' e \<Longrightarrow> mutex s' + of_bool (in_cs (pc p')) = mutex s + of_bool (in_cs (pc p))"
  by (erule moves.cases) (auto dest!: mutex_read_body mutex_write_loop)

section \<open>The counters of sleeping processes\<close>

fun sleepers :: "queue \<Rightarrow> fifo \<Rightarrow> s32" where
  "sleepers ProdQ s = num_bloq_prod s"
| "sleepers ConsQ s = num_bloq_cons s"

text \<open>
  A process is waiting in queue \<open>q\<close> from \<open>cond_wait\<close>'s \<open>count++\<close> until it takes a token or counts
  itself out again.
\<close>

definition waiting :: "queue \<Rightarrow> proc \<Rightarrow> bool" where
  "waiting q p \<longleftrightarrow> (case pc p of Sleep w \<Rightarrow> wait_queue w p = q | IntrEnter w \<Rightarrow> wait_queue w p = q
     | IntrCS w \<Rightarrow> wait_queue w p = q | _ \<Rightarrow> False)"

text \<open>The credit of a queue: counted sleepers plus tokens in the semaphore.\<close>

definition credit :: "queue \<Rightarrow> fifo \<Rightarrow> s32" where
  "credit q s = sleepers q s + of_nat (queue_sem q s)"

lemma credit_up_mutex [simp]: "credit q (up_mutex s) = credit q s"
  by (cases q) (simp_all add: credit_def up_mutex_def)

lemma credit_wake [simp]: "credit q (wake r s) = credit q s"
  by (cases q; cases r) (simp_all add: credit_def)

lemma credit_update [simp]:
  "credit q (s\<lparr>buf := b\<rparr>) = credit q s" "credit q (s\<lparr>num_cons := n\<rparr>) = credit q s"
  "credit q (s\<lparr>num_prod := n\<rparr>) = credit q s" "credit q (s\<lparr>mutex := m\<rparr>) = credit q s"
  by (cases q; simp add: credit_def)+

lemma credit_wait [simp]:
  "credit q (cond_wait_enter r s) = credit q s + of_bool (q = r)"
  "credit q (cond_wait_interrupted r s) = credit q s - of_bool (q = r)"
  by (cases q; cases r; simp add: credit_def up_mutex_def)+

declare cond_wait_enter.simps [simp del] cond_wait_interrupted.simps [simp del]

lemma wait_queue_update [simp]:
  "wait_queue w (p\<lparr>pc := a\<rparr>) = wait_queue w p" "wait_queue w (p\<lparr>ret := b\<rparr>) = wait_queue w p"
  by (simp_all add: wait_queue_def split: site.splits)

lemma wait_queue_io [simp]: "wait_queue AtRead p = ConsQ" "wait_queue AtWrite p = ProdQ"
  by (simp_all add: wait_queue_def)

lemma credit_down_queue:
  "0 < queue_sem r s \<Longrightarrow> credit q (down_queue r s) = credit q s - of_bool (q = r)"
  by (cases q; cases r) (auto simp: credit_def of_nat_diff gr0_conv_Suc)

lemma credit_read_body:
  "read_body l k s = Some (s', k', v) \<Longrightarrow> credit q s' = credit q s + of_bool (q = ConsQ \<and> v = Wait)"
  by (auto simp: read_body_def bind_eq_Some_conv simp del: wake_eq split: if_splits)

lemma credit_write_loop:
  "write_loop l k s = Some (s', v) \<Longrightarrow> credit q s' = credit q s + of_bool (q = ProdQ \<and> v = Wait)"
  by (auto simp: write_loop_def bind_eq_Some_conv simp del: wake_eq split: if_splits)

lemma credit_bodies [simp]:
  "credit q (open_register r s) = credit q s" "credit q (open_undo r s) = credit q s"
  "credit q (release_body r s) = credit q s"
  by (simp_all add: open_register_def open_undo_def release_body_def Let_def del: wake_eq)

lemma moves_credit:
  "moves s p s' p' e \<Longrightarrow> credit q s' + of_bool (waiting q p) = credit q s + of_bool (waiting q p')"
  by (erule moves.cases)
     (auto simp: waiting_def credit_down_queue dest!: credit_read_body [of _ _ _ _ _ _ q]
        credit_write_loop [of _ _ _ _ _ q])

section \<open>The counters of open files\<close>

text \<open>Processes that \<open>fifo_open\<close> has counted and that no release or undo has uncounted yet.\<close>

definition registered :: "bool \<Rightarrow> proc \<Rightarrow> bool" where
  "registered r p \<longleftrightarrow> reads p = r \<and> pc p \<notin> {Closed, OpenEnter, OpenCS}"

fun users :: "bool \<Rightarrow> fifo \<Rightarrow> s32" where
  "users True s = num_cons s"
| "users False s = num_prod s"

lemma users_wake [simp]: "users r (wake q s) = users r s"
  by (cases r; cases q) simp_all

lemma users_keep [simp]:
  "users r (up_mutex s) = users r s" "users r (s\<lparr>mutex := m\<rparr>) = users r s" "users r (s\<lparr>buf := b\<rparr>) = users r s"
  "users r (cond_wait_enter q s) = users r s" "users r (cond_wait_interrupted q s) = users r s"
  "users r (down_queue q s) = users r s"
  by (cases r; cases q; simp add: up_mutex_def cond_wait_enter.simps cond_wait_interrupted.simps)+

lemma users_bodies [simp]:
  "users r (open_register q s) = users r s + of_bool (q = r)"
  "users r (open_undo q s) = users r s - of_bool (q = r)"
  "users r (release_body q s) = users r s - of_bool (q = r)"
  by (cases r; cases q; simp add: open_register_def open_undo_def release_body_def up_mutex_def Let_def)+

lemma users_read_body: "read_body l k s = Some (s', k', v) \<Longrightarrow> users r s' = users r s"
  by (auto simp: read_body_def bind_eq_Some_conv simp del: wake_eq split: if_splits)

lemma users_write_loop: "write_loop l k s = Some (s', v) \<Longrightarrow> users r s' = users r s"
  by (auto simp: write_loop_def bind_eq_Some_conv simp del: wake_eq split: if_splits)

lemma moves_users:
  "moves s p s' p' e \<Longrightarrow> users r s' + of_bool (registered r p) = users r s + of_bool (registered r p')"
  by (erule moves.cases)
     (auto simp: registered_def dest!: users_read_body [of _ _ _ _ _ _ r] users_write_loop [of _ _ _ _ _ r])

section \<open>Requests and the byte stream\<close>

fun at_site :: "pc \<Rightarrow> site option" where
  "at_site (Loop w) = Some w" | "at_site (Sleep w) = Some w" | "at_site (IntrEnter w) = Some w"
| "at_site (IntrCS w) = Some w" | "at_site (Relock w) = Some w"
| "at_site ReadEnter = Some AtRead" | "at_site CopyOut = Some AtRead"
| "at_site WriteEnter = Some AtWrite" | "at_site WriteCS = Some AtWrite"
| "at_site _ = None"

text \<open>A process in a read or write has a request that fits the ring and a kernel block for it.\<close>

definition proc_ok :: "proc \<Rightarrow> bool" where
  "proc_ok p \<longleftrightarrow>
     (case at_site (pc p) of
        Some AtRead \<Rightarrow> reads p \<and> unat (len p) \<le> unat BUF_LEN \<and> unat (len p) \<le> length (kbuff p)
      | Some AtWrite \<Rightarrow> writes p \<and> unat (len p) \<le> unat BUF_LEN \<and> unat (len p) \<le> length (kbuff p)
      | _ \<Rightarrow> True)"

fun bytes_in :: "event \<Rightarrow> u8 list" where
  "bytes_in (Inserted xs) = xs" | "bytes_in _ = []"

fun bytes_out :: "event \<Rightarrow> u8 list" where
  "bytes_out (Taken xs) = xs" | "bytes_out (Discarded xs) = xs" | "bytes_out _ = []"

lemma buf_keep [simp]:
  "buf (up_mutex s) = buf s" "buf (wake q s) = buf s" "buf (cond_wait_enter q s) = buf s"
  "buf (cond_wait_interrupted q s) = buf s" "buf (down_queue q s) = buf s"
  "buf (open_register r s) = buf s" "buf (open_undo r s) = buf s"
  by (cases q; simp add: up_mutex_def cond_wait_enter.simps cond_wait_interrupted.simps open_register_def
      open_undo_def)+

lemma read_body_cases:
  assumes wf: "cb_wf (buf s)" and k: "unat l \<le> length k"
  obtains (eof) "num_prod s = 0" "contents (buf s) = []" "read_body l k s = Some (up_mutex s, k, Return 0)"
  | (wait) "\<not> (num_prod s = 0 \<and> contents (buf s) = [])" "length (contents (buf s)) < unat l"
      "read_body l k s = Some (cond_wait_enter ConsQ s, k, Wait)"
  | (finish) b where "\<not> (num_prod s = 0 \<and> contents (buf s) = [])" "unat l \<le> length (contents (buf s))"
      "read_body l k s = Some (up_mutex (wake ProdQ (s\<lparr>buf := b\<rparr>)),
         take (unat l) (contents (buf s)) @ drop (unat l) k, Finish)"
      "cb_wf b" "cb_max b = cb_max (buf s)" "contents b = drop (unat l) (contents (buf s))"
proof -
  have empty: "is_empty_cbuffer_t (buf s) \<longleftrightarrow> contents (buf s) = []"
    using length_contents [of "buf s"]
    by (metis is_empty_cbuffer_t_def length_0_conv unat_eq_0)
  show thesis
  proof (cases "num_prod s = 0 \<and> contents (buf s) = []")
    case True
    then show thesis by (intro eof) (simp_all add: read_body_def empty)
  next
    case noteof: False
    show thesis
    proof (cases "length (contents (buf s)) < unat l")
      case True
      then show thesis using noteof
        by (intro wait) (auto simp: read_body_def empty size_cbuffer_t_def word_less_nat_alt)
    next
      case False
      then have "unat l \<le> unat (cb_size (buf s))" by simp
      with remove_items_refines [OF wf _ k] obtain b where
        b: "remove_items_cbuffer_t (buf s) k l = Some (b, take (unat l) (contents (buf s)) @ drop (unat l) k)"
          "cb_wf b" "cb_max b = cb_max (buf s)" "contents b = drop (unat l) (contents (buf s))"
        by blast
      show thesis
        using noteof False b
        by (intro finish [of b]) (auto simp: read_body_def empty size_cbuffer_t_def word_less_nat_alt)
    qed
  qed
qed

lemma write_loop_cases:
  assumes wf: "cb_wf (buf s)" and k: "unat l \<le> length k" and fits: "unat l \<le> unat (cb_max (buf s))"
  obtains (wait) "0 < sint (num_cons s)" "unat (cb_max (buf s)) < length (contents (buf s)) + unat l"
      "write_loop l k s = Some (cond_wait_enter ProdQ s, Wait)"
  | (broken) "num_cons s = 0" "write_loop l k s = Some (up_mutex s, Return (- EPIPE))"
  | (finish) b where "num_cons s \<noteq> 0"
      "0 < sint (num_cons s) \<Longrightarrow> length (contents (buf s)) + unat l \<le> unat (cb_max (buf s))"
      "write_loop l k s = Some (up_mutex (wake ConsQ (s\<lparr>buf := b\<rparr>)), Finish)"
      "cb_wf b" "cb_max b = cb_max (buf s)"
      "contents b = drop (length (contents (buf s)) + unat l - unat (cb_max (buf s)))
                      (contents (buf s) @ take (unat l) k)"
proof -
  let ?M = "unat (cb_max (buf s))" and ?S = "unat (cb_size (buf s))"
  note bnd = cb_wf_bounds [OF wf]
  have gaps: "nr_gaps_cbuffer_t (buf s) < l \<longleftrightarrow> ?M < ?S + unat l"
    using bnd by (auto simp: nr_gaps_cbuffer_t_def word_less_nat_alt unat_minus_le)
  obtain b where b: "insert_items_cbuffer_t (buf s) k l = Some b" "cb_wf b" "cb_max b = cb_max (buf s)"
    "contents b = drop (?S + unat l - ?M) (contents (buf s) @ take (unat l) k)"
    using insert_items_refines [OF wf fits k] by blast
  consider "0 < sint (num_cons s) \<and> ?M < ?S + unat l" | "num_cons s = 0"
    | "num_cons s \<noteq> 0" "\<not> (0 < sint (num_cons s) \<and> ?M < ?S + unat l)" by auto
  then show thesis
  proof cases
    case 1
    then show thesis by (intro wait) (auto simp: write_loop_def gaps)
  next
    case 2
    then show thesis by (intro broken) (auto simp: write_loop_def)
  next
    case 3
    then show thesis using b by (intro finish [of b]) (auto simp: write_loop_def gaps)
  qed
qed

definition ring_ok :: "fifo \<Rightarrow> bool" where
  "ring_ok s \<longleftrightarrow> cb_wf (buf s) \<and> cb_max (buf s) = BUF_LEN"

lemma release_buf:
  "buf (release_body r s) = buf s \<or> buf (release_body r s) = (buf s)\<lparr>cb_size := 0\<rparr>"
  by (simp add: release_body_def Let_def)

lemma read_body_ring:
  assumes ok: "ring_ok s" and k: "unat l \<le> length k" and run: "read_body l k s = Some (s', k', v)"
  shows "ring_ok s' \<and> length k' = length k \<and>
    (if v = Finish then take (unat l) k' @ contents (buf s') = contents (buf s) else buf s' = buf s)"
proof -
  have wf: "cb_wf (buf s)" using ok by (simp add: ring_ok_def)
  show ?thesis
    by (rule read_body_cases [OF wf k]) (use ok k run in \<open>auto simp: ring_ok_def simp del: wake_eq\<close>)
qed

lemma write_loop_ring:
  assumes ok: "ring_ok s" and k: "unat l \<le> length k" and fits: "unat l \<le> unat BUF_LEN"
    and run: "write_loop l k s = Some (s', v)"
  shows "ring_ok s' \<and>
    (if v = Finish then 0 \<le> sint (num_cons s) \<longrightarrow> contents (buf s') = contents (buf s) @ take (unat l) k
     else buf s' = buf s)"
proof -
  have wf: "cb_wf (buf s)" and max: "cb_max (buf s) = BUF_LEN" using ok by (simp_all add: ring_ok_def)
  have pos: "num_cons s \<noteq> 0 \<Longrightarrow> 0 \<le> sint (num_cons s) \<Longrightarrow> 0 < sint (num_cons s)"
    by (metis le_less signed_eq_0_iff)
  show ?thesis
    by (rule write_loop_cases [OF wf k, unfolded max, OF fits])
       (use ok k run pos in \<open>auto simp: ring_ok_def simp del: wake_eq\<close>)
qed

lemma moves_ring:
  assumes "moves s p s' p' e" and "ring_ok s" and "proc_ok p"
  shows "ring_ok s'"
  using assms(1)
proof (cases rule: moves_cases)
  case release
  with assms(2) release_buf [of "reads p" s] show ?thesis
    by (auto simp: ring_ok_def cb_wf_def)
next
  case (read_return k r)
  with assms(3) read_body_ring [OF assms(2) _ read_return(4)] show ?thesis by (auto simp: proc_ok_def)
next
  case (read_wait k)
  with assms(3) read_body_ring [OF assms(2) _ read_wait(4)] show ?thesis by (auto simp: proc_ok_def)
next
  case (read_finish k)
  with assms(3) read_body_ring [OF assms(2) _ read_finish(4)] show ?thesis by (auto simp: proc_ok_def)
next
  case (write_return r)
  with assms(3) write_loop_ring [OF assms(2) _ _ write_return(4)] show ?thesis by (auto simp: proc_ok_def)
next
  case write_wait
  with assms(3) write_loop_ring [OF assms(2) _ _ write_wait(4)] show ?thesis by (auto simp: proc_ok_def)
next
  case write_finish
  with assms(3) write_loop_ring [OF assms(2) _ _ write_finish(4)] show ?thesis by (auto simp: proc_ok_def)
qed (use assms(2) in \<open>auto simp: ring_ok_def\<close>)

text \<open>
  One equation for every move: what leaves the ring in front, and what enters it at the back.
  The side condition is that the count of readers has not overflowed its sign.
\<close>

lemma contents_reset [simp]: "contents (b\<lparr>cb_size := 0\<rparr>) = []"
  by (simp add: contents_def)

lemma moves_stream:
  assumes "moves s p s' p' e" and "ring_ok s" and "proc_ok p" and "0 \<le> sint (num_cons s)"
  shows "bytes_out e @ contents (buf s') = contents (buf s) @ bytes_in e"
  using assms(1)
proof (cases rule: moves_cases)
  case (read_return k r)
  with assms(3) read_body_ring [OF assms(2) _ read_return(4)] show ?thesis by (auto simp: proc_ok_def)
next
  case (read_wait k)
  with assms(3) read_body_ring [OF assms(2) _ read_wait(4)] show ?thesis by (auto simp: proc_ok_def)
next
  case (read_finish k)
  with assms(3) read_body_ring [OF assms(2) _ read_finish(4)] show ?thesis by (auto simp: proc_ok_def)
next
  case (write_return r)
  with assms(3) write_loop_ring [OF assms(2) _ _ write_return(4)] show ?thesis by (auto simp: proc_ok_def)
next
  case write_wait
  with assms(3) write_loop_ring [OF assms(2) _ _ write_wait(4)] show ?thesis by (auto simp: proc_ok_def)
next
  case write_finish
  with assms(3,4) write_loop_ring [OF assms(2) _ _ write_finish(4)] show ?thesis by (auto simp: proc_ok_def)
next
  case release
  have "contents (buf s) = []" if "cb_size (buf s) = 0"
    using that by (simp add: contents_def)
  with release release_buf [of "reads p" s] show ?thesis
    by (auto simp: contents_def)
qed auto

lemma moves_proc_ok:
  assumes "moves s p s' p' e" and "ring_ok s" and "proc_ok p"
  shows "proc_ok p'"
  using assms(1)
proof (cases rule: moves_cases)
  case (read_finish k)
  with assms(3) read_body_ring [OF assms(2) _ read_finish(4)] show ?thesis by (auto simp: proc_ok_def)
next
  case (call_write bytes u)
  then have "unat (of_nat (length bytes) - of_nat u :: u32) = length bytes - u"
    by (simp add: BUF_LEN_def unat_of_nat of_nat_diff [symmetric] del: of_nat_diff)
  with call_write show ?thesis by (simp add: proc_ok_def)
next
  case (lock q w)
  with assms(3) show ?thesis by (auto simp: proc_ok_def split: option.splits site.splits)
next
  case (goto q w)
  with assms(3) show ?thesis by (auto simp: proc_ok_def split: option.splits site.splits)
qed (use assms(3) in \<open>auto simp: proc_ok_def word_le_nat_alt split: option.splits site.splits\<close>)

section \<open>The system invariant\<close>

definition system_inv :: "system \<Rightarrow> bool" where
  "system_inv S \<longleftrightarrow>
     mutex (mem S) + count_if (\<lambda>p. in_cs (pc p)) (procs S) = 1
   \<and> (\<forall>q. credit q (mem S) = of_nat (count_if (waiting q) (procs S)))
   \<and> (\<forall>r. users r (mem S) = of_nat (count_if (registered r) (procs S)))
   \<and> ring_ok (mem S)
   \<and> (\<forall>p \<in> set (procs S). proc_ok p)
   \<and> (length (procs S) < 2 ^ 31 \<longrightarrow>
        concat (map bytes_out (trace S)) @ contents (buf (mem S)) = concat (map bytes_in (trace S)))"

lemma count_if_update_word:
  assumes "i < length xs" and "a' + of_bool (P (xs ! i)) = a + of_bool (P x)" and "a = of_nat (count_if P xs)"
  shows "a' = (of_nat (count_if P (xs[i := x])) :: s32)"
proof -
  have "of_nat (count_if P (xs[i := x])) + of_bool (P (xs ! i)) = (of_nat (count_if P xs) + of_bool (P x) :: s32)"
    using arg_cong [OF count_if_update [OF assms(1), of P x], of "of_nat :: nat \<Rightarrow> s32"] by simp
  with assms(2,3) show ?thesis by (metis add_right_imp_eq)
qed

lemma sint_of_nat_small: "n < 2 ^ 31 \<Longrightarrow> 0 \<le> sint (of_nat n :: s32)"
  by (subst sint_eq_unat) (simp_all add: unat_of_nat)

lemma fifo_step_inv:
  assumes "fifo_step S T" and "system_inv S"
  shows "system_inv T"
  using assms(1)
proof cases
  case (proc i c s p e)
  let ?p = "procs S ! i"
  have mv: "moves (mem S) ?p s p e" using proc(3) by (rule proc_step_moves)
  note inv = assms(2) [unfolded system_inv_def]
  have ok: "ring_ok (mem S)" "proc_ok ?p" using inv proc(2) by auto
  have "mutex s + count_if (\<lambda>p. in_cs (pc p)) ((procs S)[i := p]) = 1"
    using moves_mutex [OF mv] count_if_update [OF proc(2), of "\<lambda>p. in_cs (pc p)" p] inv by simp
  moreover have "credit q s = of_nat (count_if (waiting q) ((procs S)[i := p]))" for q
    by (rule count_if_update_word [OF proc(2) moves_credit [OF mv]]) (use inv in blast)
  moreover have "users r s = of_nat (count_if (registered r) ((procs S)[i := p]))" for r
    by (rule count_if_update_word [OF proc(2) moves_users [OF mv]]) (use inv in blast)
  moreover have "ring_ok s" by (rule moves_ring [OF mv ok])
  moreover have "\<forall>p \<in> set ((procs S)[i := p]). proc_ok p"
    using inv moves_proc_ok [OF mv ok] set_update_subset_insert [of "procs S" i p] by blast
  moreover have "concat (map bytes_out (trace S)) @ bytes_out e @ contents (buf s)
      = concat (map bytes_in (trace S)) @ bytes_in e" if n: "length (procs S) < 2 ^ 31"
  proof -
    have "num_cons (mem S) = of_nat (count_if (registered True) (procs S))"
      using inv users.simps(1) by metis
    moreover have "count_if (registered True) (procs S) < 2 ^ 31"
      using n count_if_le_length [of "registered True" "procs S"] by linarith
    ultimately have "0 \<le> sint (num_cons (mem S))" by (simp only: sint_of_nat_small)
    from moves_stream [OF mv ok this] inv n show ?thesis by (metis append.assoc)
  qed
  ultimately show ?thesis
    unfolding proc(1) system_inv_def by simp
qed

lemma boot_inv:
  assumes "init_module major True (Some raw) = (0, True, Some s)" and "length raw = 512"
  shows "system_inv (boot s n)"
proof -
  have s: "s = \<lparr>buf = \<lparr>cb_data = raw, cb_head = 0, cb_size = 0, cb_max = BUF_LEN\<rparr>, num_prod = 0, num_cons = 0,
      num_bloq_prod = 0, num_bloq_cons = 0, mutex = 1, cola_prod = 0, cola_cons = 0\<rparr>"
    using assms(1) by (auto simp: init_module_def create_cbuffer_t_def split: if_splits)
  have c: "credit q s = 0" "users r s = 0" for q r
    by (cases q; simp add: s credit_def) (cases r; simp add: s)
  have f: "mutex s = 1" "buf s = \<lparr>cb_data = raw, cb_head = 0, cb_size = 0, cb_max = BUF_LEN\<rparr>"
    by (simp_all add: s)
  show ?thesis
    using assms(2) unfolding system_inv_def
    by (simp add: boot_def c f closed_proc_def waiting_def registered_def proc_ok_def ring_ok_def cb_wf_def
        BUF_LEN_def contents_def)
qed

lemma fifo_reach_inv: "fifo_reach n S \<Longrightarrow> system_inv S \<and> length (procs S) = n"
proof (induction rule: fifo_reach.induct)
  case (start major raw s)
  then show ?case by (simp add: boot_inv) (simp add: boot_def)
next
  case (step S T)
  then have "length (procs T) = length (procs S)" by (auto elim: fifo_step.cases)
  with step show ?case by (auto intro: fifo_step_inv)
qed

lemma run_reaches:
  "run S cs = Some T \<Longrightarrow> fifo_reach n S \<Longrightarrow> fifo_reach n T"
proof (induction S cs rule: run.induct)
  case (1 S)
  then show ?case by simp
next
  case (2 S i c cs)
  then obtain s p e where i: "i < length (procs S)" and st: "proc_step c (mem S) (procs S ! i) = Next (s, p, e)"
    and r: "run (S\<lparr>mem := s, procs := (procs S)[i := p], trace := trace S @ [e]\<rparr>) cs = Some T"
    by (auto split: if_splits result.splits)
  from "2.prems"(2) fifo_step.proc [OF i st]
  have "fifo_reach n (S\<lparr>mem := s, procs := (procs S)[i := p], trace := trace S @ [e]\<rparr>)"
    by (rule fifo_reach.step)
  with "2.IH" [OF i st refl _ r] show ?case by simp
qed

end
