(* ===== verification/FifoProps.thy ===== *)
theory FifoProps
  imports FifoInv
begin

text \<open>
  The properties of the FIFO device: mutual exclusion, memory safety, progress inside the
  critical sections, first-in-first-out delivery, exact user counts and the wake-up balance, each
  for every reachable state of any number of processes; the outcomes of a read and a write
  request; and the executions in which the code departs from the contract in its header comment.
\<close>

section \<open>A fresh module and concrete runs\<close>

definition fresh_ring :: cbuffer where
  "fresh_ring = \<lparr>cb_data = replicate 512 0, cb_head = 0, cb_size = 0, cb_max = BUF_LEN\<rparr>"

definition fresh :: fifo where
  "fresh = \<lparr>buf = fresh_ring, num_prod = 0, num_cons = 0, num_bloq_prod = 0,
      num_bloq_cons = 0, mutex = 1, cola_prod = 0, cola_cons = 0\<rparr>"

lemma fresh_reach: "fifo_reach n (boot fresh n)"
  by (rule fifo_reach.start [of 240 "replicate 512 0"])
     (simp_all add: init_module_def create_cbuffer_t_def fresh_def fresh_ring_def)

lemma fresh_ring_ok: "ring_ok fresh" and fresh_contents: "contents (buf fresh) = []"
  by (simp_all add: ring_ok_def fresh_def fresh_ring_def cb_wf_def BUF_LEN_def contents_def)

lemmas step_defs = proc_step_def open_step_def cond_wait_step_def read_step_def write_step_def
  release_step_def enter_def return_to_def intr_handler_def body_defs open_must_wait_def wait_queue_def
  cond_wait_enter.simps cond_wait_interrupted.simps Let_def
  size_cbuffer_t_def is_empty_cbuffer_t_def nr_gaps_cbuffer_t_def

text \<open>Process 0 opens for reading, process 1 for writing, and both opens return.\<close>

definition open_pair :: "(nat \<times> choice) list" where
  "open_pair = [(0, CallOpen True False), (0, Go), (0, Go), (0, Go),
     (Suc 0, CallOpen False True), (Suc 0, Go), (Suc 0, Go), (Suc 0, Go), (0, Go), (0, Go), (0, Go)]"

lemma run_append: "run S (xs @ ys) = Option.bind (run S xs) (\<lambda>T. run T ys)"
  by (induction S xs rule: run.induct) (auto split: result.splits)

lemma open_pair_run:
  "run (boot fresh 2) open_pair = Some
     \<lparr>mem = fresh\<lparr>num_prod := 1, num_cons := 1\<rparr>,
      procs = [closed_proc\<lparr>pc := Opened, reads := True\<rparr>, closed_proc\<lparr>pc := Opened, writes := True\<rparr>],
      trace = replicate 11 Silent\<rparr>"
  by (simp add: open_pair_def boot_def fresh_def closed_proc_def step_defs numeral_eq_Suc)

lemma run_from_open_pair:
  assumes "run \<lparr>mem = fresh\<lparr>num_prod := 1, num_cons := 1\<rparr>,
      procs = [closed_proc\<lparr>pc := Opened, reads := True\<rparr>, closed_proc\<lparr>pc := Opened, writes := True\<rparr>],
      trace = replicate 11 Silent\<rparr> cs = Some T"
  shows "fifo_reach 2 T"
proof -
  have "run (boot fresh 2) (open_pair @ cs) = Some T"
    using assms by (simp add: run_append open_pair_run)
  then show ?thesis using fresh_reach by (rule run_reaches)
qed

section \<open>Safety of every interleaving\<close>

text \<open>
  C4 (fifo_mutual_exclusion): of the processes inside the sections that fifo.c brackets with
  \<open>down_interruptible(&mutex)\<close> and \<open>up(&mutex)\<close>, there is never more than one, whatever the
  schedule, the signals and the calls.
\<close>

theorem fifo_mutual_exclusion:
  assumes "fifo_reach n S" and "i < length (procs S)" "j < length (procs S)"
    and "in_cs (pc (procs S ! i))" "in_cs (pc (procs S ! j))"
  shows "i = j"
proof (rule ccontr)
  assume "i \<noteq> j"
  then have "2 \<le> count_if (\<lambda>p. in_cs (pc p)) (procs S)" using assms by (intro count_if_two [of i _ j]) auto
  with fifo_reach_inv [OF assms(1)] show False by (simp add: system_inv_def)
qed

theorem fifo_mutual_exclusion_witness:
  "\<exists>S. fifo_reach 2 S \<and> in_cs (pc (procs S ! 0)) \<and> (\<forall>j. in_cs (pc (procs S ! j)) \<and> j < length (procs S) \<longleftrightarrow> j = 0)"
proof -
  let ?S = "boot fresh 2\<lparr>mem := fresh\<lparr>mutex := 0\<rparr>,
    procs := [closed_proc\<lparr>pc := OpenCS, reads := True\<rparr>, closed_proc], trace := [Silent, Silent]\<rparr>"
  have "run (boot fresh 2) [(0, CallOpen True False), (0, Go)] = Some ?S"
    by (simp add: boot_def fresh_def closed_proc_def step_defs numeral_eq_Suc)
  then have r: "fifo_reach 2 ?S" using fresh_reach by (rule run_reaches)
  have 0: "in_cs (pc (procs ?S ! 0))" "0 < length (procs ?S)" by simp_all
  from fifo_mutual_exclusion [OF r 0(2) _ 0(1)] r 0 show ?thesis by (intro exI [of _ ?S]) metis
qed

text \<open>
  C5 (fifo_memory_safe): no step of any handler in any reachable state is undefined behaviour:
  every copy into and out of the ring and the kernel blocks stays inside its block, and the ring's
  remainders are never taken by zero.
\<close>

theorem fifo_memory_safe:
  assumes "fifo_reach n S" and "p \<in> set (procs S)"
  shows "proc_step c (mem S) p \<noteq> Fault"
proof -
  have ok: "ring_ok (mem S)" "proc_ok p"
    using fifo_reach_inv [OF assms(1)] assms(2) by (auto simp: system_inv_def)
  have r: "pc p = Loop AtRead \<Longrightarrow> read_body (len p) (kbuff p) (mem S) \<noteq> None"
    using ok by (auto simp: ring_ok_def proc_ok_def elim: read_body_cases [of "mem S" "len p" "kbuff p"])
  have w: "pc p = Loop AtWrite \<Longrightarrow> write_loop (len p) (kbuff p) (mem S) \<noteq> None"
    using ok by (auto simp: ring_ok_def proc_ok_def elim: write_loop_cases [of "mem S" "len p" "kbuff p"])
  show ?thesis
    using r w by (auto simp: proc_step_def open_step_def cond_wait_step_def read_step_def write_step_def
        release_step_def enter_def return_to_def intr_handler_def Let_def
        split: pc.splits site.splits choice.splits option.splits verdict.splits if_splits)
qed

theorem fifo_memory_safe_witness:
  "closed_proc \<in> set (procs (boot fresh 2)) \<and> proc_step (CallOpen True False) (mem (boot fresh 2)) closed_proc \<noteq> Fault"
  using fifo_memory_safe [OF fresh_reach, of closed_proc 2 "CallOpen True False"] by (simp add: boot_def)

text \<open>
  A process that holds the mutex can always take its next
  step, so the mutex is never held by a process that sleeps or is stuck.
\<close>

theorem fifo_critical_section_progress:
  assumes "fifo_reach n S" and "p \<in> set (procs S)" and "in_cs (pc p)"
  shows "\<exists>s' p' e. proc_step Go (mem S) p = Next (s', p', e)"
proof -
  have ok: "ring_ok (mem S)" "proc_ok p"
    using fifo_reach_inv [OF assms(1)] assms(2) by (auto simp: system_inv_def)
  have r: "pc p = Loop AtRead \<Longrightarrow> \<exists>x. read_body (len p) (kbuff p) (mem S) = Some x"
    using ok by (auto simp: ring_ok_def proc_ok_def elim: read_body_cases [of "mem S" "len p" "kbuff p"])
  have w: "pc p = Loop AtWrite \<Longrightarrow> \<exists>x. write_loop (len p) (kbuff p) (mem S) = Some x"
    using ok by (auto simp: ring_ok_def proc_ok_def elim: write_loop_cases [of "mem S" "len p" "kbuff p"])
  show ?thesis
    using r w assms(3)
    by (cases "pc p") (auto simp: proc_step_def open_step_def cond_wait_step_def read_step_def write_step_def
        release_step_def return_to_def intr_handler_def Let_def
        split: site.splits verdict.splits)
qed

theorem fifo_critical_section_progress_witness:
  "\<exists>S p. fifo_reach 2 S \<and> p \<in> set (procs S) \<and> in_cs (pc p) \<and> (\<exists>s' p' e. proc_step Go (mem S) p = Next (s', p', e))"
proof -
  let ?p = "closed_proc\<lparr>pc := OpenCS, reads := True\<rparr>"
  let ?S = "boot fresh 2\<lparr>mem := fresh\<lparr>mutex := 0\<rparr>, procs := [?p, closed_proc], trace := [Silent, Silent]\<rparr>"
  have "run (boot fresh 2) [(0, CallOpen True False), (0, Go)] = Some ?S"
    by (simp add: boot_def fresh_def closed_proc_def step_defs numeral_eq_Suc)
  then have r: "fifo_reach 2 ?S" using fresh_reach by (rule run_reaches)
  have p: "?p \<in> set (procs ?S)" "in_cs (pc ?p)" by simp_all
  show ?thesis using fifo_critical_section_progress [OF r p] r p by blast
qed

section \<open>Delivery, counts and wake-ups\<close>

text \<open>
  C6 (fifo_delivers_in_order): at every moment, the bytes that reads have taken (and the last close
  has discarded), followed by what is in the ring, are exactly the bytes that writes have
  inserted, in order; nothing is lost, duplicated or overwritten, and the ring never holds more
  than its 512 bytes.
\<close>

theorem fifo_delivers_in_order:
  assumes "fifo_reach n S" and "n < 2 ^ 31"
  shows "concat (map bytes_out (trace S)) @ contents (buf (mem S)) = concat (map bytes_in (trace S))
       \<and> length (contents (buf (mem S))) \<le> 512"
proof -
  have inv: "system_inv S" "length (procs S) = n" using fifo_reach_inv [OF assms(1)] by auto
  then have "unat (cb_size (buf (mem S))) \<le> unat BUF_LEN"
    by (auto simp: system_inv_def ring_ok_def cb_wf_def)
  with inv assms(2) show ?thesis by (simp add: system_inv_def BUF_LEN_def)
qed

definition byte_exchange :: "(nat \<times> choice) list" where
  "byte_exchange = [(Suc 0, CallWrite [7] True 0), (Suc 0, Go), (Suc 0, Go), (Suc 0, Go),
     (0, CallRead 1 (Some [0])), (0, Go), (0, Go)]"

lemma fresh_ring_fields [simp]: "cb_size fresh_ring = 0" "cb_max fresh_ring = BUF_LEN" "cb_head fresh_ring = 0"
  by (simp_all add: fresh_ring_def)

lemma insert_byte:
  "insert_items_cbuffer_t fresh_ring [x] 1 = Some (fresh_ring\<lparr>cb_data := x # replicate 511 0, cb_size := 1\<rparr>)"
proof -
  have "memcpy (replicate 512 0) 0 [x] 1 = Some (x # replicate 511 0)"
    by (simp add: memcpy_def drop_replicate)
  then show ?thesis by (simp add: insert_items_cbuffer_t_def fresh_ring_def BUF_LEN_def)
qed

lemma remove_byte:
  "remove_items_cbuffer_t (fresh_ring\<lparr>cb_data := x # d, cb_size := 1\<rparr>) [y] 1
     = Some (fresh_ring\<lparr>cb_data := x # d, cb_head := 1, cb_size := 0\<rparr>, [x])"
  by (simp add: remove_items_cbuffer_t_def fresh_ring_def BUF_LEN_def at_offset_def memcpy_def)

lemma byte_exchange_run:
  "\<exists>S. run \<lparr>mem = fresh\<lparr>num_prod := 1, num_cons := 1\<rparr>,
      procs = [closed_proc\<lparr>pc := Opened, reads := True\<rparr>, closed_proc\<lparr>pc := Opened, writes := True\<rparr>],
      trace = replicate 11 Silent\<rparr> byte_exchange = Some S
    \<and> concat (map bytes_in (trace S)) = [7]"
  by (simp add: byte_exchange_def step_defs closed_proc_def fresh_def BUF_LEN_def insert_byte remove_byte
      map_replicate_const)

theorem fifo_delivers_in_order_witness:
  "\<exists>S. fifo_reach 2 S \<and> concat (map bytes_in (trace S)) = [7]
     \<and> concat (map bytes_out (trace S)) @ contents (buf (mem S)) = [7]"
proof -
  obtain S where S: "fifo_reach 2 S" "concat (map bytes_in (trace S)) = [7]"
    using byte_exchange_run run_from_open_pair by blast
  with fifo_delivers_in_order [OF S(1)] show ?thesis by (intro exI [of _ S]) simp
qed

text \<open>
  C7 (fifo_user_counts): \<open>num_cons\<close> and \<open>num_prod\<close> are the numbers of processes that \<open>fifo_open\<close> has
  counted as readers and as writers and that no undo or completed release has taken off again.
\<close>

theorem fifo_user_counts:
  assumes "fifo_reach n S"
  shows "num_cons (mem S) = of_nat (count_if (registered True) (procs S))
       \<and> num_prod (mem S) = of_nat (count_if (registered False) (procs S))"
proof -
  have "users r (mem S) = of_nat (count_if (registered r) (procs S))" for r
    using fifo_reach_inv [OF assms] by (simp add: system_inv_def)
  from this [of True] this [of False] show ?thesis by simp
qed

theorem fifo_user_counts_witness:
  "\<exists>S. fifo_reach 2 S \<and> num_cons (mem S) = 1 \<and> count_if (registered True) (procs S) = 1
     \<and> num_cons (mem S) = of_nat (count_if (registered True) (procs S))"
proof -
  obtain S where S: "run (boot fresh 2) open_pair = Some S" "num_cons (mem S) = 1"
    "count_if (registered True) (procs S) = 1"
    using open_pair_run by (simp add: registered_def closed_proc_def)
  then have r: "fifo_reach 2 S" using run_reaches fresh_reach by blast
  with S fifo_user_counts [OF r] show ?thesis by blast
qed

text \<open>
  C8 (fifo_wakeup_balance): for each queue, the counter of sleepers plus the tokens in the
  semaphore is the number of processes between \<open>cond_wait\<close>'s \<open>count++\<close> and the moment they take a
  token or count themselves out.  In particular, right after a broadcast, when the counter is
  zero, there is a token for every waiting process.
\<close>

theorem fifo_wakeup_balance:
  assumes "fifo_reach n S"
  shows "num_bloq_cons (mem S) + of_nat (cola_cons (mem S)) = of_nat (count_if (waiting ConsQ) (procs S))
       \<and> num_bloq_prod (mem S) + of_nat (cola_prod (mem S)) = of_nat (count_if (waiting ProdQ) (procs S))"
proof -
  have "credit q (mem S) = of_nat (count_if (waiting q) (procs S))" for q
    using fifo_reach_inv [OF assms] by (simp add: system_inv_def)
  from this [of ConsQ] this [of ProdQ] show ?thesis by (simp add: credit_def)
qed

text \<open>Process 0 opens for reading and sleeps until there is a writer.\<close>

definition open_alone :: "(nat \<times> choice) list" where
  "open_alone = [(0, CallOpen True False), (0, Go), (0, Go), (0, Go)]"

lemma open_alone_run:
  "run (boot fresh (Suc n)) open_alone = Some
     \<lparr>mem = fresh\<lparr>num_cons := 1, num_bloq_cons := 1\<rparr>,
      procs = closed_proc\<lparr>pc := Sleep AtOpen, reads := True\<rparr> # replicate n closed_proc,
      trace = replicate 4 Silent\<rparr>"
  by (simp add: open_alone_def boot_def fresh_def closed_proc_def step_defs numeral_eq_Suc)

theorem fifo_wakeup_balance_witness:
  "\<exists>S. fifo_reach 1 S \<and> num_bloq_cons (mem S) = 1 \<and> cola_cons (mem S) = 0
     \<and> num_bloq_cons (mem S) + of_nat (cola_cons (mem S)) = of_nat (count_if (waiting ConsQ) (procs S))"
proof -
  obtain S where S: "run (boot fresh 1) open_alone = Some S" "num_bloq_cons (mem S) = 1" "cola_cons (mem S) = 0"
    using open_alone_run [of 0] by (simp add: fresh_def)
  then have r: "fifo_reach 1 S" using run_reaches fresh_reach by blast
  with S fifo_wakeup_balance [OF r] show ?thesis by blast
qed

section \<open>What a request returns\<close>

text \<open>
  C9 (fifo_read_outcome): with the mutex taken, a read of \<open>l\<close> bytes returns 0 when the ring is empty
  and there is no writer; sleeps when the ring holds fewer than \<open>l\<close> bytes; and otherwise takes
  exactly the \<open>l\<close> oldest bytes into its block and wakes the sleeping writers.
\<close>

theorem fifo_read_outcome:
  assumes "ring_ok s" and "unat l \<le> length k"
  shows "\<exists>b. read_body l k s = Some
      (if num_prod s = 0 \<and> contents (buf s) = [] then (up_mutex s, k, Return 0)
       else if length (contents (buf s)) < unat l then (cond_wait_enter ConsQ s, k, Wait)
       else (up_mutex (wake ProdQ (s\<lparr>buf := b\<rparr>)), take (unat l) (contents (buf s)) @ drop (unat l) k, Finish))
    \<and> contents b = drop (unat l) (contents (buf s)) \<and> cb_max b = BUF_LEN"
proof -
  have wf: "cb_wf (buf s)" "cb_max (buf s) = BUF_LEN" using assms(1) by (simp_all add: ring_ok_def)
  have short: "\<exists>b. contents b = drop (unat l) (contents (buf s)) \<and> cb_max b = BUF_LEN"
    if "length (contents (buf s)) < unat l"
    using that wf(2) contents_reset [of "buf s"] by (intro exI [of _ "(buf s)\<lparr>cb_size := 0\<rparr>"]) simp
  show ?thesis
  proof (cases rule: read_body_cases [OF wf(1) assms(2), case_names eof wait finish])
    case eof
    then show ?thesis using wf(2) by (intro exI [of _ "buf s"]) simp
  next
    case wait
    with short obtain b where "contents b = drop (unat l) (contents (buf s))" "cb_max b = BUF_LEN" by auto
    with wait show ?thesis by (intro exI [of _ b]) auto
  next
    case (finish b)
    then show ?thesis using wf(2) by (intro exI [of _ b]) (auto simp del: wake_eq)
  qed
qed

theorem fifo_read_outcome_witness:
  "ring_ok fresh \<and> read_body 3 [0, 0, 0] fresh = Some (up_mutex fresh, [0, 0, 0], Return 0)"
proof -
  have "unat (3 :: u32) \<le> length [0, 0, 0 :: u8]" by simp
  from fifo_read_outcome [OF fresh_ring_ok this] fresh_contents fresh_ring_ok show ?thesis
    by (simp add: fresh_def)
qed

text \<open>
  With the mutex taken, a write of \<open>l\<close> bytes fails with \<open>EPIPE\<close> when there is
  no reader; sleeps when the ring has fewer than \<open>l\<close> free bytes; and otherwise appends all \<open>l\<close>
  bytes in one piece and wakes the sleeping readers.
\<close>

theorem fifo_write_outcome:
  assumes "ring_ok s" and "unat l \<le> length k" and "unat l \<le> 512" and "0 \<le> sint (num_cons s)"
  shows "\<exists>b. write_loop l k s = Some
      (if num_cons s = 0 then (up_mutex s, Return (- EPIPE))
       else if 512 < length (contents (buf s)) + unat l then (cond_wait_enter ProdQ s, Wait)
       else (up_mutex (wake ConsQ (s\<lparr>buf := b\<rparr>)), Finish))
    \<and> contents b = drop (length (contents (buf s)) + unat l - 512) (contents (buf s) @ take (unat l) k)
    \<and> cb_wf b"
proof -
  have wf: "cb_wf (buf s)" and max: "unat (cb_max (buf s)) = 512"
    using assms(1) by (simp_all add: ring_ok_def BUF_LEN_def)
  have pos: "num_cons s \<noteq> 0 \<longleftrightarrow> 0 < sint (num_cons s)"
    using assms(4) by (metis le_less less_irrefl signed_eq_0_iff)
  obtain b where b: "cb_wf b"
    "contents b = drop (length (contents (buf s)) + unat l - 512) (contents (buf s) @ take (unat l) k)"
    using insert_items_refines [OF wf _ assms(2)] assms(3) unfolding max by auto
  show ?thesis
    by (rule write_loop_cases [OF wf assms(2), unfolded max, OF assms(3)])
       (use b pos in \<open>auto simp del: wake_eq drop_append\<close>)
qed

theorem fifo_write_outcome_witness:
  "ring_ok fresh \<and> write_loop 1 [7] fresh = Some (up_mutex fresh, Return (- EPIPE))"
proof -
  have "unat (1 :: u32) \<le> length [7 :: u8]" "unat (1 :: u32) \<le> 512" "0 \<le> sint (num_cons fresh)"
    by (simp_all add: fresh_def)
  from fifo_write_outcome [OF fresh_ring_ok this] fresh_ring_ok show ?thesis
    by (simp add: fresh_def)
qed

section \<open>Executions outside the documented contract\<close>

text \<open>
  A reader sleeps for data, the only writer closes, and
  \<open>fifo_release\<close> wakes nobody.  The ring is empty and there is no writer, so the read would return
  end of file if it ran, as the header comment asks for, but it has no token and stays asleep.
\<close>

theorem fifo_last_writer_leaves_reader_asleep:
  "\<exists>S. fifo_reach 2 S \<and> pc (procs S ! 0) = Sleep AtRead \<and> pc (procs S ! 1) = Closed
     \<and> num_prod (mem S) = 0 \<and> contents (buf (mem S)) = []
     \<and> read_body (len (procs S ! 0)) (kbuff (procs S ! 0)) (mem S)
         = Some (up_mutex (mem S), kbuff (procs S ! 0), Return 0)
     \<and> proc_step Go (mem S) (procs S ! 0) = Blocked"
proof -
  let ?cs = "[(0, CallRead 1 (Some [0])), (0, Go), (0, Go), (Suc 0, CallRelease), (Suc 0, Go), (Suc 0, Go)]"
  obtain S where S: "run \<lparr>mem = fresh\<lparr>num_prod := 1, num_cons := 1\<rparr>,
      procs = [closed_proc\<lparr>pc := Opened, reads := True\<rparr>, closed_proc\<lparr>pc := Opened, writes := True\<rparr>],
      trace = replicate 11 Silent\<rparr> ?cs = Some S"
    "mem S = fresh\<lparr>num_cons := 1, num_bloq_cons := 1\<rparr>"
    "procs S = [closed_proc\<lparr>pc := Sleep AtRead, reads := True, len := 1, kbuff := [0]\<rparr>,
       closed_proc\<lparr>writes := True\<rparr>]"
    by (simp add: step_defs closed_proc_def fresh_def BUF_LEN_def)
  then have "fifo_reach 2 S" using run_from_open_pair by blast
  then show ?thesis
    by (intro exI [of _ S]) (simp add: S(2,3) closed_proc_def fresh_def step_defs contents_def)
qed

text \<open>
  A signal while \<open>fifo_release\<close> waits for the mutex makes it
  return \<open>-EINTR\<close> before \<open>num_cons--\<close>.  The file is gone all the same, so no process has the device
  open for reading, but a writer passes the test that should give it \<open>EPIPE\<close>.
\<close>

theorem fifo_interrupted_close_keeps_count:
  "\<exists>S. fifo_reach 2 S \<and> pc (procs S ! 0) = Orphan \<and> ret (procs S ! 0) = - EINTR
     \<and> \<not> reads (procs S ! 1) \<and> num_cons (mem S) = 1
     \<and> pc (procs S ! 1) = Opened \<and> ret (procs S ! 1) = 1 \<and> concat (map bytes_in (trace S)) = [7]"
proof -
  let ?cs = "[(0, CallRelease), (0, Signal), (Suc 0, CallWrite [7] True 0), (Suc 0, Go), (Suc 0, Go), (Suc 0, Go)]"
  obtain S where "run \<lparr>mem = fresh\<lparr>num_prod := 1, num_cons := 1\<rparr>,
      procs = [closed_proc\<lparr>pc := Opened, reads := True\<rparr>, closed_proc\<lparr>pc := Opened, writes := True\<rparr>],
      trace = replicate 11 Silent\<rparr> ?cs = Some S"
    "pc (procs S ! 0) = Orphan" "ret (procs S ! 0) = - EINTR" "\<not> reads (procs S ! 1)" "num_cons (mem S) = 1"
    "pc (procs S ! 1) = Opened" "ret (procs S ! 1) = 1" "concat (map bytes_in (trace S)) = [7]"
    by (simp add: step_defs closed_proc_def fresh_def BUF_LEN_def insert_byte map_replicate_const)
  then show ?thesis using run_from_open_pair by blast
qed

text \<open>
  A reader is interrupted in \<open>cond_wait\<close>, and before it takes
  the mutex a writer's open counts all sleepers out with a broadcast.  The reader then counts
  itself out a second time: the counter is -1, and the next broadcast runs through the whole range
  of \<open>int\<close>, adding 4294967295 tokens to the queue.
\<close>

theorem fifo_interrupted_wait_underflows:
  "\<exists>S T. fifo_reach 3 S \<and> num_bloq_cons (mem S) = -1 \<and> cola_cons (mem S) = 1
     \<and> fifo_step S T \<and> cola_cons (mem T) = 1 + 4294967295"
proof -
  let ?cs = "open_alone @ [(0, Signal), (Suc 0, CallOpen False True), (Suc 0, Go), (Suc 0, Go), (Suc 0, Go),
    (0, Go), (0, Go), (2, CallOpen False True), (2, Go)]"
  obtain S where S: "run (boot fresh 3) ?cs = Some S" "num_bloq_cons (mem S) = -1" "cola_cons (mem S) = 1"
    "procs S ! 2 = closed_proc\<lparr>pc := OpenCS, writes := True\<rparr>" "length (procs S) = 3"
    using open_alone_run [of 2]
    by (simp add: run_append step_defs closed_proc_def fresh_def numeral_eq_Suc)
  then have r: "fifo_reach 3 S" using run_reaches fresh_reach by blast
  let ?p = "closed_proc\<lparr>pc := Loop AtOpen, writes := True\<rparr>"
  let ?T = "S\<lparr>mem := open_register False (mem S), procs := (procs S)[2 := ?p], trace := trace S @ [Silent]\<rparr>"
  have "proc_step Go (mem S) (procs S ! 2) = Next (open_register False (mem S), ?p, Silent)"
    by (simp add: S(4) closed_proc_def proc_step_def open_step_def)
  then have step: "fifo_step S ?T" using S(5) by (intro fifo_step.proc) simp_all
  have m1: "unat (- 1 :: s32) = 4294967295"
    by (simp add: unsigned_minus_1_eq_mask mask_eq_exp_minus_1)
  have "cola_cons (mem ?T) = 1 + 4294967295"
    using S(2,3) by (simp add: open_register_def m1)
  with r S(2,3) step show ?thesis by (intro exI [of _ S] exI [of _ ?T]) simp
qed

end
