(* ===== verification/CStrings.thy ===== *)
theory CStrings
  imports Prelude
begin

text \<open>
  C strings in byte blocks: the functions of string.h that the code calls, each undefined
  (\<^const>\<open>None\<close>) when it would read past the end of the block it is given, and the string that a
  field of bounded size represents.
\<close>

section \<open>The library functions\<close>

fun strlen :: "u8 list \<Rightarrow> nat option" where
  "strlen [] = None"
| "strlen (c # cs) = (if c = 0 then Some 0 else map_option Suc (strlen cs))"

fun strncmp :: "nat \<Rightarrow> u8 list \<Rightarrow> u8 list \<Rightarrow> int option" where
  "strncmp 0 xs ys = Some 0"
| "strncmp (Suc n) (x # xs) (y # ys) =
     (if x \<noteq> y then Some (uint x - uint y) else if x = 0 then Some 0 else strncmp n xs ys)"
| "strncmp (Suc n) _ _ = None"

text \<open>The \<open>n\<close> bytes that \<open>strncpy\<close> writes: the string, padded with NUL.\<close>

fun strncpy :: "nat \<Rightarrow> u8 list \<Rightarrow> u8 list option" where
  "strncpy 0 xs = Some []"
| "strncpy (Suc n) [] = None"
| "strncpy (Suc n) (x # xs) =
     (if x = 0 then Some (replicate (Suc n) 0) else map_option ((#) x) (strncpy n xs))"

text \<open>String literals; the terminating NUL is written out where the literal is used as an array.\<close>

definition bytes_of :: "string \<Rightarrow> u8 list" where
  "bytes_of s = map of_char s"

section \<open>Bounded strings\<close>

text \<open>What \<open>strncmp\<close>, \<open>strncpy\<close> and \<open>%.ns\<close> see of a block: at most \<open>n\<close> bytes, up to a NUL.\<close>

definition cname :: "nat \<Rightarrow> u8 list \<Rightarrow> u8 list" where
  "cname n xs = takeWhile (\<lambda>c. c \<noteq> 0) (take n xs)"

definition readable :: "nat \<Rightarrow> u8 list \<Rightarrow> bool" where
  "readable n xs \<longleftrightarrow> n \<le> length xs \<or> 0 \<in> set xs"

lemma cname_0 [simp]: "cname 0 xs = []" and cname_Nil [simp]: "cname n [] = []"
  and cname_Suc [simp]: "cname (Suc n) (x # xs) = (if x = 0 then [] else x # cname n xs)"
  by (simp_all add: cname_def)

lemma readable_0 [simp]: "readable 0 xs" and readable_Nil [simp]: "readable (Suc n) [] \<longleftrightarrow> False"
  and readable_Suc [simp]: "readable (Suc n) (x # xs) \<longleftrightarrow> x = 0 \<or> readable n xs"
  by (auto simp: readable_def)

lemma cname_length: "length (cname n xs) \<le> n"
  unfolding cname_def by (rule order_trans [OF length_takeWhile_le]) simp

lemma cname_nonzero: "0 \<notin> set (cname n xs)"
  by (auto simp: cname_def dest: set_takeWhileD)

lemma cname_string: "0 \<notin> set xs \<Longrightarrow> length xs \<le> n \<Longrightarrow> cname n (xs @ 0 # ys) = xs"
  by (cases "length xs = n") (auto simp: cname_def take_Cons' takeWhile_tail takeWhile_append)

lemma strncmp_readable:
  "readable n xs \<Longrightarrow> readable n ys \<Longrightarrow> \<exists>r. strncmp n xs ys = Some r \<and> (r = 0 \<longleftrightarrow> cname n xs = cname n ys)"
  by (induction n xs ys rule: strncmp.induct) (auto simp: word_uint_eq_iff)

lemma strncpy_readable:
  "readable n xs \<Longrightarrow> \<exists>d. strncpy n xs = Some d \<and> length d = n \<and> cname n d = cname n xs"
proof (induction n xs rule: strncpy.induct)
  case (3 n x xs)
  then show ?case by (cases "x = 0") auto
qed auto

lemma strlen_Some: "0 \<in> set xs \<Longrightarrow> strlen xs = Some (length (takeWhile (\<lambda>c. c \<noteq> 0) xs))"
  by (induction xs) auto

lemma strlen_lt: "strlen xs = Some n \<Longrightarrow> n < length xs \<and> xs ! n = 0 \<and> (\<forall>i < n. xs ! i \<noteq> 0)"
proof (induction xs arbitrary: n)
  case (Cons c cs)
  show ?case
  proof (cases "c = 0")
    case False
    then obtain m where m: "n = Suc m" "strlen cs = Some m" using Cons.prems by auto
    have "(c # cs) ! i \<noteq> 0" if "i < n" for i
      using that m Cons.IH [OF m(2)] False by (cases i) auto
    then show ?thesis using m Cons.IH [OF m(2)] by auto
  qed (use Cons.prems in auto)
qed simp

section \<open>Decimal text\<close>

text \<open>What \<open>%d\<close> and \<open>%i\<close> print.\<close>

fun digits :: "nat \<Rightarrow> u8 list" where
  "digits n = (if n < 10 then [48 + of_nat n] else digits (n div 10) @ [48 + of_nat (n mod 10)])"

declare digits.simps [simp del]

definition decimal :: "s32 \<Rightarrow> u8 list" where
  "decimal d = (if sint d < 0 then 45 # digits (nat (- sint d)) else digits (nat (sint d)))"

lemma digits_length: "n < 10 ^ k \<Longrightarrow> 0 < k \<Longrightarrow> length (digits n) \<le> k"
proof (induction n arbitrary: k rule: digits.induct)
  case (1 n)
  show ?case
  proof (cases "n < 10")
    case True
    then show ?thesis using 1 by (simp add: digits.simps [of n])
  next
    case False
    obtain j where k: "k = Suc j" using 1(3) by (cases k) auto
    have "j \<noteq> 0" using 1(2) False k by (intro notI) simp
    with k have j: "k = Suc j" "0 < j" by simp_all
    then have "n div 10 < 10 ^ j" using 1 by (simp add: less_mult_imp_div_less mult.commute)
    then show ?thesis using 1(1) [OF False _ j(2)] False j by (simp add: digits.simps [of n])
  qed
qed

lemma decimal_length: "length (decimal d) \<le> 11"
proof -
  have "- (2 ^ 31) \<le> sint d" "sint d < 2 ^ 31" using sint_ge [of d] sint_lt [of d] by simp_all
  then have "nat (- sint d) < 10 ^ 10" "nat (sint d) < 10 ^ 10" by auto
  then have "length (digits (nat (- sint d))) \<le> 10" "length (digits (nat (sint d))) \<le> 10"
    by (auto intro!: digits_length)
  then show ?thesis by (simp add: decimal_def)
qed

end
