(* ===== verification/Tables.thy ===== *)
theory Tables
  imports Prelude
begin

text \<open>
  The contract of a bounded table of named entries: adding under a new name while there is room,
  deleting and looking up behave like the operations of a finite map.  The client's view of a
  whole history of calls follows from the laws of the single calls.
\<close>

datatype ('n, 'v) table_op = Add 'n 'v | Del 'n

text \<open>A run of calls, with what each reported.\<close>

fun run_table ::
  "('n \<Rightarrow> 'v \<Rightarrow> 's \<Rightarrow> ('s \<times> bool) option) \<Rightarrow> ('n \<Rightarrow> 's \<Rightarrow> ('s \<times> bool) option) \<Rightarrow> ('n, 'v) table_op list \<Rightarrow> 's
     \<Rightarrow> ('s \<times> bool list) option" where
  "run_table add del [] s = Some (s, [])"
| "run_table add del (Add n v # ops) s = do {
     (s1, r) \<leftarrow> add n v s; (s2, rs) \<leftarrow> run_table add del ops s1; Some (s2, r # rs) }"
| "run_table add del (Del n # ops) s = do {
     (s1, r) \<leftarrow> del n s; (s2, rs) \<leftarrow> run_table add del ops s1; Some (s2, r # rs) }"

text \<open>The same run on a finite map with at most \<open>cap\<close> names.\<close>

fun map_table :: "nat \<Rightarrow> ('n \<Rightarrow> 'k) \<Rightarrow> ('n, 'v) table_op list \<Rightarrow> ('k \<rightharpoonup> 'v) \<Rightarrow> ('k \<rightharpoonup> 'v) \<times> bool list" where
  "map_table cap key [] m = (m, [])"
| "map_table cap key (Add n v # ops) m =
     (let r = (m (key n) = None \<and> card (dom m) < cap);
          (m', rs) = map_table cap key ops (if r then m(key n \<mapsto> v) else m)
      in (m', r # rs))"
| "map_table cap key (Del n # ops) m =
     (let (m', rs) = map_table cap key ops (m(key n := None)) in (m', (m (key n) \<noteq> None) # rs))"

fun op_name :: "('n, 'v) table_op \<Rightarrow> 'n" where
  "op_name (Add n v) = n"
| "op_name (Del n) = n"

locale name_table =
  fixes ok :: "'s \<Rightarrow> bool" and dict :: "'s \<Rightarrow> 'k \<rightharpoonup> 'v" and cap :: nat
    and valid :: "'n \<Rightarrow> bool" and key :: "'n \<Rightarrow> 'k"
    and add :: "'n \<Rightarrow> 'v \<Rightarrow> 's \<Rightarrow> ('s \<times> bool) option" and del :: "'n \<Rightarrow> 's \<Rightarrow> ('s \<times> bool) option"
  assumes add_law: "ok s \<Longrightarrow> valid n \<Longrightarrow>
      \<exists>s' r. add n v s = Some (s', r) \<and> ok s' \<and> (r \<longleftrightarrow> dict s (key n) = None \<and> card (dom (dict s)) < cap)
        \<and> dict s' = (if r then (dict s)(key n \<mapsto> v) else dict s)"
    and del_law: "ok s \<Longrightarrow> valid n \<Longrightarrow>
      \<exists>s' r. del n s = Some (s', r) \<and> ok s' \<and> (r \<longleftrightarrow> dict s (key n) \<noteq> None)
        \<and> dict s' = (dict s)(key n := None)"
begin

lemma run_is_map:
  "ok s \<Longrightarrow> \<forall>x \<in> set ops. valid (op_name x) \<Longrightarrow>
   \<exists>s' rs. run_table add del ops s = Some (s', rs) \<and> ok s' \<and> map_table cap key ops (dict s) = (dict s', rs)"
proof (induction ops arbitrary: s)
  case Nil
  then show ?case by simp
next
  case (Cons a ops)
  show ?case
  proof (cases a)
    case (Add n v)
    then obtain s1 r where s1: "add n v s = Some (s1, r)" "ok s1"
      "r \<longleftrightarrow> dict s (key n) = None \<and> card (dom (dict s)) < cap"
      "dict s1 = (if r then (dict s)(key n \<mapsto> v) else dict s)"
      using add_law [of s n v] Cons.prems by auto
    from Cons.IH [OF s1(2)] Cons.prems obtain s2 rs where
      "run_table add del ops s1 = Some (s2, rs)" "ok s2" "map_table cap key ops (dict s1) = (dict s2, rs)"
      by auto
    with s1 Add show ?thesis by (auto simp: Let_def)
  next
    case (Del n)
    then obtain s1 r where s1: "del n s = Some (s1, r)" "ok s1"
      "r \<longleftrightarrow> dict s (key n) \<noteq> None" "dict s1 = (dict s)(key n := None)"
      using del_law [of s n] Cons.prems by auto
    from Cons.IH [OF s1(2)] Cons.prems obtain s2 rs where
      "run_table add del ops s1 = Some (s2, rs)" "ok s2" "map_table cap key ops (dict s1) = (dict s2, rs)"
      by auto
    with s1 Del show ?thesis by auto
  qed
qed

end

end
