(* ===== verification/Kifs.thy ===== *)
theory Kifs
  imports CStrings Tables
begin

text \<open>
  The kifs interface of opcional2/kernel/kifs.c and include/linux/kifs.h: the table of named
  entries, the two built-in entries \<open>list\<close> and \<open>clipboard\<close>, and the system call that dispatches to
  the callbacks.  The lists of list.h are lists of indices into \<open>entry_buff\<close>.  Every function is
  given first in the pieces between which another processor can run (the spinlock is held within
  a piece), then as a whole.
\<close>

section \<open>Data\<close>

definition MAX_KIFS_ENTRY_NAME_SIZE :: nat where "MAX_KIFS_ENTRY_NAME_SIZE = 50"
definition MAX_KIFS_ENTRY :: nat where "MAX_KIFS_ENTRY = 10"
definition CLIP_SIZE :: nat where "CLIP_SIZE = 50"
definition KIFS_READ_OP :: u32 where "KIFS_READ_OP = 0"
definition KIFS_WRITE_OP :: u32 where "KIFS_WRITE_OP = 1"

text \<open>The callbacks: those of this file and those that other modules register.\<close>

datatype read_kifs_t = list_kifs | clipboard_kifs_read | other_read nat
datatype write_kifs_t = clipboard_kifs_write | other_write nat

record kifs_entry =
  entryname :: "u8 list"
  read_kifs :: "read_kifs_t option"
  write_kifs :: "write_kifs_t option"
  data :: nat

record kifs =
  entry_buff :: "kifs_entry list"
  clipboard :: "u8 list"
  entry_list :: "nat list"
  num_entry :: u32
  free_list :: "nat list"

section \<open>The table of entries\<close>

text \<open>\<open>list_for_each_entry\<close> with the test on the name that the caller gives.\<close>

fun find_entry :: "(u8 list \<Rightarrow> int option) \<Rightarrow> kifs_entry list \<Rightarrow> nat list \<Rightarrow> nat option option" where
  "find_entry cmp buff [] = Some None"
| "find_entry cmp buff (i # is) = do {
     r \<leftarrow> cmp (entryname (buff ! i));
     if r = 0 then Some (Some i) else find_entry cmp buff is }"

text \<open>The result is \<open>NULL\<close> or the entry, by its index; the outer \<^const>\<open>None\<close> is a read past a string.\<close>

definition create_kifs_entry ::
  "u8 list \<Rightarrow> read_kifs_t option \<Rightarrow> write_kifs_t option \<Rightarrow> nat \<Rightarrow> kifs \<Rightarrow> (kifs \<times> nat option) option" where
  "create_kifs_entry name rd wr d s =
     (case free_list s of
        [] \<Rightarrow> Some (s, None)
      | e # rest \<Rightarrow> do {
          found \<leftarrow> find_entry (\<lambda>x. strncmp MAX_KIFS_ENTRY_NAME_SIZE x name) (entry_buff s) (entry_list s);
          (case found of
             Some _ \<Rightarrow> Some (s, None)
           | None \<Rightarrow> do {
               let s1 = s\<lparr>free_list := rest, entry_list := e # entry_list s, num_entry := num_entry s + 1\<rparr>;
               let ret = hd (entry_list s1);
               block \<leftarrow> strncpy MAX_KIFS_ENTRY_NAME_SIZE name;
               let entry = \<lparr>entryname = block, read_kifs = rd, write_kifs = wr, data = d\<rparr>;
               Some (s1\<lparr>entry_buff := (entry_buff s1)[ret := entry]\<rparr>, Some ret)
             })
        })"

definition remove_kifs_entry :: "u8 list \<Rightarrow> kifs \<Rightarrow> (kifs \<times> int) option" where
  "remove_kifs_entry name s = do {
     found \<leftarrow> find_entry (strncmp MAX_KIFS_ENTRY_NAME_SIZE name) (entry_buff s) (entry_list s);
     (case found of
        Some i \<Rightarrow> Some (s\<lparr>entry_list := remove1 i (entry_list s), free_list := i # free_list s,
                          num_entry := num_entry s - 1\<rparr>, 0)
      | None \<Rightarrow> Some (s, - EINVAL))
   }"

text \<open>The static variables as they are at boot, before \<open>init_kifs_entry_set\<close>.\<close>

definition zero_entry :: kifs_entry where
  "zero_entry = \<lparr>entryname = replicate MAX_KIFS_ENTRY_NAME_SIZE 0, read_kifs = None, write_kifs = None, data = 0\<rparr>"

definition kifs_static :: kifs where
  "kifs_static = \<lparr>entry_buff = replicate MAX_KIFS_ENTRY zero_entry, clipboard = replicate CLIP_SIZE 0,
     entry_list = [], num_entry = 0, free_list = []\<rparr>"

definition init_kifs_entry_set :: "kifs \<Rightarrow> kifs option" where
  "init_kifs_entry_set s = do {
     let s0 = s\<lparr>entry_buff := replicate MAX_KIFS_ENTRY zero_entry, clipboard := replicate CLIP_SIZE 0\<rparr>;
     let s1 = fold (\<lambda>i s. s\<lparr>free_list := i # free_list s\<rparr>) [0..<MAX_KIFS_ENTRY] s0;
     let s2 = s1\<lparr>num_entry := 0\<rparr>;
     (s3, _) \<leftarrow> create_kifs_entry (bytes_of ''list'' @ [0]) (Some list_kifs) None 0 s2;
     (s4, _) \<leftarrow> create_kifs_entry (bytes_of ''clipboard'' @ [0]) (Some clipboard_kifs_read)
       (Some clipboard_kifs_write) 0 s3;
     Some s4
   }"

section \<open>The built-in entries\<close>

text \<open>\<open>list_kifs\<close>: the size of its block, computed before the lock is taken.\<close>

definition list_kifs_size :: "u32 \<Rightarrow> kifs \<Rightarrow> u32" where
  "list_kifs_size maxchars s = min maxchars ((of_nat MAX_KIFS_ENTRY_NAME_SIZE + 2) * num_entry s)"

text \<open>\<open>sprintf(kbuff + used, "%.50s\n", name)\<close> writes the name, the newline and a NUL.\<close>

fun list_kifs_loop ::
  "int \<Rightarrow> kifs_entry list \<Rightarrow> nat list \<Rightarrow> int \<Rightarrow> u8 list \<Rightarrow> (int + int \<times> u8 list) option" where
  "list_kifs_loop buffsize buff [] used kbuff = Some (Inr (used, kbuff))"
| "list_kifs_loop buffsize buff (i # is) used kbuff =
     (if used + int MAX_KIFS_ENTRY_NAME_SIZE + 2 > buffsize then Some (Inl (- ENOSPC))
      else do {
        let text = cname MAX_KIFS_ENTRY_NAME_SIZE (entryname (buff ! i)) @ [10];
        kbuff' \<leftarrow> memcpy kbuff used (text @ [0]) (int (length text) + 1);
        list_kifs_loop buffsize buff is (used + int (length text)) kbuff'
      })"

text \<open>
  The rest of \<open>list_kifs\<close>, with the block \<open>vmalloc\<close> returned and the number of bytes that
  \<open>copy_to_user\<close> leaves out.  Results of the callbacks are the return value and the bytes that
  arrive in the user's buffer.
\<close>

definition list_kifs_fill :: "u32 \<Rightarrow> u8 list option \<Rightarrow> nat \<Rightarrow> kifs \<Rightarrow> (int \<times> u8 list) option" where
  "list_kifs_fill buffsize block u s =
     (case block of
        None \<Rightarrow> Some (- ENOMEM, [])
      | Some kbuff \<Rightarrow> do {
          r \<leftarrow> list_kifs_loop (sint buffsize) (entry_buff s) (entry_list s) 0 kbuff;
          (case r of
             Inl e \<Rightarrow> Some (e, [])
           | Inr (used, kbuff1) \<Rightarrow> do {
               kbuff2 \<leftarrow> write_at kbuff1 used 0;
               let used2 = used + 1;
               Some (used2 - int u, take (nat (used2 - int u)) kbuff2)
             })
        })"

definition clipboard_read_length :: "u32 \<Rightarrow> kifs \<Rightarrow> (int + nat) option" where
  "clipboard_read_length maxchars s = do {
     used \<leftarrow> strlen (clipboard s);
     Some (if of_nat used \<le> maxchars then Inr used else Inl (- ENOSPC)) }"

definition clipboard_read_copy :: "nat \<Rightarrow> nat \<Rightarrow> kifs \<Rightarrow> int \<times> u8 list" where
  "clipboard_read_copy used u s = (int used - int u, take (used - u) (clipboard s))"

text \<open>
  \<open>clipboard_kifs_write\<close>, up to the copy; \<open>bytes\<close> is what \<open>copy_from_user\<close> puts into the \<open>maxchars\<close>
  bytes it is asked for, of which the last \<open>u\<close> are not the user's.
\<close>

definition clipboard_write_copy :: "u32 \<Rightarrow> u8 list \<Rightarrow> nat \<Rightarrow> kifs \<Rightarrow> (kifs \<times> (int + int)) option" where
  "clipboard_write_copy maxchars bytes u s =
     (if maxchars < of_nat CLIP_SIZE then do {
        c \<leftarrow> memcpy (clipboard s) 0 bytes (uint maxchars);
        Some (s\<lparr>clipboard := c\<rparr>, Inr (uint maxchars - int u))
      } else Some (s, Inl (- ENOSPC)))"

definition clipboard_write_end :: "int \<Rightarrow> kifs \<Rightarrow> (kifs \<times> int) option" where
  "clipboard_write_end used s = do { c \<leftarrow> write_at (clipboard s) used 0; Some (s\<lparr>clipboard := c\<rparr>, used) }"

section \<open>The system call\<close>

text \<open>\<open>copied\<close> is what \<open>strncpy_from_user\<close> writes to the front of the zeroed \<open>kbuff\<close>.\<close>

definition sys_kifs_lookup :: "u8 list \<Rightarrow> kifs \<Rightarrow> nat option option" where
  "sys_kifs_lookup copied s = do {
     kbuff \<leftarrow> memcpy (replicate MAX_KIFS_ENTRY_NAME_SIZE 0) 0 copied (int (length copied));
     find_entry (\<lambda>x. strncmp MAX_KIFS_ENTRY_NAME_SIZE x kbuff) (entry_buff s) (entry_list s) }"

text \<open>
  The switch on \<open>op_mode\<close>, after the lock has been released.  The callback pointer of the entry is read
  twice, for the test against \<open>NULL\<close> and for the call.  The result of the test is the error to return.
\<close>

definition sys_kifs_test :: "u32 \<Rightarrow> kifs_entry \<Rightarrow> int option" where
  "sys_kifs_test op_mode elem =
     (if op_mode = KIFS_READ_OP then (if read_kifs elem = None then Some (- EPERM) else None)
      else if op_mode = KIFS_WRITE_OP then (if write_kifs elem = None then Some (- EPERM) else None)
      else Some (- EINVAL))"

text \<open>The callback that is called; \<^const>\<open>None\<close> is a call through \<open>NULL\<close>.\<close>

datatype kifs_callback = Reads read_kifs_t | Writes write_kifs_t

definition sys_kifs_callback :: "u32 \<Rightarrow> kifs_entry \<Rightarrow> kifs_callback option" where
  "sys_kifs_callback op_mode elem =
     (if op_mode = KIFS_READ_OP then map_option Reads (read_kifs elem) else map_option Writes (write_kifs elem))"

text \<open>
  What the environment supplies to a call: the block of \<open>vmalloc\<close>, the user's bytes, how many bytes
  the user copy leaves out, and the behaviour of the callbacks of other modules.
\<close>

record kifs_env =
  vblock :: "u8 list option"
  ubytes :: "u8 list"
  residue :: nat
  ext_read :: "nat \<Rightarrow> u32 \<Rightarrow> nat \<Rightarrow> int \<times> u8 list"
  ext_write :: "nat \<Rightarrow> u32 \<Rightarrow> nat \<Rightarrow> int"

fun call_read :: "kifs_env \<Rightarrow> read_kifs_t \<Rightarrow> u32 \<Rightarrow> nat \<Rightarrow> kifs \<Rightarrow> (int \<times> u8 list) option" where
  "call_read v list_kifs maxchars d s = list_kifs_fill (list_kifs_size maxchars s) (vblock v) (residue v) s"
| "call_read v clipboard_kifs_read maxchars d s = do {
     r \<leftarrow> clipboard_read_length maxchars s;
     (case r of Inl e \<Rightarrow> Some (e, []) | Inr used \<Rightarrow> Some (clipboard_read_copy used (residue v) s)) }"
| "call_read v (other_read k) maxchars d s = Some (ext_read v k maxchars d)"

fun call_write :: "kifs_env \<Rightarrow> write_kifs_t \<Rightarrow> u32 \<Rightarrow> nat \<Rightarrow> kifs \<Rightarrow> (kifs \<times> int) option" where
  "call_write v clipboard_kifs_write maxchars d s = do {
     (s', r) \<leftarrow> clipboard_write_copy maxchars (ubytes v) (residue v) s;
     (case r of Inl e \<Rightarrow> Some (s', e) | Inr used \<Rightarrow> clipboard_write_end used s') }"
| "call_write v (other_write k) maxchars d s = Some (s, ext_write v k maxchars d)"

text \<open>\<open>sys_kifs\<close> when nothing else runs: the state, the return value, the bytes for the user.\<close>

definition sys_kifs :: "kifs_env \<Rightarrow> u8 list \<Rightarrow> u32 \<Rightarrow> u32 \<Rightarrow> kifs \<Rightarrow> (kifs \<times> int \<times> u8 list) option" where
  "sys_kifs v copied op_mode maxchars s = do {
     found \<leftarrow> sys_kifs_lookup copied s;
     (case found of
        None \<Rightarrow> Some (s, - EINVAL, [])
      | Some i \<Rightarrow>
          let elem = entry_buff s ! i in
          (case sys_kifs_test op_mode elem of
             Some e \<Rightarrow> Some (s, e, [])
           | None \<Rightarrow>
               (case sys_kifs_callback op_mode elem of
                  None \<Rightarrow> None
                | Some (Reads f) \<Rightarrow> do { (r, out) \<leftarrow> call_read v f maxchars (data elem) s; Some (s, r, out) }
                | Some (Writes f) \<Rightarrow> do { (s', r) \<leftarrow> call_write v f maxchars (data elem) s; Some (s', r, []) }))) }"

section \<open>Concurrent calls\<close>

text \<open>
  Where a processor is between two pieces of a call.  \<open>Found\<close> has looked the entry up and released the lock,
  \<open>Tested\<close> has tested its callback pointer, \<open>Calling\<close> has read the pointer again and not yet \<open>data\<close>.
\<close>

datatype kpc =
    Idle
  | Found nat u32 u32
  | Tested nat u32 u32
  | Calling kifs_callback nat u32
  | Reading read_kifs_t u32 nat
  | Writing write_kifs_t u32 nat
  | ListSized u32
  | ClipSized nat
  | ClipCopied int

text \<open>What a processor is asked to do, and what the environment supplies to the piece it runs.\<close>

datatype kcall =
    Create "u8 list" "read_kifs_t option" "write_kifs_t option" nat
  | Remove "u8 list"
  | Kifs "u8 list" u32 u32
  | Continue kifs_env

datatype kout = Running | Pointer "nat option" | Returned int "u8 list"

fun kifs_piece :: "kcall \<Rightarrow> kifs \<Rightarrow> kpc \<Rightarrow> (kifs \<times> kpc \<times> kout) result" where
  "kifs_piece (Create name rd wr d) s Idle =
     (if readable MAX_KIFS_ENTRY_NAME_SIZE name then
        (case create_kifs_entry name rd wr d s of
           None \<Rightarrow> Fault | Some (s', e) \<Rightarrow> Next (s', Idle, Pointer e))
      else Blocked)"
| "kifs_piece (Remove name) s Idle =
     (if readable MAX_KIFS_ENTRY_NAME_SIZE name then
        (case remove_kifs_entry name s of None \<Rightarrow> Fault | Some (s', r) \<Rightarrow> Next (s', Idle, Returned r []))
      else Blocked)"
| "kifs_piece (Kifs copied op maxchars) s Idle =
     (if length copied \<le> MAX_KIFS_ENTRY_NAME_SIZE then
        (case sys_kifs_lookup copied s of
           None \<Rightarrow> Fault
         | Some None \<Rightarrow> Next (s, Idle, Returned (- EINVAL) [])
         | Some (Some i) \<Rightarrow> Next (s, Found i op maxchars, Running))
      else Blocked)"
| "kifs_piece (Continue v) s (Found i op maxchars) =
     (case sys_kifs_test op (entry_buff s ! i) of
        Some e \<Rightarrow> Next (s, Idle, Returned e [])
      | None \<Rightarrow> Next (s, Tested i op maxchars, Running))"
| "kifs_piece (Continue v) s (Tested i op maxchars) =
     (case sys_kifs_callback op (entry_buff s ! i) of
        None \<Rightarrow> Fault
      | Some f \<Rightarrow> Next (s, Calling f i maxchars, Running))"
| "kifs_piece (Continue v) s (Calling (Reads f) i maxchars) =
     Next (s, Reading f maxchars (data (entry_buff s ! i)), Running)"
| "kifs_piece (Continue v) s (Calling (Writes f) i maxchars) =
     Next (s, Writing f maxchars (data (entry_buff s ! i)), Running)"
| "kifs_piece (Continue v) s (Reading list_kifs maxchars d) = Next (s, ListSized (list_kifs_size maxchars s), Running)"
| "kifs_piece (Continue v) s (ListSized n) =
     (if (case vblock v of None \<Rightarrow> True | Some k \<Rightarrow> n \<noteq> 0 \<and> length k = unat n)
      then (case list_kifs_fill n (vblock v) (residue v) s of
              None \<Rightarrow> Fault | Some (r, out) \<Rightarrow> Next (s, Idle, Returned r out))
      else Blocked)"
| "kifs_piece (Continue v) s (Reading clipboard_kifs_read maxchars d) =
     (case clipboard_read_length maxchars s of
        None \<Rightarrow> Fault
      | Some (Inl e) \<Rightarrow> Next (s, Idle, Returned e [])
      | Some (Inr used) \<Rightarrow> Next (s, ClipSized used, Running))"
| "kifs_piece (Continue v) s (ClipSized used) =
     (if residue v \<le> used
      then let (r, out) = clipboard_read_copy used (residue v) s in Next (s, Idle, Returned r out)
      else Blocked)"
| "kifs_piece (Continue v) s (Writing clipboard_kifs_write maxchars d) =
     (if length (ubytes v) = unat maxchars \<and> residue v \<le> unat maxchars then
        (case clipboard_write_copy maxchars (ubytes v) (residue v) s of
           None \<Rightarrow> Fault
         | Some (s', Inl e) \<Rightarrow> Next (s', Idle, Returned e [])
         | Some (s', Inr used) \<Rightarrow> Next (s', ClipCopied used, Running))
      else Blocked)"
| "kifs_piece (Continue v) s (ClipCopied used) =
     (case clipboard_write_end used s of None \<Rightarrow> Fault | Some (s', r) \<Rightarrow> Next (s', Idle, Returned r []))"
| "kifs_piece (Continue v) s (Reading (other_read k) maxchars d) =
     (let (r, out) = ext_read v k maxchars d in Next (s, Idle, Returned r out))"
| "kifs_piece (Continue v) s (Writing (other_write k) maxchars d) =
     Next (s, Idle, Returned (ext_write v k maxchars d) [])"
| "kifs_piece _ s _ = Blocked"

record kifs_system =
  kmem :: kifs
  cpus :: "kpc list"

inductive kifs_step :: "kifs_system \<Rightarrow> nat \<Rightarrow> kcall \<Rightarrow> kout \<Rightarrow> kifs_system \<Rightarrow> bool" where
  piece: "i < length (cpus S) \<Longrightarrow> kifs_piece c (kmem S) (cpus S ! i) = Next (s, p, out) \<Longrightarrow>
    kifs_step S i c out (S\<lparr>kmem := s, cpus := (cpus S)[i := p]\<rparr>)"

text \<open>\<open>complete\<close>: every entry that is created during the run has both callbacks.\<close>

fun complete_call :: "kcall \<Rightarrow> bool" where
  "complete_call (Create name rd wr d) \<longleftrightarrow> rd \<noteq> None \<and> wr \<noteq> None"
| "complete_call _ \<longleftrightarrow> True"

inductive kifs_reach :: "nat \<Rightarrow> bool \<Rightarrow> kifs_system \<Rightarrow> bool" for n complete where
  boot: "init_kifs_entry_set kifs_static = Some s \<Longrightarrow> kifs_reach n complete \<lparr>kmem = s, cpus = replicate n Idle\<rparr>"
| step: "kifs_reach n complete S \<Longrightarrow> kifs_step S i c out T \<Longrightarrow> (complete \<Longrightarrow> complete_call c) \<Longrightarrow> kifs_reach n complete T"

end
