(* ===== verification/KifsInv.thy ===== *)
theory KifsInv
  imports Kifs
begin

text \<open>
  The invariant of the kifs data (the two lists share out the array, names are distinct, the
  clipboard stays terminated), its preservation by every piece of every call, and the table of
  entries as a finite map.
\<close>

lemmas kifs_sizes = MAX_KIFS_ENTRY_NAME_SIZE_def MAX_KIFS_ENTRY_def CLIP_SIZE_def

section \<open>The table as a map\<close>

definition kname :: "kifs \<Rightarrow> nat \<Rightarrow> u8 list" where
  "kname s i = cname MAX_KIFS_ENTRY_NAME_SIZE (entryname (entry_buff s ! i))"

definition kval :: "kifs \<Rightarrow> nat \<Rightarrow> read_kifs_t option \<times> write_kifs_t option \<times> nat" where
  "kval s i = (let e = entry_buff s ! i in (read_kifs e, write_kifs e, data e))"

definition kifs_dict :: "kifs \<Rightarrow> u8 list \<Rightarrow> (read_kifs_t option \<times> write_kifs_t option \<times> nat) option" where
  "kifs_dict s = map_of (map (\<lambda>i. (kname s i, kval s i)) (entry_list s))"

text \<open>The array and the lists, apart from the clipboard.\<close>

definition table_wf :: "kifs \<Rightarrow> bool" where
  "table_wf s \<longleftrightarrow> length (entry_buff s) = MAX_KIFS_ENTRY
     \<and> (\<forall>e \<in> set (entry_buff s). length (entryname e) = MAX_KIFS_ENTRY_NAME_SIZE)
     \<and> distinct (entry_list s @ free_list s) \<and> set (entry_list s @ free_list s) = {0..<MAX_KIFS_ENTRY}
     \<and> num_entry s = of_nat (length (entry_list s)) \<and> distinct (map (kname s) (entry_list s))"

definition clip_wf :: "kifs \<Rightarrow> bool" where
  "clip_wf s \<longleftrightarrow> length (clipboard s) = CLIP_SIZE \<and> clipboard s ! (CLIP_SIZE - 1) = 0"

definition kifs_wf :: "kifs \<Rightarrow> bool" where
  "kifs_wf s \<longleftrightarrow> table_wf s \<and> clip_wf s"

lemma table_wf_index: "table_wf s \<Longrightarrow> i \<in> set (entry_list s) \<Longrightarrow> i < MAX_KIFS_ENTRY \<and> i < length (entry_buff s)"
  by (auto simp: table_wf_def)

lemma table_wf_entryname:
  "table_wf s \<Longrightarrow> i \<in> set (entry_list s) \<Longrightarrow> length (entryname (entry_buff s ! i)) = MAX_KIFS_ENTRY_NAME_SIZE"
  using table_wf_index [of s i] by (auto simp: table_wf_def)

lemma table_wf_full: "table_wf s \<Longrightarrow> length (entry_list s) + length (free_list s) = MAX_KIFS_ENTRY"
  using distinct_card [of "entry_list s @ free_list s"] by (simp add: table_wf_def)

lemma map_of_find: "map_of (map (\<lambda>i. (f i, g i)) xs) k = map_option g (find (\<lambda>i. f i = k) xs)"
  by (induction xs) auto

lemma kifs_dict_find: "kifs_dict s k = map_option (kval s) (find (\<lambda>i. kname s i = k) (entry_list s))"
  by (simp add: kifs_dict_def map_of_find)

lemma dom_kifs_dict: "dom (kifs_dict s) = kname s ` set (entry_list s)"
  by (simp add: kifs_dict_def dom_map_of_conv_image_fst image_image)

lemma card_kifs_dict: "table_wf s \<Longrightarrow> card (dom (kifs_dict s)) = length (entry_list s)"
  unfolding dom_kifs_dict by (metis distinct_card length_map list.set_map table_wf_def)

lemma find_entry_find:
  "(\<And>i. i \<in> set is \<Longrightarrow> \<exists>r. cmp (entryname (buff ! i)) = Some r \<and> (r = 0 \<longleftrightarrow> P i)) \<Longrightarrow>
   find_entry cmp buff is = Some (find P is)"
proof (induction "is")
  case (Cons i "is")
  from Cons.prems [of i] obtain r where "cmp (entryname (buff ! i)) = Some r" "r = 0 \<longleftrightarrow> P i" by auto
  then show ?case using Cons.IH Cons.prems by auto
qed simp

lemma find_entry_name:
  assumes "table_wf s" and "readable MAX_KIFS_ENTRY_NAME_SIZE name"
  defines "key \<equiv> cname MAX_KIFS_ENTRY_NAME_SIZE name"
  shows "find_entry (\<lambda>x. strncmp MAX_KIFS_ENTRY_NAME_SIZE x name) (entry_buff s) (entry_list s)
           = Some (find (\<lambda>i. kname s i = key) (entry_list s))"
    and "find_entry (strncmp MAX_KIFS_ENTRY_NAME_SIZE name) (entry_buff s) (entry_list s)
           = Some (find (\<lambda>i. kname s i = key) (entry_list s))"
proof -
  have r: "readable MAX_KIFS_ENTRY_NAME_SIZE (entryname (entry_buff s ! i))" if "i \<in> set (entry_list s)" for i
    using table_wf_entryname [OF assms(1) that] by (simp add: readable_def)
  show "find_entry (\<lambda>x. strncmp MAX_KIFS_ENTRY_NAME_SIZE x name) (entry_buff s) (entry_list s)
           = Some (find (\<lambda>i. kname s i = key) (entry_list s))"
    by (rule find_entry_find) (use strncmp_readable [OF r assms(2)] in \<open>auto simp: kname_def key_def\<close>)
  show "find_entry (strncmp MAX_KIFS_ENTRY_NAME_SIZE name) (entry_buff s) (entry_list s)
           = Some (find (\<lambda>i. kname s i = key) (entry_list s))"
    by (rule find_entry_find) (use strncmp_readable [OF assms(2) r] in \<open>force simp: kname_def key_def\<close>)
qed

lemma find_Some_mem: "find P xs = Some x \<Longrightarrow> x \<in> set xs \<and> P x"
  by (auto simp: find_Some_iff)

section \<open>Creating and removing entries\<close>

lemma create_kifs_entry_table:
  assumes wf: "table_wf s" and name: "readable MAX_KIFS_ENTRY_NAME_SIZE name"
  defines "key \<equiv> cname MAX_KIFS_ENTRY_NAME_SIZE name"
  shows "\<exists>s' r. create_kifs_entry name rd wr d s = Some (s', r) \<and> table_wf s' \<and> clipboard s' = clipboard s
     \<and> (r \<noteq> None \<longleftrightarrow> kifs_dict s key = None \<and> length (entry_list s) < MAX_KIFS_ENTRY)
     \<and> kifs_dict s' = (if r \<noteq> None then (kifs_dict s)(key \<mapsto> (rd, wr, d)) else kifs_dict s)"
proof (cases "free_list s")
  case Nil
  then show ?thesis using wf table_wf_full [OF wf] by (simp add: create_kifs_entry_def)
next
  case (Cons e rest)
  have room: "length (entry_list s) < MAX_KIFS_ENTRY" using table_wf_full [OF wf] Cons by simp
  have e: "e < length (entry_buff s)" "e \<notin> set (entry_list s)" "e \<notin> set rest"
    using wf Cons by (auto simp: table_wf_def)
  show ?thesis
  proof (cases "find (\<lambda>i. kname s i = key) (entry_list s)")
    case (Some i)
    then have "kifs_dict s key \<noteq> None" by (simp add: kifs_dict_find)
    then show ?thesis using wf Cons Some find_entry_name(1) [OF wf name]
      by (simp add: create_kifs_entry_def key_def)
  next
    case None
    obtain block where b: "strncpy MAX_KIFS_ENTRY_NAME_SIZE name = Some block"
      "length block = MAX_KIFS_ENTRY_NAME_SIZE" "cname MAX_KIFS_ENTRY_NAME_SIZE block = key"
      using strncpy_readable [OF name] by (auto simp: key_def)
    let ?entry = "\<lparr>entryname = block, read_kifs = rd, write_kifs = wr, data = d\<rparr>"
    let ?s = "s\<lparr>free_list := rest, entry_list := e # entry_list s, num_entry := num_entry s + 1,
      entry_buff := (entry_buff s)[e := ?entry]\<rparr>"
    have res: "create_kifs_entry name rd wr d s = Some (?s, Some e)"
      using Cons None b(1) find_entry_name(1) [OF wf name] by (simp add: create_kifs_entry_def key_def Let_def)
    have same: "kname ?s i = kname s i" "kval ?s i = kval s i" if "i \<in> set (entry_list s)" for i
    proof -
      have "i \<noteq> e" using that e(2) by auto
      then show "kname ?s i = kname s i" "kval ?s i = kval s i" by (simp_all add: kname_def kval_def)
    qed
    have new: "kname ?s e = key" "kval ?s e = (rd, wr, d)"
      using e(1) b(3) by (simp_all add: kname_def kval_def Let_def)
    have fresh: "kname s i \<noteq> key" if "i \<in> set (entry_list s)" for i
      using None that by (auto simp: find_None_iff)
    have "set (entry_buff ?s) \<subseteq> insert ?entry (set (entry_buff s))"
      using set_update_subset_insert by simp
    then have names: "\<forall>x \<in> set (entry_buff ?s). length (entryname x) = MAX_KIFS_ENTRY_NAME_SIZE"
      using wf b(2) unfolding table_wf_def by auto
    have mp: "map (kname ?s) (entry_list s) = map (kname s) (entry_list s)" using same by simp
    have "key \<notin> set (map (kname s) (entry_list s))" using fresh by auto
    then have dist: "distinct (map (kname ?s) (e # entry_list s))"
      using wf unfolding list.map distinct.simps mp new(1) by (simp add: table_wf_def)
    have twf: "table_wf ?s"
      using wf Cons names dist unfolding table_wf_def by auto
    have mv: "map (\<lambda>i. (kname ?s i, kval ?s i)) (entry_list s) = map (\<lambda>i. (kname s i, kval s i)) (entry_list s)"
      using same by simp
    have "entry_list ?s = e # entry_list s" by simp
    then have "kifs_dict ?s = (kifs_dict s)(key \<mapsto> (rd, wr, d))"
      by (simp only: kifs_dict_def list.map mv new map_of.simps fst_conv snd_conv)
    moreover have "kifs_dict s key = None" using None by (simp add: kifs_dict_find)
    ultimately show ?thesis using res twf room by auto
  qed
qed

lemma map_of_remove1:
  "distinct (map f xs) \<Longrightarrow> x \<in> set xs \<Longrightarrow>
   map_of (map (\<lambda>i. (f i, g i)) (remove1 x xs)) = (map_of (map (\<lambda>i. (f i, g i)) xs))(f x := None)"
proof (induction xs)
  case (Cons a xs)
  show ?case
  proof (cases "a = x")
    case True
    then have "f x \<notin> f ` set xs" using Cons.prems by auto
    then have "map_of (map (\<lambda>i. (f i, g i)) xs) (f x) = None"
      by (simp add: map_of_eq_None_iff image_image)
    then show ?thesis using True by (auto simp: fun_eq_iff)
  next
    case False
    then have "f a \<noteq> f x" using Cons.prems by auto
    then show ?thesis using False Cons by (auto simp: fun_eq_iff)
  qed
qed simp

lemma remove_kifs_entry_table:
  assumes wf: "table_wf s" and name: "readable MAX_KIFS_ENTRY_NAME_SIZE name"
  defines "key \<equiv> cname MAX_KIFS_ENTRY_NAME_SIZE name"
  shows "\<exists>s' r. remove_kifs_entry name s = Some (s', r) \<and> table_wf s' \<and> clipboard s' = clipboard s
     \<and> r = (if kifs_dict s key = None then - EINVAL else 0) \<and> kifs_dict s' = (kifs_dict s)(key := None)"
proof (cases "find (\<lambda>i. kname s i = key) (entry_list s)")
  case None
  then have "kifs_dict s key = None" by (simp add: kifs_dict_find)
  then show ?thesis using wf None find_entry_name(2) [OF wf name]
    by (auto simp: remove_kifs_entry_def key_def fun_upd_idem)
next
  case (Some i)
  then have i: "i \<in> set (entry_list s)" "kname s i = key" using find_Some_mem by fastforce+
  let ?s = "s\<lparr>entry_list := remove1 i (entry_list s), free_list := i # free_list s, num_entry := num_entry s - 1\<rparr>"
  have res: "remove_kifs_entry name s = Some (?s, 0)"
    using Some find_entry_name(2) [OF wf name] by (simp add: remove_kifs_entry_def key_def)
  have same: "kname ?s = kname s" "kval ?s = kval s" by (auto simp: kname_def kval_def)
  have d: "distinct (entry_list s)" "distinct (free_list s)" "set (entry_list s) \<inter> set (free_list s) = {}"
    using wf by (auto simp: table_wf_def)
  have "length (entry_list s) = Suc (length (remove1 i (entry_list s)))"
    using i(1) length_pos_if_in_set [OF i(1)] by (simp add: length_remove1)
  then have len: "of_nat (length (entry_list s)) - (1 :: u32) = of_nat (length (remove1 i (entry_list s)))"
    by simp
  have "table_wf ?s"
    using wf d i(1) len distinct_remove1 [of "map (kname s) (entry_list s)"] unfolding table_wf_def same
    by (auto simp: distinct_map inj_on_def)
  moreover have "kifs_dict ?s = (kifs_dict s)(key := None)"
    using wf map_of_remove1 [of "kname s" "entry_list s" i "kval s"] i
    unfolding kifs_dict_def same by (simp add: table_wf_def)
  moreover have "kifs_dict s key \<noteq> None" using Some by (simp add: kifs_dict_find)
  ultimately show ?thesis using res by auto
qed


definition entry_add ::
  "u8 list \<Rightarrow> read_kifs_t option \<times> write_kifs_t option \<times> nat \<Rightarrow> kifs \<Rightarrow> (kifs \<times> bool) option" where
  "entry_add name v s =
     (case v of (rd, wr, d) \<Rightarrow> do { (s', e) \<leftarrow> create_kifs_entry name rd wr d s; Some (s', e \<noteq> None) })"

definition entry_del :: "u8 list \<Rightarrow> kifs \<Rightarrow> (kifs \<times> bool) option" where
  "entry_del name s = do { (s', r) \<leftarrow> remove_kifs_entry name s; Some (s', r = 0) }"

interpretation entries: name_table table_wf kifs_dict MAX_KIFS_ENTRY "readable MAX_KIFS_ENTRY_NAME_SIZE"
  "cname MAX_KIFS_ENTRY_NAME_SIZE" entry_add entry_del
proof
  fix s name v assume "table_wf s" "readable MAX_KIFS_ENTRY_NAME_SIZE name"
  then show "\<exists>s' r. entry_add name v s = Some (s', r) \<and> table_wf s'
      \<and> (r \<longleftrightarrow> kifs_dict s (cname MAX_KIFS_ENTRY_NAME_SIZE name) = None \<and> card (dom (kifs_dict s)) < MAX_KIFS_ENTRY)
      \<and> kifs_dict s' = (if r then (kifs_dict s)(cname MAX_KIFS_ENTRY_NAME_SIZE name \<mapsto> v) else kifs_dict s)"
    using create_kifs_entry_table [of s name "fst v" "fst (snd v)" "snd (snd v)"]
    by (cases v) (auto simp: entry_add_def card_kifs_dict)
next
  fix s name assume "table_wf s" "readable MAX_KIFS_ENTRY_NAME_SIZE name"
  then show "\<exists>s' r. entry_del name s = Some (s', r) \<and> table_wf s'
      \<and> (r \<longleftrightarrow> kifs_dict s (cname MAX_KIFS_ENTRY_NAME_SIZE name) \<noteq> None)
      \<and> kifs_dict s' = (kifs_dict s)(cname MAX_KIFS_ENTRY_NAME_SIZE name := None)"
    using remove_kifs_entry_table [of s name] by (auto simp: entry_del_def)
qed

lemma sys_kifs_lookup_find:
  assumes "table_wf s" and "length copied \<le> MAX_KIFS_ENTRY_NAME_SIZE"
  shows "sys_kifs_lookup copied s =
     Some (find (\<lambda>i. kname s i = cname MAX_KIFS_ENTRY_NAME_SIZE (copied @ replicate (MAX_KIFS_ENTRY_NAME_SIZE - length copied) 0))
             (entry_list s))"
proof -
  let ?k = "copied @ replicate (MAX_KIFS_ENTRY_NAME_SIZE - length copied) 0 :: u8 list"
  have m: "memcpy (replicate MAX_KIFS_ENTRY_NAME_SIZE 0) 0 copied (int (length copied)) = Some ?k"
    using assms(2) memcpy_nat [of "length copied" copied 0 "replicate MAX_KIFS_ENTRY_NAME_SIZE 0"] by simp
  have "readable MAX_KIFS_ENTRY_NAME_SIZE ?k" using assms(2) by (simp add: readable_def)
  from find_entry_name(1) [OF assms(1) this] m show ?thesis by (simp add: sys_kifs_lookup_def)
qed

section \<open>The listing\<close>

definition list_line :: "kifs_entry list \<Rightarrow> nat \<Rightarrow> u8 list" where
  "list_line buff i = cname MAX_KIFS_ENTRY_NAME_SIZE (entryname (buff ! i)) @ [10]"

lemma list_line_length: "length (list_line buff i) \<le> MAX_KIFS_ENTRY_NAME_SIZE + 1"
  using cname_length [of MAX_KIFS_ENTRY_NAME_SIZE] by (simp add: list_line_def)

lemma list_kifs_loop_ok:
  "k < length kb \<Longrightarrow> \<exists>r. list_kifs_loop (int (length kb)) buff is (int k) kb = Some r \<and>
     (case r of
        Inl e \<Rightarrow> e = - ENOSPC \<and> length kb < k + (MAX_KIFS_ENTRY_NAME_SIZE + 2) * length is
      | Inr (used, kb') \<Rightarrow> \<exists>k'. used = int k' \<and> k' < length kb \<and> length kb' = length kb
            \<and> take k' kb' = take k kb @ concat (map (list_line buff) is))"
proof (induction "is" arbitrary: k kb)
  case Nil
  then show ?case by simp
next
  case (Cons i "is")
  let ?text = "list_line buff i"
  show ?case
  proof (cases "int k + int MAX_KIFS_ENTRY_NAME_SIZE + 2 > int (length kb)")
    case True
    then show ?thesis by simp
  next
    case False
    then have fits: "k + length (?text @ [0]) \<le> length kb"
      using list_line_length [of buff i] by simp
    define kb1 where "kb1 = take k kb @ (?text @ [0]) @ drop (k + length (?text @ [0])) kb"
    have mc: "memcpy kb (int k) (?text @ [0]) (int (length ?text) + 1) = Some kb1"
      using memcpy_nat [of "length (?text @ [0])" "?text @ [0]" k kb] fits by (simp add: kb1_def ac_simps)
    have len1: "length kb1 = length kb" using fits by (simp add: kb1_def)
    have k1: "k + length ?text < length kb1" using fits len1 by simp
    have t1: "take (k + length ?text) kb1 = take k kb @ ?text"
      using fits by (simp add: kb1_def)
    have step: "list_kifs_loop (int (length kb)) buff (i # is) (int k) kb
        = list_kifs_loop (int (length kb1)) buff is (int (k + length ?text)) kb1"
      using False mc len1 by (simp add: list_line_def ac_simps)
    from Cons.IH [OF k1] obtain r where r: "list_kifs_loop (int (length kb1)) buff is (int (k + length ?text)) kb1 = Some r"
      "case r of
        Inl e \<Rightarrow> e = - ENOSPC \<and> length kb1 < k + length ?text + (MAX_KIFS_ENTRY_NAME_SIZE + 2) * length is
      | Inr (used, kb') \<Rightarrow> \<exists>k'. used = int k' \<and> k' < length kb1 \<and> length kb' = length kb1
            \<and> take k' kb' = take (k + length ?text) kb1 @ concat (map (list_line buff) is)" by blast
    show ?thesis
      unfolding step r(1) using r(2) len1 t1 list_line_length [of buff i] by (auto split: sum.splits)
  qed
qed

lemma list_kifs_fill_ok:
  assumes "0 < unat n" "unat n < 2 ^ 31" and "length kb = unat n"
  shows "\<exists>r out. list_kifs_fill n (Some kb) u s = Some (r, out)
     \<and> ((MAX_KIFS_ENTRY_NAME_SIZE + 2) * length (entry_list s) \<le> unat n \<longrightarrow>
         (let text = concat (map (list_line (entry_buff s)) (entry_list s)) @ [0]
          in r = int (length text) - int u \<and> out = take (length text - u) text))"
proof -
  from assms have k: "0 < length kb" and sn: "sint n = int (length kb)" by (simp_all add: sint_eq_unat)
  from list_kifs_loop_ok [OF k, of "entry_buff s" "entry_list s"] obtain r where
    r: "list_kifs_loop (sint n) (entry_buff s) (entry_list s) 0 kb = Some r"
    "case r of
        Inl e \<Rightarrow> e = - ENOSPC \<and> length kb < 0 + (MAX_KIFS_ENTRY_NAME_SIZE + 2) * length (entry_list s)
      | Inr (used, kb') \<Rightarrow> \<exists>k'. used = int k' \<and> k' < length kb \<and> length kb' = length kb
            \<and> take k' kb' = take 0 kb @ concat (map (list_line (entry_buff s)) (entry_list s))"
    unfolding sn semiring_1_class.of_nat_0 by blast
  show ?thesis
  proof (cases r)
    case (Inl e)
    then show ?thesis using r assms(3) by (auto simp: list_kifs_fill_def)
  next
    case (Inr p)
    let ?text = "concat (map (list_line (entry_buff s)) (entry_list s))"
    obtain k' kb' where k': "p = (int k', kb')" "k' < length kb" "length kb' = length kb" "take k' kb' = ?text"
      using r(2) Inr by (cases p) auto
    then have lt: "length ?text = k'" by (metis length_take min.absorb4)
    have "take (Suc k' - u) (kb'[k' := 0]) = take (Suc k' - u) (take (Suc k') (kb'[k' := 0]))" by simp
    also have "take (Suc k') (kb'[k' := 0]) = ?text @ [0]"
      using k' by (simp add: take_Suc_conv_app_nth)
    finally have out: "take (Suc k' - u) (kb'[k' := 0]) = take (Suc k' - u) (?text @ [0])" .
    have nu: "nat (int k' + 1 - int u) = Suc k' - u" by simp
    have "list_kifs_fill n (Some kb) u s = Some (int k' + 1 - int u, take (Suc k' - u) (?text @ [0]))"
      using r(1) Inr k'(1-3) by (simp add: list_kifs_fill_def out nu del: take_append)
    then show ?thesis using lt by (simp add: Let_def)
  qed
qed

section \<open>The clipboard\<close>

lemma clip_wf_strlen:
  assumes "clip_wf s"
  shows "\<exists>n. strlen (clipboard s) = Some n \<and> n < CLIP_SIZE \<and> take n (clipboard s) = takeWhile (\<lambda>c. c \<noteq> 0) (clipboard s)"
proof -
  have "0 \<in> set (clipboard s)" using assms by (metis CLIP_SIZE_def clip_wf_def diff_less nth_mem zero_less_numeral zero_less_one)
  from strlen_Some [OF this] obtain n where n: "strlen (clipboard s) = Some n"
    "n = length (takeWhile (\<lambda>c. c \<noteq> 0) (clipboard s))" by simp
  then have "n < CLIP_SIZE" using strlen_lt [OF n(1)] assms by (simp add: clip_wf_def)
  then show ?thesis using n by (simp add: takeWhile_eq_take [symmetric])
qed

lemma clipboard_write_copy_ok:
  assumes "clip_wf s" and "length bytes = unat maxchars" and "u \<le> unat maxchars"
  shows "clipboard_write_copy maxchars bytes u s =
     (if unat maxchars < CLIP_SIZE
      then Some (s\<lparr>clipboard := bytes @ drop (unat maxchars) (clipboard s)\<rparr>, Inr (int (unat maxchars - u)))
      else Some (s, Inl (- ENOSPC)))"
proof -
  have lt: "maxchars < of_nat CLIP_SIZE \<longleftrightarrow> unat maxchars < CLIP_SIZE"
    by (simp add: word_less_nat_alt CLIP_SIZE_def)
  show ?thesis
  proof (cases "unat maxchars < CLIP_SIZE")
    case True
    then have "memcpy (clipboard s) 0 bytes (uint maxchars) = Some (bytes @ drop (unat maxchars) (clipboard s))"
      using assms memcpy_nat [of "unat maxchars" bytes 0 "clipboard s"] by (simp add: clip_wf_def)
    moreover have "uint maxchars - int u = int (unat maxchars - u)"
      using assms(3) unfolding uint_nat by (simp only: of_nat_diff)
    ultimately show ?thesis using True lt by (simp add: clipboard_write_copy_def)
  qed (use lt in \<open>simp add: clipboard_write_copy_def\<close>)
qed

lemma clipboard_write_copy_clip:
  "clip_wf s \<Longrightarrow> length bytes = unat maxchars \<Longrightarrow> unat maxchars < CLIP_SIZE \<Longrightarrow>
   clip_wf (s\<lparr>clipboard := bytes @ drop (unat maxchars) (clipboard s)\<rparr>)"
  by (auto simp: clip_wf_def nth_append CLIP_SIZE_def)

lemma clipboard_write_end_ok:
  assumes "clip_wf s" and "k < CLIP_SIZE"
  shows "clipboard_write_end (int k) s = Some (s\<lparr>clipboard := (clipboard s)[k := 0]\<rparr>, int k)"
    and "clip_wf (s\<lparr>clipboard := (clipboard s)[k := 0]\<rparr>)"
  using assms by (auto simp: clipboard_write_end_def clip_wf_def nth_list_update)

section \<open>Initialisation\<close>

lemma table_wf_clipboard [simp]: "table_wf (s\<lparr>clipboard := c\<rparr>) = table_wf s"
  by (simp add: table_wf_def kname_def [abs_def])

lemma clip_wf_cong: "clipboard s' = clipboard s \<Longrightarrow> clip_wf s' = clip_wf s"
  by (simp add: clip_wf_def)

definition kifs_cleared :: kifs where
  "kifs_cleared = kifs_static\<lparr>free_list := rev [0..<MAX_KIFS_ENTRY]\<rparr>"

lemma fold_free_list: "fold (\<lambda>i s. s\<lparr>free_list := i # free_list s\<rparr>) is s = s\<lparr>free_list := rev is @ free_list s\<rparr>"
  by (induction "is" arbitrary: s) auto

lemma table_wf_cleared: "table_wf kifs_cleared" and clip_wf_cleared: "clip_wf kifs_cleared"
  and kifs_dict_cleared: "kifs_dict kifs_cleared = Map.empty"
  by (auto simp: table_wf_def clip_wf_def kifs_dict_def kifs_cleared_def kifs_static_def zero_entry_def kifs_sizes)

definition list_name :: "u8 list" where "list_name = bytes_of ''list''"
definition clipboard_name :: "u8 list" where "clipboard_name = bytes_of ''clipboard''"

lemma builtin_names:
  "cname MAX_KIFS_ENTRY_NAME_SIZE (bytes_of ''list'' @ [0]) = list_name"
  "cname MAX_KIFS_ENTRY_NAME_SIZE (bytes_of ''clipboard'' @ [0]) = clipboard_name"
  "readable MAX_KIFS_ENTRY_NAME_SIZE (bytes_of ''list'' @ [0])"
  "readable MAX_KIFS_ENTRY_NAME_SIZE (bytes_of ''clipboard'' @ [0])"
  "list_name \<noteq> clipboard_name"
proof -
  have s: "0 \<notin> set (bytes_of ''list'')" "length (bytes_of ''list'') \<le> 50"
    "0 \<notin> set (bytes_of ''clipboard'')" "length (bytes_of ''clipboard'') \<le> 50"
    by (simp_all add: bytes_of_def)
  show "cname MAX_KIFS_ENTRY_NAME_SIZE (bytes_of ''list'' @ [0]) = list_name"
    "cname MAX_KIFS_ENTRY_NAME_SIZE (bytes_of ''clipboard'' @ [0]) = clipboard_name"
    using cname_string [OF s(1,2)] cname_string [OF s(3,4)]
    by (simp_all add: list_name_def clipboard_name_def MAX_KIFS_ENTRY_NAME_SIZE_def)
qed (simp_all add: readable_def list_name_def clipboard_name_def bytes_of_def)

lemma init_kifs_entry_set_ok:
  "\<exists>s. init_kifs_entry_set kifs_static = Some s \<and> kifs_wf s
     \<and> kifs_dict s = [list_name \<mapsto> (Some list_kifs, None, 0),
          clipboard_name \<mapsto> (Some clipboard_kifs_read, Some clipboard_kifs_write, 0)]"
proof -
  have start: "fold (\<lambda>i s. s\<lparr>free_list := i # free_list s\<rparr>) [0..<MAX_KIFS_ENTRY]
      (kifs_static\<lparr>entry_buff := replicate MAX_KIFS_ENTRY zero_entry, clipboard := replicate CLIP_SIZE 0\<rparr>)
      \<lparr>num_entry := 0\<rparr> = kifs_cleared"
    by (simp add: fold_free_list kifs_cleared_def kifs_static_def)
  have e0: "length (entry_list kifs_cleared) < MAX_KIFS_ENTRY"
    by (simp add: kifs_cleared_def kifs_static_def MAX_KIFS_ENTRY_def)
  obtain s3 r3 where s3: "create_kifs_entry (bytes_of ''list'' @ [0]) (Some list_kifs) None 0 kifs_cleared = Some (s3, r3)"
    "table_wf s3" "clipboard s3 = clipboard kifs_cleared" "kifs_dict s3 = [list_name \<mapsto> (Some list_kifs, None, 0)]"
    using create_kifs_entry_table [OF table_wf_cleared builtin_names(3), of "Some list_kifs" None 0]
      e0 unfolding builtin_names(1) by (auto simp: kifs_dict_cleared)
  have l3: "length (entry_list s3) = 1" using card_kifs_dict [OF s3(2)] s3(4) by simp
  obtain s4 r4 where s4: "create_kifs_entry (bytes_of ''clipboard'' @ [0]) (Some clipboard_kifs_read)
       (Some clipboard_kifs_write) 0 s3 = Some (s4, r4)" "table_wf s4" "clipboard s4 = clipboard s3"
    "kifs_dict s4 = (kifs_dict s3)(clipboard_name \<mapsto> (Some clipboard_kifs_read, Some clipboard_kifs_write, 0))"
    using create_kifs_entry_table [OF s3(2) builtin_names(4), of "Some clipboard_kifs_read" "Some clipboard_kifs_write" 0]
      l3 s3(4) builtin_names(5) unfolding builtin_names(2) by (auto simp: MAX_KIFS_ENTRY_def)
  have "init_kifs_entry_set kifs_static = Some s4"
    using start s3(1) s4(1) by (simp add: init_kifs_entry_set_def Let_def)
  moreover have "kifs_wf s4"
    using s4(2,3) s3(3) clip_wf_cleared clip_wf_cong [of s4 kifs_cleared] by (simp add: kifs_wf_def)
  ultimately show ?thesis using s4(4) s3(4) by auto
qed

section \<open>Concurrent calls\<close>

fun kpc_ok :: "kpc \<Rightarrow> bool" where
  "kpc_ok (Found i op maxchars) \<longleftrightarrow> i < MAX_KIFS_ENTRY"
| "kpc_ok (Tested i op maxchars) \<longleftrightarrow> i < MAX_KIFS_ENTRY"
| "kpc_ok (Calling f i maxchars) \<longleftrightarrow> i < MAX_KIFS_ENTRY"
| "kpc_ok (ListSized n) \<longleftrightarrow> unat n \<le> (MAX_KIFS_ENTRY_NAME_SIZE + 2) * MAX_KIFS_ENTRY"
| "kpc_ok (ClipSized n) \<longleftrightarrow> n < CLIP_SIZE"
| "kpc_ok (ClipCopied k) \<longleftrightarrow> 0 \<le> k \<and> k < int CLIP_SIZE"
| "kpc_ok _ \<longleftrightarrow> True"

lemma list_kifs_size_le:
  assumes "table_wf s"
  shows "unat (list_kifs_size maxchars s) \<le> (MAX_KIFS_ENTRY_NAME_SIZE + 2) * length (entry_list s)"
proof -
  have "length (entry_list s) \<le> 10" using table_wf_full [OF assms] by (simp add: MAX_KIFS_ENTRY_def)
  then have "unat ((of_nat 50 + 2) * num_entry s) = 52 * length (entry_list s)"
    using assms by (simp add: table_wf_def unat_word_ariths unat_of_nat)
  then show ?thesis by (auto simp: list_kifs_size_def min_def word_le_nat_alt kifs_sizes)
qed

text \<open>The piece that calls the callback of the entry, which is \<open>NULL\<close> by now.\<close>

definition null_call :: "kifs \<Rightarrow> kcall \<Rightarrow> kpc \<Rightarrow> bool" where
  "null_call s c p \<longleftrightarrow> (\<exists>v i op maxchars. c = Continue v \<and> p = Tested i op maxchars \<and>
     sys_kifs_callback op (entry_buff s ! i) = None)"

lemma kifs_piece_ok:
  assumes wf: "kifs_wf s" and ok: "kpc_ok p"
  shows "(case kifs_piece c s p of Fault \<Rightarrow> null_call s c p | Blocked \<Rightarrow> True | Next (s', p', out) \<Rightarrow> kifs_wf s' \<and> kpc_ok p')"
proof -
  have t: "table_wf s" and cl: "clip_wf s" using wf by (auto simp: kifs_wf_def)
  show ?thesis
  proof (cases "(c, s, p)" rule: kifs_piece.cases)
    case (1 name rd wr d s')
    show ?thesis
    proof (cases "readable MAX_KIFS_ENTRY_NAME_SIZE name")
      case True
      from create_kifs_entry_table [OF t this, of rd wr d] obtain s1 r1 where
        "create_kifs_entry name rd wr d s = Some (s1, r1)" "table_wf s1" "clipboard s1 = clipboard s" by auto
      then show ?thesis using 1 True cl by (simp add: kifs_wf_def clip_wf_def)
    qed (use 1 in simp)
  next
    case (2 name s')
    show ?thesis
    proof (cases "readable MAX_KIFS_ENTRY_NAME_SIZE name")
      case True
      from remove_kifs_entry_table [OF t this] obtain s1 r1 where
        "remove_kifs_entry name s = Some (s1, r1)" "table_wf s1" "clipboard s1 = clipboard s" by auto
      then show ?thesis using 2 True cl by (simp add: kifs_wf_def clip_wf_def)
    qed (use 2 in simp)
  next
    case (3 copied op maxchars s')
    then show ?thesis using wf t
      by (auto simp: sys_kifs_lookup_find split: option.splits dest!: find_Some_mem dest: table_wf_index)
  next
    case (4 v s' i op maxchars)
    then show ?thesis using wf ok by (auto split: option.splits)
  next
    case (5 v s' i op maxchars)
    then show ?thesis using wf ok by (auto simp: null_call_def split: option.splits)
  next
    case (6 v s' f i maxchars)
    then show ?thesis using wf by simp
  next
    case (7 v s' f i maxchars)
    then show ?thesis using wf by simp
  next
    case (8 v s' maxchars d)
    have "length (entry_list s) \<le> MAX_KIFS_ENTRY" using table_wf_full [OF t] by simp
    then have "unat (list_kifs_size maxchars s) \<le> (MAX_KIFS_ENTRY_NAME_SIZE + 2) * MAX_KIFS_ENTRY"
      by (rule order_trans [OF list_kifs_size_le [OF t] mult_le_mono2])
    then show ?thesis using 8 wf by simp
  next
    case (9 v s' n)
    have bound: "unat n < 2 ^ 31" using ok 9 by (simp add: kifs_sizes)
    show ?thesis
    proof (cases "vblock v")
      case (Some k)
      have "\<exists>r out. list_kifs_fill n (Some k) (residue v) s = Some (r, out)" if "n \<noteq> 0" "length k = unat n"
        using list_kifs_fill_ok [of n k "residue v" s] that bound by (auto simp: unat_gt_0)
      then show ?thesis using 9 wf Some by auto
    qed (use 9 wf in \<open>simp add: list_kifs_fill_def\<close>)
  next
    case (10 v s' maxchars d)
    then show ?thesis using wf clip_wf_strlen [OF cl] by (auto simp: clipboard_read_length_def)
  next
    case (11 v s' used)
    then show ?thesis using wf by (auto simp: clipboard_read_copy_def)
  next
    case (12 v s' maxchars d)
    show ?thesis
    proof (cases "length (ubytes v) = unat maxchars \<and> residue v \<le> unat maxchars")
      case True
      then have "int (residue v) \<le> int (unat maxchars)" by (simp only: of_nat_le_iff)
      then have u1: "int (residue v) \<le> uint maxchars" by (simp only: uint_nat)
      have "uint maxchars < int CLIP_SIZE" if "unat maxchars < CLIP_SIZE"
        unfolding uint_nat using that by (simp only: of_nat_less_iff)
      then have u2: "uint maxchars - int (residue v) < int CLIP_SIZE" if "unat maxchars < CLIP_SIZE"
        using that by force
      show ?thesis
        using 12 wf t u1 u2 True clipboard_write_copy_ok [OF cl, of "ubytes v" maxchars "residue v"]
          clipboard_write_copy_clip [OF cl, of "ubytes v" maxchars]
        by (auto simp: kifs_wf_def)
    qed (use 12 in auto)
  next
    case (13 v s' used)
    then obtain k where "used = int k" "k < CLIP_SIZE" using ok by (metis kpc_ok.simps(6) nonneg_int_cases of_nat_less_iff prod.inject)
    then show ?thesis using 13 t clipboard_write_end_ok [OF cl, of k] by (simp add: kifs_wf_def)
  qed (use wf in \<open>auto split: prod.splits\<close>)
qed

text \<open>With complete entries a callback pointer that has been tested stays different from \<open>NULL\<close>.\<close>

definition tested_ok :: "kifs \<Rightarrow> kpc \<Rightarrow> bool" where
  "tested_ok s p \<longleftrightarrow> (\<forall>i op maxchars. p = Tested i op maxchars \<longrightarrow> sys_kifs_callback op (entry_buff s ! i) \<noteq> None)"

lemma create_keeps_callbacks:
  assumes "create_kifs_entry name rd wr d s = Some (s', r)" "rd \<noteq> None" "wr \<noteq> None"
    "sys_kifs_callback op (entry_buff s ! i) \<noteq> None"
  shows "sys_kifs_callback op (entry_buff s' ! i) \<noteq> None"
proof -
  have put: "sys_kifs_callback op ((entry_buff s)[e := \<lparr>entryname = b, read_kifs = rd, write_kifs = wr, data = d\<rparr>] ! i) \<noteq> None" for e b
    using assms(2-4) by (cases "e < length (entry_buff s)"; cases "e = i")
      (auto simp: sys_kifs_callback_def list_update_beyond)
  show ?thesis using assms(1,4) put
    by (auto simp: create_kifs_entry_def Let_def bind_eq_Some_conv split: list.splits option.splits)
qed

lemma piece_keeps_callbacks:
  assumes "kifs_piece c s p = Next (s', p', out)" "complete_call c" "sys_kifs_callback op (entry_buff s ! i) \<noteq> None"
  shows "sys_kifs_callback op (entry_buff s' ! i) \<noteq> None"
  using assms
  by (cases "(c, s, p)" rule: kifs_piece.cases)
    (auto dest!: create_keeps_callbacks [where op = op and i = i] simp: remove_kifs_entry_def clipboard_write_copy_def clipboard_write_end_def bind_eq_Some_conv
      split: if_splits option.splits sum.splits prod.splits)

lemma piece_tests:
  assumes "kifs_piece c s p = Next (s', p', out)"
  shows "tested_ok s' p'"
  using assms
  by (cases "(c, s, p)" rule: kifs_piece.cases)
    (auto simp: tested_ok_def sys_kifs_test_def sys_kifs_callback_def split: if_splits option.splits sum.splits prod.splits)

lemma kifs_reach_inv: "kifs_reach n complete S \<Longrightarrow> kifs_wf (kmem S) \<and> (\<forall>p \<in> set (cpus S). kpc_ok p)"
proof (induction rule: kifs_reach.induct)
  case (boot s)
  then show ?case using init_kifs_entry_set_ok by auto
next
  case (step S i c out T)
  from step.hyps(2) show ?case
  proof cases
    case (piece s p)
    have "kpc_ok (cpus S ! i)" "kifs_wf (kmem S)" using step.IH piece(2) by simp_all
    from kifs_piece_ok [OF this(2,1), of c] piece(1,3) have "kifs_wf s" "kpc_ok p" by simp_all
    then show ?thesis
      using step.IH piece(1) set_update_subset_insert [of "cpus S" i p] by auto
  qed
qed

lemma kifs_reach_tested: "kifs_reach n True S \<Longrightarrow> \<forall>p \<in> set (cpus S). tested_ok (kmem S) p"
proof (induction rule: kifs_reach.induct)
  case (boot s)
  then show ?case by (simp add: tested_ok_def)
next
  case (step S i c out T)
  from step.hyps(2) show ?case
  proof cases
    case (piece s p)
    have "tested_ok s q" if "q \<in> set (cpus S)" for q
      using step.IH step.hyps(3) that piece_keeps_callbacks [OF piece(3)] by (simp add: tested_ok_def)
    then show ?thesis using piece(1) piece_tests [OF piece(3)] set_update_subset_insert [of "cpus S" i p] by auto
  qed
qed

end
