(* ===== verification/KifsProps.thy ===== *)
theory KifsProps
  imports KifsInv
begin

text \<open>
  The properties of the kifs interface: the table of entries behaves as a finite map over any
  history of calls, the invariant and memory safety of concurrent calls, the listing, the round
  trip through the clipboard, the refusals of the system call, and the use of an entry after it
  has been handed to somebody else.
\<close>

lemma kname_eq: "kval s i = (rd, wr, d) \<longleftrightarrow>
    read_kifs (entry_buff s ! i) = rd \<and> write_kifs (entry_buff s ! i) = wr \<and> data (entry_buff s ! i) = d"
  by (simp add: kval_def Let_def)

text \<open>The name that \<open>sys_kifs\<close> looks up, from what was copied into its zeroed block.\<close>

definition called_name :: "u8 list \<Rightarrow> u8 list" where
  "called_name copied = cname MAX_KIFS_ENTRY_NAME_SIZE (copied @ replicate (MAX_KIFS_ENTRY_NAME_SIZE - length copied) 0)"

lemma lookup_Some:
  assumes "table_wf s" "length copied \<le> MAX_KIFS_ENTRY_NAME_SIZE" "kifs_dict s (called_name copied) = Some v"
  obtains i where "sys_kifs_lookup copied s = Some (Some i)" "kval s i = v" "kname s i = called_name copied"
    "i \<in> set (entry_list s)"
proof -
  obtain i where i: "find (\<lambda>i. kname s i = called_name copied) (entry_list s) = Some i" "kval s i = v"
    using assms(3) by (auto simp: kifs_dict_find)
  with find_Some_mem [OF i(1)] that sys_kifs_lookup_find [OF assms(1,2)] show thesis
    by (simp add: called_name_def)
qed

lemma lookup_None:
  assumes "table_wf s" "length copied \<le> MAX_KIFS_ENTRY_NAME_SIZE" "kifs_dict s (called_name copied) = None"
  shows "sys_kifs_lookup copied s = Some None"
  using assms sys_kifs_lookup_find [OF assms(1,2)] by (simp add: called_name_def kifs_dict_find)

definition kifs_ready :: kifs where
  "kifs_ready = the (init_kifs_entry_set kifs_static)"

lemma kifs_ready_wf: "kifs_wf kifs_ready" and kifs_ready_init: "init_kifs_entry_set kifs_static = Some kifs_ready"
  and kifs_ready_dict: "kifs_dict kifs_ready = [list_name \<mapsto> (Some list_kifs, None, 0),
          clipboard_name \<mapsto> (Some clipboard_kifs_read, Some clipboard_kifs_write, 0)]"
  using init_kifs_entry_set_ok by (auto simp: kifs_ready_def)

lemma called_name_string:
  "0 \<notin> set xs \<Longrightarrow> length xs < MAX_KIFS_ENTRY_NAME_SIZE \<Longrightarrow> called_name xs = xs"
  unfolding called_name_def
  by (cases "MAX_KIFS_ENTRY_NAME_SIZE - length xs") (simp_all add: cname_string)

lemma called_builtin: "called_name clipboard_name = clipboard_name" "called_name list_name = list_name"
  "length clipboard_name \<le> MAX_KIFS_ENTRY_NAME_SIZE" "length list_name \<le> MAX_KIFS_ENTRY_NAME_SIZE"
  by (simp_all add: called_name_string bytes_of_def clipboard_name_def list_name_def MAX_KIFS_ENTRY_NAME_SIZE_def)

text \<open>
  C10 (kifs_entries_are_a_map): every history of \<open>create_kifs_entry\<close> and \<open>remove_kifs_entry\<close> calls with
  readable names runs without a fault and has the results and the final table of the same history
  on a finite map with at most ten names, names being significant up to 50 characters.
\<close>

theorem kifs_entries_are_a_map:
  assumes "kifs_wf s" and "\<forall>x \<in> set ops. readable MAX_KIFS_ENTRY_NAME_SIZE (op_name x)"
  shows "\<exists>s' rs. run_table entry_add entry_del ops s = Some (s', rs)
     \<and> map_table MAX_KIFS_ENTRY (cname MAX_KIFS_ENTRY_NAME_SIZE) ops (kifs_dict s) = (kifs_dict s', rs)"
  using entries.run_is_map assms by (metis kifs_wf_def)

theorem kifs_entries_are_a_map_witness:
  "\<exists>s' rs. run_table entry_add entry_del [Del (list_name @ [0]), Add (list_name @ [0]) (None, None, 5)] kifs_ready = Some (s', rs)
     \<and> rs = [True, True] \<and> kifs_dict s' list_name = Some (None, None, 5)"
proof -
  have n: "cname MAX_KIFS_ENTRY_NAME_SIZE (list_name @ [0]) = list_name"
    "readable MAX_KIFS_ENTRY_NAME_SIZE (list_name @ [0])"
    using builtin_names(1,3) by (simp_all add: list_name_def)
  have "card (dom ((kifs_dict kifs_ready)(list_name := None))) < MAX_KIFS_ENTRY"
    using builtin_names(5) by (simp add: kifs_ready_dict MAX_KIFS_ENTRY_def)
  then have m: "map_table MAX_KIFS_ENTRY (cname MAX_KIFS_ENTRY_NAME_SIZE)
      [Del (list_name @ [0]), Add (list_name @ [0]) (None, None, 5)] (kifs_dict kifs_ready)
      = ((kifs_dict kifs_ready)(list_name \<mapsto> (None, None, 5)), [True, True])"
    using n(1) by (simp add: Let_def kifs_ready_dict)
  from kifs_entries_are_a_map [OF kifs_ready_wf, of "[Del (list_name @ [0]), Add (list_name @ [0]) (None, None, 5)]"] n(2)
  obtain s' rs where "run_table entry_add entry_del [Del (list_name @ [0]), Add (list_name @ [0]) (None, None, 5)] kifs_ready
      = Some (s', rs)" "(kifs_dict kifs_ready)(list_name \<mapsto> (None, None, 5)) = kifs_dict s'" "rs = [True, True]"
    unfolding m by auto
  then show ?thesis by (metis fun_upd_same)
qed

lemma kifs_memory_safe:
  assumes "kifs_reach n complete S" and "p \<in> set (cpus S)" and "kifs_piece c (kmem S) p = Fault"
  shows "null_call (kmem S) c p \<and> \<not> complete"
proof -
  have null: "null_call (kmem S) c p"
    using kifs_piece_ok [of "kmem S" p c] kifs_reach_inv [OF assms(1)] assms(2,3) by simp
  then have "\<not> tested_ok (kmem S) p" by (auto simp: null_call_def tested_ok_def)
  then show ?thesis using null kifs_reach_tested [of n S] assms(1,2) by (cases complete) auto
qed

text \<open>
  C11 (kifs_concurrent_invariant): whatever the processors interleave, the entry list and the free
  list share out the ten entries, \<open>num_entry\<close> counts the entry list, no two entries have the same
  name, and the clipboard keeps a terminating NUL in its last byte.  A piece of a call is undefined
  behaviour only if it calls the callback of an entry that has become \<open>NULL\<close> since it was tested, because
  the entry was removed and created again; this cannot happen when every entry that is created has both
  callbacks (\<open>complete\<close>).  In particular the listing stays inside its block although the size was computed
  before the lock was taken, and the clipboard copies stay inside the clipboard although they take no lock.
\<close>

theorem kifs_concurrent_invariant:
  assumes "kifs_reach n complete S"
  shows "distinct (entry_list (kmem S) @ free_list (kmem S))
     \<and> set (entry_list (kmem S) @ free_list (kmem S)) = {0..<10}
     \<and> num_entry (kmem S) = of_nat (length (entry_list (kmem S)))
     \<and> distinct (map (kname (kmem S)) (entry_list (kmem S)))
     \<and> length (clipboard (kmem S)) = 50 \<and> clipboard (kmem S) ! 49 = 0
     \<and> (\<forall>p \<in> set (cpus S). \<forall>c. kifs_piece c (kmem S) p = Fault \<longrightarrow>
          \<not> complete \<and> (\<exists>v i op maxchars. c = Continue v \<and> p = Tested i op maxchars \<and>
            sys_kifs_callback op (entry_buff (kmem S) ! i) = None))"
  using kifs_reach_inv [OF assms] kifs_memory_safe [OF assms]
  by (simp add: kifs_wf_def table_wf_def clip_wf_def kifs_sizes null_call_def del: kifs_piece.simps)

theorem kifs_concurrent_invariant_witness:
  "kifs_reach 2 True \<lparr>kmem = kifs_ready, cpus = replicate 2 Idle\<rparr> \<and> length (clipboard kifs_ready) = 50 \<and>
   kifs_piece (Kifs list_name KIFS_READ_OP 100) kifs_ready Idle \<noteq> Fault"
  using kifs_concurrent_invariant [OF kifs_reach.boot [OF kifs_ready_init, of 2 True]]
    kifs_reach.boot [OF kifs_ready_init, of 2 True] by (auto simp del: kifs_piece.simps)

text \<open>
  Reading an entry served by \<open>list_kifs\<close>, with an allocated block and room
  for 52 bytes per entry, puts into the user's buffer every entry's name followed by a newline, in
  the order of the list, and a NUL; the return value counts the bytes that arrived.
\<close>

theorem kifs_list_reads_names:
  assumes "kifs_wf s" and "length copied \<le> MAX_KIFS_ENTRY_NAME_SIZE"
    and "kifs_dict s (called_name copied) = Some (Some list_kifs, wr, d)"
    and "52 * length (entry_list s) \<le> unat maxchars"
    and "vblock v = Some kb" and "length kb = unat (list_kifs_size maxchars s)"
  shows "let text = concat (map (\<lambda>i. kname s i @ [10]) (entry_list s)) @ [0]
         in sys_kifs v copied KIFS_READ_OP maxchars s
              = Some (s, int (length text) - int (residue v), take (length text - residue v) text)"
proof -
  have t: "table_wf s" using assms(1) by (simp add: kifs_wf_def)
  obtain i where i: "sys_kifs_lookup copied s = Some (Some i)" "kval s i = (Some list_kifs, wr, d)"
    "i \<in> set (entry_list s)" using lookup_Some [OF t assms(2,3)] by metis
  let ?n = "list_kifs_size maxchars s"
  have len: "length (entry_list s) \<le> 10" using table_wf_full [OF t] by (simp add: MAX_KIFS_ENTRY_def)
  then have "unat ((of_nat MAX_KIFS_ENTRY_NAME_SIZE + 2) * num_entry s) = 52 * length (entry_list s)"
    using t by (simp add: table_wf_def unat_word_ariths unat_of_nat MAX_KIFS_ENTRY_NAME_SIZE_def)
  then have n: "unat ?n = 52 * length (entry_list s)"
    using assms(4) by (auto simp: list_kifs_size_def min_def word_le_nat_alt)
  have pos: "0 < unat ?n" "unat ?n < 2 ^ 31" using i(3) n len by (auto simp: length_pos_if_in_set)
  have line: "list_line (entry_buff s) = (\<lambda>i. kname s i @ [10])"
    by (simp add: list_line_def kname_def fun_eq_iff)
  from list_kifs_fill_ok [OF pos assms(6), of "residue v" s] n i(1,2) assms(5)
  show ?thesis
    by (auto simp: sys_kifs_def sys_kifs_test_def sys_kifs_callback_def kname_eq line Let_def MAX_KIFS_ENTRY_NAME_SIZE_def)
qed

theorem kifs_list_reads_names_witness:
  "\<exists>v. sys_kifs v list_name KIFS_READ_OP 1000 kifs_ready \<noteq> None \<and> residue v = 0"
proof -
  let ?v = "\<lparr>vblock = Some (replicate (unat (list_kifs_size 1000 kifs_ready)) 0), ubytes = [], residue = 0,
    ext_read = (\<lambda>_ _ _. (0, [])), ext_write = (\<lambda>_ _ _. 0)\<rparr>"
  have "length (entry_list kifs_ready) \<le> 10"
    using kifs_ready_wf table_wf_full [of kifs_ready] by (simp add: kifs_wf_def MAX_KIFS_ENTRY_def)
  then have "52 * length (entry_list kifs_ready) \<le> unat (1000 :: u32)" by simp
  moreover have "kifs_dict kifs_ready (called_name list_name) = Some (Some list_kifs, None, 0)"
    using builtin_names(5) by (simp add: called_builtin kifs_ready_dict)
  ultimately have "let text = concat (map (\<lambda>i. kname kifs_ready i @ [10]) (entry_list kifs_ready)) @ [0]
         in sys_kifs ?v list_name KIFS_READ_OP 1000 kifs_ready
              = Some (kifs_ready, int (length text) - int (residue ?v), take (length text - residue ?v) text)"
    by (intro kifs_list_reads_names [where kb = "replicate (unat (list_kifs_size 1000 kifs_ready)) 0"]
        kifs_ready_wf called_builtin) simp_all
  then show ?thesis by (intro exI [of _ ?v]) (simp add: Let_def)
qed

text \<open>
  C12 (kifs_clipboard_roundtrip): writing fewer than 50 bytes without a NUL to an entry served by the
  clipboard callbacks returns their number, and a read with room for them then delivers exactly
  these bytes.
\<close>

theorem kifs_clipboard_roundtrip:
  assumes "kifs_wf s" and "length copied \<le> MAX_KIFS_ENTRY_NAME_SIZE"
    and "kifs_dict s (called_name copied) = Some (Some clipboard_kifs_read, Some clipboard_kifs_write, d)"
    and "length bytes < 50" and "0 \<notin> set bytes" and "ubytes v = bytes" and "residue v = 0"
    and "length bytes \<le> unat maxchars"
  shows "\<exists>s'. sys_kifs v copied KIFS_WRITE_OP (of_nat (length bytes)) s = Some (s', int (length bytes), [])
     \<and> kifs_wf s' \<and> sys_kifs v copied KIFS_READ_OP maxchars s' = Some (s', int (length bytes), bytes)"
proof -
  have t: "table_wf s" and c: "clip_wf s" using assms(1) by (auto simp: kifs_wf_def)
  obtain i where i: "sys_kifs_lookup copied s = Some (Some i)"
    "kval s i = (Some clipboard_kifs_read, Some clipboard_kifs_write, d)"
    using lookup_Some [OF t assms(2,3)] by metis
  let ?n = "length bytes"
  have n: "unat (of_nat ?n :: u32) = ?n" "?n < CLIP_SIZE" using assms(4) by (simp_all add: unat_of_nat CLIP_SIZE_def)
  define c1 where "c1 = bytes @ drop ?n (clipboard s)"
  let ?s1 = "s\<lparr>clipboard := c1\<rparr>" let ?s2 = "s\<lparr>clipboard := c1[?n := 0]\<rparr>"
  have w1: "clipboard_write_copy (of_nat ?n) bytes 0 s = Some (?s1, Inr (int ?n))"
    using clipboard_write_copy_ok [OF c, of bytes "of_nat ?n" 0] n by (simp add: c1_def)
  have c1: "clip_wf ?s1" using clipboard_write_copy_clip [OF c, of bytes "of_nat ?n :: u32", unfolded n(1)] n(2) by (simp add: c1_def)
  have w2: "clipboard_write_end (int ?n) ?s1 = Some (?s2, int ?n)" "clip_wf ?s2"
    using clipboard_write_end_ok [OF c1 n(2)] by simp_all
  have written: "sys_kifs v copied KIFS_WRITE_OP (of_nat ?n) s = Some (?s2, int ?n, [])"
    using i w1 w2 assms(6,7) by (auto simp: sys_kifs_def sys_kifs_test_def sys_kifs_callback_def kname_eq KIFS_READ_OP_def KIFS_WRITE_OP_def)
  have "length (clipboard s) = CLIP_SIZE" using c by (simp add: clip_wf_def)
  then have cl: "clipboard ?s2 = bytes @ 0 # drop (Suc ?n) (clipboard s)"
    using n(2) by (simp add: c1_def list_update_append Cons_nth_drop_Suc [symmetric])
  have "0 \<in> set (clipboard ?s2)" and tw: "takeWhile (\<lambda>c. c \<noteq> 0) (clipboard ?s2) = bytes"
    using assms(5) unfolding cl by (auto simp: takeWhile_append)
  then have len: "strlen (clipboard ?s2) = Some ?n" using strlen_Some [of "clipboard ?s2"] by simp
  have fits: "(of_nat ?n :: u32) \<le> maxchars" using n(1) assms(8) by (simp add: word_le_nat_alt)
  have lk: "sys_kifs_lookup copied ?s2 = Some (Some i)" using i(1) by (simp add: sys_kifs_lookup_def)
  have "sys_kifs v copied KIFS_READ_OP maxchars ?s2 = Some (?s2, int ?n, bytes)"
    using i(2) lk len fits assms(7) cl
    by (auto simp: sys_kifs_def sys_kifs_test_def sys_kifs_callback_def kname_eq clipboard_read_length_def clipboard_read_copy_def)
  moreover have "kifs_wf ?s2" using t w2(2) by (simp add: kifs_wf_def)
  ultimately show ?thesis using written by blast
qed

theorem kifs_clipboard_roundtrip_witness:
  "\<exists>v s'. sys_kifs v clipboard_name KIFS_WRITE_OP 3 kifs_ready = Some (s', 3, [])
     \<and> sys_kifs v clipboard_name KIFS_READ_OP 50 s' = Some (s', 3, [104, 101, 121])"
proof -
  let ?v = "\<lparr>vblock = None, ubytes = [104, 101, 121], residue = 0,
    ext_read = (\<lambda>_ _ _. (0, [])), ext_write = (\<lambda>_ _ _. 0)\<rparr>"
  have "kifs_dict kifs_ready (called_name clipboard_name) = Some (Some clipboard_kifs_read, Some clipboard_kifs_write, 0)"
    by (simp add: called_builtin kifs_ready_dict)
  from kifs_clipboard_roundtrip [OF kifs_ready_wf called_builtin(3) this, of "[104, 101, 121]" ?v 50]
  show ?thesis by auto
qed

text \<open>
  The system call changes nothing and returns \<open>-EINVAL\<close> for a name that is not in
  the table or an unknown \<open>op_mode\<close>, and \<open>-EPERM\<close> for an entry without the callback asked for.
\<close>

theorem kifs_refusals:
  assumes "kifs_wf s" and "length copied \<le> MAX_KIFS_ENTRY_NAME_SIZE"
    and "case kifs_dict s (called_name copied) of
           None \<Rightarrow> True
         | Some (rd, wr, d) \<Rightarrow> (op_mode = 0 \<longrightarrow> rd = None) \<and> (op_mode = 1 \<longrightarrow> wr = None)"
  shows "sys_kifs v copied op_mode maxchars s =
     Some (s, (if kifs_dict s (called_name copied) \<noteq> None \<and> op_mode \<le> 1 then - EPERM else - EINVAL), [])"
proof -
  have t: "table_wf s" using assms(1) by (simp add: kifs_wf_def)
  have two: "op_mode \<le> 1 \<longleftrightarrow> op_mode = 0 \<or> op_mode = 1" for op_mode :: u32
    using le_Suc_eq [of "unat op_mode" 0] by (auto simp: word_le_nat_alt word_unat_eq_iff)
  show ?thesis
  proof (cases "kifs_dict s (called_name copied)")
    case None
    then show ?thesis using lookup_None [OF t assms(2)] by (simp add: sys_kifs_def)
  next
    case (Some x)
    obtain rd wr d where x: "x = (rd, wr, d)" by (cases x)
    obtain i where "sys_kifs_lookup copied s = Some (Some i)" "kval s i = (rd, wr, d)"
      using lookup_Some [OF t assms(2) Some] x by metis
    then show ?thesis
      using assms(3) Some x two [of op_mode]
      by (auto simp: sys_kifs_def sys_kifs_test_def sys_kifs_callback_def kname_eq KIFS_READ_OP_def KIFS_WRITE_OP_def)
  qed
qed

theorem kifs_refusals_witness:
  "\<forall>v. sys_kifs v list_name KIFS_WRITE_OP 10 kifs_ready = Some (kifs_ready, - EPERM, [])"
proof -
  have d: "kifs_dict kifs_ready (called_name list_name) = Some (Some list_kifs, None, 0)"
    using builtin_names(5) by (simp add: called_builtin kifs_ready_dict)
  show ?thesis
    using kifs_refusals [OF kifs_ready_wf called_builtin(4), of KIFS_WRITE_OP _ 10] d
    by (simp add: KIFS_WRITE_OP_def)
qed

text \<open>
  Between the test of the callback in \<open>sys_kifs\<close>, which has released the lock, and its call another
  processor can remove the entry and create a different one; the new entry gets the same slot, and the
  system call on the old name runs the callback of the new one, or calls \<open>NULL\<close> if it has none.
\<close>

theorem kifs_stale_entry:
  assumes "kifs_wf s" and "readable MAX_KIFS_ENTRY_NAME_SIZE name" and "readable MAX_KIFS_ENTRY_NAME_SIZE other"
    and "length copied \<le> MAX_KIFS_ENTRY_NAME_SIZE" and "called_name copied = cname MAX_KIFS_ENTRY_NAME_SIZE name"
    and "kifs_piece (Kifs copied KIFS_READ_OP maxchars) s Idle = Next (s, Found i KIFS_READ_OP maxchars, Running)"
    and "kifs_dict s (cname MAX_KIFS_ENTRY_NAME_SIZE other) = None"
  shows "\<exists>s1 s2. remove_kifs_entry name s = Some (s1, 0) \<and> create_kifs_entry other rd wr d s1 = Some (s2, Some i)
     \<and> kifs_piece (Continue v) s2 (Tested i KIFS_READ_OP maxchars) =
         (case rd of None \<Rightarrow> Fault | Some f \<Rightarrow> Next (s2, Calling (Reads f) i maxchars, Running))
     \<and> data (entry_buff s2 ! i) = d"
proof -
  have t: "table_wf s" using assms(1) by (simp add: kifs_wf_def)
  let ?key = "cname MAX_KIFS_ENTRY_NAME_SIZE name"
  have "sys_kifs_lookup copied s = Some (Some i)"
    using assms(6) by (auto split: option.splits if_splits)
  then have find: "find (\<lambda>i. kname s i = ?key) (entry_list s) = Some i"
    using sys_kifs_lookup_find [OF t assms(4)] unfolding called_name_def [symmetric] assms(5) by simp
  have i: "i \<in> set (entry_list s)" "kname s i = ?key" using find_Some_mem [OF find] by auto
  define s1 where "s1 = s\<lparr>entry_list := remove1 i (entry_list s), free_list := i # free_list s,
                          num_entry := num_entry s - 1\<rparr>"
  have rm: "remove_kifs_entry name s = Some (s1, 0)"
    using find find_entry_name(2) [OF t assms(2)] by (simp add: remove_kifs_entry_def s1_def)
  then have t1: "table_wf s1" and d1: "kifs_dict s1 = (kifs_dict s)(?key := None)"
    using remove_kifs_entry_table [OF t assms(2)] by auto
  have "i < length (entry_buff s)" using table_wf_index [OF t i(1)] by simp
  have "find (\<lambda>i. kname s1 i = cname MAX_KIFS_ENTRY_NAME_SIZE other) (entry_list s1) = None"
    using fun_cong [OF d1, of "cname MAX_KIFS_ENTRY_NAME_SIZE other"] assms(7)
    by (simp add: kifs_dict_find split: if_splits)
  then have fe: "find_entry (\<lambda>x. strncmp MAX_KIFS_ENTRY_NAME_SIZE x other) (entry_buff s1) (entry_list s1) = Some None"
    using find_entry_name(1) [OF t1 assms(3)] by simp
  obtain block where "strncpy MAX_KIFS_ENTRY_NAME_SIZE other = Some block"
    using strncpy_readable [OF assms(3)] by auto
  then obtain s2 where s2: "create_kifs_entry other rd wr d s1 = Some (s2, Some i)"
    "entry_buff s2 = (entry_buff s)[i := \<lparr>entryname = block, read_kifs = rd, write_kifs = wr, data = d\<rparr>]"
    using fe by (simp add: create_kifs_entry_def s1_def Let_def)
  with rm \<open>i < length (entry_buff s)\<close> show ?thesis by (cases rd) (simp_all add: sys_kifs_test_def sys_kifs_callback_def)
qed

theorem kifs_stale_entry_witness:
  "\<exists>v i s1 s2. remove_kifs_entry (list_name @ [0]) kifs_ready = Some (s1, 0)
     \<and> create_kifs_entry [120, 0] None None 5 s1 = Some (s2, Some i)
     \<and> kifs_piece (Continue v) s2 (Tested i KIFS_READ_OP 9) = Fault"
proof -
  have t: "table_wf kifs_ready" using kifs_ready_wf by (simp add: kifs_wf_def)
  have n: "cname MAX_KIFS_ENTRY_NAME_SIZE (list_name @ [0]) = list_name"
    "readable MAX_KIFS_ENTRY_NAME_SIZE (list_name @ [0])"
    using builtin_names(1,3) by (simp_all add: list_name_def)
  have o: "readable MAX_KIFS_ENTRY_NAME_SIZE [120, 0]" "cname MAX_KIFS_ENTRY_NAME_SIZE [120, 0] = [120]"
    using cname_string [of "[120]" MAX_KIFS_ENTRY_NAME_SIZE "[]"]
    by (simp_all add: readable_def MAX_KIFS_ENTRY_NAME_SIZE_def)
  have d: "kifs_dict kifs_ready (called_name list_name) = Some (Some list_kifs, None, 0)"
    using builtin_names(5) by (simp add: called_builtin kifs_ready_dict)
  obtain i where i: "sys_kifs_lookup list_name kifs_ready = Some (Some i)"
    using lookup_Some [OF t called_builtin(4) d] by metis
  have f: "kifs_piece (Kifs list_name KIFS_READ_OP 9) kifs_ready Idle = Next (kifs_ready, Found i KIFS_READ_OP 9, Running)"
    using i called_builtin(4) by simp
  have none: "kifs_dict kifs_ready (cname MAX_KIFS_ENTRY_NAME_SIZE [120, 0]) = None"
    unfolding o(2) kifs_ready_dict by (simp add: list_name_def clipboard_name_def bytes_of_def)
  have same: "called_name list_name = cname MAX_KIFS_ENTRY_NAME_SIZE (list_name @ [0])"
    using n(1) called_builtin(2) by simp
  from kifs_stale_entry [OF kifs_ready_wf n(2) o(1) called_builtin(4) same f none, of None None 5]
  show ?thesis by auto
qed

end
