(* ===== verification/Modlist.thy ===== *)
theory Modlist
  imports CStrings "HOL-Library.Multiset" "HOL-Library.Sublist"
begin

text \<open>
  The /proc list of integers of parteA/modlist.c, and of opcional1/modlist.c, which is the same
  code over a reader/writer lock.  The elements are blocks of a heap, the list is the sequence of
  their addresses; an access to or a release of an address that is not allocated is a fault.  The
  functions come first as they run undisturbed; then the same operations cut where another
  processor can run, over either lock.
\<close>

section \<open>Data\<close>

text \<open>\<open>list_item_t\<close> blocks by address, and \<open>mylist\<close>.\<close>

record modlist =
  heap :: "nat \<Rightarrow> s32 option"
  mylist :: "nat list"

definition modlist_start :: modlist where
  "modlist_start = \<lparr>heap = Map.empty, mylist = []\<rparr>"

section \<open>The functions on lists\<close>

text \<open>\<open>_unsafe_clear_list\<close>: unlink and release every element of a list nobody else sees.\<close>

fun unsafe_clear_list :: "nat list \<Rightarrow> (nat \<Rightarrow> s32 option) \<Rightarrow> (nat \<Rightarrow> s32 option) option" where
  "unsafe_clear_list [] h = Some h"
| "unsafe_clear_list (e # es) h = (if h e = None then None else unsafe_clear_list es (h(e := None)))"

text \<open>The loops that move elements to \<open>bin\<close>; the first argument is what \<open>list_for_each_entry_safe\<close> visits.\<close>

fun clear_loop :: "nat list \<Rightarrow> nat list \<Rightarrow> nat list \<Rightarrow> nat list \<times> nat list" where
  "clear_loop [] l bin = (l, bin)"
| "clear_loop (e # es) l bin = clear_loop es (remove1 e l) (e # bin)"

fun remove_loop ::
  "s32 \<Rightarrow> (nat \<Rightarrow> s32 option) \<Rightarrow> nat list \<Rightarrow> nat list \<Rightarrow> nat list \<Rightarrow> (nat list \<times> nat list) option" where
  "remove_loop d h [] l bin = Some (l, bin)"
| "remove_loop d h (e # es) l bin = do {
     x \<leftarrow> h e;
     (if x = d then remove_loop d h es (remove1 e l) (e # bin) else remove_loop d h es l bin) }"

text \<open>The three operations: with the lock held the list changes, afterwards \<open>bin\<close> is released.\<close>

definition safe_clear_list :: "modlist \<Rightarrow> modlist option" where
  "safe_clear_list s = do {
     let (l, bin) = clear_loop (mylist s) (mylist s) [];
     h \<leftarrow> unsafe_clear_list bin (heap s);
     Some \<lparr>heap = h, mylist = l\<rparr> }"

text \<open>\<open>item\<close> is what \<open>vmalloc\<close> returns; the code does not test it.\<close>

definition add_item_list :: "nat option \<Rightarrow> s32 \<Rightarrow> modlist \<Rightarrow> modlist option" where
  "add_item_list item d s = do {
     i \<leftarrow> item;
     Some \<lparr>heap = (heap s)(i \<mapsto> d), mylist = i # mylist s\<rparr> }"

definition remove_items_list :: "s32 \<Rightarrow> modlist \<Rightarrow> modlist option" where
  "remove_items_list d s = do {
     (l, bin) \<leftarrow> remove_loop d (heap s) (mylist s) (mylist s) [];
     h \<leftarrow> unsafe_clear_list bin (heap s);
     Some \<lparr>heap = h, mylist = l\<rparr> }"

text \<open>\<open>streq\<close>: the loop stops where a string ends or the characters differ.\<close>

fun streq :: "u8 list \<Rightarrow> u8 list \<Rightarrow> bool option" where
  "streq [] ys = None"
| "streq (a # as) ys =
     (if a = 0 then Some True
      else case ys of
             [] \<Rightarrow> None
           | b # bs \<Rightarrow> if b = 0 then Some True else if a = b then streq as bs else Some False)"

section \<open>The /proc entry\<close>

text \<open>
  \<open>snprintf(buf + off, size, ...)\<close> for the given text: at most \<open>size\<close> bytes are written, a NUL
  included, and the length of the whole text is returned.  The kernel's \<open>snprintf\<close> writes nothing
  and returns 0 when \<open>size\<close> is negative as an \<open>int\<close>.
\<close>

definition snprintf_at :: "u8 list \<Rightarrow> int \<Rightarrow> int \<Rightarrow> u8 list \<Rightarrow> (u8 list \<times> int) option" where
  "snprintf_at buf off room text =
     (if room < 0 then Some (buf, 0)
      else if room = 0 then Some (buf, int (length text))
      else let k = min (length text) (nat room - 1) in do {
        b \<leftarrow> memcpy buf off (take k text @ [0]) (int k + 1);
        Some (b, int (length text)) })"

text \<open>\<open>procfile_read\<close>: the loop over the elements that are left, and the whole function.\<close>

fun read_loop ::
  "int \<Rightarrow> (nat \<Rightarrow> s32 option) \<Rightarrow> nat list \<Rightarrow> int \<Rightarrow> u8 list \<Rightarrow> (int \<times> u8 list) option" where
  "read_loop buffer_len h [] used buf = Some (used, buf)"
| "read_loop buffer_len h (e # es) used buf =
     (if buffer_len - used = 0 then Some (used, buf)
      else do {
        d \<leftarrow> h e;
        (buf', n) \<leftarrow> snprintf_at buf used (buffer_len - used) (decimal d @ [10]);
        read_loop buffer_len h es (used + n) buf' })"

definition procfile_read :: "u8 list \<Rightarrow> modlist \<Rightarrow> (int \<times> u8 list) option" where
  "procfile_read buf s = read_loop (int (length buf)) (heap s) (mylist s) 0 buf"

text \<open>
  \<open>procfile_write\<close>: \<open>copied\<close> is what \<open>copy_from_user\<close> puts into \<open>line\<close>; \<open>scan_add\<close> and \<open>scan_remove\<close>
  are \<open>sscanf\<close> with the two formats, \<^const>\<open>None\<close> when it converts nothing.
\<close>

datatype command = AddItem s32 | RemoveItems s32 | Cleanup | Ignored

definition write_line :: "u32 \<Rightarrow> u8 list \<Rightarrow> u8 list option" where
  "write_line nbytes copied = do {
     line \<leftarrow> memcpy (replicate 25 0) 0 copied (uint (min nbytes 24));
     write_at line (uint (min nbytes 24)) 0 }"

definition write_command ::
  "(u8 list \<Rightarrow> s32 option) \<Rightarrow> (u8 list \<Rightarrow> s32 option) \<Rightarrow> u8 list \<Rightarrow> command option" where
  "write_command scan_add scan_remove line =
     (case scan_add line of
        Some num \<Rightarrow> Some (AddItem num)
      | None \<Rightarrow>
          (case scan_remove line of
             Some num \<Rightarrow> Some (RemoveItems num)
           | None \<Rightarrow> do {
               same \<leftarrow> streq line (bytes_of ''cleanup'' @ [0]);
               Some (if same then Cleanup else Ignored) }))"

definition procfile_write ::
  "(u8 list \<Rightarrow> s32 option) \<Rightarrow> (u8 list \<Rightarrow> s32 option) \<Rightarrow> u32 \<Rightarrow> u8 list \<Rightarrow> nat option \<Rightarrow> modlist
     \<Rightarrow> (modlist \<times> u32) option" where
  "procfile_write scan_add scan_remove nbytes copied item s = do {
     line \<leftarrow> write_line nbytes copied;
     cmd \<leftarrow> write_command scan_add scan_remove line;
     s' \<leftarrow> (case cmd of
              AddItem num \<Rightarrow> add_item_list item num s
            | RemoveItems num \<Rightarrow> remove_items_list num s
            | Cleanup \<Rightarrow> safe_clear_list s
            | Ignored \<Rightarrow> Some s);
     Some (s', min nbytes 24) }"

text \<open>\<open>modlist_init\<close> (the result is its return value and the list) and \<open>modlist_clean\<close>.\<close>

definition modlist_init :: "int \<times> modlist" where
  "modlist_init = (0, modlist_start)"

definition modlist_clean :: "modlist \<Rightarrow> modlist option" where
  "modlist_clean s = safe_clear_list s"

section \<open>The two locks\<close>

text \<open>Operations that give \<^const>\<open>None\<close> block.  The spinlock of parteA is taken alike by readers and writers.\<close>

record 'l lock_ops =
  read_lock :: "'l \<Rightarrow> 'l option"
  read_unlock :: "'l \<Rightarrow> 'l option"
  write_lock :: "'l \<Rightarrow> 'l option"
  write_unlock :: "'l \<Rightarrow> 'l option"

definition spin_lock :: "bool \<Rightarrow> bool option" where
  "spin_lock l = (if l then None else Some True)"

definition spin_unlock :: "bool \<Rightarrow> bool option" where
  "spin_unlock l = Some False"

definition parteA_lock :: "bool lock_ops" where
  "parteA_lock = \<lparr>read_lock = spin_lock, read_unlock = spin_unlock,
     write_lock = spin_lock, write_unlock = spin_unlock\<rparr>"

text \<open>The reader/writer lock: the number of readers inside and whether a writer is.\<close>

definition opcional1_lock :: "(nat \<times> bool) lock_ops" where
  "opcional1_lock =
     \<lparr>read_lock = (\<lambda>(n, w). if w then None else Some (n + 1, w)),
      read_unlock = (\<lambda>(n, w). if n = 0 then None else Some (n - 1, w)),
      write_lock = (\<lambda>(n, w). if w \<or> n \<noteq> 0 then None else Some (n, True)),
      write_unlock = (\<lambda>(n, w). Some (n, False))\<rparr>"

section \<open>Concurrent calls\<close>

text \<open>Where a processor is; the points named \<open>Held\<close>, \<open>ReadLoop\<close> and \<open>ReadOut\<close> are inside the lock.\<close>

datatype mpc =
    MIdle
  | ReadIn "u8 list"
  | ReadLoop "nat option" int "u8 list"
  | ReadOut int "u8 list"
  | AddIn nat
  | AddHeld nat
  | RemoveIn s32
  | RemoveHeld s32
  | ClearIn
  | ClearHeld
  | Freeing "nat list"

text \<open>What a processor is asked to do: a read into a block, a write, or to go on.\<close>

datatype mcall = CallRead "u8 list" | CallWrite command "nat option" | Go

datatype mout = NoResult | ReadResult int "u8 list" | WriteDone

text \<open>The address after \<open>e\<close>, \<^const>\<open>None\<close> when the list ends there.\<close>

definition next_of :: "nat \<Rightarrow> nat list \<Rightarrow> nat option" where
  "next_of e l = (case dropWhile (\<lambda>x. x \<noteq> e) l of (_ # y # _) \<Rightarrow> Some y | _ \<Rightarrow> None)"

definition first_of :: "nat list \<Rightarrow> nat option" where
  "first_of l = (case l of [] \<Rightarrow> None | x # _ \<Rightarrow> Some x)"

text \<open>A piece that needs a lock operation first.\<close>

definition locking :: "'l option \<Rightarrow> ('l \<Rightarrow> 'a result) \<Rightarrow> 'a result" where
  "locking l k = (case l of None \<Rightarrow> Blocked | Some l' \<Rightarrow> k l')"

fun modlist_piece ::
  "'l lock_ops \<Rightarrow> mcall \<Rightarrow> modlist \<Rightarrow> 'l \<Rightarrow> mpc \<Rightarrow> (modlist \<times> 'l \<times> mpc \<times> mout) result" where
  "modlist_piece L (CallRead buf) s l MIdle = Next (s, l, ReadIn buf, NoResult)"
| "modlist_piece L (CallWrite cmd item) s l MIdle =
     (case cmd of
        AddItem num \<Rightarrow>
          (case item of
             None \<Rightarrow> Fault
           | Some i \<Rightarrow> if heap s i \<noteq> None then Blocked
                       else Next (s\<lparr>heap := (heap s)(i \<mapsto> num)\<rparr>, l, AddIn i, NoResult))
      | RemoveItems num \<Rightarrow> Next (s, l, RemoveIn num, NoResult)
      | Cleanup \<Rightarrow> Next (s, l, ClearIn, NoResult)
      | Ignored \<Rightarrow> Next (s, l, MIdle, WriteDone))"
| "modlist_piece L Go s l (ReadIn buf) =
     locking (read_lock L l) (\<lambda>l'. Next (s, l', ReadLoop (first_of (mylist s)) 0 buf, NoResult))"
| "modlist_piece L Go s l (ReadLoop None used buf) = Next (s, l, ReadOut used buf, NoResult)"
| "modlist_piece L Go s l (ReadLoop (Some e) used buf) =
     (if int (length buf) - used = 0 then Next (s, l, ReadOut used buf, NoResult)
      else case heap s e of
             None \<Rightarrow> Fault
           | Some d \<Rightarrow>
               (case snprintf_at buf used (int (length buf) - used) (decimal d @ [10]) of
                  None \<Rightarrow> Fault
                | Some (buf', n) \<Rightarrow> Next (s, l, ReadLoop (next_of e (mylist s)) (used + n) buf', NoResult)))"
| "modlist_piece L Go s l (ReadOut used buf) =
     locking (read_unlock L l) (\<lambda>l'. Next (s, l', MIdle, ReadResult used buf))"
| "modlist_piece L Go s l (AddIn i) = locking (write_lock L l) (\<lambda>l'. Next (s, l', AddHeld i, NoResult))"
| "modlist_piece L Go s l (AddHeld i) =
     locking (write_unlock L l) (\<lambda>l'. Next (s\<lparr>mylist := i # mylist s\<rparr>, l', MIdle, WriteDone))"
| "modlist_piece L Go s l (RemoveIn d) = locking (write_lock L l) (\<lambda>l'. Next (s, l', RemoveHeld d, NoResult))"
| "modlist_piece L Go s l (RemoveHeld d) =
     (case remove_loop d (heap s) (mylist s) (mylist s) [] of
        None \<Rightarrow> Fault
      | Some (m, bin) \<Rightarrow>
          locking (write_unlock L l) (\<lambda>l'. Next (s\<lparr>mylist := m\<rparr>, l', Freeing bin, NoResult)))"
| "modlist_piece L Go s l ClearIn = locking (write_lock L l) (\<lambda>l'. Next (s, l', ClearHeld, NoResult))"
| "modlist_piece L Go s l ClearHeld =
     (let (m, bin) = clear_loop (mylist s) (mylist s) []
      in locking (write_unlock L l) (\<lambda>l'. Next (s\<lparr>mylist := m\<rparr>, l', Freeing bin, NoResult)))"
| "modlist_piece L Go s l (Freeing bin) =
     (case bin of
        [] \<Rightarrow> Next (s, l, MIdle, WriteDone)
      | e # es \<Rightarrow> if heap s e = None then Fault
                  else Next (s\<lparr>heap := (heap s)(e := None)\<rparr>, l, Freeing es, NoResult))"
| "modlist_piece L _ s l _ = Blocked"

text \<open>The two modules: the same code over a spinlock and over a reader/writer lock.\<close>

definition parteA_piece :: "mcall \<Rightarrow> modlist \<Rightarrow> bool \<Rightarrow> mpc \<Rightarrow> (modlist \<times> bool \<times> mpc \<times> mout) result" where
  "parteA_piece = modlist_piece parteA_lock"

definition opcional1_piece ::
  "mcall \<Rightarrow> modlist \<Rightarrow> nat \<times> bool \<Rightarrow> mpc \<Rightarrow> (modlist \<times> (nat \<times> bool) \<times> mpc \<times> mout) result" where
  "opcional1_piece = modlist_piece opcional1_lock"

record 'l msystem =
  mmem :: modlist
  mlock :: 'l
  mcpus :: "mpc list"

inductive modlist_step :: "'l lock_ops \<Rightarrow> 'l msystem \<Rightarrow> nat \<Rightarrow> mcall \<Rightarrow> mout \<Rightarrow> 'l msystem \<Rightarrow> bool" for L where
  piece: "i < length (mcpus S) \<Longrightarrow> modlist_piece L c (mmem S) (mlock S) (mcpus S ! i) = Next (s, l, p, out) \<Longrightarrow>
    modlist_step L S i c out (S\<lparr>mmem := s, mlock := l, mcpus := (mcpus S)[i := p]\<rparr>)"

inductive modlist_reach :: "'l lock_ops \<Rightarrow> 'l \<Rightarrow> nat \<Rightarrow> 'l msystem \<Rightarrow> bool" for L l n where
  boot: "modlist_reach L l n \<lparr>mmem = snd modlist_init, mlock = l, mcpus = replicate n MIdle\<rparr>"
| step: "modlist_reach L l n S \<Longrightarrow> modlist_step L S i c out T \<Longrightarrow> modlist_reach L l n T"

end
