(* ===== verification/Threads.thy ===== *)
theory Threads
  imports Prelude "HOL-Library.Multiset"
begin

text \<open>
  Lists of concurrent processors, each at some program point: what one step changes in counts and
  in the ownership of blocks, with the processors that do not move set apart.
\<close>

definition others :: "nat \<Rightarrow> 'p list \<Rightarrow> 'p list" where
  "others i ps = take i ps @ drop (Suc i) ps"

text \<open>The blocks owned by the processors together.\<close>

definition pool :: "('p \<Rightarrow> 'b list) \<Rightarrow> 'p list \<Rightarrow> 'b multiset" where
  "pool owned ps = sum_list (map (\<lambda>p. mset (owned p)) ps)"

lemma pool_idle [simp]: "owned p = [] \<Longrightarrow> pool owned (replicate n p) = {#}"
  by (induction n) (simp_all add: pool_def)

lemma list_update_others: "i < length ps \<Longrightarrow> ps[i := p] = take i ps @ p # drop (Suc i) ps"
  by (rule upd_conv_take_nth_drop)

lemma pool_split: "i < length ps \<Longrightarrow> pool owned (ps[i := p]) = mset (owned p) + pool owned (others i ps)"
  by (simp add: list_update_others pool_def others_def ac_simps)

lemma count_split: "i < length ps \<Longrightarrow> count_if P (ps[i := p]) = count_if P (others i ps) + of_bool (P p)"
  by (simp add: list_update_others others_def)

lemma ball_split: "i < length ps \<Longrightarrow> (\<forall>q \<in> set (ps[i := p]). P q) \<longleftrightarrow> P p \<and> (\<forall>q \<in> set (others i ps). P q)"
  by (auto simp: list_update_others others_def)

lemmas split_at = pool_split count_split ball_split

text \<open>The same for the present list, split at one of its members.\<close>

lemma pool_at: "i < length ps \<Longrightarrow> pool owned ps = mset (owned (ps ! i)) + pool owned (others i ps)"
  using pool_split [of i ps owned "ps ! i"] by simp

lemma count_at: "i < length ps \<Longrightarrow> count_if P ps = count_if P (others i ps) + of_bool (P (ps ! i))"
  using count_split [of i ps P "ps ! i"] by simp

lemma ball_at: "i < length ps \<Longrightarrow> (\<forall>q \<in> set ps. P q) \<longleftrightarrow> P (ps ! i) \<and> (\<forall>q \<in> set (others i ps). P q)"
  using ball_split [of i ps "ps ! i" P] by simp

text \<open>Blocks that are counted once, because the allocated addresses are.\<close>

lemma blocks_distinct:
  assumes "mset xs + M \<subseteq># mset_set D" and "finite D"
  shows "distinct xs" and "set xs \<subseteq> D" and "x \<in> set xs \<Longrightarrow> x \<notin># M"
proof -
  have c: "count (mset xs) x + count M x \<le> (if x \<in> D then 1 else 0)" for x
    using mset_subset_eq_count [OF assms(1), of x] assms(2) by (simp add: count_mset_set')
  have m: "x \<in> set xs \<longleftrightarrow> count (mset xs) x \<noteq> 0" for x
    by (simp only: set_mset_mset [symmetric] not_in_iff [symmetric] not_not)
  have "count (mset xs) x + count M x \<le> 1" for x
    by (rule order_trans [OF c]) simp
  then have le: "count (mset xs) x \<le> 1" for x by (rule add_leD1)
  have "count (mset xs) x = (if x \<in> set xs then 1 else 0)" for x
  proof (cases "x \<in> set xs")
    case True
    then have "count (mset xs) x \<noteq> 0" using m by blast
    with le [of x] have "count (mset xs) x = 1" by linarith
    with True show ?thesis by simp
  qed simp
  then show "distinct xs" by (intro iffD2 [OF distinct_count_atmost_1] allI)
  show "set xs \<subseteq> D"
  proof
    fix x assume "x \<in> set xs"
    then have "count (mset xs) x \<noteq> 0" using m by blast
    then have "\<not> count (mset xs) x + count M x \<le> 0" by linarith
    then show "x \<in> D" using c [of x] by presburger
  qed
  show "x \<notin># M" if "x \<in> set xs"
  proof -
    have "count (mset xs) x \<noteq> 0" using m that by blast
    moreover have "count (mset xs) x + count M x \<le> 1" by (rule order_trans [OF c]) simp
    ultimately have "count M x = 0" by linarith
    then show ?thesis by (simp only: not_in_iff)
  qed
qed

end
