(* ===== verification/ModlistInv.thy ===== *)
theory ModlistInv
  imports Modlist Threads
begin

text \<open>
  The list of integers that the module represents, the effect of every function on it, and, for
  any lock that meets the contract of a reader/writer lock, the invariant of concurrent calls: who
  owns which block, what the lock excludes, and that a reader in the middle of its traversal sees
  one list.
\<close>

section \<open>The functions on lists\<close>

definition modlist_ok :: "modlist \<Rightarrow> bool" where
  "modlist_ok s \<longleftrightarrow> distinct (mylist s) \<and> dom (heap s) = set (mylist s)"

definition ints :: "modlist \<Rightarrow> s32 list" where
  "ints s = map (\<lambda>i. the (heap s i)) (mylist s)"

lemma unsafe_clear_list_ok:
  "distinct bin \<Longrightarrow> set bin \<subseteq> dom h \<Longrightarrow> unsafe_clear_list bin h = Some (h |` (- set bin))"
proof (induction bin arbitrary: h)
  case (Cons e es)
  then have "h e \<noteq> None" "set es \<subseteq> dom (h(e := None))" by auto
  moreover have "(h(e := None)) |` (- set es) = h |` (- set (e # es))"
    by (auto simp: restrict_map_def fun_eq_iff)
  ultimately show ?case using Cons by simp
qed (auto simp: restrict_map_def)

lemma clear_loop_all: "clear_loop es es bin = ([], rev es @ bin)"
  by (induction es arbitrary: bin) auto

lemma remove_loop_filter:
  "distinct (pre @ es) \<Longrightarrow> set es \<subseteq> dom h \<Longrightarrow>
   remove_loop d h es (pre @ es) bin =
     Some (pre @ filter (\<lambda>e. h e \<noteq> Some d) es, rev (filter (\<lambda>e. h e = Some d) es) @ bin)"
proof (induction es arbitrary: pre bin)
  case (Cons e es)
  then obtain x where x: "h e = Some x" by auto
  have r: "remove1 e (pre @ e # es) = pre @ es" using Cons.prems(1) by (simp add: remove1_append)
  show ?case
  proof (cases "x = d")
    case True
    then show ?thesis using Cons.prems Cons.IH [of pre "e # bin"] x r by simp
  next
    case False
    then show ?thesis using Cons.prems Cons.IH [of "pre @ [e]" bin] x by simp
  qed
qed simp

lemma remove_loop_mylist:
  "distinct l \<Longrightarrow> set l \<subseteq> dom h \<Longrightarrow>
   remove_loop d h l l [] = Some (filter (\<lambda>e. h e \<noteq> Some d) l, rev (filter (\<lambda>e. h e = Some d) l))"
  using remove_loop_filter [of "[]" l h d "[]"] by simp

lemma safe_clear_list_ints:
  "modlist_ok s \<Longrightarrow> \<exists>s'. safe_clear_list s = Some s' \<and> modlist_ok s' \<and> ints s' = []"
  by (simp add: modlist_ok_def safe_clear_list_def clear_loop_all unsafe_clear_list_ok ints_def)

lemma add_item_list_ints:
  "modlist_ok s \<Longrightarrow> heap s i = None \<Longrightarrow>
   \<exists>s'. add_item_list (Some i) d s = Some s' \<and> modlist_ok s' \<and> ints s' = d # ints s"
  by (auto simp: modlist_ok_def add_item_list_def ints_def)

lemma remove_items_list_ints:
  assumes "modlist_ok s"
  shows "\<exists>s'. remove_items_list d s = Some s' \<and> modlist_ok s' \<and> ints s' = filter (\<lambda>x. x \<noteq> d) (ints s)"
proof -
  let ?keep = "filter (\<lambda>e. heap s e \<noteq> Some d) (mylist s)" and ?bin = "rev (filter (\<lambda>e. heap s e = Some d) (mylist s))"
  have d: "distinct (mylist s)" "set (mylist s) = dom (heap s)" using assms by (simp_all add: modlist_ok_def)
  have "unsafe_clear_list ?bin (heap s) = Some (heap s |` (- set ?bin))"
    using d by (intro unsafe_clear_list_ok) auto
  then have r: "remove_items_list d s = Some \<lparr>heap = heap s |` (- set ?bin), mylist = ?keep\<rparr>"
    using d by (simp add: remove_items_list_def remove_loop_mylist)
  have "dom (heap s |` (- set ?bin)) = set ?keep" using d(2) by auto
  moreover have "map (\<lambda>i. the ((heap s |` (- set ?bin)) i)) ?keep = filter (\<lambda>x. x \<noteq> d) (map (\<lambda>i. the (heap s i)) (mylist s))"
  proof -
    have "map (\<lambda>i. the ((heap s |` (- set ?bin)) i)) ?keep = map (\<lambda>i. the (heap s i)) ?keep"
      by (rule map_cong) auto
    also have "\<dots> = map (\<lambda>i. the (heap s i)) (filter (\<lambda>e. the (heap s e) \<noteq> d) (mylist s))"
      using d(2) by (intro arg_cong [of _ _ "map _"] filter_cong) auto
    finally show ?thesis by (simp add: filter_map o_def)
  qed
  ultimately show ?thesis using r d(1) by (simp add: modlist_ok_def ints_def)
qed

lemma streq_prefix:
  "0 \<in> set as \<Longrightarrow> 0 \<in> set bs \<Longrightarrow>
   streq as bs = Some (prefix (takeWhile (\<lambda>c. c \<noteq> 0) as) (takeWhile (\<lambda>c. c \<noteq> 0) bs)
                     \<or> prefix (takeWhile (\<lambda>c. c \<noteq> 0) bs) (takeWhile (\<lambda>c. c \<noteq> 0) as))"
proof (induction as arbitrary: bs)
  case (Cons a as)
  then obtain b bs' where "bs = b # bs'" by (cases bs) auto
  then show ?case using Cons by auto
qed simp

section \<open>Reading\<close>

definition render :: "s32 list \<Rightarrow> u8 list" where
  "render ds = concat (map (\<lambda>d. decimal d @ [10]) ds)"

text \<open>How many characters the loop counts: it stops once the block is full.\<close>

fun used_after :: "nat \<Rightarrow> s32 list \<Rightarrow> nat \<Rightarrow> nat" where
  "used_after n [] u = u"
| "used_after n (d # ds) u = (if n \<le> u then u else used_after n ds (u + length (decimal d) + 1))"

lemma used_after_exact: "u + length (render ds) \<le> n \<Longrightarrow> used_after n ds u = u + length (render ds)"
  by (induction ds arbitrary: u) (auto simp: render_def)

lemma used_after_full: "n \<le> u \<Longrightarrow> used_after n ds u = u"
  by (cases ds) auto

lemma used_after_bounds:
  "u < n + 12 \<Longrightarrow> used_after n ds u < n + 12"
proof (induction ds arbitrary: u)
  case (Cons d ds)
  then show ?case using decimal_length [of d] by simp
qed simp

lemma used_after_ge: "n \<le> u + length (render ds) \<Longrightarrow> n \<le> used_after n ds u"
proof (induction ds arbitrary: u)
  case (Cons d ds)
  then show ?case by (simp add: render_def add.assoc)
qed (simp add: render_def)

lemma read_loop_full:
  "int n \<le> used \<Longrightarrow> set es \<subseteq> dom h \<Longrightarrow> read_loop (int n) h es used buf = Some (used, buf)"
proof (induction es)
  case (Cons e es)
  then obtain d where "h e = Some d" by auto
  then show ?case using Cons by (simp add: snprintf_at_def)
qed simp

lemma snprintf_at_fits:
  assumes "k + length text < length buf"
  shows "snprintf_at buf (int k) (int (length buf) - int k) text =
           Some (take k buf @ text @ 0 # drop (k + length text + 1) buf, int (length text))"
proof -
  have "nat (int (length buf) - int k) - 1 = length buf - k - 1" by simp
  then have m: "min (length text) (nat (int (length buf) - int k) - 1) = length text" using assms by simp
  show ?thesis
    using assms memcpy_nat [of "Suc (length text)" "text @ [0]" k buf] unfolding snprintf_at_def m
    by (simp add: Let_def add.commute)
qed

lemma snprintf_at_truncates:
  assumes "k < length buf" and "length buf \<le> k + length text"
  shows "snprintf_at buf (int k) (int (length buf) - int k) text =
           Some (take k buf @ take (length buf - k - 1) text @ [0], int (length text))"
proof -
  have "nat (int (length buf) - int k) - 1 = length buf - k - 1" by simp
  then have m: "min (length text) (nat (int (length buf) - int k) - 1) = length buf - k - 1" using assms by simp
  have "int (length buf - k - 1) + 1 = int (length buf - k)" using assms(1) by simp
  then show ?thesis
    using assms memcpy_nat [of "length buf - k" "take (length buf - k - 1) text @ [0]" k buf] unfolding snprintf_at_def m
    by (simp add: Let_def)
qed

text \<open>
  The whole loop: it never leaves the block, it counts \<open>used_after\<close> characters, and what is in the
  block is the text, cut off so that the last byte is left for a NUL.
\<close>

lemma read_loop_ok:
  "k < length buf \<Longrightarrow> set es \<subseteq> dom h \<Longrightarrow>
   \<exists>buf'. read_loop (int (length buf)) h es (int k) buf
          = Some (int (used_after (length buf) (map (\<lambda>i. the (h i)) es) k), buf')
     \<and> length buf' = length buf
     \<and> (let text = take k buf @ render (map (\<lambda>i. the (h i)) es);
             shown = min (length text) (length buf - 1)
         in take shown buf' = take shown text)"
proof (induction es arbitrary: k buf)
  case Nil
  then show ?case by (simp add: render_def)
next
  case (Cons e es)
  then obtain d where d: "h e = Some d" by auto
  let ?line = "decimal d @ [10]" and ?ds = "map (\<lambda>i. the (h i)) es"
  have open_loop: "int (length buf) - int k \<noteq> 0" using Cons.prems(1) by simp
  have rend: "render (map (\<lambda>i. the (h i)) (e # es)) = ?line @ render ?ds" using d by (simp add: render_def)
  show ?case
  proof (cases "k + length ?line < length buf")
    case True
    define buf1 where "buf1 = take k buf @ ?line @ 0 # drop (k + length ?line + 1) buf"
    have s: "snprintf_at buf (int k) (int (length buf) - int k) ?line = Some (buf1, int (length ?line))"
      using snprintf_at_fits [OF True] by (simp add: buf1_def)
    have len1: "length buf1 = length buf" using True by (simp add: buf1_def)
    have t1: "take (k + length ?line) buf1 = take k buf @ ?line" using True by (simp add: buf1_def)
    have k1: "k + length ?line < length buf1" using True len1 by simp
    have step: "read_loop (int (length buf)) h (e # es) (int k) buf
        = read_loop (int (length buf1)) h es (int (k + length ?line)) buf1"
      using open_loop d s len1 by (simp add: ac_simps)
    have u: "used_after (length buf) (map (\<lambda>i. the (h i)) (e # es)) k = used_after (length buf1) ?ds (k + length ?line)"
      using Cons.prems(1) d len1 by simp
    from Cons.IH [OF k1] Cons.prems(2) obtain buf' where
      "read_loop (int (length buf1)) h es (int (k + length ?line)) buf1
         = Some (int (used_after (length buf1) ?ds (k + length ?line)), buf')" "length buf' = length buf1"
      "(let text = take (k + length ?line) buf1 @ render ?ds; shown = min (length text) (length buf1 - 1)
        in take shown buf' = take shown text)" by auto
    then show ?thesis unfolding step u rend t1 len1 append_assoc by auto
  next
    case False
    let ?buf1 = "take k buf @ take (length buf - k - 1) ?line @ [0]"
    have s: "snprintf_at buf (int k) (int (length buf) - int k) ?line = Some (?buf1, int (length ?line))"
      using snprintf_at_truncates [of k buf ?line] Cons.prems(1) False by simp
    have full: "int (length buf) \<le> int k + int (length ?line)" using False by simp
    have step: "read_loop (int (length buf)) h (e # es) (int k) buf = Some (int k + int (length ?line), ?buf1)"
      using open_loop d s read_loop_full [OF full, of es h] Cons.prems(2) by simp
    have u: "used_after (length buf) (map (\<lambda>i. the (h i)) (e # es)) k = k + length ?line"
      using Cons.prems(1) d False used_after_full [of "length buf" "k + length ?line"] by simp
    have "take (length buf - 1) ?buf1 = take (length buf - 1) (take k buf @ ?line @ render ?ds)"
      using Cons.prems(1) False by simp
    moreover have "min (length (take k buf @ ?line @ render ?ds)) (length buf - 1) = length buf - 1"
      using Cons.prems(1) False by simp
    ultimately show ?thesis
      unfolding step u rend using Cons.prems(1) False by (simp only: Let_def option.inject prod.inject) simp
  qed
qed

lemma procfile_read_ok:
  assumes "modlist_ok s"
  shows "\<exists>buf'. procfile_read buf s = Some (int (used_after (length buf) (ints s) 0), buf') \<and> length buf' = length buf
     \<and> (let shown = min (length (render (ints s))) (length buf - 1)
         in take shown buf' = take shown (render (ints s)))"
proof (cases "buf = []")
  case True
  then have "procfile_read buf s = Some (0, [])"
    using read_loop_full [of 0 0 "mylist s" "heap s" "[]"] assms by (simp add: procfile_read_def modlist_ok_def)
  then show ?thesis using True by (simp add: used_after_full)
next
  case False
  then show ?thesis
    using read_loop_ok [of 0 buf "mylist s" "heap s"] assms
    by (simp add: procfile_read_def modlist_ok_def ints_def Let_def)
qed

section \<open>The contract of the lock\<close>

text \<open>
  \<open>ok l r w\<close>: the lock's state is \<open>l\<close> while \<open>r\<close> processors are inside as readers and \<open>w\<close> as writers.
\<close>

locale rw_lock =
  fixes L :: "'l lock_ops" and start :: 'l and ok :: "'l \<Rightarrow> nat \<Rightarrow> nat \<Rightarrow> bool"
  assumes ok_start: "ok start 0 0"
    and exclusive: "ok l r w \<Longrightarrow> w = 0 \<or> (w = 1 \<and> r = 0)"
    and read_locked: "ok l r w \<Longrightarrow> read_lock L l = Some l' \<Longrightarrow> ok l' (Suc r) w"
    and write_locked: "ok l r w \<Longrightarrow> write_lock L l = Some l' \<Longrightarrow> ok l' r (Suc w)"
    and read_unlocked: "ok l (Suc r) w \<Longrightarrow> \<exists>l'. read_unlock L l = Some l' \<and> ok l' r w"
    and write_unlocked: "ok l r (Suc w) \<Longrightarrow> \<exists>l'. write_unlock L l = Some l' \<and> ok l' r w"

text \<open>The lock that lets readers in together.\<close>

locale shared_lock = rw_lock +
  assumes readers_share: "ok l r 0 \<Longrightarrow> \<exists>l'. read_lock L l = Some l'"

definition spin_ok :: "bool \<Rightarrow> nat \<Rightarrow> nat \<Rightarrow> bool" where
  "spin_ok l r w \<longleftrightarrow> (if l then r + w = 1 else r = 0 \<and> w = 0)"

definition rw_ok :: "nat \<times> bool \<Rightarrow> nat \<Rightarrow> nat \<Rightarrow> bool" where
  "rw_ok l r w \<longleftrightarrow> fst l = r \<and> (if snd l then w = 1 \<and> r = 0 else w = 0)"

interpretation spin: rw_lock parteA_lock False spin_ok
  by unfold_locales (auto simp: spin_ok_def parteA_lock_def spin_lock_def spin_unlock_def split: if_splits)

interpretation rw: shared_lock opcional1_lock "(0, False)" rw_ok
proof
  show "rw_ok (0, False) 0 0" by (simp add: rw_ok_def)
next
  fix l r w assume "rw_ok l r w"
  then show "w = 0 \<or> (w = 1 \<and> r = 0)" by (simp add: rw_ok_def split: if_splits)
next
  fix l r w l' assume ok: "rw_ok l r w" and taken: "read_lock opcional1_lock l = Some l'"
  from taken have "\<not> snd l" and "l' = (fst l + 1, snd l)"
    by (auto simp: opcional1_lock_def case_prod_beta split: if_splits)
  with ok show "rw_ok l' (Suc r) w" by (simp add: rw_ok_def)
next
  fix l r w l' assume ok: "rw_ok l r w" and taken: "write_lock opcional1_lock l = Some l'"
  from taken have "\<not> snd l" "fst l = 0" and "l' = (fst l, True)"
    by (auto simp: opcional1_lock_def case_prod_beta split: if_splits)
  with ok show "rw_ok l' r (Suc w)" by (simp add: rw_ok_def)
next
  fix l r w assume "rw_ok l (Suc r) w"
  then show "\<exists>l'. read_unlock opcional1_lock l = Some l' \<and> rw_ok l' r w"
    by (cases l) (simp add: rw_ok_def opcional1_lock_def split: if_splits)
next
  fix l r w assume "rw_ok l r (Suc w)"
  then have "fst l = r \<and> w = 0" by (cases "snd l") (simp_all add: rw_ok_def)
  then show "\<exists>l'. write_unlock opcional1_lock l = Some l' \<and> rw_ok l' r w"
    by (intro exI [of _ "(r, False)"]) (simp add: rw_ok_def opcional1_lock_def case_prod_beta)
next
  fix l r assume "rw_ok l r 0"
  then have "\<not> snd l" by (cases "snd l") (simp_all add: rw_ok_def)
  then show "\<exists>l'. read_lock opcional1_lock l = Some l'"
    by (intro exI [of _ "(fst l + 1, False)"]) (simp add: opcional1_lock_def case_prod_beta)
qed

section \<open>Ownership and the traversal of a reader\<close>

fun reads_list :: "mpc \<Rightarrow> bool" where
  "reads_list (ReadLoop c used buf) \<longleftrightarrow> True"
| "reads_list (ReadOut used buf) \<longleftrightarrow> True"
| "reads_list _ \<longleftrightarrow> False"

fun writes_list :: "mpc \<Rightarrow> bool" where
  "writes_list (AddHeld i) \<longleftrightarrow> True"
| "writes_list (RemoveHeld d) \<longleftrightarrow> True"
| "writes_list ClearHeld \<longleftrightarrow> True"
| "writes_list _ \<longleftrightarrow> False"

text \<open>The blocks that only this processor can reach.\<close>

fun owned :: "mpc \<Rightarrow> nat list" where
  "owned (AddIn i) = [i]"
| "owned (AddHeld i) = [i]"
| "owned (Freeing bin) = bin"
| "owned _ = []"

text \<open>What a reader has so far is the beginning of a read of the present list.\<close>

fun traversal :: "modlist \<Rightarrow> mpc \<Rightarrow> bool" where
  "traversal s (ReadLoop c used buf) \<longleftrightarrow>
     (\<exists>pre post buf0. mylist s = pre @ post \<and> c = first_of post \<and> length buf0 = length buf
        \<and> procfile_read buf0 s = read_loop (int (length buf)) (heap s) post used buf)"
| "traversal s (ReadOut used buf) \<longleftrightarrow>
     (\<exists>buf0. length buf0 = length buf \<and> procfile_read buf0 s = Some (used, buf))"
| "traversal s _ \<longleftrightarrow> True"

lemma read_loop_cong: "(\<And>e. e \<in> set es \<Longrightarrow> h e = h' e) \<Longrightarrow> read_loop n h es used buf = read_loop n h' es used buf"
proof (induction es arbitrary: used buf)
  case (Cons e es)
  have IH: "read_loop n h es u b = read_loop n h' es u b" for u b using Cons by simp
  have e: "h e = h' e" using Cons.prems by simp
  show ?case
  proof (cases "h' e")
    case (Some d)
    then show ?thesis using e IH
      by (cases "snprintf_at buf used (n - used) (decimal d @ [10])") (auto split: prod.splits)
  qed (use e in simp)
qed simp

lemma traversal_stable:
  assumes "traversal s p" and "mylist s' = mylist s" and "\<And>e. e \<in> set (mylist s) \<Longrightarrow> heap s' e = heap s e"
  shows "traversal s' p"
proof -
  have r: "procfile_read b s' = procfile_read b s" for b
    using assms(2,3) read_loop_cong [of "mylist s" "heap s'" "heap s"] by (simp add: procfile_read_def)
  have post: "read_loop n (heap s') post used buf = read_loop n (heap s) post used buf"
    if "mylist s = pre @ post" for n pre post used buf
    using assms(3) that by (intro read_loop_cong) auto
  show ?thesis
    using assms(1,2) by (cases p) (auto simp: r, metis post)
qed

lemma traversal_not_reading: "\<not> reads_list p \<Longrightarrow> traversal s p"
  by (cases p) auto

lemma first_of_append: "first_of l = Some e \<longleftrightarrow> (\<exists>es. l = e # es)"
  by (auto simp: first_of_def split: list.splits)

lemma first_of_None: "first_of l = None \<longleftrightarrow> l = []"
  by (simp add: first_of_def split: list.splits)

lemma next_of_append: "e \<notin> set pre \<Longrightarrow> next_of e (pre @ e # es) = first_of es"
proof (induction pre)
  case Nil
  then show ?case by (simp add: next_of_def first_of_def split: list.splits)
qed (simp add: next_of_def)

section \<open>Every piece of every call\<close>

definition faultless :: "mcall \<Rightarrow> bool" where
  "faultless c \<longleftrightarrow> (case c of CallWrite (AddItem num) None \<Rightarrow> False | _ \<Rightarrow> True)"

text \<open>The state after a piece, with \<open>R\<close> the blocks of the other processors.\<close>

definition kept :: "nat multiset \<Rightarrow> modlist \<Rightarrow> mpc \<Rightarrow> bool" where
  "kept R s p \<longleftrightarrow> finite (dom (heap s)) \<and> mset (mylist s) + mset (owned p) + R = mset_set (dom (heap s))"

definition undisturbed :: "modlist \<Rightarrow> modlist \<Rightarrow> bool" where
  "undisturbed s s' \<longleftrightarrow> mylist s' = mylist s \<and> (\<forall>e \<in> set (mylist s). heap s' e = heap s e)"

lemma undisturbed_refl [simp]: "undisturbed s s"
  by (simp add: undisturbed_def)

lemma kept_mylist:
  assumes "kept R s p"
  shows "distinct (mylist s)" and "set (mylist s) \<subseteq> dom (heap s)"
    and "x \<in> set (owned p) \<Longrightarrow> x \<notin> set (mylist s) \<and> heap s x \<noteq> None"
    and "distinct (owned p)"
proof -
  have f: "finite (dom (heap s))" and m: "mset (mylist s) + (mset (owned p) + R) \<subseteq># mset_set (dom (heap s))"
    and o: "mset (owned p) + (mset (mylist s) + R) \<subseteq># mset_set (dom (heap s))"
    using assms by (simp_all add: kept_def ac_simps)
  show "distinct (mylist s)" "set (mylist s) \<subseteq> dom (heap s)" "distinct (owned p)"
    using blocks_distinct(1,2) [OF m f] blocks_distinct(1) [OF o f] by blast+
  show "x \<notin> set (mylist s) \<and> heap s x \<noteq> None" if "x \<in> set (owned p)"
    using blocks_distinct(2) [OF o f] blocks_distinct(3) [OF o f that] that by auto
qed

lemma kept_alloc:
  assumes "kept R s p" and "heap s i = None" and "owned p = []" and "owned p' = [i]"
  shows "kept R (s\<lparr>heap := (heap s)(i \<mapsto> d)\<rparr>) p'" and "undisturbed s (s\<lparr>heap := (heap s)(i \<mapsto> d)\<rparr>)"
proof -
  have "i \<notin> dom (heap s)" using assms(2) by auto
  moreover have "finite (dom (heap s))" using assms(1) by (simp add: kept_def)
  ultimately have "mset_set (dom ((heap s)(i \<mapsto> d))) = add_mset i (mset_set (dom (heap s)))" by simp
  then show "kept R (s\<lparr>heap := (heap s)(i \<mapsto> d)\<rparr>) p'" using assms by (simp add: kept_def)
  show "undisturbed s (s\<lparr>heap := (heap s)(i \<mapsto> d)\<rparr>)"
    using kept_mylist(2) [OF assms(1)] assms(2) by (auto simp: undisturbed_def)
qed

lemma kept_free:
  assumes "kept R s p" and "owned p = e # es" and "owned p' = es"
  shows "kept R (s\<lparr>heap := (heap s)(e := None)\<rparr>) p'" and "undisturbed s (s\<lparr>heap := (heap s)(e := None)\<rparr>)"
proof -
  have e: "e \<notin> set (mylist s)" "e \<in> dom (heap s)" using kept_mylist(3) [OF assms(1), of e] assms(2) by auto
  have f: "finite (dom (heap s))" using assms(1) by (simp add: kept_def)
  have "mset_set (dom (heap s)) = add_mset e (mset_set (dom (heap s) - {e}))"
    using e(2) f by (metis mset_set.remove)
  then show "kept R (s\<lparr>heap := (heap s)(e := None)\<rparr>) p'" using assms f by (simp add: kept_def)
  show "undisturbed s (s\<lparr>heap := (heap s)(e := None)\<rparr>)" using e(1) by (auto simp: undisturbed_def)
qed

lemma kept_same: "kept R s p \<Longrightarrow> owned p' = owned p \<Longrightarrow> kept R s p'"
  by (simp add: kept_def)

lemma kept_remove:
  assumes "kept R s p" and "owned p = []"
  shows "remove_loop d (heap s) (mylist s) (mylist s) [] =
           Some (filter (\<lambda>e. heap s e \<noteq> Some d) (mylist s), rev (filter (\<lambda>e. heap s e = Some d) (mylist s)))"
    and "kept R (s\<lparr>mylist := filter (\<lambda>e. heap s e \<noteq> Some d) (mylist s)\<rparr>)
           (Freeing (rev (filter (\<lambda>e. heap s e = Some d) (mylist s))))"
proof -
  show "remove_loop d (heap s) (mylist s) (mylist s) [] =
           Some (filter (\<lambda>e. heap s e \<noteq> Some d) (mylist s), rev (filter (\<lambda>e. heap s e = Some d) (mylist s)))"
    using kept_mylist(1,2) [OF assms(1)] by (rule remove_loop_mylist)
  have "mset (filter (\<lambda>e. heap s e \<noteq> Some d) (mylist s)) + mset (filter (\<lambda>e. heap s e = Some d) (mylist s))
      = mset (mylist s)"
    using multiset_partition [of "mset (mylist s)" "\<lambda>e. heap s e = Some d"] by (simp add: mset_filter add.commute)
  then show "kept R (s\<lparr>mylist := filter (\<lambda>e. heap s e \<noteq> Some d) (mylist s)\<rparr>)
           (Freeing (rev (filter (\<lambda>e. heap s e = Some d) (mylist s))))"
    using assms by (simp add: kept_def)
qed

text \<open>One step of a reader: its traversal goes on as the whole read does, inside its block.\<close>

lemma traversal_step:
  assumes "kept R s (ReadLoop (Some e) used buf)" and "traversal s (ReadLoop (Some e) used buf)"
    and "int (length buf) - used \<noteq> 0"
  shows "\<exists>d buf' n. heap s e = Some d \<and> snprintf_at buf used (int (length buf) - used) (decimal d @ [10]) = Some (buf', n)
     \<and> traversal s (ReadLoop (next_of e (mylist s)) (used + n) buf')"
proof -
  obtain pre post buf0 where t: "mylist s = pre @ post" "first_of post = Some e" "length buf0 = length buf"
    "procfile_read buf0 s = read_loop (int (length buf)) (heap s) post used buf"
    using assms(2) by auto
  obtain es where es: "post = e # es" using t(2) by (auto simp: first_of_append)
  have d: "distinct (mylist s)" "set (mylist s) \<subseteq> dom (heap s)" using kept_mylist(1,2) [OF assms(1)] .
  obtain x where x: "heap s e = Some x" using d(2) t(1) es by auto
  obtain buf1 where "procfile_read buf0 s = Some buf1"
  proof (cases "buf0 = []")
    case True
    then show thesis using that read_loop_full [of 0 0 "mylist s" "heap s" "[]"] d(2) by (simp add: procfile_read_def)
  next
    case False
    then show thesis using that read_loop_ok [of 0 buf0 "mylist s" "heap s"] d(2) by (auto simp: procfile_read_def)
  qed
  then obtain buf' n where s: "snprintf_at buf used (int (length buf) - used) (decimal x @ [10]) = Some (buf', n)"
    "procfile_read buf0 s = read_loop (int (length buf)) (heap s) es (used + n) buf'"
    using t(4) assms(3) x unfolding es by (auto simp: bind_eq_Some_conv)
  have len: "length buf' = length buf"
    using s(1) by (auto simp: snprintf_at_def Let_def bind_eq_Some_conv dest: memcpy_length split: if_splits)
  have "next_of e (mylist s) = first_of es"
    using d(1) t(1) es next_of_append [of e pre es] by simp
  with t(1,3) s(2) es len have "traversal s (ReadLoop (next_of e (mylist s)) (used + n) buf')"
    unfolding traversal.simps by (intro exI [of _ "pre @ [e]"] exI [of _ es] exI [of _ buf0]) simp
  with x s(1) show ?thesis by blast
qed

text \<open>What a piece guarantees: to its own processor, and to those that are inside the lock as readers.\<close>

definition good_step ::
  "('l \<Rightarrow> nat \<Rightarrow> nat \<Rightarrow> bool) \<Rightarrow> nat multiset \<Rightarrow> nat \<Rightarrow> nat \<Rightarrow> modlist \<Rightarrow> (modlist \<times> 'l \<times> mpc \<times> mout) \<Rightarrow> bool" where
  "good_step ok R r w s n \<longleftrightarrow>
     (case n of (s', l', p', out) \<Rightarrow>
        kept R s' p' \<and> traversal s' p' \<and> ok l' (r + of_bool (reads_list p')) (w + of_bool (writes_list p'))
        \<and> (undisturbed s s' \<or> r = 0)
        \<and> (case out of ReadResult used buf \<Rightarrow> \<exists>buf0. length buf0 = length buf \<and> procfile_read buf0 s = Some (used, buf)
           | _ \<Rightarrow> True))"

context rw_lock
begin

lemma piece_ok:
  assumes k: "kept R s p" and t: "traversal s p" and c: "faultless c"
    and ok: "ok l (r + of_bool (reads_list p)) (w + of_bool (writes_list p))"
  shows "case modlist_piece L c s l p of Blocked \<Rightarrow> True | Fault \<Rightarrow> False | Next n \<Rightarrow> good_step ok R r w s n"
proof (cases "(L, c, s, l, p)" rule: modlist_piece.cases)
  case (1 L' buf s' l')
  then show ?thesis using k ok by (simp add: good_step_def kept_same)
next
  case (2 L' cmd item s' l')
  show ?thesis
  proof (cases cmd)
    case (AddItem num)
    then obtain i where i: "item = Some i" using c 2 by (auto simp: faultless_def split: option.splits)
    show ?thesis
    proof (cases "heap s i")
      case None
      from kept_alloc [OF k this, of "AddIn i" num] show ?thesis
        using 2 AddItem i None ok by (simp add: good_step_def)
    qed (use 2 AddItem i in simp)
  qed (use 2 k ok in \<open>simp_all add: good_step_def kept_same\<close>)
next
  case (3 L' s' l' buf)
  show ?thesis
  proof (cases "read_lock L l")
    case (Some l1)
    have "traversal s (ReadLoop (first_of (mylist s)) 0 buf)"
      unfolding traversal.simps
      by (intro exI [of _ "[]"] exI [of _ "mylist s"] exI [of _ buf]) (simp add: procfile_read_def)
    then show ?thesis using 3 k ok Some read_locked [of l r w l1]
      by (simp add: good_step_def locking_def kept_same)
  qed (use 3 in \<open>simp add: locking_def\<close>)
next
  case (4 L' s' l' used buf)
  have "traversal s (ReadOut used buf)"
    using t 4 by (auto simp: first_of_None eq_commute [of None])
  then show ?thesis using 4 k ok by (simp add: good_step_def kept_same)
next
  case (5 L' s' l' e used buf)
  show ?thesis
  proof (cases "int (length buf) - used = 0")
    case True
    obtain pre post buf0 where "mylist s = pre @ post" "first_of post = Some e" "length buf0 = length buf"
      "procfile_read buf0 s = read_loop (int (length buf)) (heap s) post used buf"
      using t 5 by auto
    then have "traversal s (ReadOut used buf)"
      using True by (auto simp: first_of_append)
    then show ?thesis using 5 k ok True by (simp add: good_step_def kept_same)
  next
    case False
    have "kept R s (ReadLoop (Some e) used buf)" "traversal s (ReadLoop (Some e) used buf)"
      using k t 5 by simp_all
    from traversal_step [OF this False] obtain d buf' n where
      "heap s e = Some d" "snprintf_at buf used (int (length buf) - used) (decimal d @ [10]) = Some (buf', n)"
      "traversal s (ReadLoop (next_of e (mylist s)) (used + n) buf')" by blast
    then show ?thesis using 5 k ok False by (simp add: good_step_def kept_same del: traversal.simps)
  qed
next
  case (6 L' s' l' used buf)
  then obtain l1 where "read_unlock L l = Some l1" "ok l1 r w" using ok read_unlocked [of l r w] by auto
  then show ?thesis using 6 k t by (simp add: good_step_def locking_def kept_same)
next
  case (7 L' s' l' i)
  then show ?thesis using k ok write_locked [of l r w]
    by (cases "write_lock L l") (simp_all add: good_step_def locking_def kept_same)
next
  case (8 L' s' l' i)
  then obtain l1 where l1: "write_unlock L l = Some l1" "ok l1 r w" using ok write_unlocked [of l r w] by auto
  have "r = 0" using exclusive [OF ok] 8 by simp
  moreover have "kept R (s\<lparr>mylist := i # mylist s\<rparr>) MIdle" using k 8 by (simp add: kept_def)
  ultimately show ?thesis using 8 l1 by (simp add: good_step_def locking_def)
next
  case (9 L' s' l' d)
  then show ?thesis using k ok write_locked [of l r w]
    by (cases "write_lock L l") (simp_all add: good_step_def locking_def kept_same)
next
  case (10 L' s' l' d)
  then obtain l1 where l1: "write_unlock L l = Some l1" "ok l1 r w" using ok write_unlocked [of l r w] by auto
  have "r = 0" using exclusive [OF ok] 10 by simp
  with kept_remove [OF k, of d] 10 l1 show ?thesis by (simp add: good_step_def locking_def)
next
  case (11 L' s' l')
  then show ?thesis using k ok write_locked [of l r w]
    by (cases "write_lock L l") (simp_all add: good_step_def locking_def kept_same)
next
  case (12 L' s' l')
  then obtain l1 where l1: "write_unlock L l = Some l1" "ok l1 r w" using ok write_unlocked [of l r w] by auto
  have "r = 0" using exclusive [OF ok] 12 by simp
  moreover have "kept R (s\<lparr>mylist := []\<rparr>) (Freeing (rev (mylist s)))" using k 12 by (simp add: kept_def)
  ultimately show ?thesis using 12 l1 by (simp add: good_step_def locking_def clear_loop_all)
next
  case (13 L' s' l' bin)
  show ?thesis
  proof (cases bin)
    case Nil
    then show ?thesis using 13 k ok by (simp add: good_step_def kept_same)
  next
    case (Cons e es)
    have "heap s e \<noteq> None" using kept_mylist(3) [OF k, of e] 13 Cons by simp
    moreover note kept_free [OF k, of e es "Freeing es"]
    ultimately show ?thesis using 13 Cons ok by (simp add: good_step_def)
  qed
qed simp_all

end

section \<open>Systems\<close>

definition msystem_ok :: "('l \<Rightarrow> nat \<Rightarrow> nat \<Rightarrow> bool) \<Rightarrow> 'l msystem \<Rightarrow> bool" where
  "msystem_ok ok S \<longleftrightarrow> finite (dom (heap (mmem S)))
     \<and> mset (mylist (mmem S)) + pool owned (mcpus S) = mset_set (dom (heap (mmem S)))
     \<and> (\<forall>p \<in> set (mcpus S). traversal (mmem S) p)
     \<and> ok (mlock S) (count_if reads_list (mcpus S)) (count_if writes_list (mcpus S))"

lemma msystem_ok_split:
  assumes "i < length ps"
  shows "msystem_ok ok (S\<lparr>mmem := s, mlock := l, mcpus := ps[i := p]\<rparr>) \<longleftrightarrow>
     kept (pool owned (others i ps)) s p \<and> traversal s p \<and> (\<forall>q \<in> set (others i ps). traversal s q)
     \<and> ok l (count_if reads_list (others i ps) + of_bool (reads_list p))
            (count_if writes_list (others i ps) + of_bool (writes_list p))"
  using assms by (auto simp: msystem_ok_def kept_def split_at ac_simps)

lemma msystem_ok_at:
  "i < length (mcpus S) \<Longrightarrow> msystem_ok ok S \<longleftrightarrow>
     kept (pool owned (others i (mcpus S))) (mmem S) (mcpus S ! i) \<and> traversal (mmem S) (mcpus S ! i)
     \<and> (\<forall>q \<in> set (others i (mcpus S)). traversal (mmem S) q)
     \<and> ok (mlock S) (count_if reads_list (others i (mcpus S)) + of_bool (reads_list (mcpus S ! i)))
            (count_if writes_list (others i (mcpus S)) + of_bool (writes_list (mcpus S ! i)))"
  using msystem_ok_split [where i = i and ps = "mcpus S" and s = "mmem S" and l = "mlock S" and p = "mcpus S ! i" and S = S]
  by simp

lemma faulty_call_no_step: "\<not> faultless c \<Longrightarrow> modlist_piece L c s l p \<noteq> Next n"
  by (cases p) (auto simp: faultless_def split: mcall.splits command.splits option.splits)

context rw_lock
begin

lemma step_ok:
  assumes inv: "msystem_ok ok S" and step: "modlist_step L S i c out T"
  shows "msystem_ok ok T \<and> (case out of
      ReadResult used buf \<Rightarrow> \<exists>buf0. length buf0 = length buf \<and> procfile_read buf0 (mmem S) = Some (used, buf)
    | _ \<Rightarrow> True)"
  using step
proof cases
  case (piece s l p)
  let ?ps = "mcpus S"
  let ?r = "count_if reads_list (others i ?ps)"
  have fl: "faultless c" by (metis faulty_call_no_step piece(3))
  from inv piece(2) have at: "kept (pool owned (others i ?ps)) (mmem S) (?ps ! i)" "traversal (mmem S) (?ps ! i)"
    "\<forall>q \<in> set (others i ?ps). traversal (mmem S) q"
    "ok (mlock S) (?r + of_bool (reads_list (?ps ! i)))
        (count_if writes_list (others i ?ps) + of_bool (writes_list (?ps ! i)))"
    by (simp_all add: msystem_ok_at)
  from piece_ok [OF at(1,2) fl at(4)] piece(3)
  have g: "good_step ok (pool owned (others i ?ps)) ?r (count_if writes_list (others i ?ps)) (mmem S) (s, l, p, out)"
    by simp
  have "traversal s q" if q: "q \<in> set (others i ?ps)" for q
  proof (cases "reads_list q")
    case True
    then have "?r \<noteq> 0" using q by (auto simp: count_if_0)
    then have "undisturbed (mmem S) s" using g by (simp add: good_step_def)
    then show ?thesis using at(3) q traversal_stable [of "mmem S" q s] by (auto simp: undisturbed_def)
  qed (rule traversal_not_reading)
  with g piece(1,2) show ?thesis
    using msystem_ok_split [where i = i and ps = ?ps and s = s and l = l and p = p and S = S] by (simp add: good_step_def)
qed

lemma reach_ok: "modlist_reach L start n S \<Longrightarrow> msystem_ok ok S"
proof (induction rule: modlist_reach.induct)
  case boot
  have "count_if P (replicate n MIdle) = 0" if "\<not> P MIdle" for P using that by simp
  then show ?case
    using ok_start by (simp add: msystem_ok_def modlist_init_def modlist_start_def)
next
  case (step S i c out T)
  then show ?case using step_ok by blast
qed

lemma reach_no_fault:
  assumes "modlist_reach L start n S" and "p \<in> set (mcpus S)" and "faultless c"
  shows "modlist_piece L c (mmem S) (mlock S) p \<noteq> Fault"
proof -
  obtain i where i: "i < length (mcpus S)" "mcpus S ! i = p" using assms(2) by (auto simp: in_set_conv_nth)
  then have "kept (pool owned (others i (mcpus S))) (mmem S) p" "traversal (mmem S) p"
    "ok (mlock S) (count_if reads_list (others i (mcpus S)) + of_bool (reads_list p))
        (count_if writes_list (others i (mcpus S)) + of_bool (writes_list p))"
    using reach_ok [OF assms(1)] by (simp_all add: msystem_ok_at)
  from piece_ok [OF this(1,2) assms(3) this(3)] show ?thesis by auto
qed

lemma reach_exclusive:
  assumes "modlist_reach L start n S" and "i < length (mcpus S)" "j < length (mcpus S)" "i \<noteq> j"
    and "writes_list (mcpus S ! i)"
  shows "\<not> writes_list (mcpus S ! j) \<and> \<not> reads_list (mcpus S ! j)"
proof -
  have "ok (mlock S) (count_if reads_list (mcpus S)) (count_if writes_list (mcpus S))"
    using reach_ok [OF assms(1)] by (simp add: msystem_ok_def)
  note x = exclusive [OF this]
  have "0 < count_if writes_list (mcpus S)" using count_if_pos assms(2,5) by blast
  with x have w: "count_if writes_list (mcpus S) = 1" "count_if reads_list (mcpus S) = 0" by auto
  have "\<not> writes_list (mcpus S ! j)"
    using count_if_two [of i "mcpus S" j writes_list] assms w(1) by auto
  moreover have "\<not> reads_list (mcpus S ! j)"
    using count_if_pos [of j "mcpus S" reads_list] assms w(2) by auto
  ultimately show ?thesis by blast
qed

end

end
