(* ===== verification/ModlistProps.thy ===== *)
theory ModlistProps
  imports ModlistInv
begin

text \<open>
  The properties of the /proc list: what a write command does to the integers, what a read shows,
  the safety of concurrent calls under both locks, the snapshot a concurrent read takes, and the
  two places where the code does not do what its callers expect.
\<close>

section \<open>Writing\<close>

text \<open>The effect that each command is meant to have on the integers.\<close>

fun command_effect :: "command \<Rightarrow> s32 list \<Rightarrow> s32 list" where
  "command_effect (AddItem d) xs = d # xs"
| "command_effect (RemoveItems d) xs = filter (\<lambda>x. x \<noteq> d) xs"
| "command_effect Cleanup xs = []"
| "command_effect Ignored xs = xs"

lemma write_line_ok:
  assumes "length copied = unat (min nbytes 24)"
  shows "write_line nbytes copied = Some (copied @ replicate (25 - length copied) 0)"
proof -
  have le: "unat (min nbytes 24) \<le> 24" by (simp add: min_def word_le_nat_alt)
  then have "memcpy (replicate 25 0) 0 copied (uint (min nbytes 24)) = Some (copied @ replicate (25 - length copied) 0)"
    using assms memcpy_nat [of "length copied" copied 0 "replicate 25 (0 :: u8)"] unfolding uint_nat by simp
  moreover have "write_at (copied @ replicate (25 - length copied) 0) (uint (min nbytes 24)) 0
      = Some (copied @ replicate (25 - length copied) (0 :: u8))"
    using le unfolding uint_nat assms [symmetric]
    by (cases "25 - length copied") (simp_all add: write_at_def nat_less_iff)
  ultimately show ?thesis by (simp add: write_line_def)
qed

lemma line_terminated: "length copied \<le> 24 \<Longrightarrow> 0 \<in> set (copied @ replicate (25 - length copied) (0 :: u8))"
  by simp

lemma write_command_total:
  "0 \<in> set line \<Longrightarrow> \<exists>cmd. write_command scan_add scan_remove line = Some cmd"
  using streq_prefix [of line "bytes_of ''cleanup'' @ [0]"]
  by (auto simp: write_command_def split: option.splits)

text \<open>
  C13 (modlist_write_effect): a write whose bytes were copied, on a consistent list and with memory for
  a new element, is memory safe, is recognised as some command, has that command's effect on the
  integers, releases exactly the elements it removes, and returns the number of bytes it used.
\<close>

theorem modlist_write_effect:
  assumes "modlist_ok s" and "length copied = unat (min nbytes 24)" and "heap s i = None"
  shows "\<exists>line cmd s'. write_line nbytes copied = Some line \<and> write_command scan_add scan_remove line = Some cmd
     \<and> procfile_write scan_add scan_remove nbytes copied (Some i) s = Some (s', min nbytes 24)
     \<and> modlist_ok s' \<and> ints s' = command_effect cmd (ints s)"
proof -
  have "length copied \<le> 24" using assms(2) by (simp add: min_def word_le_nat_alt split: if_splits)
  from line_terminated [OF this] obtain cmd where
    cmd: "write_command scan_add scan_remove (copied @ replicate (25 - length copied) 0) = Some cmd"
    using write_command_total by blast
  have "\<exists>s'. (case cmd of AddItem num \<Rightarrow> add_item_list (Some i) num s | RemoveItems num \<Rightarrow> remove_items_list num s
            | Cleanup \<Rightarrow> safe_clear_list s | Ignored \<Rightarrow> Some s) = Some s'
          \<and> modlist_ok s' \<and> ints s' = command_effect cmd (ints s)"
    using add_item_list_ints [OF assms(1,3)] remove_items_list_ints [OF assms(1)] safe_clear_list_ints [OF assms(1)] assms(1)
    by (cases cmd) auto
  then obtain s' where "(case cmd of AddItem num \<Rightarrow> add_item_list (Some i) num s | RemoveItems num \<Rightarrow> remove_items_list num s
            | Cleanup \<Rightarrow> safe_clear_list s | Ignored \<Rightarrow> Some s) = Some s'"
    "modlist_ok s'" "ints s' = command_effect cmd (ints s)" by blast
  with cmd write_line_ok [OF assms(2)] show ?thesis by (auto simp: procfile_write_def)
qed

definition two_items :: modlist where
  "two_items = \<lparr>heap = [0 \<mapsto> 5, 1 \<mapsto> 7], mylist = [1, 0]\<rparr>"

lemma two_items_ok: "modlist_ok two_items" and two_items_ints: "ints two_items = [7, 5]"
  by (auto simp: two_items_def modlist_ok_def ints_def)

theorem modlist_write_effect_witness:
  "\<exists>s'. procfile_write (\<lambda>_. None) (\<lambda>l. if hd l = 114 then Some 7 else None) 8 (bytes_of ''remove 7'') (Some 2) two_items
     = Some (s', 8) \<and> ints s' = [5]"
proof -
  have "length (bytes_of ''remove 7'') = unat (min 8 24 :: u32)" "heap two_items 2 = None"
    by (simp_all add: bytes_of_def two_items_def)
  from modlist_write_effect [OF two_items_ok this, of "\<lambda>_. None" "\<lambda>l. if hd l = 114 then Some 7 else None"]
  show ?thesis
    using write_line_ok [of "bytes_of ''remove 7''" 8]
    by (auto simp: bytes_of_def write_command_def two_items_ints)
qed

text \<open>
  \<open>streq\<close> holds as soon as one string is a prefix of the other, so every
  line that is a beginning of \<open>cleanup\<close>, the empty line included, or goes on after it, empties the list.
\<close>

theorem modlist_prefix_clears:
  assumes "modlist_ok s" and "length copied = unat (min nbytes 24)" and "0 \<notin> set copied"
    and "prefix copied (bytes_of ''cleanup'') \<or> prefix (bytes_of ''cleanup'') copied"
    and "\<And>line. scan_add line = None" and "\<And>line. scan_remove line = None"
  shows "\<exists>s'. procfile_write scan_add scan_remove nbytes copied item s = Some (s', min nbytes 24) \<and> ints s' = []"
proof -
  let ?line = "copied @ replicate (25 - length copied) 0"
  have le: "length copied \<le> 24" using assms(2) by (simp add: min_def word_le_nat_alt split: if_splits)
  have t: "takeWhile (\<lambda>c. c \<noteq> 0) ?line = copied"
    using assms(3) by (auto simp: takeWhile_append)
  have n: "0 \<notin> set (bytes_of ''cleanup'')" by (simp add: bytes_of_def)
  have "takeWhile (\<lambda>c. c \<noteq> 0) (bytes_of ''cleanup'' @ [0]) = bytes_of ''cleanup''"
    using n by (auto simp: takeWhile_append)
  then have "streq ?line (bytes_of ''cleanup'' @ [0]) = Some True"
    using streq_prefix [OF line_terminated [OF le], of "bytes_of ''cleanup'' @ [0]"] assms(4) unfolding t by auto
  then have "write_command scan_add scan_remove ?line = Some Cleanup"
    using assms(5,6) by (simp add: write_command_def)
  with safe_clear_list_ints [OF assms(1)] write_line_ok [OF assms(2)] show ?thesis
    by (auto simp: procfile_write_def)
qed

theorem modlist_prefix_clears_witness:
  "\<exists>s'. procfile_write (\<lambda>_. None) (\<lambda>_. None) 0 [] None two_items = Some (s', 0) \<and> ints s' = []"
proof -
  have "length ([] :: u8 list) = unat (min 0 24 :: u32)" by simp
  from modlist_prefix_clears [OF two_items_ok this, of "\<lambda>_. None" "\<lambda>_. None" None] show ?thesis by simp
qed

section \<open>Reading\<close>

text \<open>
  A read of a consistent list never leaves the block it is given and puts
  there the decimal text of the integers, one per line, or as much of it as leaves the last byte
  free; when the whole text fits, the return value is its length, and in no case is it as much as
  12 larger than the block.
\<close>

theorem modlist_read_shows_list:
  assumes "modlist_ok s"
  shows "\<exists>used buf'. procfile_read buf s = Some (int used, buf') \<and> length buf' = length buf
     \<and> take (min (length (render (ints s))) (length buf - 1)) buf'
         = take (min (length (render (ints s))) (length buf - 1)) (render (ints s))
     \<and> (length (render (ints s)) \<le> length buf \<longrightarrow> used = length (render (ints s)))
     \<and> (length buf \<le> length (render (ints s)) \<longrightarrow> length buf \<le> used) \<and> used < length buf + 12"
  using procfile_read_ok [OF assms, of buf] used_after_exact [of 0 "ints s" "length buf"]
    used_after_ge [of "length buf" 0 "ints s"] used_after_bounds [of 0 "length buf" "ints s"]
  by (auto simp: Let_def)

theorem modlist_read_shows_list_witness:
  "\<exists>buf'. procfile_read (replicate 10 0) two_items = Some (4, buf') \<and> take 4 buf' = [55, 10, 53, 10]"
proof -
  have "render (ints two_items) = [55, 10, 53, 10]"
    by (simp add: two_items_ints render_def decimal_def digits.simps)
  with modlist_read_shows_list [OF two_items_ok, of "replicate 10 0"] show ?thesis
    by (auto simp: eval_nat_numeral)
qed

text \<open>
  \<open>snprintf\<close> returns the length of the whole text, not of what it wrote,
  so with 2000 two-digit numbers a read of a page of 4096 bytes claims 4098 bytes.
\<close>

lemma used_after_replicate:
  "used_after 4096 (replicate m 10) (3 * j) = (if 4096 \<le> 3 * j then 3 * j else if j + m \<le> 1366 then 3 * (j + m) else 4098)"
proof (induction m arbitrary: j)
  case (Suc m)
  have "length (decimal 10) = 2" by (simp add: decimal_def digits.simps)
  then have "used_after 4096 (replicate (Suc m) 10) (3 * j)
      = (if 4096 \<le> 3 * j then 3 * j else used_after 4096 (replicate m 10) (3 * Suc j))"
    by (simp add: numeral_3_eq_3)
  then show ?case unfolding Suc.IH by (cases "j = 1365") auto
qed auto

theorem modlist_read_overshoots:
  "\<exists>s buf'. modlist_ok s \<and> length (mylist s) = 2000 \<and> procfile_read (replicate 4096 0) s = Some (4098, buf')"
proof -
  let ?s = "\<lparr>heap = (\<lambda>i. if i < 2000 then Some 10 else None), mylist = [0..<2000]\<rparr>"
  have ok: "modlist_ok ?s" by (auto simp: modlist_ok_def split: if_splits)
  have "ints ?s = replicate 2000 10"
    by (rule nth_equalityI) (simp_all add: ints_def)
  then have "used_after 4096 (ints ?s) 0 = 4098" using used_after_replicate [of 2000 0] by simp
  with procfile_read_ok [OF ok, of "replicate 4096 0"] ok show ?thesis
    by (intro exI [of _ ?s]) auto
qed

section \<open>Concurrent calls\<close>

text \<open>
  C14 (modlist_concurrent_safe): under the spinlock of parteA, in every reachable state of any number of
  processors, no piece of a call is a fault except an addition whose allocation failed, and every
  allocated element is reachable exactly once, from the list or from one processor.
\<close>

theorem modlist_concurrent_safe:
  assumes "modlist_reach parteA_lock False n S" and "p \<in> set (mcpus S)" and "faultless c"
  shows "parteA_piece c (mmem S) (mlock S) p \<noteq> Fault
     \<and> mset (mylist (mmem S)) + pool owned (mcpus S) = mset_set (dom (heap (mmem S)))"
  using spin.reach_no_fault [OF assms] spin.reach_ok [OF assms(1)] by (simp add: msystem_ok_def parteA_piece_def)

lemma modlist_boot_reach:
  "modlist_reach L l n \<lparr>mmem = modlist_start, mlock = l, mcpus = replicate n MIdle\<rparr>"
  using modlist_reach.boot [of L l n] by (simp add: modlist_init_def)

theorem modlist_concurrent_safe_witness:
  "parteA_piece (CallWrite (AddItem 3) (Some 0)) modlist_start False MIdle \<noteq> Fault"
  using modlist_concurrent_safe [OF modlist_boot_reach [of _ _ 1], of MIdle "CallWrite (AddItem 3) (Some 0)"]
  by (simp add: faultless_def)

text \<open>
  C15 (modlist_rwlock_snapshot): under the reader/writer lock of opcional1, whatever the processors
  interleave, what a read returns is what an undisturbed \<open>procfile_read\<close> of the list would return at
  the moment the read ends, although other readers are inside the lock with it.
\<close>

theorem modlist_rwlock_snapshot:
  assumes "modlist_reach opcional1_lock (0, False) n S"
    and "modlist_step opcional1_lock S i c (ReadResult used buf) T"
  shows "\<exists>buf0. length buf0 = length buf \<and> procfile_read buf0 (mmem S) = Some (used, buf)"
  using rw.step_ok [OF rw.reach_ok [OF assms(1)] assms(2)] by simp

theorem modlist_rwlock_snapshot_witness:
  "\<exists>S T. modlist_step opcional1_lock S 0 Go (ReadResult 0 [9]) T \<and> procfile_read [9] (mmem S) = Some (0, [9])"
proof -
  let ?S = "\<lambda>l ps. \<lparr>mmem = modlist_start, mlock = l, mcpus = ps\<rparr>"
  have 1: "modlist_step opcional1_lock (?S (0, False) [MIdle]) 0 (CallRead [9]) NoResult (?S (0, False) [ReadIn [9]])"
    using modlist_step.piece [of 0 "?S (0, False) [MIdle]" opcional1_lock "CallRead [9]"] by simp
  have 2: "modlist_step opcional1_lock (?S (0, False) [ReadIn [9]]) 0 Go NoResult (?S (1, False) [ReadLoop None 0 [9]])"
    using modlist_step.piece [of 0 "?S (0, False) [ReadIn [9]]" opcional1_lock Go]
    by (simp add: locking_def opcional1_lock_def modlist_start_def first_of_def)
  have 3: "modlist_step opcional1_lock (?S (1, False) [ReadLoop None 0 [9]]) 0 Go NoResult (?S (1, False) [ReadOut 0 [9]])"
    using modlist_step.piece [of 0 "?S (1, False) [ReadLoop None 0 [9]]" opcional1_lock Go] by simp
  have 4: "modlist_step opcional1_lock (?S (1, False) [ReadOut 0 [9]]) 0 Go (ReadResult 0 [9]) (?S (0, False) [MIdle])"
    using modlist_step.piece [of 0 "?S (1, False) [ReadOut 0 [9]]" opcional1_lock Go]
    by (simp add: locking_def opcional1_lock_def)
  have "modlist_reach opcional1_lock (0, False) 1 (?S (1, False) [ReadOut 0 [9]])"
    using modlist_reach.step [OF modlist_reach.step [OF modlist_reach.step [OF
        modlist_boot_reach [of opcional1_lock "(0, False)" 1, simplified] 1 [simplified]] 2 [simplified]] 3 [simplified]]
    by simp
  from modlist_rwlock_snapshot [OF this 4] have "procfile_read [9] modlist_start = Some (0, [9])"
    by (auto simp: procfile_read_def modlist_start_def)
  with 4 show ?thesis by (intro exI [of _ "?S (1, False) [ReadOut 0 [9]]"] exI) simp
qed

text \<open>
  Under the reader/writer lock, while a processor is inside as a writer no
  other one is inside at all; while only readers are inside, the next reader is let in.
\<close>

theorem modlist_rwlock_exclusion:
  assumes "modlist_reach opcional1_lock (0, False) n S" and "i < length (mcpus S)" "j < length (mcpus S)" "i \<noteq> j"
  shows "(writes_list (mcpus S ! i) \<longrightarrow> \<not> writes_list (mcpus S ! j) \<and> \<not> reads_list (mcpus S ! j))
     \<and> (count_if writes_list (mcpus S) = 0 \<longrightarrow> mcpus S ! j = ReadIn buf \<longrightarrow>
          (\<exists>s l p out. opcional1_piece Go (mmem S) (mlock S) (ReadIn buf) = Next (s, l, p, out) \<and> reads_list p))"
proof -
  have "rw_ok (mlock S) (count_if reads_list (mcpus S)) (count_if writes_list (mcpus S))"
    using rw.reach_ok [OF assms(1)] by (simp add: msystem_ok_def)
  then have "\<exists>l'. read_lock opcional1_lock (mlock S) = Some l'" if "count_if writes_list (mcpus S) = 0"
    using that rw.readers_share by simp
  then show ?thesis using rw.reach_exclusive [OF assms] by (auto simp: locking_def opcional1_piece_def)
qed

theorem modlist_rwlock_exclusion_witness:
  "\<exists>S. modlist_reach opcional1_lock (0, False) 2 S \<and> mcpus S = [MIdle, MIdle] \<and> \<not> reads_list (mcpus S ! 1)"
proof -
  let ?S = "\<lparr>mmem = modlist_start, mlock = (0, False), mcpus = replicate 2 MIdle\<rparr>"
  have r: "modlist_reach opcional1_lock (0, False) 2 ?S" by (rule modlist_boot_reach)
  have "0 < length (mcpus ?S)" "1 < length (mcpus ?S)" "(0 :: nat) \<noteq> 1" by simp_all
  from modlist_rwlock_exclusion [OF r this] r show ?thesis
    by (intro exI [of _ ?S]) (simp add: numeral_2_eq_2)
qed

end
