(* ===== verification/PtrBuffer.thy ===== *)
theory PtrBuffer
  imports CBuffer
begin

text \<open>
  The ring buffer of pointers of FicherosP3/Ejemplos/ProdCons1/cbuffer.c (ProdCons2/cbuffer.c is the
  same text): its operations on addresses and the proof that they form a queue of items that
  overwrites the oldest one when it is full.  The address 0 is \<open>NULL\<close>.
\<close>

section \<open>Structure and operations\<close>

record pbuffer =
  pb_data :: "nat list"
  pb_head :: u32
  pb_size :: u32
  pb_max :: u32

text \<open>As for the byte buffer: whether the header is allocated, and the raw data block.\<close>

definition create_cbuffer_p :: "bool \<Rightarrow> nat list option \<Rightarrow> u32 \<Rightarrow> pbuffer option \<times> block list" where
  "create_cbuffer_p header_ok raw max_size =
     (if \<not> header_ok then (None, [])
      else case raw of
             None \<Rightarrow> (None, [HeaderBlock])
           | Some d \<Rightarrow> (Some \<lparr>pb_data = d, pb_head = 0, pb_size = 0, pb_max = max_size\<rparr>,
                        [HeaderBlock, DataBlock]))"

definition destroy_cbuffer_p :: "pbuffer \<Rightarrow> block list \<Rightarrow> pbuffer \<times> block list" where
  "destroy_cbuffer_p b live =
     (b\<lparr>pb_size := 0, pb_head := 0, pb_max := 0, pb_data := []\<rparr>,
      removeAll HeaderBlock (removeAll DataBlock live))"

definition size_cbuffer_p :: "pbuffer \<Rightarrow> s32" where
  "size_cbuffer_p b = pb_size b"

definition is_full_cbuffer_p :: "pbuffer \<Rightarrow> bool" where
  "is_full_cbuffer_p b \<longleftrightarrow> pb_size b = pb_max b"

definition is_empty_cbuffer_p :: "pbuffer \<Rightarrow> bool" where
  "is_empty_cbuffer_p b \<longleftrightarrow> pb_size b = 0"

definition insert_cbuffer_p :: "pbuffer \<Rightarrow> nat \<Rightarrow> pbuffer option" where
  "insert_cbuffer_p b new_item =
     (if pb_size b = pb_max b then do {
        d \<leftarrow> write_at (pb_data b) (uint (pb_head b)) new_item;
        Some (b\<lparr>pb_data := d,
                pb_head := (if pb_size b \<noteq> 0 then (pb_head b + 1) mod pb_max b else pb_head b)\<rparr>)
      } else do {
        let pos = (if pb_max b \<noteq> 0 then (pb_head b + pb_size b) mod pb_max b else 0);
        d \<leftarrow> write_at (pb_data b) (uint pos) new_item;
        Some (b\<lparr>pb_data := d, pb_size := pb_size b + 1\<rparr>)
      })"

definition remove_cbuffer_p :: "pbuffer \<Rightarrow> pbuffer option" where
  "remove_cbuffer_p b =
     (if pb_size b \<noteq> 0 then
        (if pb_max b = 0 then None
         else Some (b\<lparr>pb_head := (pb_head b + 1) mod pb_max b, pb_size := pb_size b - 1\<rparr>))
      else Some b)"

definition head_cbuffer_p :: "pbuffer \<Rightarrow> nat option" where
  "head_cbuffer_p b = (if pb_size b \<noteq> 0 then read_at (pb_data b) (uint (pb_head b)) else Some 0)"

section \<open>The queue it represents\<close>

definition pcontents :: "pbuffer \<Rightarrow> nat list" where
  "pcontents b = ring_get (pb_data b) (unat (pb_head b)) (unat (pb_size b))"

definition pb_wf :: "pbuffer \<Rightarrow> bool" where
  "pb_wf b \<longleftrightarrow> length (pb_data b) = unat (pb_max b) \<and> 0 < unat (pb_max b) \<and> unat (pb_max b) < 2 ^ 31
     \<and> unat (pb_head b) < unat (pb_max b) \<and> unat (pb_size b) \<le> unat (pb_max b)"

lemma length_pcontents [simp]: "length (pcontents b) = unat (pb_size b)"
  by (simp add: pcontents_def)

lemma pb_wf_bounds:
  assumes "pb_wf b"
  shows "length (pb_data b) = unat (pb_max b)" "0 < unat (pb_max b)" "unat (pb_max b) < 2 ^ 31"
    "unat (pb_head b) < unat (pb_max b)" "unat (pb_size b) \<le> unat (pb_max b)" "pb_max b \<noteq> 0"
  using assms by (auto simp: pb_wf_def)

lemma pb_next:
  assumes "pb_wf b"
  shows "unat ((pb_head b + 1) mod pb_max b) = Suc (unat (pb_head b)) mod unat (pb_max b)"
    and "unat ((pb_head b + pb_size b) mod pb_max b) = (unat (pb_head b) + unat (pb_size b)) mod unat (pb_max b)"
proof -
  have "unat (pb_head b + 1) = Suc (unat (pb_head b))"
    using pb_wf_bounds [OF assms] by (subst unat_plus_small) auto
  then show "unat ((pb_head b + 1) mod pb_max b) = Suc (unat (pb_head b)) mod unat (pb_max b)"
    by (simp add: unat_mod_distrib)
  have "unat (pb_head b + pb_size b) = unat (pb_head b) + unat (pb_size b)"
    using pb_wf_bounds [OF assms] by (intro unat_plus_small) simp
  then show "unat ((pb_head b + pb_size b) mod pb_max b) = (unat (pb_head b) + unat (pb_size b)) mod unat (pb_max b)"
    by (simp add: unat_mod_distrib)
qed

lemma insert_cbuffer_p_refines:
  assumes wf: "pb_wf b"
  shows "\<exists>b'. insert_cbuffer_p b x = Some b' \<and> pb_wf b' \<and> pb_max b' = pb_max b \<and>
           pcontents b' = drop (Suc (unat (pb_size b)) - unat (pb_max b)) (pcontents b @ [x])"
proof -
  note bnd = pb_wf_bounds [OF wf]
  let ?M = "unat (pb_max b)" and ?S = "unat (pb_size b)" and ?H = "unat (pb_head b)" and ?d = "pb_data b"
  let ?p = "(?H + ?S) mod ?M" and ?over = "Suc ?S - ?M"
  have put: "ring_get (?d[?p := x]) (?H + ?over) (Suc ?S - ?over) = drop ?over (ring_get ?d ?H ?S @ [x])"
    using ring_get_put [of "[x]" ?d ?S ?over ?H] bnd by (simp add: ring_put_single del: drop_append)
  show ?thesis
  proof (cases "pb_size b = pb_max b")
    case True
    let ?b = "b\<lparr>pb_data := ?d[?H := x], pb_head := (pb_head b + 1) mod pb_max b\<rparr>"
    have p: "?p = ?H" using True bnd(4) by simp
    have s: "pb_size b \<noteq> 0" using True bnd by auto
    have "insert_cbuffer_p b x = Some ?b"
      using True s write_at_nat [of ?H ?d x] bnd by (simp add: insert_cbuffer_p_def)
    moreover have "pb_wf ?b" using wf pb_next(1) [OF wf] bnd by (simp add: pb_wf_def)
    moreover have "pcontents ?b = drop ?over (pcontents b @ [x])"
      using put p True ring_get_mod [of "?d[?H := x]" "Suc ?H" ?M] bnd
      by (simp add: pcontents_def pb_next(1) [OF wf] del: drop_append)
    ultimately show ?thesis by (intro exI [of _ ?b]) simp
  next
    case False
    then have lt: "?S < ?M" using bnd by (simp add: word_unat_eq_iff le_neq_implies_less)
    let ?b = "b\<lparr>pb_data := ?d[?p := x], pb_size := pb_size b + 1\<rparr>"
    have s: "unat (pb_size b + 1) = Suc ?S" using lt bnd by (subst unat_plus_small) auto
    have pl: "?p < length ?d" using bnd by simp
    have "write_at ?d (uint ((pb_head b + pb_size b) mod pb_max b)) x = Some (?d[?p := x])"
      unfolding uint_nat pb_next(2) [OF wf] using pl by (rule write_at_nat)
    then have "insert_cbuffer_p b x = Some ?b" using False bnd by (simp add: insert_cbuffer_p_def)
    moreover have "pb_wf ?b" using wf s lt by (simp add: pb_wf_def)
    moreover have "pcontents ?b = drop ?over (pcontents b @ [x])"
      using put s lt by (simp add: pcontents_def)
    ultimately show ?thesis by (intro exI [of _ ?b]) simp
  qed
qed

text \<open>The clients take an item by looking at the head and removing it.\<close>

definition take_item_p :: "pbuffer \<Rightarrow> (pbuffer \<times> nat) option" where
  "take_item_p b = do { item \<leftarrow> head_cbuffer_p b; b' \<leftarrow> remove_cbuffer_p b; Some (b', item) }"

lemma take_item_p_refines:
  assumes wf: "pb_wf b" and cs: "pcontents b = x # xs"
  shows "\<exists>b'. take_item_p b = Some (b', x) \<and> pb_wf b' \<and> pb_max b' = pb_max b \<and> pcontents b' = xs"
proof -
  note bnd = pb_wf_bounds [OF wf]
  let ?M = "unat (pb_max b)" and ?S = "unat (pb_size b)" and ?H = "unat (pb_head b)" and ?d = "pb_data b"
  let ?b = "b\<lparr>pb_head := (pb_head b + 1) mod pb_max b, pb_size := pb_size b - 1\<rparr>"
  have s0: "0 < ?S" using arg_cong [OF cs, of length] by simp
  then have nz: "pb_size b \<noteq> 0" by auto
  have s: "unat (pb_size b - 1) = ?S - 1" using s0 by (subst unat_minus_le) auto
  have x: "?d ! ?H = x" using arg_cong [OF cs, of "\<lambda>l. l ! 0"] s0 bnd by (simp add: pcontents_def)
  have xs: "xs = drop 1 (pcontents b)" using cs by simp
  have "take_item_p b = Some (?b, x)"
    using nz bnd x read_at_nat [of ?H ?d] by (simp add: take_item_p_def head_cbuffer_p_def remove_cbuffer_p_def)
  moreover have "pb_wf ?b"
    using wf pb_next(1) [OF wf] s bnd by (auto simp: pb_wf_def)
  moreover have "pcontents ?b = xs"
    unfolding xs pcontents_def using s s0 ring_get_mod [of ?d "Suc ?H" "?S - 1"] bnd
    by (simp add: pb_next(1) [OF wf] ring_get_drop)
  ultimately show ?thesis by (intro exI [of _ ?b]) simp
qed

interpretation pointers: item_queue pb_wf pcontents "\<lambda>b. unat (pb_max b)" insert_cbuffer_p take_item_p
proof unfold_locales
  fix b assume "pb_wf b"
  then show "length (pcontents b) \<le> unat (pb_max b) \<and> 0 < unat (pb_max b)" by (simp add: pb_wf_def)
next
  fix b x assume "pb_wf b"
  then show "\<exists>b'. insert_cbuffer_p b x = Some b' \<and> pb_wf b' \<and> unat (pb_max b') = unat (pb_max b) \<and>
      pcontents b' = drop (Suc (length (pcontents b)) - unat (pb_max b)) (pcontents b @ [x])"
    using insert_cbuffer_p_refines [of b x] by auto
next
  fix b x xs assume "pb_wf b" "pcontents b = x # xs"
  then show "\<exists>b'. take_item_p b = Some (b', x) \<and> pb_wf b' \<and> unat (pb_max b') = unat (pb_max b) \<and>
      pcontents b' = xs"
    using take_item_p_refines [of b x xs] by auto
qed

end
