(* ===== verification/ProdCons.thy ===== *)
theory ProdCons
  imports PtrBuffer CStrings Threads
begin

text \<open>
  What the two producer/consumer modules of FicherosP3/Ejemplos share: the integers on the heap,
  the ring of their addresses, the parsing of what is written, and the ownership of the items
  as they move from a producer through the ring to a consumer.
\<close>

section \<open>Items and the ring\<close>

definition MAX_ITEMS_CBUF :: u32 where "MAX_ITEMS_CBUF = 5"
definition MAX_CHARS_KBUF :: u32 where "MAX_CHARS_KBUF = 10"

record store =
  items :: "nat \<Rightarrow> s32 option"
  cbuf :: pbuffer

text \<open>
  \<open>prodcons_write\<close> up to the allocation: \<open>raw\<close> is the uninitialised \<open>kbuf\<close>, \<open>complete\<close> says whether
  \<open>copy_from_user\<close> copied everything, \<open>scan\<close> is \<open>sscanf\<close> with \<open>%i\<close>.  The result is the error to return
  or the value.
\<close>

definition write_value ::
  "(u8 list \<Rightarrow> s32 option) \<Rightarrow> u8 list \<Rightarrow> u32 \<Rightarrow> u8 list \<Rightarrow> bool \<Rightarrow> (int + s32) option" where
  "write_value scan raw longitud bytes complete =
     (if MAX_CHARS_KBUF < longitud then Some (Inl (- ENOSPC))
      else if \<not> complete then Some (Inl (- EFAULT))
      else do {
        kbuf \<leftarrow> memcpy raw 0 bytes (uint longitud);
        kbuf' \<leftarrow> write_at kbuf (uint longitud) 0;
        Some (case scan kbuf' of None \<Rightarrow> Inl (- EINVAL) | Some v \<Rightarrow> Inr v)
      })"

lemma write_value_defined:
  assumes "length raw = 11" and "length bytes = unat longitud"
  shows "write_value scan raw longitud bytes complete \<noteq> None"
proof (cases "MAX_CHARS_KBUF < longitud \<or> \<not> complete")
  case False
  then have le: "unat longitud \<le> 10" by (simp add: MAX_CHARS_KBUF_def word_less_nat_alt)
  have "memcpy raw 0 bytes (int (unat longitud)) = Some (take (unat longitud) bytes @ drop (unat longitud) raw)"
    using memcpy_nat [of "unat longitud" bytes 0 raw] le assms by simp
  moreover have "write_at (take (unat longitud) bytes @ drop (unat longitud) raw) (int (unat longitud)) 0 \<noteq> None"
    using le assms by (subst write_at_nat) auto
  ultimately show ?thesis using False unfolding write_value_def uint_nat by auto
qed (auto simp: write_value_def)

text \<open>What a step does to the stream of values, for the statements about delivery.\<close>

datatype pevent = Quiet | Put s32 | Taken s32

fun put_in :: "pevent \<Rightarrow> s32 list" where
  "put_in (Put v) = [v]"
| "put_in _ = []"

fun taken_out :: "pevent \<Rightarrow> s32 list" where
  "taken_out (Taken v) = [v]"
| "taken_out _ = []"

section \<open>Ownership\<close>

definition item_values :: "'a store_scheme \<Rightarrow> s32 list" where
  "item_values st = map (\<lambda>a. the (items st a)) (pcontents (cbuf st))"

text \<open>
  \<open>store_ok xs R st\<close>: the blocks \<open>xs\<close> of the processor in question, those of the others (\<open>R\<close>) and
  those in the ring are different allocated blocks.  Blocks that nobody reaches may exist.
\<close>

definition store_ok :: "nat list \<Rightarrow> nat multiset \<Rightarrow> 'a store_scheme \<Rightarrow> bool" where
  "store_ok xs R st \<longleftrightarrow> pb_wf (cbuf st) \<and> pb_max (cbuf st) = MAX_ITEMS_CBUF
     \<and> finite (dom (items st)) \<and> items st 0 = None
     \<and> mset xs + (mset (pcontents (cbuf st)) + R) \<subseteq># mset_set (dom (items st))"

lemma store_ok_fields:
  "store_ok xs R st \<Longrightarrow> items st' = items st \<Longrightarrow> cbuf st' = cbuf st \<Longrightarrow> store_ok xs R st'"
  by (simp add: store_ok_def)

lemma store_ok_owned:
  assumes "store_ok xs R st" and "a \<in> set xs"
  shows "items st a \<noteq> None" and "a \<notin> set (pcontents (cbuf st))" and "a \<notin># R"
proof -
  have f: "finite (dom (items st))" and m: "mset xs + (mset (pcontents (cbuf st)) + R) \<subseteq># mset_set (dom (items st))"
    using assms(1) by (simp_all add: store_ok_def)
  show "items st a \<noteq> None" using blocks_distinct(2) [OF m f] assms(2) by auto
  have "a \<notin># mset (pcontents (cbuf st)) + R" by (rule blocks_distinct(3) [OF m f assms(2)])
  then show "a \<notin> set (pcontents (cbuf st))" "a \<notin># R" by simp_all
qed

lemma store_ok_ring:
  assumes "store_ok xs R st"
  shows "set (pcontents (cbuf st)) \<subseteq> dom (items st)"
proof -
  have f: "finite (dom (items st))" and m: "mset (pcontents (cbuf st)) + (mset xs + R) \<subseteq># mset_set (dom (items st))"
    using assms by (simp_all add: store_ok_def ac_simps)
  show ?thesis by (rule blocks_distinct(2) [OF m f])
qed

lemma store_ok_owned_pool: "store_ok [] (mset xs + R) st = store_ok xs R st"
  by (simp add: store_ok_def ac_simps)

text \<open>A new item, an item left to nobody, and an item released.\<close>

lemma store_ok_new:
  assumes "store_ok [] R st" and "items st a = None" and "a \<noteq> 0"
  shows "store_ok [a] R (st\<lparr>items := (items st)(a \<mapsto> v)\<rparr>)" and "item_values (st\<lparr>items := (items st)(a \<mapsto> v)\<rparr>) = item_values st"
proof -
  have d: "a \<notin> dom (items st)" "finite (dom (items st))" using assms by (auto simp: store_ok_def)
  then have "mset_set (dom ((items st)(a \<mapsto> v))) = add_mset a (mset_set (dom (items st)))" by simp
  then show "store_ok [a] R (st\<lparr>items := (items st)(a \<mapsto> v)\<rparr>)" using assms by (simp add: store_ok_def)
  show "item_values (st\<lparr>items := (items st)(a \<mapsto> v)\<rparr>) = item_values st"
    using store_ok_ring [OF assms(1)] d(1) by (auto simp: item_values_def)
qed

lemma store_ok_drop: "store_ok xs R st \<Longrightarrow> store_ok [] R st"
  unfolding store_ok_def by (auto intro: subset_mset.order_trans [rotated])

lemma store_ok_free:
  assumes "store_ok [a] R st"
  shows "store_ok [] R (st\<lparr>items := (items st)(a := None)\<rparr>)" and "item_values (st\<lparr>items := (items st)(a := None)\<rparr>) = item_values st"
proof -
  have a: "a \<in> dom (items st)" "a \<notin> set (pcontents (cbuf st))" using store_ok_owned [OF assms, of a] by auto
  have f: "finite (dom (items st))" using assms by (simp add: store_ok_def)
  have "mset_set (dom (items st)) = add_mset a (mset_set (dom (items st) - {a}))"
    using a(1) f by (metis mset_set.remove)
  then show "store_ok [] R (st\<lparr>items := (items st)(a := None)\<rparr>)" using assms f by (simp add: store_ok_def)
  show "item_values (st\<lparr>items := (items st)(a := None)\<rparr>) = item_values st" using a(2) by (auto simp: item_values_def)
qed

text \<open>An item into the ring and out of it.\<close>

lemma store_ok_insert:
  assumes "store_ok [a] R st" and "unat (pb_size (cbuf st)) < 5"
  shows "\<exists>b. insert_cbuffer_p (cbuf st) a = Some b \<and> store_ok [] R (st\<lparr>cbuf := b\<rparr>)
     \<and> unat (pb_size b) = Suc (unat (pb_size (cbuf st))) \<and> item_values (st\<lparr>cbuf := b\<rparr>) = item_values st @ [the (items st a)]"
proof -
  have wf: "pb_wf (cbuf st)" "unat (pb_max (cbuf st)) = 5" using assms(1) by (auto simp: store_ok_def MAX_ITEMS_CBUF_def)
  from insert_cbuffer_p_refines [OF wf(1), of a] obtain b where
    b: "insert_cbuffer_p (cbuf st) a = Some b" "pb_wf b" "pb_max b = pb_max (cbuf st)"
    "pcontents b = pcontents (cbuf st) @ [a]" using assms(2) wf(2) by auto
  have "unat (pb_size b) = Suc (unat (pb_size (cbuf st)))" using arg_cong [OF b(4), of length] by simp
  moreover have "store_ok [] R (st\<lparr>cbuf := b\<rparr>)" using assms(1) b by (simp add: store_ok_def)
  moreover have "item_values (st\<lparr>cbuf := b\<rparr>) = item_values st @ [the (items st a)]" using b(4) by (simp add: item_values_def)
  ultimately show ?thesis using b(1) by blast
qed

lemma store_ok_take:
  assumes "store_ok [] R st" and "pb_size (cbuf st) \<noteq> 0"
  shows "\<exists>b a v. take_item_p (cbuf st) = Some (b, a) \<and> items st a = Some v \<and> store_ok [a] R (st\<lparr>cbuf := b\<rparr>)
     \<and> unat (pb_size (cbuf st)) = Suc (unat (pb_size b)) \<and> item_values st = v # item_values (st\<lparr>cbuf := b\<rparr>)"
proof -
  have wf: "pb_wf (cbuf st)" using assms(1) by (auto simp: store_ok_def)
  have "0 < length (pcontents (cbuf st))" using assms(2) by (simp add: unat_gt_0)
  then obtain a xs where cs: "pcontents (cbuf st) = a # xs" by (cases "pcontents (cbuf st)") auto
  from take_item_p_refines [OF wf cs] obtain b where
    b: "take_item_p (cbuf st) = Some (b, a)" "pb_wf b" "pb_max b = pb_max (cbuf st)" "pcontents b = xs" by auto
  obtain v where v: "items st a = Some v" using store_ok_ring [OF assms(1)] cs by auto
  have "unat (pb_size (cbuf st)) = Suc (unat (pb_size b))"
    using arg_cong [OF cs, of length] arg_cong [OF b(4), of length] by simp
  moreover have "store_ok [a] R (st\<lparr>cbuf := b\<rparr>)" using assms(1) b cs by (simp add: store_ok_def)
  moreover have "item_values st = v # item_values (st\<lparr>cbuf := b\<rparr>)" using b(4) cs v by (simp add: item_values_def)
  ultimately show ?thesis using b(1) v by blast
qed

end
