(* ===== verification/ProdCons1.thy ===== *)
theory ProdCons1
  imports ProdCons
begin

text \<open>
  The producer/consumer module of FicherosP3/Ejemplos/ProdCons1/prodcons1.c: a bounded buffer under
  three semaphores, \<open>elementos\<close> and \<open>huecos\<close> counting items and gaps and \<open>mtx\<close> guarding the buffer.
  Calls are cut where they take a semaphore or give one back; a call that waits may be interrupted
  by a signal.
\<close>

section \<open>State and steps\<close>

record prodcons1 = store +
  elementos :: nat
  huecos :: nat
  mtx :: nat

text \<open>
  \<open>init_prodcons_module\<close>: whether the header is allocated, the raw data block, and whether the /proc
  entry can be created.
\<close>

definition init_prodcons1 :: "bool \<Rightarrow> nat list option \<Rightarrow> bool \<Rightarrow> int \<times> prodcons1 option \<times> block list" where
  "init_prodcons1 header_ok raw proc_ok =
     (case create_cbuffer_p header_ok raw MAX_ITEMS_CBUF of
        (None, live) \<Rightarrow> (- ENOMEM, None, live)
      | (Some b, live) \<Rightarrow>
          if \<not> proc_ok then (- ENOMEM, None, snd (destroy_cbuffer_p b live))
          else (0, Some \<lparr>items = Map.empty, cbuf = b, elementos = 0, huecos = unat MAX_ITEMS_CBUF, mtx = 1\<rparr>, live))"

text \<open>\<open>exit_prodcons_module\<close>: the module, whether the /proc entry remains, and the blocks that do.\<close>

definition exit_prodcons1 :: "prodcons1 \<Rightarrow> block list \<Rightarrow> prodcons1 \<times> bool \<times> block list" where
  "exit_prodcons1 s live =
     (case destroy_cbuffer_p (cbuf s) live of (b, live) \<Rightarrow> (s\<lparr>cbuf := b\<rparr>, False, live))"

text \<open>Program points: of a write from the allocation on, and of a read.\<close>

datatype pc1 =
    Idle1
  | WaitGap u32 nat
  | WaitPut u32 nat
  | Putting u32 nat
  | GiveItem u32
  | WaitItem
  | WaitTake
  | Taking
  | GiveGap nat
  | Printing nat

text \<open>
  Choices of the environment.  A write comes with the uninitialised \<open>kbuf\<close>, the length, the user's
  bytes, whether they are copied, and the address \<open>vmalloc\<close> returns.
\<close>

datatype call1 = Write1 "u8 list" u32 "u8 list" bool nat | Read1 bool | Go1 | Signal1

datatype ret1 = None1 | Done1 int "u8 list"

definition down_or :: "nat \<Rightarrow> 'a \<Rightarrow> 'a result" where
  "down_or sem next = (if sem = 0 then Blocked else Next next)"

fun step1 :: "(u8 list \<Rightarrow> s32 option) \<Rightarrow> call1 \<Rightarrow> prodcons1 \<Rightarrow> pc1 \<Rightarrow> (prodcons1 \<times> pc1 \<times> pevent \<times> ret1) result" where
  "step1 scan (Write1 raw longitud bytes complete a) s Idle1 =
     (if length raw \<noteq> 11 \<or> length bytes \<noteq> unat longitud \<or> items s a \<noteq> None then Blocked
      else case write_value scan raw longitud bytes complete of
             None \<Rightarrow> Fault
           | Some (Inl e) \<Rightarrow> Next (s, Idle1, Quiet, Done1 e [])
           | Some (Inr val) \<Rightarrow>
               if a = 0 then Fault
               else Next (s\<lparr>items := (items s)(a \<mapsto> val)\<rparr>, WaitGap longitud a, Quiet, None1))"
| "step1 scan Go1 s (WaitGap longitud a) =
     down_or (huecos s) (s\<lparr>huecos := huecos s - 1\<rparr>, WaitPut longitud a, Quiet, None1)"
| "step1 scan Signal1 s (WaitGap longitud a) =
     (if items s a = None then Fault
      else Next (s\<lparr>items := (items s)(a := None)\<rparr>, Idle1, Quiet, Done1 (- EINTR) []))"
| "step1 scan Go1 s (WaitPut longitud a) =
     down_or (mtx s) (s\<lparr>mtx := mtx s - 1\<rparr>, Putting longitud a, Quiet, None1)"
| "step1 scan Signal1 s (WaitPut longitud a) =
     Next (s\<lparr>huecos := huecos s + 1\<rparr>, Idle1, Quiet, Done1 (- EINTR) [])"
| "step1 scan Go1 s (Putting longitud a) =
     (case insert_cbuffer_p (cbuf s) a of
        None \<Rightarrow> Fault
      | Some b \<Rightarrow> Next (s\<lparr>cbuf := b, mtx := mtx s + 1\<rparr>, GiveItem longitud, Put (the (items s a)), None1))"
| "step1 scan Go1 s (GiveItem longitud) =
     Next (s\<lparr>elementos := elementos s + 1\<rparr>, Idle1, Quiet, Done1 (uint longitud) [])"
| "step1 scan (Read1 later) s Idle1 =
     (if later then Next (s, Idle1, Quiet, Done1 0 []) else Next (s, WaitItem, Quiet, None1))"
| "step1 scan Go1 s WaitItem = down_or (elementos s) (s\<lparr>elementos := elementos s - 1\<rparr>, WaitTake, Quiet, None1)"
| "step1 scan Signal1 s WaitItem = Next (s, Idle1, Quiet, Done1 (- EINTR) [])"
| "step1 scan Go1 s WaitTake = down_or (mtx s) (s\<lparr>mtx := mtx s - 1\<rparr>, Taking, Quiet, None1)"
| "step1 scan Signal1 s WaitTake =
     Next (s\<lparr>elementos := elementos s + 1\<rparr>, Idle1, Quiet, Done1 (- EINTR) [])"
| "step1 scan Go1 s Taking =
     (case take_item_p (cbuf s) of
        None \<Rightarrow> Fault
      | Some (b, a) \<Rightarrow> Next (s\<lparr>cbuf := b, mtx := mtx s + 1\<rparr>, GiveGap a, Taken (the (items s a)), None1))"
| "step1 scan Go1 s (GiveGap a) = Next (s\<lparr>huecos := huecos s + 1\<rparr>, Printing a, Quiet, None1)"
| "step1 scan Go1 s (Printing a) =
     (case items s a of
        None \<Rightarrow> Fault
      | Some v \<Rightarrow> let text = decimal v @ [10]
                  in Next (s\<lparr>items := (items s)(a := None)\<rparr>, Idle1, Quiet, Done1 (int (length text)) text))"
| "step1 scan _ s _ = Blocked"

record system1 =
  mem1 :: prodcons1
  cpus1 :: "pc1 list"
  trace1 :: "pevent list"

inductive prodcons1_step ::
  "(u8 list \<Rightarrow> s32 option) \<Rightarrow> system1 \<Rightarrow> nat \<Rightarrow> call1 \<Rightarrow> ret1 \<Rightarrow> system1 \<Rightarrow> bool" for scan where
  piece: "i < length (cpus1 S) \<Longrightarrow> step1 scan c (mem1 S) (cpus1 S ! i) = Next (s, p, e, r) \<Longrightarrow>
    prodcons1_step scan S i c r (S\<lparr>mem1 := s, cpus1 := (cpus1 S)[i := p], trace1 := trace1 S @ [e]\<rparr>)"

inductive prodcons1_reach :: "(u8 list \<Rightarrow> s32 option) \<Rightarrow> nat \<Rightarrow> system1 \<Rightarrow> bool" for scan n where
  boot: "init_prodcons1 True (Some raw) True = (0, Some s, live) \<Longrightarrow> length raw = 5 \<Longrightarrow>
    prodcons1_reach scan n \<lparr>mem1 = s, cpus1 = replicate n Idle1, trace1 = []\<rparr>"
| step: "prodcons1_reach scan n S \<Longrightarrow> prodcons1_step scan S i c r T \<Longrightarrow> prodcons1_reach scan n T"

section \<open>The invariant\<close>

fun owned1 :: "pc1 \<Rightarrow> nat list" where
  "owned1 (WaitGap n a) = [a]"
| "owned1 (WaitPut n a) = [a]"
| "owned1 (Putting n a) = [a]"
| "owned1 (GiveGap a) = [a]"
| "owned1 (Printing a) = [a]"
| "owned1 _ = []"

fun inside1 :: "pc1 \<Rightarrow> bool" where
  "inside1 (Putting n a) \<longleftrightarrow> True"
| "inside1 Taking \<longleftrightarrow> True"
| "inside1 _ \<longleftrightarrow> False"

text \<open>Who holds a gap that \<open>huecos\<close> no longer or not yet counts, and who holds an item.\<close>

fun holds_gap :: "pc1 \<Rightarrow> bool" where
  "holds_gap (WaitPut n a) \<longleftrightarrow> True"
| "holds_gap (Putting n a) \<longleftrightarrow> True"
| "holds_gap (GiveGap a) \<longleftrightarrow> True"
| "holds_gap _ \<longleftrightarrow> False"

fun holds_item :: "pc1 \<Rightarrow> bool" where
  "holds_item (GiveItem n) \<longleftrightarrow> True"
| "holds_item WaitTake \<longleftrightarrow> True"
| "holds_item Taking \<longleftrightarrow> True"
| "holds_item _ \<longleftrightarrow> False"

definition counters_ok :: "prodcons1 \<Rightarrow> nat \<Rightarrow> nat \<Rightarrow> nat \<Rightarrow> bool" where
  "counters_ok s gaps its cs \<longleftrightarrow> mtx s + cs = 1
     \<and> unat (pb_size (cbuf s)) + huecos s + gaps = 5
     \<and> elementos s + its = unat (pb_size (cbuf s))"

definition local_ok :: "prodcons1 \<Rightarrow> pc1 \<Rightarrow> nat multiset \<Rightarrow> nat \<Rightarrow> nat \<Rightarrow> nat \<Rightarrow> bool" where
  "local_ok s p R gaps its cs \<longleftrightarrow> store_ok (owned1 p) R s
     \<and> counters_ok s (gaps + of_bool (holds_gap p)) (its + of_bool (holds_item p)) (cs + of_bool (inside1 p))"

lemmas local_defs = local_ok_def counters_ok_def

fun call_ok :: "call1 \<Rightarrow> bool" where
  "call_ok (Write1 raw longitud bytes complete a) \<longleftrightarrow> a \<noteq> 0"
| "call_ok _ \<longleftrightarrow> True"

definition good1 :: "prodcons1 \<Rightarrow> nat multiset \<Rightarrow> nat \<Rightarrow> nat \<Rightarrow> nat \<Rightarrow> (prodcons1 \<times> pc1 \<times> pevent \<times> ret1) \<Rightarrow> bool" where
  "good1 s R gaps its cs n \<longleftrightarrow>
     (case n of (s', p', e, r) \<Rightarrow> local_ok s' p' R gaps its cs
        \<and> taken_out e @ item_values s' = item_values s @ put_in e)"

lemma semaphores_only [simp]:
  fixes s :: prodcons1
  shows "store_ok xs R (s\<lparr>mtx := n\<rparr>) = store_ok xs R s" "store_ok xs R (s\<lparr>huecos := n\<rparr>) = store_ok xs R s"
    "store_ok xs R (s\<lparr>elementos := n\<rparr>) = store_ok xs R s"
    "item_values (s\<lparr>mtx := n\<rparr>) = item_values s" "item_values (s\<lparr>huecos := n\<rparr>) = item_values s"
    "item_values (s\<lparr>elementos := n\<rparr>) = item_values s"
  by (simp_all add: store_ok_def item_values_def)

text \<open>Every piece keeps the invariant; only a failed allocation is a fault.\<close>

lemma step1_ok:
  assumes ok: "local_ok s p R gaps its cs" and c: "call_ok c"
  shows "case step1 scan c s p of Blocked \<Rightarrow> True | Fault \<Rightarrow> False | Next n \<Rightarrow> good1 s R gaps its cs n"
proof -
  have st: "store_ok (owned1 p) R s" using ok by (simp add: local_ok_def)
  show ?thesis
  proof (cases "(scan, c, s, p)" rule: step1.cases)
    case (1 scan' raw longitud bytes complete a s')
    show ?thesis
    proof (cases "length raw \<noteq> 11 \<or> length bytes \<noteq> unat longitud \<or> items s a \<noteq> None")
      case False
      then have w: "write_value scan raw longitud bytes complete \<noteq> None" by (intro write_value_defined) auto
      have a: "a \<noteq> 0" using c 1 by simp
      have st0: "store_ok [] R s" using st 1 by simp
      have "store_ok [a] R (s\<lparr>items := (items s)(a \<mapsto> v)\<rparr>)" "item_values (s\<lparr>items := (items s)(a \<mapsto> v)\<rparr>) = item_values s" for v
        using store_ok_new [OF st0 _ a] False by simp_all
      then show ?thesis using 1 False w a ok
        by (simp add: good1_def local_defs split: sum.split option.split)
    qed (use 1 in simp)
  next
    case (2 scan' s' longitud a)
    then show ?thesis using ok by (simp add: good1_def local_defs down_or_def)
  next
    case (3 scan' s' longitud a)
    then show ?thesis using ok store_ok_free [of a R s] store_ok_owned(1) [OF st, of a]
      by (simp add: good1_def local_defs)
  next
    case (4 scan' s' longitud a)
    then show ?thesis using ok by (simp add: good1_def local_defs down_or_def)
  next
    case (5 scan' s' longitud a)
    have "store_ok [] R s" using st store_ok_drop by blast
    then show ?thesis using 5 ok by (simp add: good1_def local_defs)
  next
    case (6 scan' s' longitud a)
    have "unat (pb_size (cbuf s)) < 5" using ok 6 by (simp add: local_defs)
    from store_ok_insert [OF _ this, of a R] st 6 obtain b where
      "insert_cbuffer_p (cbuf s) a = Some b" "store_ok [] R (s\<lparr>cbuf := b\<rparr>)"
      "unat (pb_size b) = Suc (unat (pb_size (cbuf s)))" "item_values (s\<lparr>cbuf := b\<rparr>) = item_values s @ [the (items s a)]"
      by auto
    then show ?thesis using 6 ok by (simp add: good1_def local_defs)
  next
    case (13 scan' s')
    have "pb_size (cbuf s) \<noteq> 0" using ok 13 by (auto simp: local_defs)
    from store_ok_take [OF _ this, of R] st 13 obtain b a v where
      "take_item_p (cbuf s) = Some (b, a)" "items s a = Some v" "store_ok [a] R (s\<lparr>cbuf := b\<rparr>)"
      "unat (pb_size (cbuf s)) = Suc (unat (pb_size b))" "item_values s = v # item_values (s\<lparr>cbuf := b\<rparr>)" by auto
    then show ?thesis using 13 ok by (simp add: good1_def local_defs)
  next
    case (15 scan' s' a)
    then show ?thesis using ok store_ok_free [of a R s] store_ok_owned(1) [OF st, of a]
      by (auto simp: good1_def local_defs Let_def)
  qed (use ok in \<open>simp_all add: good1_def local_defs down_or_def\<close>)
qed

section \<open>Every reachable state\<close>

definition system1_ok :: "system1 \<Rightarrow> bool" where
  "system1_ok S \<longleftrightarrow> store_ok [] (pool owned1 (cpus1 S)) (mem1 S)
     \<and> counters_ok (mem1 S) (count_if holds_gap (cpus1 S)) (count_if holds_item (cpus1 S)) (count_if inside1 (cpus1 S))
     \<and> concat (map taken_out (trace1 S)) @ item_values (mem1 S) = concat (map put_in (trace1 S))"

lemma system1_ok_at:
  assumes "i < length ps"
  shows "store_ok [] (pool owned1 (ps[i := p])) s
     \<and> counters_ok s (count_if holds_gap (ps[i := p])) (count_if holds_item (ps[i := p])) (count_if inside1 (ps[i := p]))
   \<longleftrightarrow> local_ok s p (pool owned1 (others i ps)) (count_if holds_gap (others i ps))
         (count_if holds_item (others i ps)) (count_if inside1 (others i ps))"
  using assms by (simp add: split_at local_ok_def store_ok_owned_pool)

lemma step1_next_ok:
  assumes "local_ok s p R gaps its cs" and n: "step1 scan c s p = Next n"
  shows "good1 s R gaps its cs n"
proof (cases "call_ok c")
  case True
  from step1_ok [OF assms(1) this, of scan] n show ?thesis by simp
next
  case False
  then obtain raw longitud bytes complete where c: "c = Write1 raw longitud bytes complete 0"
    by (cases c) auto
  then have "p = Idle1" using n by (cases p) auto
  with c n assms(1) show ?thesis
    by (auto simp: good1_def split: if_splits option.splits sum.splits)
qed

lemma prodcons1_step_ok:
  assumes inv: "system1_ok S" and step: "prodcons1_step scan S i c r T"
  shows "system1_ok T"
  using step
proof cases
  case (piece s p e)
  let ?ps = "cpus1 S"
  have "local_ok (mem1 S) (?ps ! i) (pool owned1 (others i ?ps)) (count_if holds_gap (others i ?ps))
         (count_if holds_item (others i ?ps)) (count_if inside1 (others i ?ps))"
    using inv system1_ok_at [OF piece(2), of "?ps ! i" "mem1 S"] by (simp add: system1_ok_def)
  from step1_next_ok [OF this piece(3)] have
    "local_ok s p (pool owned1 (others i ?ps)) (count_if holds_gap (others i ?ps))
         (count_if holds_item (others i ?ps)) (count_if inside1 (others i ?ps))"
    "taken_out e @ item_values s = item_values (mem1 S) @ put_in e"
    by (auto simp: good1_def)
  moreover have "concat (map taken_out (trace1 S)) @ item_values (mem1 S) = concat (map put_in (trace1 S))"
    using inv by (simp add: system1_ok_def)
  ultimately show ?thesis
    using system1_ok_at [OF piece(2), of p s] piece(1)
    by (simp add: system1_ok_def)
qed

lemma prodcons1_reach_ok: "prodcons1_reach scan n S \<Longrightarrow> system1_ok S"
proof (induction rule: prodcons1_reach.induct)
  case (boot raw s live)
  then have "s = \<lparr>items = Map.empty, cbuf = \<lparr>pb_data = raw, pb_head = 0, pb_size = 0, pb_max = MAX_ITEMS_CBUF\<rparr>,
      elementos = 0, huecos = 5, mtx = 1\<rparr>"
    by (simp add: init_prodcons1_def create_cbuffer_p_def MAX_ITEMS_CBUF_def)
  moreover have "count_if P (replicate n Idle1) = 0" if "\<not> P Idle1" for P using that by simp
  ultimately show ?case using boot(2)
    by (simp add: system1_ok_def store_ok_def counters_ok_def item_values_def pcontents_def pb_wf_def MAX_ITEMS_CBUF_def)
next
  case (step S i c r T)
  then show ?case using prodcons1_step_ok by blast
qed

lemma prodcons1_no_fault:
  assumes "prodcons1_reach scan n S" and "p \<in> set (cpus1 S)" and "call_ok c"
  shows "step1 scan c (mem1 S) p \<noteq> Fault"
proof -
  obtain i where i: "i < length (cpus1 S)" "cpus1 S ! i = p" using assms(2) by (auto simp: in_set_conv_nth)
  let ?ps = "cpus1 S"
  have "local_ok (mem1 S) p (pool owned1 (others i ?ps)) (count_if holds_gap (others i ?ps))
         (count_if holds_item (others i ?ps)) (count_if inside1 (others i ?ps))"
    using prodcons1_reach_ok [OF assms(1)] system1_ok_at [OF i(1), of p "mem1 S"] i by (auto simp: system1_ok_def)
  from step1_ok [OF this assms(3), of scan] show ?thesis by auto
qed

text \<open>A schedule, run from a given system, for concrete executions.\<close>

fun run1 :: "(u8 list \<Rightarrow> s32 option) \<Rightarrow> system1 \<Rightarrow> (nat \<times> call1) list \<Rightarrow> system1 option" where
  "run1 scan S [] = Some S"
| "run1 scan S ((i, c) # cs) =
     (if i < length (cpus1 S)
      then case step1 scan c (mem1 S) (cpus1 S ! i) of
             Next (s, p, e, r) \<Rightarrow> run1 scan (S\<lparr>mem1 := s, cpus1 := (cpus1 S)[i := p], trace1 := trace1 S @ [e]\<rparr>) cs
           | _ \<Rightarrow> None
      else None)"

lemma run1_reaches: "run1 scan S cs = Some T \<Longrightarrow> prodcons1_reach scan n S \<Longrightarrow> prodcons1_reach scan n T"
proof (induction cs arbitrary: S)
  case (Cons x cs)
  obtain i c where x: "x = (i, c)" by (cases x)
  show ?case
  proof (cases "i < length (cpus1 S)")
    case True
    show ?thesis
    proof (cases "step1 scan c (mem1 S) (cpus1 S ! i)")
      case (Next m)
      obtain s p e r where m: "m = (s, p, e, r)" by (cases m)
      have "prodcons1_step scan S i c r (S\<lparr>mem1 := s, cpus1 := (cpus1 S)[i := p], trace1 := trace1 S @ [e]\<rparr>)"
        using True Next m by (intro prodcons1_step.piece) simp_all
      then have "prodcons1_reach scan n (S\<lparr>mem1 := s, cpus1 := (cpus1 S)[i := p], trace1 := trace1 S @ [e]\<rparr>)"
        using Cons.prems(2) prodcons1_reach.step by blast
      then show ?thesis using Cons.IH Cons.prems(1) x True Next m by simp
    qed (use Cons.prems(1) x True in simp_all)
  qed (use Cons.prems(1) x in simp)
qed simp

definition fresh1 :: prodcons1 where
  "fresh1 = \<lparr>items = Map.empty, cbuf = \<lparr>pb_data = [0, 0, 0, 0, 0], pb_head = 0, pb_size = 0, pb_max = 5\<rparr>,
      elementos = 0, huecos = 5, mtx = 1\<rparr>"

lemma fresh1_reach: "prodcons1_reach scan n \<lparr>mem1 = fresh1, cpus1 = replicate n Idle1, trace1 = []\<rparr>"
  by (rule prodcons1_reach.boot [of "[0, 0, 0, 0, 0]"])
     (simp_all add: init_prodcons1_def create_cbuffer_p_def fresh1_def MAX_ITEMS_CBUF_def)

text \<open>A write of the value 7 by processor 0, and a read by processor 1.\<close>

definition write_seven :: "(nat \<times> call1) list" where
  "write_seven = [(0, Write1 (replicate 11 0) 1 [55] True 1), (0, Go1), (0, Go1), (0, Go1), (0, Go1)]"

lemma value_seven: "write_value (\<lambda>_. Some 7) (replicate 11 0) 1 [55] True = Some (Inr 7)"
  by (simp add: write_value_def MAX_CHARS_KBUF_def memcpy_def write_at_def)

lemma write_seven_run:
  "run1 (\<lambda>_. Some 7) \<lparr>mem1 = fresh1, cpus1 = [Idle1, Idle1], trace1 = []\<rparr> write_seven = Some
     \<lparr>mem1 = \<lparr>items = [1 \<mapsto> 7], cbuf = \<lparr>pb_data = [1, 0, 0, 0, 0], pb_head = 0, pb_size = 1, pb_max = 5\<rparr>,
        elementos = 1, huecos = 4, mtx = 1\<rparr>,
      cpus1 = [Idle1, Idle1], trace1 = [Quiet, Quiet, Quiet, Put 7, Quiet]\<rparr>"
  by (simp add: write_seven_def fresh1_def value_seven down_or_def insert_cbuffer_p_def write_at_def)

text \<open>
  C16 (prodcons1_bounded_buffer): in every reachable state at most one call is inside the section that
  \<open>mtx\<close> guards, the ring's size plus the gaps counted or held is always 5 and the items counted or
  held are exactly those in the ring; so no insertion overwrites and no removal finds it empty, and
  no piece of a call is a fault unless an allocation failed.  The values that reads have taken,
  followed by those in the ring, are the values that writes have inserted, in order.
\<close>

theorem prodcons1_bounded_buffer:
  assumes "prodcons1_reach scan n S" and "p \<in> set (cpus1 S)" and "call_ok c"
  shows "mtx (mem1 S) + count_if inside1 (cpus1 S) = 1
     \<and> unat (pb_size (cbuf (mem1 S))) + huecos (mem1 S) + count_if holds_gap (cpus1 S) = 5
     \<and> elementos (mem1 S) + count_if holds_item (cpus1 S) = unat (pb_size (cbuf (mem1 S)))
     \<and> step1 scan c (mem1 S) p \<noteq> Fault
     \<and> concat (map taken_out (trace1 S)) @ item_values (mem1 S) = concat (map put_in (trace1 S))"
  using prodcons1_reach_ok [OF assms(1)] prodcons1_no_fault [OF assms]
  by (simp add: system1_ok_def counters_ok_def)

theorem prodcons1_bounded_buffer_witness:
  "\<exists>S. prodcons1_reach (\<lambda>_. Some 7) 2 S \<and> unat (pb_size (cbuf (mem1 S))) = 1
     \<and> step1 (\<lambda>_. Some 7) (Read1 False) (mem1 S) (cpus1 S ! 1) \<noteq> Fault
     \<and> concat (map taken_out (trace1 S)) @ item_values (mem1 S) = [7]"
proof -
  obtain S where S: "run1 (\<lambda>_. Some 7) \<lparr>mem1 = fresh1, cpus1 = replicate 2 Idle1, trace1 = []\<rparr> write_seven = Some S"
    "pb_size (cbuf (mem1 S)) = 1" "cpus1 S = [Idle1, Idle1]" "concat (map put_in (trace1 S)) = [7]"
    using write_seven_run by (simp add: numeral_2_eq_2)
  then have r: "prodcons1_reach (\<lambda>_. Some 7) 2 S" using run1_reaches fresh1_reach by blast
  have "cpus1 S ! 1 \<in> set (cpus1 S)" "call_ok (Read1 False)" using S(3) by simp_all
  from prodcons1_bounded_buffer [OF r this] r S(2,4) show ?thesis by (intro exI [of _ S]) simp
qed

text \<open>
  A write interrupted while it waits for \<open>mtx\<close> returns without
  releasing its item: the block stays allocated, but no call and no slot of the ring refers to it.
\<close>

theorem prodcons1_interrupted_write_leaks:
  "\<exists>S. prodcons1_reach (\<lambda>_. Some 7) 1 S \<and> cpus1 S = [Idle1] \<and> items (mem1 S) 1 = Some 7
     \<and> pcontents (cbuf (mem1 S)) = []"
proof -
  let ?cs = "[(0, Write1 (replicate 11 0) 1 [55] True 1), (0, Go1), (0, Signal1)]"
  obtain S where S: "run1 (\<lambda>_. Some 7) \<lparr>mem1 = fresh1, cpus1 = replicate 1 Idle1, trace1 = []\<rparr> ?cs = Some S"
    "cpus1 S = [Idle1]" "items (mem1 S) 1 = Some 7" "pcontents (cbuf (mem1 S)) = []"
    by (simp add: fresh1_def value_seven down_or_def pcontents_def)
  then show ?thesis using run1_reaches fresh1_reach by blast
qed

text \<open>
  Loading and unloading release the blocks of the buffer, also when the /proc entry cannot be
  created; only a failure to allocate the data block leaves the header behind.
\<close>

lemma prodcons1_blocks:
  "init_prodcons1 header_ok raw proc_ok = (r, st, live) \<Longrightarrow>
   (case st of None \<Rightarrow> r = - ENOMEM \<and> live = (if header_ok \<and> raw = None then [HeaderBlock] else [])
    | Some s \<Rightarrow> r = 0 \<and> snd (exit_prodcons1 s live) = (False, []))"
  by (cases raw)
    (auto simp: init_prodcons1_def create_cbuffer_p_def destroy_cbuffer_p_def exit_prodcons1_def split: if_splits)

text \<open>An item that nobody read stays allocated when the module is unloaded.\<close>

lemma prodcons1_unload_leaks:
  "\<exists>S. prodcons1_reach (\<lambda>_. Some 7) 2 S \<and> cpus1 S = [Idle1, Idle1] \<and>
     items (fst (exit_prodcons1 (mem1 S) [HeaderBlock, DataBlock])) 1 = Some 7 \<and>
     snd (exit_prodcons1 (mem1 S) [HeaderBlock, DataBlock]) = (False, [])"
proof -
  obtain S where S: "run1 (\<lambda>_. Some 7) \<lparr>mem1 = fresh1, cpus1 = replicate 2 Idle1, trace1 = []\<rparr> write_seven = Some S"
    "cpus1 S = [Idle1, Idle1]" "items (mem1 S) 1 = Some 7"
    using write_seven_run by (simp add: numeral_2_eq_2)
  then have r: "prodcons1_reach (\<lambda>_. Some 7) 2 S" using run1_reaches fresh1_reach by blast
  with S(2,3) show ?thesis
    by (intro exI [of _ S]) (simp add: exit_prodcons1_def destroy_cbuffer_p_def)
qed

end
