(* ===== verification/ProdCons2.thy ===== *)
theory ProdCons2
  imports ProdCons
begin

text \<open>
  The producer/consumer module of FicherosP3/Ejemplos/ProdCons2/prodcons2.c: the same buffer as a
  monitor, with \<open>mtx\<close> (here \<open>mutex2\<close>) guarding everything and two semaphores used as waiting queues,
  whose sleepers \<open>nr_prod_waiting\<close> and \<open>nr_cons_waiting\<close> count.
\<close>

section \<open>State and steps\<close>

record prodcons2 = store +
  prod_queue :: nat
  cons_queue :: nat
  mutex2 :: nat
  nr_prod_waiting :: s32
  nr_cons_waiting :: s32

definition init_prodcons2 :: "bool \<Rightarrow> nat list option \<Rightarrow> bool \<Rightarrow> int \<times> prodcons2 option \<times> block list" where
  "init_prodcons2 header_ok raw proc_ok =
     (case create_cbuffer_p header_ok raw MAX_ITEMS_CBUF of
        (None, live) \<Rightarrow> (- ENOMEM, None, live)
      | (Some b, live) \<Rightarrow>
          if \<not> proc_ok then (- ENOMEM, None, snd (destroy_cbuffer_p b live))
          else (0, Some \<lparr>items = Map.empty, cbuf = b, prod_queue = 0, cons_queue = 0, mutex2 = 1,
                  nr_prod_waiting = 0, nr_cons_waiting = 0\<rparr>, live))"

text \<open>\<open>exit_prodcons_module\<close>: the module, whether the /proc entry remains, and the blocks that do.\<close>

definition exit_prodcons2 :: "prodcons2 \<Rightarrow> block list \<Rightarrow> prodcons2 \<times> bool \<times> block list" where
  "exit_prodcons2 s live =
     (case destroy_cbuffer_p (cbuf s) live of (b, live) \<Rightarrow> (s\<lparr>cbuf := b\<rparr>, False, live))"

text \<open>
  Program points; \<open>WLoop\<close>, \<open>RLoop\<close>, \<open>WGone\<close> and \<open>RGone\<close> are inside the mutex, the last two being
  calls that a signal has taken out of the queue.
\<close>

datatype pc2 =
    Idle2
  | WEnter u32 nat | WLoop u32 nat | WSleep u32 nat | WIntr | WGone | WRelock u32 nat
  | REnter | RLoop | RSleep | RIntr | RGone | RRelock
  | Printing2 nat

datatype call2 = Write2 "u8 list" u32 "u8 list" bool nat | Read2 bool | Go2 | Signal2

datatype ret2 = None2 | Done2 int "u8 list"

definition down2 :: "nat \<Rightarrow> 'a \<Rightarrow> 'a result" where
  "down2 sem next = (if sem = 0 then Blocked else Next next)"

text \<open>The two critical sections, from the test of the loop on.\<close>

definition write_section :: "u32 \<Rightarrow> nat \<Rightarrow> prodcons2 \<Rightarrow> (prodcons2 \<times> pc2 \<times> pevent \<times> ret2) result" where
  "write_section longitud a s =
     (if is_full_cbuffer_p (cbuf s) then
        Next (s\<lparr>nr_prod_waiting := nr_prod_waiting s + 1, mutex2 := mutex2 s + 1\<rparr>, WSleep longitud a, Quiet, None2)
      else case insert_cbuffer_p (cbuf s) a of
             None \<Rightarrow> Fault
           | Some b \<Rightarrow>
               let s1 = s\<lparr>cbuf := b\<rparr>;
                   s2 = (if 0 < sint (nr_cons_waiting s1)
                         then s1\<lparr>cons_queue := cons_queue s1 + 1, nr_cons_waiting := nr_cons_waiting s1 - 1\<rparr> else s1)
               in Next (s2\<lparr>mutex2 := mutex2 s2 + 1\<rparr>, Idle2, Put (the (items s a)), Done2 (uint longitud) []))"

definition read_section :: "prodcons2 \<Rightarrow> (prodcons2 \<times> pc2 \<times> pevent \<times> ret2) result" where
  "read_section s =
     (if size_cbuffer_p (cbuf s) = 0 then
        Next (s\<lparr>nr_cons_waiting := nr_cons_waiting s + 1, mutex2 := mutex2 s + 1\<rparr>, RSleep, Quiet, None2)
      else case take_item_p (cbuf s) of
             None \<Rightarrow> Fault
           | Some (b, a) \<Rightarrow>
               let s1 = s\<lparr>cbuf := b\<rparr>;
                   s2 = (if 0 < sint (nr_prod_waiting s1)
                         then s1\<lparr>prod_queue := prod_queue s1 + 1, nr_prod_waiting := nr_prod_waiting s1 - 1\<rparr> else s1)
               in Next (s2\<lparr>mutex2 := mutex2 s2 + 1\<rparr>, Printing2 a, Taken (the (items s a)), None2))"

fun step2 :: "(u8 list \<Rightarrow> s32 option) \<Rightarrow> call2 \<Rightarrow> prodcons2 \<Rightarrow> pc2 \<Rightarrow> (prodcons2 \<times> pc2 \<times> pevent \<times> ret2) result" where
  "step2 scan (Write2 raw longitud bytes complete a) s Idle2 =
     (if length raw \<noteq> 11 \<or> length bytes \<noteq> unat longitud \<or> items s a \<noteq> None then Blocked
      else case write_value scan raw longitud bytes complete of
             None \<Rightarrow> Fault
           | Some (Inl e) \<Rightarrow> Next (s, Idle2, Quiet, Done2 e [])
           | Some (Inr val) \<Rightarrow>
               if a = 0 then Fault
               else Next (s\<lparr>items := (items s)(a \<mapsto> val)\<rparr>, WEnter longitud a, Quiet, None2))"
| "step2 scan Go2 s (WEnter longitud a) = down2 (mutex2 s) (s\<lparr>mutex2 := mutex2 s - 1\<rparr>, WLoop longitud a, Quiet, None2)"
| "step2 scan Signal2 s (WEnter longitud a) = Next (s, Idle2, Quiet, Done2 (- EINTR) [])"
| "step2 scan Go2 s (WLoop longitud a) = write_section longitud a s"
| "step2 scan Go2 s (WSleep longitud a) =
     down2 (prod_queue s) (s\<lparr>prod_queue := prod_queue s - 1\<rparr>, WRelock longitud a, Quiet, None2)"
| "step2 scan Signal2 s (WSleep longitud a) = Next (s, WIntr, Quiet, None2)"
| "step2 scan Go2 s WIntr = down2 (mutex2 s) (s\<lparr>mutex2 := mutex2 s - 1\<rparr>, WGone, Quiet, None2)"
| "step2 scan Go2 s WGone =
     Next (s\<lparr>nr_prod_waiting := nr_prod_waiting s - 1, mutex2 := mutex2 s + 1\<rparr>, Idle2, Quiet, Done2 (- EINTR) [])"
| "step2 scan Go2 s (WRelock longitud a) = down2 (mutex2 s) (s\<lparr>mutex2 := mutex2 s - 1\<rparr>, WLoop longitud a, Quiet, None2)"
| "step2 scan Signal2 s (WRelock longitud a) = Next (s, Idle2, Quiet, Done2 (- EINTR) [])"
| "step2 scan (Read2 later) s Idle2 =
     (if later then Next (s, Idle2, Quiet, Done2 0 []) else Next (s, REnter, Quiet, None2))"
| "step2 scan Go2 s REnter = down2 (mutex2 s) (s\<lparr>mutex2 := mutex2 s - 1\<rparr>, RLoop, Quiet, None2)"
| "step2 scan Signal2 s REnter = Next (s, Idle2, Quiet, Done2 (- EINTR) [])"
| "step2 scan Go2 s RLoop = read_section s"
| "step2 scan Go2 s RSleep = down2 (cons_queue s) (s\<lparr>cons_queue := cons_queue s - 1\<rparr>, RRelock, Quiet, None2)"
| "step2 scan Signal2 s RSleep = Next (s, RIntr, Quiet, None2)"
| "step2 scan Go2 s RIntr = down2 (mutex2 s) (s\<lparr>mutex2 := mutex2 s - 1\<rparr>, RGone, Quiet, None2)"
| "step2 scan Go2 s RGone =
     Next (s\<lparr>nr_cons_waiting := nr_cons_waiting s - 1, mutex2 := mutex2 s + 1\<rparr>, Idle2, Quiet, Done2 (- EINTR) [])"
| "step2 scan Go2 s RRelock = down2 (mutex2 s) (s\<lparr>mutex2 := mutex2 s - 1\<rparr>, RLoop, Quiet, None2)"
| "step2 scan Signal2 s RRelock = Next (s, Idle2, Quiet, Done2 (- EINTR) [])"
| "step2 scan Go2 s (Printing2 a) =
     (case items s a of
        None \<Rightarrow> Fault
      | Some v \<Rightarrow> let text = decimal v @ [10]
                  in Next (s\<lparr>items := (items s)(a := None)\<rparr>, Idle2, Quiet, Done2 (int (length text)) text))"
| "step2 scan _ s _ = Blocked"

record system2 =
  mem2 :: prodcons2
  cpus2 :: "pc2 list"
  trace2 :: "pevent list"

inductive prodcons2_step ::
  "(u8 list \<Rightarrow> s32 option) \<Rightarrow> system2 \<Rightarrow> nat \<Rightarrow> call2 \<Rightarrow> ret2 \<Rightarrow> system2 \<Rightarrow> bool" for scan where
  piece: "i < length (cpus2 S) \<Longrightarrow> step2 scan c (mem2 S) (cpus2 S ! i) = Next (s, p, e, r) \<Longrightarrow>
    prodcons2_step scan S i c r (S\<lparr>mem2 := s, cpus2 := (cpus2 S)[i := p], trace2 := trace2 S @ [e]\<rparr>)"

inductive prodcons2_reach :: "(u8 list \<Rightarrow> s32 option) \<Rightarrow> nat \<Rightarrow> system2 \<Rightarrow> bool" for scan n where
  boot: "init_prodcons2 True (Some raw) True = (0, Some s, live) \<Longrightarrow> length raw = 5 \<Longrightarrow>
    prodcons2_reach scan n \<lparr>mem2 = s, cpus2 = replicate n Idle2, trace2 = []\<rparr>"
| step: "prodcons2_reach scan n S \<Longrightarrow> prodcons2_step scan S i c r T \<Longrightarrow> prodcons2_reach scan n T"

section \<open>The invariant\<close>

fun owned2 :: "pc2 \<Rightarrow> nat list" where
  "owned2 (WEnter n a) = [a]"
| "owned2 (WLoop n a) = [a]"
| "owned2 (WSleep n a) = [a]"
| "owned2 (WRelock n a) = [a]"
| "owned2 (Printing2 a) = [a]"
| "owned2 _ = []"

fun inside2 :: "pc2 \<Rightarrow> bool" where
  "inside2 (WLoop n a) \<longleftrightarrow> True"
| "inside2 WGone \<longleftrightarrow> True"
| "inside2 RLoop \<longleftrightarrow> True"
| "inside2 RGone \<longleftrightarrow> True"
| "inside2 _ \<longleftrightarrow> False"

text \<open>The calls between \<open>nr_..._waiting++\<close> and the moment they take a token or count themselves out.\<close>

fun prod_waits :: "pc2 \<Rightarrow> bool" where
  "prod_waits (WSleep n a) \<longleftrightarrow> True"
| "prod_waits WIntr \<longleftrightarrow> True"
| "prod_waits WGone \<longleftrightarrow> True"
| "prod_waits _ \<longleftrightarrow> False"

fun cons_waits :: "pc2 \<Rightarrow> bool" where
  "cons_waits RSleep \<longleftrightarrow> True"
| "cons_waits RIntr \<longleftrightarrow> True"
| "cons_waits RGone \<longleftrightarrow> True"
| "cons_waits _ \<longleftrightarrow> False"

definition monitor_ok :: "prodcons2 \<Rightarrow> nat \<Rightarrow> nat \<Rightarrow> nat \<Rightarrow> bool" where
  "monitor_ok s cs pw cw \<longleftrightarrow> mutex2 s + cs = 1
     \<and> nr_prod_waiting s + of_nat (prod_queue s) = of_nat pw
     \<and> nr_cons_waiting s + of_nat (cons_queue s) = of_nat cw"

definition local2_ok :: "prodcons2 \<Rightarrow> pc2 \<Rightarrow> nat multiset \<Rightarrow> nat \<Rightarrow> nat \<Rightarrow> nat \<Rightarrow> bool" where
  "local2_ok s p R cs pw cw \<longleftrightarrow> store_ok (owned2 p) R s
     \<and> monitor_ok s (cs + of_bool (inside2 p)) (pw + of_bool (prod_waits p)) (cw + of_bool (cons_waits p))"

lemmas local2_defs = local2_ok_def monitor_ok_def

fun call2_ok :: "call2 \<Rightarrow> bool" where
  "call2_ok (Write2 raw longitud bytes complete a) \<longleftrightarrow> a \<noteq> 0"
| "call2_ok _ \<longleftrightarrow> True"

definition good2 :: "prodcons2 \<Rightarrow> nat multiset \<Rightarrow> nat \<Rightarrow> nat \<Rightarrow> nat \<Rightarrow> (prodcons2 \<times> pc2 \<times> pevent \<times> ret2) \<Rightarrow> bool" where
  "good2 s R cs pw cw n \<longleftrightarrow>
     (case n of (s', p', e, r) \<Rightarrow> local2_ok s' p' R cs pw cw
        \<and> taken_out e @ item_values s' = item_values s @ put_in e)"

lemma monitor_only [simp]:
  fixes s :: prodcons2
  shows "store_ok xs R (s\<lparr>mutex2 := n\<rparr>) = store_ok xs R s" "store_ok xs R (s\<lparr>prod_queue := n\<rparr>) = store_ok xs R s"
    "store_ok xs R (s\<lparr>cons_queue := n\<rparr>) = store_ok xs R s" "store_ok xs R (s\<lparr>nr_prod_waiting := w\<rparr>) = store_ok xs R s"
    "store_ok xs R (s\<lparr>nr_cons_waiting := w\<rparr>) = store_ok xs R s"
    "item_values (s\<lparr>mutex2 := n\<rparr>) = item_values s" "item_values (s\<lparr>prod_queue := n\<rparr>) = item_values s"
    "item_values (s\<lparr>cons_queue := n\<rparr>) = item_values s" "item_values (s\<lparr>nr_prod_waiting := w\<rparr>) = item_values s"
    "item_values (s\<lparr>nr_cons_waiting := w\<rparr>) = item_values s"
  by (simp_all add: store_ok_def item_values_def)

lemma one_less: "(w :: s32) + (t - 1) = w + t - 1" "w - 1 + t = w + t - 1"
  by simp_all

lemma write_section_ok:
  assumes ok: "local2_ok s (WLoop longitud a) R cs pw cw"
  shows "\<exists>n. write_section longitud a s = Next n \<and> good2 s R cs pw cw n"
proof (cases "is_full_cbuffer_p (cbuf s)")
  case True
  then show ?thesis using ok by (simp add: write_section_def good2_def local2_defs algebra_simps)
next
  case False
  have st: "store_ok [a] R s" using ok by (simp add: local2_ok_def)
  then have wf: "pb_wf (cbuf s)" "unat (pb_max (cbuf s)) = 5" by (auto simp: store_ok_def MAX_ITEMS_CBUF_def)
  have "unat (pb_size (cbuf s)) < 5"
    using False pb_wf_bounds(5) [OF wf(1)] wf(2) by (simp add: is_full_cbuffer_p_def word_unat_eq_iff)
  from store_ok_insert [OF st this] obtain b where
    "insert_cbuffer_p (cbuf s) a = Some b" "store_ok [] R (s\<lparr>cbuf := b\<rparr>)"
    "item_values (s\<lparr>cbuf := b\<rparr>) = item_values s @ [the (items s a)]" by auto
  then show ?thesis using ok False by (simp add: write_section_def good2_def local2_defs Let_def)
qed

lemma read_section_ok:
  assumes ok: "local2_ok s RLoop R cs pw cw"
  shows "\<exists>n. read_section s = Next n \<and> good2 s R cs pw cw n"
proof (cases "size_cbuffer_p (cbuf s) = 0")
  case True
  then show ?thesis using ok by (simp add: read_section_def good2_def local2_defs algebra_simps)
next
  case False
  have st: "store_ok [] R s" using ok by (simp add: local2_ok_def)
  have "pb_size (cbuf s) \<noteq> 0" using False by (simp add: size_cbuffer_p_def)
  from store_ok_take [OF st this] obtain b a v where
    "take_item_p (cbuf s) = Some (b, a)" "items s a = Some v" "store_ok [a] R (s\<lparr>cbuf := b\<rparr>)"
    "item_values s = v # item_values (s\<lparr>cbuf := b\<rparr>)" by auto
  then show ?thesis using ok False by (simp add: read_section_def good2_def local2_defs Let_def)
qed

lemma step2_ok:
  assumes ok: "local2_ok s p R cs pw cw" and c: "call2_ok c"
  shows "case step2 scan c s p of Blocked \<Rightarrow> True | Fault \<Rightarrow> False | Next n \<Rightarrow> good2 s R cs pw cw n"
proof -
  have st: "store_ok (owned2 p) R s" using ok by (simp add: local2_ok_def)
  then have st0: "store_ok [] R s" by (rule store_ok_drop)
  show ?thesis
  proof (cases "(scan, c, s, p)" rule: step2.cases)
    case (1 scan' raw longitud bytes complete a s')
    show ?thesis
    proof (cases "length raw \<noteq> 11 \<or> length bytes \<noteq> unat longitud \<or> items s a \<noteq> None")
      case False
      then have w: "write_value scan raw longitud bytes complete \<noteq> None" by (intro write_value_defined) auto
      have a: "a \<noteq> 0" using c 1 by simp
      have "store_ok [a] R (s\<lparr>items := (items s)(a \<mapsto> v)\<rparr>)" "item_values (s\<lparr>items := (items s)(a \<mapsto> v)\<rparr>) = item_values s" for v
        using store_ok_new [OF st0 _ a] False by simp_all
      then show ?thesis using 1 False w a ok
        by (simp add: good2_def local2_defs split: sum.split option.split)
    qed (use 1 in simp)
  next
    case (4 scan' s' longitud a)
    then show ?thesis using write_section_ok [of s longitud a R cs pw cw] ok by auto
  next
    case (14 scan' s')
    then show ?thesis using read_section_ok [of s R cs pw cw] ok by auto
  next
    case (21 scan' s' a)
    then show ?thesis using ok store_ok_free [of a R s] store_ok_owned(1) [OF st, of a]
      by (auto simp: good2_def local2_defs Let_def)
  qed (use ok st0 in \<open>simp_all add: good2_def local2_defs down2_def one_less\<close>)
qed

section \<open>Every reachable state\<close>

definition system2_ok :: "system2 \<Rightarrow> bool" where
  "system2_ok S \<longleftrightarrow> store_ok [] (pool owned2 (cpus2 S)) (mem2 S)
     \<and> monitor_ok (mem2 S) (count_if inside2 (cpus2 S)) (count_if prod_waits (cpus2 S)) (count_if cons_waits (cpus2 S))
     \<and> concat (map taken_out (trace2 S)) @ item_values (mem2 S) = concat (map put_in (trace2 S))"

lemma system2_ok_at:
  assumes "i < length ps"
  shows "store_ok [] (pool owned2 (ps[i := p])) s
     \<and> monitor_ok s (count_if inside2 (ps[i := p])) (count_if prod_waits (ps[i := p])) (count_if cons_waits (ps[i := p]))
   \<longleftrightarrow> local2_ok s p (pool owned2 (others i ps)) (count_if inside2 (others i ps))
         (count_if prod_waits (others i ps)) (count_if cons_waits (others i ps))"
  using assms by (simp add: split_at local2_ok_def store_ok_owned_pool)

lemma step2_next_ok:
  assumes "local2_ok s p R cs pw cw" and n: "step2 scan c s p = Next n"
  shows "good2 s R cs pw cw n"
proof (cases "call2_ok c")
  case True
  from step2_ok [OF assms(1) this, of scan] n show ?thesis by simp
next
  case False
  then obtain raw longitud bytes complete where c: "c = Write2 raw longitud bytes complete 0"
    by (cases c) auto
  then have "p = Idle2" using n by (cases p) auto
  with c n assms(1) show ?thesis
    by (auto simp: good2_def split: if_splits option.splits sum.splits)
qed

lemma prodcons2_step_ok:
  assumes inv: "system2_ok S" and step: "prodcons2_step scan S i c r T"
  shows "system2_ok T"
  using step
proof cases
  case (piece s p e)
  let ?ps = "cpus2 S"
  have "local2_ok (mem2 S) (?ps ! i) (pool owned2 (others i ?ps)) (count_if inside2 (others i ?ps))
         (count_if prod_waits (others i ?ps)) (count_if cons_waits (others i ?ps))"
    using inv system2_ok_at [OF piece(2), of "?ps ! i" "mem2 S"] by (simp add: system2_ok_def)
  from step2_next_ok [OF this piece(3)] have
    "local2_ok s p (pool owned2 (others i ?ps)) (count_if inside2 (others i ?ps))
         (count_if prod_waits (others i ?ps)) (count_if cons_waits (others i ?ps))"
    "taken_out e @ item_values s = item_values (mem2 S) @ put_in e"
    by (auto simp: good2_def)
  moreover have "concat (map taken_out (trace2 S)) @ item_values (mem2 S) = concat (map put_in (trace2 S))"
    using inv by (simp add: system2_ok_def)
  ultimately show ?thesis
    using system2_ok_at [OF piece(2), of p s] piece(1)
    by (simp add: system2_ok_def)
qed

lemma prodcons2_reach_ok: "prodcons2_reach scan n S \<Longrightarrow> system2_ok S"
proof (induction rule: prodcons2_reach.induct)
  case (boot raw s live)
  then have "s = \<lparr>items = Map.empty, cbuf = \<lparr>pb_data = raw, pb_head = 0, pb_size = 0, pb_max = MAX_ITEMS_CBUF\<rparr>,
      prod_queue = 0, cons_queue = 0, mutex2 = 1, nr_prod_waiting = 0, nr_cons_waiting = 0\<rparr>"
    by (simp add: init_prodcons2_def create_cbuffer_p_def MAX_ITEMS_CBUF_def)
  moreover have "count_if P (replicate n Idle2) = 0" if "\<not> P Idle2" for P using that by simp
  ultimately show ?case using boot(2)
    by (simp add: system2_ok_def store_ok_def monitor_ok_def item_values_def pcontents_def pb_wf_def MAX_ITEMS_CBUF_def)
next
  case (step S i c r T)
  then show ?case using prodcons2_step_ok by blast
qed

lemma prodcons2_no_fault:
  assumes "prodcons2_reach scan n S" and "p \<in> set (cpus2 S)" and "call2_ok c"
  shows "step2 scan c (mem2 S) p \<noteq> Fault"
proof -
  obtain i where i: "i < length (cpus2 S)" "cpus2 S ! i = p" using assms(2) by (auto simp: in_set_conv_nth)
  let ?ps = "cpus2 S"
  have "local2_ok (mem2 S) p (pool owned2 (others i ?ps)) (count_if inside2 (others i ?ps))
         (count_if prod_waits (others i ?ps)) (count_if cons_waits (others i ?ps))"
    using prodcons2_reach_ok [OF assms(1)] system2_ok_at [OF i(1), of p "mem2 S"] i by (auto simp: system2_ok_def)
  from step2_ok [OF this assms(3), of scan] show ?thesis by auto
qed

text \<open>A schedule, run from a given system, for concrete executions.\<close>

fun run2 :: "(u8 list \<Rightarrow> s32 option) \<Rightarrow> system2 \<Rightarrow> (nat \<times> call2) list \<Rightarrow> system2 option" where
  "run2 scan S [] = Some S"
| "run2 scan S ((i, c) # cs) =
     (if i < length (cpus2 S)
      then case step2 scan c (mem2 S) (cpus2 S ! i) of
             Next (s, p, e, r) \<Rightarrow> run2 scan (S\<lparr>mem2 := s, cpus2 := (cpus2 S)[i := p], trace2 := trace2 S @ [e]\<rparr>) cs
           | _ \<Rightarrow> None
      else None)"

lemma run2_reaches: "run2 scan S cs = Some T \<Longrightarrow> prodcons2_reach scan n S \<Longrightarrow> prodcons2_reach scan n T"
proof (induction cs arbitrary: S)
  case (Cons x cs)
  obtain i c where x: "x = (i, c)" by (cases x)
  show ?case
  proof (cases "i < length (cpus2 S)")
    case True
    show ?thesis
    proof (cases "step2 scan c (mem2 S) (cpus2 S ! i)")
      case (Next m)
      obtain s p e r where m: "m = (s, p, e, r)" by (cases m)
      have "prodcons2_step scan S i c r (S\<lparr>mem2 := s, cpus2 := (cpus2 S)[i := p], trace2 := trace2 S @ [e]\<rparr>)"
        using True Next m by (intro prodcons2_step.piece) simp_all
      then have "prodcons2_reach scan n (S\<lparr>mem2 := s, cpus2 := (cpus2 S)[i := p], trace2 := trace2 S @ [e]\<rparr>)"
        using Cons.prems(2) prodcons2_reach.step by blast
      then show ?thesis using Cons.IH Cons.prems(1) x True Next m by simp
    qed (use Cons.prems(1) x True in simp_all)
  qed (use Cons.prems(1) x in simp)
qed simp

definition fresh2 :: prodcons2 where
  "fresh2 = \<lparr>items = Map.empty, cbuf = \<lparr>pb_data = [0, 0, 0, 0, 0], pb_head = 0, pb_size = 0, pb_max = 5\<rparr>,
      prod_queue = 0, cons_queue = 0, mutex2 = 1, nr_prod_waiting = 0, nr_cons_waiting = 0\<rparr>"

lemma fresh2_reach: "prodcons2_reach scan n \<lparr>mem2 = fresh2, cpus2 = replicate n Idle2, trace2 = []\<rparr>"
  by (rule prodcons2_reach.boot [of "[0, 0, 0, 0, 0]"])
     (simp_all add: init_prodcons2_def create_cbuffer_p_def fresh2_def MAX_ITEMS_CBUF_def)

text \<open>
  A write of the value 7 by processor 2, while processors 0 and 1 wait for an item: processor 0 gets
  the token.
\<close>

definition two_readers :: "(nat \<times> call2) list" where
  "two_readers = [(0, Read2 False), (0, Go2), (0, Go2), (1, Read2 False), (1, Go2), (1, Go2)]"

definition write_seven2 :: "(nat \<times> call2) list" where
  "write_seven2 = [(2, Write2 (replicate 11 0) 1 [55] True 1), (2, Go2), (2, Go2)]"

lemma value_seven2: "write_value (\<lambda>_. Some 7) (replicate 11 0) 1 [55] True = Some (Inr 7)"
  by (simp add: write_value_def MAX_CHARS_KBUF_def memcpy_def write_at_def)

lemmas run2_simps = fresh2_def value_seven2 down2_def write_section_def read_section_def Let_def
  is_full_cbuffer_p_def size_cbuffer_p_def insert_cbuffer_p_def write_at_def

lemma two_readers_run:
  "run2 (\<lambda>_. Some 7) \<lparr>mem2 = fresh2, cpus2 = [Idle2, Idle2, Idle2], trace2 = []\<rparr> two_readers = Some
     \<lparr>mem2 = fresh2\<lparr>nr_cons_waiting := 2\<rparr>, cpus2 = [RSleep, RSleep, Idle2],
      trace2 = [Quiet, Quiet, Quiet, Quiet, Quiet, Quiet]\<rparr>"
  by (simp add: two_readers_def run2_simps)

lemma write_seven2_run:
  "run2 (\<lambda>_. Some 7) \<lparr>mem2 = fresh2\<lparr>nr_cons_waiting := 2\<rparr>, cpus2 = [RSleep, RSleep, Idle2],
      trace2 = [Quiet, Quiet, Quiet, Quiet, Quiet, Quiet]\<rparr> write_seven2 = Some
     \<lparr>mem2 = \<lparr>items = [1 \<mapsto> 7], cbuf = \<lparr>pb_data = [1, 0, 0, 0, 0], pb_head = 0, pb_size = 1, pb_max = 5\<rparr>,
        prod_queue = 0, cons_queue = 1, mutex2 = 1, nr_prod_waiting = 0, nr_cons_waiting = 1\<rparr>,
      cpus2 = [RSleep, RSleep, Idle2],
      trace2 = [Quiet, Quiet, Quiet, Quiet, Quiet, Quiet, Quiet, Quiet, Put 7]\<rparr>"
  by (simp add: write_seven2_def run2_simps)

lemma run2_append: "run2 scan S (xs @ ys) = Option.bind (run2 scan S xs) (\<lambda>T. run2 scan T ys)"
  by (induction xs arbitrary: S) (auto split: result.splits)

lemma fresh2_three: "prodcons2_reach scan 3 \<lparr>mem2 = fresh2, cpus2 = [Idle2, Idle2, Idle2], trace2 = []\<rparr>"
  using fresh2_reach [of scan 3] by (simp add: numeral_3_eq_3)

text \<open>
  C17 (prodcons2_monitor): in every reachable state at most one call is inside the monitor; for each
  queue the sleepers counted plus the tokens given are the calls that wait; the values taken,
  followed by those in the ring, are the values inserted, in order; and no piece of a call is a
  fault unless an allocation failed.
\<close>

theorem prodcons2_monitor:
  assumes "prodcons2_reach scan n S" and "p \<in> set (cpus2 S)" and "call2_ok c"
  shows "mutex2 (mem2 S) + count_if inside2 (cpus2 S) = 1
     \<and> nr_prod_waiting (mem2 S) + of_nat (prod_queue (mem2 S)) = of_nat (count_if prod_waits (cpus2 S))
     \<and> nr_cons_waiting (mem2 S) + of_nat (cons_queue (mem2 S)) = of_nat (count_if cons_waits (cpus2 S))
     \<and> concat (map taken_out (trace2 S)) @ item_values (mem2 S) = concat (map put_in (trace2 S))
     \<and> step2 scan c (mem2 S) p \<noteq> Fault"
  using prodcons2_reach_ok [OF assms(1)] prodcons2_no_fault [OF assms]
  by (simp add: system2_ok_def monitor_ok_def)

theorem prodcons2_monitor_witness:
  "\<exists>S. prodcons2_reach (\<lambda>_. Some 7) 3 S \<and> count_if cons_waits (cpus2 S) = 2 \<and> cons_queue (mem2 S) = 0
     \<and> nr_cons_waiting (mem2 S) + of_nat (cons_queue (mem2 S)) = 2 \<and> step2 (\<lambda>_. Some 7) (Read2 False) (mem2 S) Idle2 \<noteq> Fault"
proof -
  obtain S where S: "run2 (\<lambda>_. Some 7) \<lparr>mem2 = fresh2, cpus2 = [Idle2, Idle2, Idle2], trace2 = []\<rparr> two_readers = Some S"
    "cpus2 S = [RSleep, RSleep, Idle2]" "cons_queue (mem2 S) = 0"
    using two_readers_run by (simp add: fresh2_def)
  then have r: "prodcons2_reach (\<lambda>_. Some 7) 3 S" using run2_reaches fresh2_three by blast
  have "Idle2 \<in> set (cpus2 S)" "call2_ok (Read2 False)" using S(2) by simp_all
  from prodcons2_monitor [OF r this] r S(2,3) show ?thesis by (intro exI [of _ S]) simp
qed

text \<open>
  A consumer that was woken for the only item is interrupted while it waits
  for the mutex and returns without passing the wake-up on: the other consumer sleeps with no token
  to come although the ring holds an item and nobody else is in a call.
\<close>

theorem prodcons2_lost_wakeup:
  "\<exists>S. prodcons2_reach (\<lambda>_. Some 7) 3 S \<and> cpus2 S = [Idle2, RSleep, Idle2]
     \<and> item_values (mem2 S) = [7] \<and> cons_queue (mem2 S) = 0
     \<and> step2 (\<lambda>_. Some 7) Go2 (mem2 S) RSleep = Blocked"
proof -
  have "run2 (\<lambda>_. Some 7) \<lparr>mem2 = fresh2, cpus2 = [Idle2, Idle2, Idle2], trace2 = []\<rparr>
      (two_readers @ write_seven2 @ [(0, Go2), (0, Signal2)]) = Some
     \<lparr>mem2 = \<lparr>items = [1 \<mapsto> 7], cbuf = \<lparr>pb_data = [1, 0, 0, 0, 0], pb_head = 0, pb_size = 1, pb_max = 5\<rparr>,
        prod_queue = 0, cons_queue = 0, mutex2 = 1, nr_prod_waiting = 0, nr_cons_waiting = 1\<rparr>,
      cpus2 = [Idle2, RSleep, Idle2],
      trace2 = [Quiet, Quiet, Quiet, Quiet, Quiet, Quiet, Quiet, Quiet, Put 7, Quiet, Quiet]\<rparr>" (is "_ = Some ?S")
    by (simp add: run2_append two_readers_run write_seven2_run down2_def)
  then have "prodcons2_reach (\<lambda>_. Some 7) 3 ?S" using run2_reaches fresh2_three by blast
  then show ?thesis
    by (intro exI [of _ ?S]) (simp add: item_values_def pcontents_def ring_get_def down2_def)
qed

text \<open>As for the first module, loading and unloading release the blocks of the buffer.\<close>

lemma prodcons2_blocks:
  "init_prodcons2 header_ok raw proc_ok = (r, st, live) \<Longrightarrow>
   (case st of None \<Rightarrow> r = - ENOMEM \<and> live = (if header_ok \<and> raw = None then [HeaderBlock] else [])
    | Some s \<Rightarrow> r = 0 \<and> snd (exit_prodcons2 s live) = (False, []))"
  by (cases raw)
    (auto simp: init_prodcons2_def create_cbuffer_p_def destroy_cbuffer_p_def exit_prodcons2_def split: if_splits)

end
