(* ===== verification/Chardev.thy ===== *)
theory Chardev
  imports CStrings
begin

text \<open>
  The character device of FicherosP3/Ejemplos/Chardev/chardev.c: one opener at a time gets a message
  with the number of openings so far, and reads hand it out byte by byte from where the last one
  stopped.
\<close>

section \<open>State and operations\<close>

definition CHARDEV_BUF_LEN :: nat where "CHARDEV_BUF_LEN = 80"

text \<open>\<open>msg_Ptr\<close> is the index in \<open>msg\<close> it points to, \<^const>\<open>None\<close> before the first open.\<close>

record chardev =
  Device_Open :: s32
  counter :: s32
  msg :: "u8 list"
  msg_Ptr :: "nat option"

text \<open>The result of \<open>register_chrdev\<close> decides; the static variables have their initial values.\<close>

definition init_chardev :: "int \<Rightarrow> int \<times> chardev option" where
  "init_chardev major =
     (if major < 0 then (major, None)
      else (0, Some \<lparr>Device_Open = 0, counter = 0, msg = replicate CHARDEV_BUF_LEN 0, msg_Ptr = None\<rparr>))"

definition hello :: "s32 \<Rightarrow> u8 list" where
  "hello n = bytes_of ''I already told you '' @ decimal n @ bytes_of '' times Hello world!'' @ [10]"

text \<open>
  \<open>device_open\<close> in two pieces, for another processor can run between the test and the increment, and
  as a whole.
\<close>

definition device_open_test :: "chardev \<Rightarrow> int option" where
  "device_open_test s = (if Device_Open s \<noteq> 0 then Some (- EBUSY) else None)"

definition device_open_take :: "chardev \<Rightarrow> (chardev \<times> int) option" where
  "device_open_take s = do {
     let s1 = s\<lparr>Device_Open := Device_Open s + 1\<rparr>;
     let text = hello (counter s1);
     m \<leftarrow> memcpy (msg s1) 0 (text @ [0]) (int (length text) + 1);
     Some (s1\<lparr>msg := m, counter := counter s1 + 1, msg_Ptr := Some 0\<rparr>, 0) }"

definition device_open :: "chardev \<Rightarrow> (chardev \<times> int) option" where
  "device_open s = (case device_open_test s of Some e \<Rightarrow> Some (s, e) | None \<Rightarrow> device_open_take s)"

definition device_release :: "chardev \<Rightarrow> chardev \<times> int" where
  "device_release s = (s\<lparr>Device_Open := Device_Open s - 1\<rparr>, 0)"

text \<open>The loop of \<open>device_read\<close>: the pointer, the bytes left to read and those handed to \<open>put_user\<close>.\<close>

fun device_read_loop :: "u8 list \<Rightarrow> nat \<Rightarrow> nat \<Rightarrow> u8 list \<Rightarrow> (nat \<times> u8 list) option" where
  "device_read_loop m p 0 out = Some (p, out)"
| "device_read_loop m p (Suc n) out = do {
     c \<leftarrow> read_at m (int p);
     (if c = 0 then Some (p, out) else device_read_loop m (Suc p) n (out @ [c])) }"

definition device_read :: "u32 \<Rightarrow> chardev \<Rightarrow> (chardev \<times> int \<times> u8 list) option" where
  "device_read n s = do {
     p \<leftarrow> msg_Ptr s;
     c \<leftarrow> read_at (msg s) (int p);
     (if c = 0 then Some (s, 0, [])
      else do {
        (p', out) \<leftarrow> device_read_loop (msg s) p (unat n) [];
        Some (s\<lparr>msg_Ptr := Some p'\<rparr>, int (length out), out) }) }"

definition device_write :: "chardev \<Rightarrow> chardev \<times> int" where
  "device_write s = (s, - EPERM)"

section \<open>Reading the message\<close>

text \<open>A run of reads, with the bytes of all of them.\<close>

fun device_reads :: "u32 list \<Rightarrow> chardev \<Rightarrow> (chardev \<times> u8 list) option" where
  "device_reads [] s = Some (s, [])"
| "device_reads (n # ns) s = do {
     (s', r, out) \<leftarrow> device_read n s;
     (s'', outs) \<leftarrow> device_reads ns s';
     Some (s'', out @ outs) }"

definition shows_from :: "chardev \<Rightarrow> nat \<Rightarrow> u8 list \<Rightarrow> bool" where
  "shows_from s p text \<longleftrightarrow> msg_Ptr s = Some p \<and> p \<le> length text \<and> 0 \<notin> set text
     \<and> length text < length (msg s) \<and> take (Suc (length text)) (msg s) = text @ [0]"

lemma shows_nth:
  assumes "shows_from s p text" and "i \<le> length text"
  shows "read_at (msg s) (int i) = Some (if i < length text then text ! i else 0)"
proof -
  have "msg s ! i = take (Suc (length text)) (msg s) ! i" using assms by simp
  also have "\<dots> = (text @ [0]) ! i" using assms by (simp add: shows_from_def)
  finally show ?thesis using assms by (auto simp: shows_from_def nth_append)
qed

lemma device_read_loop_shows:
  "shows_from s q text \<Longrightarrow> p \<le> length text \<Longrightarrow>
   device_read_loop (msg s) p n out = Some (min (p + n) (length text), out @ take n (drop p text))"
proof (induction n arbitrary: p out)
  case (Suc n)
  show ?case
  proof (cases "p < length text")
    case True
    have "text ! p \<noteq> 0" using Suc.prems(1) True by (metis nth_mem shows_from_def)
    then show ?thesis
      using Suc.IH [of "Suc p" "out @ [text ! p]"] Suc.prems True shows_nth [OF Suc.prems(1,2)]
      by (simp add: Cons_nth_drop_Suc [symmetric])
  qed (use Suc.prems shows_nth [OF Suc.prems(1,2)] in simp)
qed simp

lemma device_read_shows:
  assumes "shows_from s p text"
  shows "device_read n s = Some (s\<lparr>msg_Ptr := Some (min (p + unat n) (length text))\<rparr>,
           int (length (take (unat n) (drop p text))), take (unat n) (drop p text))"
    and "shows_from (s\<lparr>msg_Ptr := Some (min (p + unat n) (length text))\<rparr>) (min (p + unat n) (length text)) text"
proof -
  have p: "p \<le> length text" "msg_Ptr s = Some p" using assms by (simp_all add: shows_from_def)
  show "device_read n s = Some (s\<lparr>msg_Ptr := Some (min (p + unat n) (length text))\<rparr>,
           int (length (take (unat n) (drop p text))), take (unat n) (drop p text))"
  proof (cases "p < length text")
    case True
    have "text ! p \<noteq> 0" using assms True by (metis nth_mem shows_from_def)
    then show ?thesis
      using p True shows_nth [OF assms p(1)] device_read_loop_shows [OF assms p(1)]
      by (simp add: device_read_def)
  next
    case False
    then have "s\<lparr>msg_Ptr := Some (min (p + unat n) (length text))\<rparr> = s" using p by simp
    then show ?thesis using p False shows_nth [OF assms p(1)] by (simp add: device_read_def)
  qed
  show "shows_from (s\<lparr>msg_Ptr := Some (min (p + unat n) (length text))\<rparr>) (min (p + unat n) (length text)) text"
    using assms by (simp add: shows_from_def)
qed

lemma device_reads_shows:
  "shows_from s p text \<Longrightarrow>
   \<exists>s'. device_reads ns s = Some (s', take (sum_list (map unat ns)) (drop p text))"
proof (induction ns arbitrary: s p)
  case (Cons n ns)
  from Cons.IH [OF device_read_shows(2) [OF Cons.prems, of n]] obtain s' where
    "device_reads ns (s\<lparr>msg_Ptr := Some (min (p + unat n) (length text))\<rparr>)
       = Some (s', take (sum_list (map unat ns)) (drop (min (p + unat n) (length text)) text))" by blast
  moreover have "take (unat n) (drop p text) @ take k (drop (min (p + unat n) (length text)) text)
      = take (unat n + k) (drop p text)" for k
  proof (cases "p + unat n \<le> length text")
    case True
    then show ?thesis using take_add [of "unat n" k "drop p text"] by (simp add: add.commute)
  qed simp
  ultimately show ?case using device_read_shows(1) [OF Cons.prems, of n] by simp
qed simp

lemma digits_nonzero: "0 \<notin> set (digits n)"
proof (induction n rule: digits.induct)
  case (1 n)
  have d: "(48 :: u8) + of_nat k \<noteq> 0" if "k < 10" for k
  proof -
    have "unat ((48 :: u8) + of_nat k) = 48 + k" using that by (simp add: unat_word_ariths unat_of_nat)
    then show ?thesis by auto
  qed
  show ?case
  proof (cases "n < 10")
    case True
    then show ?thesis using d [of n] by (simp add: digits.simps [of n])
  next
    case False
    then show ?thesis using 1 [OF False] d [of "n mod 10"] by (simp add: digits.simps [of n])
  qed
qed

lemma hello_fits: "length (hello n) < CHARDEV_BUF_LEN" and hello_nonzero: "0 \<notin> set (hello n)"
proof -
  show "length (hello n) < CHARDEV_BUF_LEN"
    using decimal_length [of n] by (simp add: hello_def bytes_of_def CHARDEV_BUF_LEN_def)
  have "0 \<notin> set (decimal n)" using digits_nonzero by (simp add: decimal_def)
  then show "0 \<notin> set (hello n)" by (simp add: hello_def bytes_of_def)
qed

lemma device_open_shows:
  assumes "length (msg s) = CHARDEV_BUF_LEN" and "Device_Open s = 0"
  shows "\<exists>s'. device_open s = Some (s', 0) \<and> shows_from s' 0 (hello (counter s)) \<and> Device_Open s' = 1
     \<and> counter s' = counter s + 1"
proof -
  let ?t = "hello (counter s)"
  have f: "length (?t @ [0]) \<le> length (msg s)" using hello_fits [of "counter s"] assms(1) by simp
  then have "memcpy (msg s) 0 (?t @ [0]) (int (length ?t) + 1) = Some (?t @ [0] @ drop (Suc (length ?t)) (msg s))"
    using memcpy_nat [of "length (?t @ [0])" "?t @ [0]" 0 "msg s"] by (simp add: add.commute)
  then have "device_open s = Some (s\<lparr>Device_Open := 1, msg := ?t @ [0] @ drop (Suc (length ?t)) (msg s),
      counter := counter s + 1, msg_Ptr := Some 0\<rparr>, 0)"
    using assms(2) by (simp add: device_open_def device_open_test_def device_open_take_def Let_def)
  then show ?thesis using f hello_nonzero by (simp add: shows_from_def)
qed

text \<open>
  C18 (chardev_reads_message): opening the free device succeeds without leaving the 80-byte message
  buffer, and any series of reads, of any sizes, then hands out the beginning of the greeting of the
  right length, byte for byte, without reading past it; while it is open, another open gets
  \<open>-EBUSY\<close>.
\<close>

theorem chardev_reads_message:
  assumes "length (msg s) = CHARDEV_BUF_LEN" and "Device_Open s = 0"
  shows "\<exists>s' s''. device_open s = Some (s', 0) \<and> device_open s' = Some (s', - EBUSY)
     \<and> device_reads ns s' = Some (s'', take (sum_list (map unat ns)) (hello (counter s)))"
proof -
  obtain s' where s': "device_open s = Some (s', 0)" "shows_from s' 0 (hello (counter s))" "Device_Open s' = 1"
    using device_open_shows [OF assms] by blast
  have "device_open s' = Some (s', - EBUSY)"
    using s'(3) by (simp add: device_open_def device_open_test_def)
  with s' device_reads_shows [OF s'(2), of ns] show ?thesis by auto
qed

theorem chardev_reads_message_witness:
  "\<exists>s s' s''. snd (init_chardev 240) = Some s \<and> device_open s = Some (s', 0)
     \<and> device_reads [10, 5] s' = Some (s'', bytes_of ''I already told '')"
proof -
  let ?s = "\<lparr>Device_Open = 0, counter = 0, msg = replicate CHARDEV_BUF_LEN 0, msg_Ptr = None\<rparr>"
  have "length (msg ?s) = CHARDEV_BUF_LEN" "Device_Open ?s = 0" by simp_all
  from chardev_reads_message [OF this, of "[10, 5]"]
  obtain s' s'' where "device_open ?s = Some (s', 0)" "device_reads [10, 5] s' = Some (s'', take 15 (hello 0))"
    by auto
  moreover have "take 15 (hello 0) = bytes_of ''I already told ''"
    by (simp add: hello_def bytes_of_def)
  ultimately show ?thesis by (intro exI [of _ ?s] exI [of _ s'] exI [of _ s'']) (simp add: init_chardev_def)
qed

text \<open>Two processors that both pass the test open the device together.\<close>

lemma device_open_race:
  assumes "length (msg s) = CHARDEV_BUF_LEN" and "Device_Open s = 0"
  shows "\<exists>s1 s2. device_open_test s = None \<and> device_open_take s = Some (s1, 0)
     \<and> device_open_take s1 = Some (s2, 0) \<and> Device_Open s2 = 2"
proof -
  have f: "\<exists>m. memcpy b 0 (hello n @ [0]) (int (length (hello n)) + 1) = Some m \<and> length m = CHARDEV_BUF_LEN"
    if "length b = CHARDEV_BUF_LEN" for b n
    using memcpy_nat [of "length (hello n @ [0])" "hello n @ [0]" 0 b] hello_fits [of n] that
    by (simp add: add.commute)
  have take: "\<exists>m. length m = CHARDEV_BUF_LEN \<and> device_open_take u =
      Some (u\<lparr>Device_Open := Device_Open u + 1, msg := m, counter := counter u + 1, msg_Ptr := Some 0\<rparr>, 0)"
    if "length (msg u) = CHARDEV_BUF_LEN" for u
  proof -
    from f [OF that, of "counter u"] obtain m where
      "memcpy (msg u) 0 (hello (counter u) @ [0]) (int (length (hello (counter u))) + 1) = Some m" "length m = CHARDEV_BUF_LEN"
      by blast
    then show ?thesis by (intro exI [of _ m]) (simp add: device_open_take_def Let_def)
  qed
  from take [OF assms(1)] obtain m where m: "length m = CHARDEV_BUF_LEN"
    "device_open_take s = Some (s\<lparr>Device_Open := 1, msg := m, counter := counter s + 1, msg_Ptr := Some 0\<rparr>, 0)"
    using assms(2) by auto
  from take [of "s\<lparr>Device_Open := 1, msg := m, counter := counter s + 1, msg_Ptr := Some 0\<rparr>"] m(1)
  obtain m2 where "device_open_take (s\<lparr>Device_Open := 1, msg := m, counter := counter s + 1, msg_Ptr := Some 0\<rparr>)
      = Some (s\<lparr>Device_Open := 2, msg := m2, counter := counter s + 1 + 1, msg_Ptr := Some 0\<rparr>, 0)"
    by auto
  with m(2) assms(2) show ?thesis
    by (intro exI [of _ "s\<lparr>Device_Open := 1, msg := m, counter := counter s + 1, msg_Ptr := Some 0\<rparr>"]
          exI [of _ "s\<lparr>Device_Open := 2, msg := m2, counter := counter s + 1 + 1, msg_Ptr := Some 0\<rparr>"])
       (simp add: device_open_test_def)
qed

end
