(* ===== verification/DumpUtmp.thy ===== *)
theory DumpUtmp
  imports CStrings
begin

text \<open>
  The user program of FicherosP3/Ejemplos/DumpUTMP/dump_utmp.c: it prints the records of a utmp file,
  or sends them through the FIFO to a second instance that prints them.  What the system calls
  return is an argument; printed text is a list of bytes; leaving the program is a result.
\<close>

section \<open>Records and results\<close>

record utmp =
  ut_type :: "16 word"
  ut_user :: "u8 list"
  ut_line :: "u8 list"
  ut_time :: s32
  ut_id :: "u8 list"
  ut_host :: "u8 list"
  e_termination :: "16 word"
  e_exit :: "16 word"

text \<open>The constants of utmp.h.\<close>

definition UT_UNKNOWN :: "16 word" where "UT_UNKNOWN = 0"
definition RUN_LVL :: "16 word" where "RUN_LVL = 1"
definition BOOT_TIME :: "16 word" where "BOOT_TIME = 2"
definition NEW_TIME :: "16 word" where "NEW_TIME = 3"
definition OLD_TIME :: "16 word" where "OLD_TIME = 4"
definition INIT_PROCESS :: "16 word" where "INIT_PROCESS = 5"
definition LOGIN_PROCESS :: "16 word" where "LOGIN_PROCESS = 6"
definition USER_PROCESS :: "16 word" where "USER_PROCESS = 7"
definition DEAD_PROCESS :: "16 word" where "DEAD_PROCESS = 8"
definition ACCOUNTING :: "16 word" where "ACCOUNTING = 9"

text \<open>A function that may call \<open>exit\<close>: the status, or what it returns.\<close>

datatype 'a outcome = Exit int | Ret 'a

section \<open>Formatting\<close>

text \<open>\<open>strcpy\<close> and \<open>%s\<close>: the string in the block, if it is terminated and, for the copy, fits.\<close>

definition cstring :: "u8 list \<Rightarrow> u8 list option" where
  "cstring block = map_option (\<lambda>n. take n block) (strlen block)"

definition strcpy :: "nat \<Rightarrow> u8 list \<Rightarrow> u8 list option" where
  "strcpy room text = (if length text < room then Some text else None)"

text \<open>\<open>ctime\<close> is the library function; its result is the string, with the newline at its end.\<close>

definition string_tiempo :: "(s32 \<Rightarrow> u8 list) \<Rightarrow> utmp \<Rightarrow> u8 list option" where
  "string_tiempo ctime u = do {
     strtime \<leftarrow> strcpy 100 (ctime (ut_time u));
     (if strtime = [] then None else Some (take (length strtime - 1) strtime)) }"

definition utmptype2str :: "nat \<Rightarrow> 16 word \<Rightarrow> u8 list option" where
  "utmptype2str room type = strcpy room (bytes_of
     (if type = UT_UNKNOWN then ''UT_UNKNOWN''
      else if type = RUN_LVL then ''RUN_LVL''
      else if type = BOOT_TIME then ''BOOT_TIME''
      else if type = NEW_TIME then ''NEW_TIME''
      else if type = OLD_TIME then ''OLD_TIME''
      else if type = INIT_PROCESS then ''INIT_PROCESS''
      else if type = LOGIN_PROCESS then ''LOGIN_PROCESS''
      else if type = USER_PROCESS then ''USER_PROCESS''
      else if type = DEAD_PROCESS then ''DEAD_PROCESS''
      else if type = ACCOUNTING then ''ACCOUNTING''
      else ''OTHER''))"

text \<open>\<open>sprintf(strexit, "(%i,%i)", ...)\<close>; a \<open>short\<close> is promoted to \<open>int\<close>.\<close>

definition exit_text :: "nat \<Rightarrow> utmp \<Rightarrow> u8 list option" where
  "exit_text room u = strcpy room
     (bytes_of ''('' @ decimal (scast (e_termination u)) @ bytes_of '','' @ decimal (scast (e_exit u)) @ bytes_of '')'')"

definition tab :: "u8 list" where "tab = [9]"
definition newline :: "u8 list" where "newline = [10]"

definition print_entry ::
  "u8 list \<Rightarrow> u8 list \<Rightarrow> u8 list \<Rightarrow> u8 list \<Rightarrow> u8 list \<Rightarrow> u8 list \<Rightarrow> u8 list \<Rightarrow> u8 list option" where
  "print_entry type usuario linea strtiempo idlinea host str_salida = do {
     us \<leftarrow> cstring usuario;
     li \<leftarrow> cstring linea;
     i0 \<leftarrow> read_at idlinea 0;
     i1 \<leftarrow> read_at idlinea 1;
     ho \<leftarrow> cstring host;
     Some (bytes_of ''('' @ type @ bytes_of '')'' @ tab @ us @ tab @ tab @ li @ tab @ strtiempo @ tab
           @ [i0, i1] @ tab @ ho @ tab @ str_salida @ newline) }"

definition print_header :: "u8 list" where
  "print_header = bytes_of ''TIPO'' @ tab @ tab @ bytes_of ''NOMBRE'' @ tab @ tab @ bytes_of ''LINEA'' @ tab
     @ bytes_of ''TIEMPO'' @ tab @ tab @ tab @ tab @ bytes_of ''ID.'' @ tab @ bytes_of ''HOST'' @ tab
     @ bytes_of ''SALIDA'' @ newline @ replicate 89 45 @ newline"

text \<open>The body of the two printing loops; the size of the two local buffers differs between them.\<close>

definition print_one :: "nat \<Rightarrow> (s32 \<Rightarrow> u8 list) \<Rightarrow> utmp \<Rightarrow> u8 list option" where
  "print_one room ctime u = do {
     strtype \<leftarrow> utmptype2str room (ut_type u);
     strtime \<leftarrow> string_tiempo ctime u;
     strexit \<leftarrow> exit_text room u;
     print_entry strtype (ut_user u) (ut_line u) strtime (ut_id u) (ut_host u) strexit }"

fun print_records :: "nat \<Rightarrow> (s32 \<Rightarrow> u8 list) \<Rightarrow> utmp list \<Rightarrow> u8 list option" where
  "print_records room ctime [] = Some []"
| "print_records room ctime (u # us) = do {
     a \<leftarrow> print_one room ctime u;
     b \<leftarrow> print_records room ctime us;
     Some (a @ b) }"

definition print_utmp_entries :: "bool \<Rightarrow> (s32 \<Rightarrow> u8 list) \<Rightarrow> utmp list \<Rightarrow> u8 list option" where
  "print_utmp_entries incluye_cabecera ctime utmp_buf = do {
     lines \<leftarrow> print_records 100 ctime utmp_buf;
     Some ((if incluye_cabecera then print_header else []) @ lines) }"

section \<open>Files\<close>

text \<open>What \<open>opendir\<close> finds.\<close>

datatype opendir = IsDirectory | NotDirectory | OtherError

definition isdir_path :: "opendir \<Rightarrow> int outcome" where
  "isdir_path d = (case d of NotDirectory \<Rightarrow> Ret 0 | OtherError \<Rightarrow> Exit (- 1) | IsDirectory \<Rightarrow> Ret 1)"

text \<open>
  What the system gives for a path: whether it opens, whether \<open>fstat\<close> works, the size it reports,
  whether there is memory, and the whole records that \<open>fread\<close> finds.
\<close>

record utmp_file =
  opens :: bool
  stat_ok :: bool
  st_size :: nat
  memory :: bool
  content :: "utmp list"

definition SIZEOF_UTMP :: nat where "SIZEOF_UTMP = 384"

definition read_utmp :: "utmp_file \<Rightarrow> utmp list outcome" where
  "read_utmp f =
     (if \<not> opens f then Exit (- 1)
      else if \<not> stat_ok f then Exit (- 1)
      else let num_registers = st_size f div SIZEOF_UTMP
           in if \<not> memory f then Exit (- 1)
              else let got = take num_registers (content f)
                   in if length got \<noteq> num_registers then Exit (- 1) else Ret got)"

section \<open>Sending and receiving\<close>

text \<open>
  The sending loop; \<open>rs i\<close> is what the \<open>i\<close>-th \<open>write\<close> returns.  The result is the records written, or
  an exit; a \<open>write\<close> that returns 0 is passed over.
\<close>

fun send_loop :: "(nat \<Rightarrow> int) \<Rightarrow> nat \<Rightarrow> utmp list \<Rightarrow> utmp list outcome" where
  "send_loop rs i [] = Ret []"
| "send_loop rs i (u # us) =
     (let bytes = rs i
      in if bytes > 0 \<and> bytes \<noteq> int SIZEOF_UTMP then Exit 1
         else if bytes < 0 then Exit 1
         else case send_loop rs (Suc i) us of
                Exit e \<Rightarrow> Exit e
              | Ret sent \<Rightarrow> Ret ((if bytes = int SIZEOF_UTMP then [u] else []) @ sent))"

text \<open>
  \<open>utmp_send\<close>: \<open>files\<close> gives what the system has for a path; the result is what is printed and what
  goes into the FIFO.
\<close>

definition utmp_send ::
  "bool \<Rightarrow> bool \<Rightarrow> (s32 \<Rightarrow> u8 list) \<Rightarrow> (u8 list \<Rightarrow> opendir) \<Rightarrow> (u8 list \<Rightarrow> utmp_file) \<Rightarrow> bool \<Rightarrow> (nat \<Rightarrow> int) \<Rightarrow> u8 list
     \<Rightarrow> (u8 list \<times> utmp list) outcome option" where
  "utmp_send incluye_cabecera just_print ctime dirs files fifo_opens rs fichero =
     (case isdir_path (dirs fichero) of
        Exit e \<Rightarrow> Some (Exit e)
      | Ret d \<Rightarrow>
          (case read_utmp (files (if d \<noteq> 0 then fichero @ bytes_of ''/utmp'' else fichero)) of
             Exit e \<Rightarrow> Some (Exit e)
           | Ret utmp_buf \<Rightarrow>
               if just_print then do {
                 text \<leftarrow> print_utmp_entries incluye_cabecera ctime utmp_buf;
                 Some (Ret (text, [])) }
               else if \<not> fifo_opens then Some (Exit 1)
               else (case send_loop rs 0 utmp_buf of Exit e \<Rightarrow> Some (Exit e) | Ret sent \<Rightarrow> Some (Ret ([], sent)))))"

text \<open>What a \<open>read\<close> of a whole record from the FIFO returns: the record, fewer bytes, or an error.\<close>

datatype fifo_read = Record utmp | Short nat | ReadError

fun receive_loop :: "(s32 \<Rightarrow> u8 list) \<Rightarrow> fifo_read list \<Rightarrow> u8 list \<Rightarrow> (u8 list \<times> int) option" where
  "receive_loop ctime [] out = Some (out, 0)"
| "receive_loop ctime (Record u # rs) out = do {
     a \<leftarrow> print_one 50 ctime u;
     receive_loop ctime rs (out @ a) }"
| "receive_loop ctime (Short n # rs) out = Some (out, int n)"
| "receive_loop ctime (ReadError # rs) out = Some (out, - 1)"

text \<open>The result is the text printed, and the status when the program exits.\<close>

definition utmp_receive :: "bool \<Rightarrow> (s32 \<Rightarrow> u8 list) \<Rightarrow> bool \<Rightarrow> fifo_read list \<Rightarrow> (u8 list \<times> int option) option" where
  "utmp_receive incluye_cabecera ctime fifo_opens rs =
     (if \<not> fifo_opens then Some ([], Some 1)
      else do {
        (out, bytes) \<leftarrow> receive_loop ctime rs (if incluye_cabecera then print_header else []);
        Some (out, if bytes > 0 then Some 1 else if bytes < 0 then Some 1 else None) })"

section \<open>The command line\<close>

text \<open>What \<open>main\<close> decides: to exit (with a usage message), to receive, or to send the file of a name.\<close>

datatype action = Usage int | Receive bool | Send bool bool "u8 list"

record options =
  incluye_cabecera :: bool
  just_print :: bool
  receive :: bool

text \<open>The \<open>getopt\<close> loop, over the options \<open>getopt\<close> returns.\<close>

fun option_loop :: "char list \<Rightarrow> options \<Rightarrow> options outcome" where
  "option_loop [] opts = Ret opts"
| "option_loop (c # cs) opts =
     (if c = CHR ''H'' then option_loop cs (opts\<lparr>incluye_cabecera := True\<rparr>)
      else if c = CHR ''h'' then Exit 0
      else if c = CHR ''r'' then option_loop cs (opts\<lparr>receive := True\<rparr>)
      else if c = CHR ''s'' then option_loop cs (opts\<lparr>receive := False\<rparr>)
      else if c = CHR ''p'' then option_loop cs (opts\<lparr>just_print := True\<rparr>)
      else Exit 1)"

definition main_program :: "u8 list \<Rightarrow> char list \<Rightarrow> u8 list list \<Rightarrow> action" where
  "main_program utmp_path cs args =
     (case option_loop cs \<lparr>incluye_cabecera = False, just_print = False, receive = False\<rparr> of
        Exit status \<Rightarrow> Usage status
      | Ret opts \<Rightarrow>
          if receive opts then Receive (incluye_cabecera opts)
          else (case args of
                  [] \<Rightarrow> Send (incluye_cabecera opts) (just_print opts) utmp_path
                | [file] \<Rightarrow> Send (incluye_cabecera opts) (just_print opts) file
                | _ \<Rightarrow> Usage 1))"

section \<open>Formatting is defined on well-formed records\<close>

text \<open>
  The fields are character arrays that need not end in a NUL (utmp(5)); the program prints them
  with \<open>%s\<close>, so its output is defined only when they do.
\<close>

definition terminated :: "utmp \<Rightarrow> bool" where
  "terminated u \<longleftrightarrow> 0 \<in> set (ut_user u) \<and> 0 \<in> set (ut_line u) \<and> 0 \<in> set (ut_host u) \<and> 2 \<le> length (ut_id u)"

definition ctime_ok :: "(s32 \<Rightarrow> u8 list) \<Rightarrow> bool" where
  "ctime_ok ctime \<longleftrightarrow> (\<forall>t. ctime t \<noteq> [] \<and> length (ctime t) < 100)"

lemma utmptype2str_fits: "50 \<le> room \<Longrightarrow> \<exists>t. utmptype2str room ty = Some t \<and> utmptype2str 50 ty = Some t"
  by (simp add: utmptype2str_def strcpy_def bytes_of_def)

lemma exit_text_fits: "50 \<le> room \<Longrightarrow> \<exists>t. exit_text room u = Some t \<and> exit_text 50 u = Some t"
  using decimal_length [of "scast (e_termination u)"] decimal_length [of "scast (e_exit u)"]
  by (simp add: exit_text_def strcpy_def bytes_of_def)

lemma cstring_terminated: "0 \<in> set b \<Longrightarrow> \<exists>t. cstring b = Some t"
  by (simp add: cstring_def strlen_Some)

lemma print_one_fits:
  assumes "terminated u" and "ctime_ok ctime" and "50 \<le> room"
  shows "\<exists>t. print_one room ctime u = Some t \<and> print_one 50 ctime u = Some t"
proof -
  obtain ty where ty: "utmptype2str room (ut_type u) = Some ty" "utmptype2str 50 (ut_type u) = Some ty"
    using utmptype2str_fits [OF assms(3)] by blast
  obtain ex where ex: "exit_text room u = Some ex" "exit_text 50 u = Some ex"
    using exit_text_fits [OF assms(3)] by blast
  have "\<exists>ti. string_tiempo ctime u = Some ti"
    using assms(2) by (simp add: string_tiempo_def strcpy_def ctime_ok_def)
  moreover have "\<exists>t. print_entry a (ut_user u) (ut_line u) ti (ut_id u) (ut_host u) ex = Some t" for a ti
  proof -
    obtain us li ho where "cstring (ut_user u) = Some us" "cstring (ut_line u) = Some li" "cstring (ut_host u) = Some ho"
      using assms(1) cstring_terminated unfolding terminated_def by metis
    then show ?thesis using assms(1) by (auto simp: terminated_def print_entry_def read_at_def)
  qed
  ultimately show ?thesis using ty ex by (auto simp: print_one_def)
qed

lemma print_records_fits:
  "\<forall>u \<in> set us. terminated u \<Longrightarrow> ctime_ok ctime \<Longrightarrow>
   \<exists>t. print_records 100 ctime us = Some t \<and> receive_loop ctime (map Record us) out = Some (out @ t, 0)"
proof (induction us arbitrary: out)
  case (Cons u us)
  then obtain a where a: "print_one 100 ctime u = Some a" "print_one 50 ctime u = Some a"
    using print_one_fits [of u ctime 100] by auto
  from Cons.IH [of "out @ a"] Cons.prems obtain t where "print_records 100 ctime us = Some t"
    "receive_loop ctime (map Record us) (out @ a) = Some ((out @ a) @ t, 0)" by auto
  with a show ?case by simp
qed simp

lemma send_loop_all: "send_loop (\<lambda>_. int SIZEOF_UTMP) i us = Ret us"
  by (induction us arbitrary: i) (auto simp: SIZEOF_UTMP_def)

text \<open>
  C19 (utmp_remote_print_is_local): when the records of a file have terminated strings, sending them
  through a FIFO that takes and delivers whole records makes the receiving instance print exactly
  the text that the program prints locally with \<open>-p\<close>, and nothing is printed by the sender.
\<close>

theorem utmp_remote_print_is_local:
  assumes "ctime_ok ctime" and "dirs fichero = NotDirectory" and "read_utmp (files fichero) = Ret us"
    and "\<forall>u \<in> set us. terminated u"
  shows "\<exists>text. utmp_send hdr True ctime dirs files opn rs fichero = Some (Ret (text, []))
     \<and> utmp_send hdr False ctime dirs files True (\<lambda>_. int SIZEOF_UTMP) fichero = Some (Ret ([], us))
     \<and> utmp_receive hdr ctime True (map Record us) = Some (text, None)"
proof -
  from print_records_fits [OF assms(4,1), of "if hdr then print_header else []"] obtain t where
    "print_records 100 ctime us = Some t"
    "receive_loop ctime (map Record us) (if hdr then print_header else []) = Some ((if hdr then print_header else []) @ t, 0)"
    by blast
  then show ?thesis
    using assms(2,3)
    by (simp add: utmp_send_def isdir_path_def print_utmp_entries_def utmp_receive_def send_loop_all del: append_assoc)
qed

definition sample_record :: utmp where
  "sample_record = \<lparr>ut_type = 7, ut_user = [114, 0], ut_line = [116, 0], ut_time = 0, ut_id = [49, 0],
     ut_host = [0], e_termination = 0, e_exit = 0\<rparr>"

theorem utmp_remote_print_is_local_witness:
  "\<exists>text. utmp_receive True (\<lambda>_. [88, 10]) True [Record sample_record] = Some (text, None)
     \<and> utmp_send True True (\<lambda>_. [88, 10]) (\<lambda>_. NotDirectory)
         (\<lambda>_. \<lparr>opens = True, stat_ok = True, st_size = 384, memory = True, content = [sample_record]\<rparr>) True (\<lambda>_. 0) [117]
         = Some (Ret (text, []))"
proof -
  let ?f = "\<lambda>_ :: u8 list. \<lparr>opens = True, stat_ok = True, st_size = 384, memory = True, content = [sample_record]\<rparr>"
  have "ctime_ok (\<lambda>_. [88, 10])" "read_utmp (?f [117]) = Ret [sample_record]"
    "\<forall>u \<in> set [sample_record]. terminated u"
    by (simp_all add: ctime_ok_def read_utmp_def SIZEOF_UTMP_def sample_record_def terminated_def)
  from utmp_remote_print_is_local [where dirs = "\<lambda>_. NotDirectory" and hdr = True and opn = True and rs = "\<lambda>_. 0"
      and files = ?f and fichero = "[117]", OF this(1) _ this(2,3)]
  show ?thesis by auto
qed

text \<open>A record whose user name fills its array is printed past the end of the array.\<close>

lemma unterminated_user_is_overrun:
  "0 \<notin> set (ut_user u) \<Longrightarrow> print_one room ctime u = None"
proof -
  assume a: "0 \<notin> set (ut_user u)"
  have "strlen b = None" if "0 \<notin> set b" for b using that by (induction b) auto
  with a have "cstring (ut_user u) = None" by (simp add: cstring_def)
  then show "print_one room ctime u = None" by (simp add: print_one_def print_entry_def bind_eq_None_conv)
qed

end
