(* ===== verification/SchedBase.thy ===== *)
theory SchedBase
  imports Prelude
begin

text \<open>
  The data of opcional2/kernel/sched.c that its components share: the scheduling parameters of a
  task, the runqueue of a processor, the weights of the nice levels and the priorities.  The model
  is that of a 32-bit SMP kernel, the architecture the repository builds for: \<open>unsigned long\<close> has 32
  bits.

  What include/linux/sched.h gives (the limits of the priorities, the policies, the task states) is
  not in the repository, so it is the parameter \<open>K\<close>; \<open>consts_ok\<close> states what is documented of it.
\<close>

type_synonym ul = "32 word"

section \<open>Constants of include/linux/sched.h\<close>

record kconsts =
  MAX_RT_PRIO :: int
  MAX_USER_RT_PRIO :: int
  MAX_PRIO :: int
  rt_prio :: "int \<Rightarrow> bool"
  SCHED_NORMAL :: u32
  SCHED_FIFO :: u32
  SCHED_RR :: u32
  SCHED_BATCH :: u32
  SCHED_IDLE :: u32
  SCHED_RESET_ON_FORK :: u32
  TASK_RUNNING :: u32
  TASK_NORMAL :: u32
  TASK_ALL :: u32
  TASK_WAKING :: u32
  PF_WQ_WORKER :: u32
  PF_THREAD_BOUND :: u32
  ENQUEUE_WAKEUP :: u32
  ENQUEUE_WAKING :: u32
  ENQUEUE_HEAD :: u32
  DEQUEUE_SLEEP :: u32
  WF_FORK :: u32
  SD_BALANCE_WAKE :: u32
  SD_BALANCE_FORK :: u32
  contributes_state :: "u32 \<Rightarrow> u32 \<Rightarrow> bool"

definition policies :: "kconsts \<Rightarrow> u32 list" where
  "policies K = [SCHED_NORMAL K, SCHED_FIFO K, SCHED_RR K, SCHED_BATCH K, SCHED_IDLE K]"

text \<open>
  The documented facts: 40 nice levels above the real-time priorities, distinct non-negative
  policies that do not use the bit of \<open>SCHED_RESET_ON_FORK\<close>, and a waking or running task that no
  wake-up mask selects and that does not count for the load.
\<close>

definition consts_ok :: "kconsts \<Rightarrow> bool" where
  "consts_ok K \<longleftrightarrow>
     0 < MAX_USER_RT_PRIO K \<and> MAX_USER_RT_PRIO K \<le> MAX_RT_PRIO K \<and> MAX_RT_PRIO K < 1000 \<and>
     MAX_PRIO K = MAX_RT_PRIO K + 40 \<and> (\<forall>x. rt_prio K x \<longleftrightarrow> x < MAX_RT_PRIO K) \<and>
     distinct (policies K) \<and>
     (\<forall>x \<in> set (policies K). 0 \<le> sint x \<and> x AND SCHED_RESET_ON_FORK K = 0) \<and>
     TASK_RUNNING K = 0 \<and> TASK_WAKING K \<noteq> 0 \<and>
     TASK_WAKING K AND TASK_NORMAL K = 0 \<and> TASK_WAKING K AND TASK_ALL K = 0 \<and>
     (\<forall>fl. \<not> contributes_state K (TASK_RUNNING K) fl \<and> \<not> contributes_state K (TASK_WAKING K) fl)"

text \<open>The values of the Linux release the file comes from, for the evaluation of examples.\<close>

definition linux_consts :: kconsts where
  "linux_consts = \<lparr>MAX_RT_PRIO = 100, MAX_USER_RT_PRIO = 100, MAX_PRIO = 140,
     rt_prio = (\<lambda>x. x < 100), SCHED_NORMAL = 0, SCHED_FIFO = 1, SCHED_RR = 2, SCHED_BATCH = 3,
     SCHED_IDLE = 5, SCHED_RESET_ON_FORK = 1073741824, TASK_RUNNING = 0, TASK_NORMAL = 3,
     TASK_ALL = 15, TASK_WAKING = 256, PF_WQ_WORKER = 32,
     PF_THREAD_BOUND = 67108864, ENQUEUE_WAKEUP = 1, ENQUEUE_WAKING = 2, ENQUEUE_HEAD = 4,
     DEQUEUE_SLEEP = 1, WF_FORK = 2, SD_BALANCE_WAKE = 16, SD_BALANCE_FORK = 8,
     contributes_state = (\<lambda>st fl. st AND 2 \<noteq> 0 \<and> fl AND 16384 = 0)\<rparr>"

lemma linux_consts_ok: "consts_ok linux_consts"
  by (simp add: consts_ok_def linux_consts_def policies_def)

section \<open>Tasks and runqueues\<close>

text \<open>The scheduling classes the file names.\<close>

datatype sched_class = stop_sched_class | rt_sched_class | fair_sched_class | idle_sched_class

text \<open>
  The fields of \<open>struct task_struct\<close> the modelled code reads or writes; \<open>se_weight\<close> and
  \<open>se_inv_weight\<close> are \<open>se.load\<close>, \<open>on_rq\<close> is \<open>se.on_rq\<close>, \<open>task_cpu\<close> the processor of the thread.
\<close>

record task =
  state :: u32
  flags :: u32
  static_prio :: int
  normal_prio :: int
  prio :: int
  rt_priority :: u32
  policy :: u32
  reset_on_fork :: bool
  mm :: bool
  sclass :: sched_class
  se_weight :: ul
  se_inv_weight :: u32
  on_rq :: bool
  task_cpu :: nat
  cpus_allowed :: "nat list"
  nr_migrations :: ul
  nvcsw :: ul
  nivcsw :: ul
  uid :: u32
  euid :: u32
  user_ns :: nat

text \<open>A runqueue; tasks are named by numbers, \<open>stop\<close> is \<open>NULL\<close> until the stop thread exists.\<close>

record rq =
  nr_running :: ul
  nr_uninterruptible :: ul
  curr :: nat
  idle :: nat
  stop :: "nat option"
  skip_clock_update :: bool
  nr_switches :: u64
  clock :: u64
  idle_stamp :: u64
  avg_idle :: u64

text \<open>
  The whole system: the threads, the processors, \<open>need_resched\<close> for the flag \<open>TIF_NEED_RESCHED\<close> of
  each thread, and \<open>ext\<close> for what the code outside the file keeps (the queues of the scheduling
  classes of sched_fair.c and sched_rt.c, the clocks, the workqueues), which is opaque here.
\<close>

record 'c sys =
  threads :: "nat list"
  cpus :: "nat list"
  online :: "nat \<Rightarrow> bool"
  active :: "nat list"
  tasks :: "nat \<Rightarrow> task"
  rqs :: "nat \<Rightarrow> rq"
  need_resched :: "nat \<Rightarrow> bool"
  ext :: 'c

definition set_task :: "nat \<Rightarrow> (task \<Rightarrow> task) \<Rightarrow> 'c sys \<Rightarrow> 'c sys" where
  "set_task p f s = s\<lparr>tasks := (tasks s)(p := f (tasks s p))\<rparr>"

definition set_rq :: "nat \<Rightarrow> (rq \<Rightarrow> rq) \<Rightarrow> 'c sys \<Rightarrow> 'c sys" where
  "set_rq c f s = s\<lparr>rqs := (rqs s)(c := f (rqs s c))\<rparr>"

text \<open>
  A method of a scheduling class sees the whole system; it changes what \<open>ext\<close> keeps and
  may ask for a reschedule.  It does not write the fields of tasks and runqueues modelled here, as
  the methods are documented to leave \<open>nr_running\<close>, the policy and the priorities to the core.
\<close>

type_synonym 'c callback = "'c sys \<Rightarrow> 'c \<times> (nat \<Rightarrow> bool)"

definition call :: "'c callback \<Rightarrow> 'c sys \<Rightarrow> 'c sys" where
  "call f s = s\<lparr>ext := fst (f s), need_resched := snd (f s)\<rparr>"

definition task_contributes_to_load :: "kconsts \<Rightarrow> task \<Rightarrow> bool" where
  "task_contributes_to_load K p = contributes_state K (state p) (flags p)"

text \<open>The methods of the classes and the other functions of the kernel the modelled code calls.\<close>

record 'c hooks =
  enqueue_method :: "sched_class \<Rightarrow> nat \<Rightarrow> nat \<Rightarrow> u32 \<Rightarrow> 'c callback"
  dequeue_method :: "sched_class \<Rightarrow> nat \<Rightarrow> nat \<Rightarrow> u32 \<Rightarrow> 'c callback"
  put_prev_method :: "sched_class \<Rightarrow> nat \<Rightarrow> nat \<Rightarrow> 'c callback"
  set_curr_method :: "sched_class \<Rightarrow> nat \<Rightarrow> 'c callback"
  check_preempt_method :: "sched_class \<Rightarrow> nat \<Rightarrow> nat \<Rightarrow> u32 \<Rightarrow> 'c callback"
  switched_from_method :: "sched_class \<Rightarrow> (nat \<Rightarrow> nat \<Rightarrow> 'c callback) option"
  switched_to_method :: "sched_class \<Rightarrow> nat \<Rightarrow> nat \<Rightarrow> 'c callback"
  prio_changed_method :: "sched_class \<Rightarrow> nat \<Rightarrow> nat \<Rightarrow> int \<Rightarrow> 'c callback"
  task_waking_method :: "sched_class \<Rightarrow> (nat \<Rightarrow> nat \<Rightarrow> 'c callback) option"
  task_woken_method :: "sched_class \<Rightarrow> (nat \<Rightarrow> nat \<Rightarrow> 'c callback) option"
  task_fork_method :: "sched_class \<Rightarrow> (nat \<Rightarrow> 'c callback) option"
  set_cpus_allowed_method :: "sched_class \<Rightarrow> (nat \<Rightarrow> nat list \<Rightarrow> 'c callback) option"
  yield_method :: "sched_class \<Rightarrow> nat \<Rightarrow> 'c callback"
  select_method :: "sched_class \<Rightarrow> nat \<Rightarrow> nat \<Rightarrow> u32 \<Rightarrow> u32 \<Rightarrow> 'c sys \<Rightarrow> nat"
  pick_next_method :: "sched_class \<Rightarrow> nat \<Rightarrow> 'c sys \<Rightarrow> nat option \<times> 'c \<times> (nat \<Rightarrow> bool)"
  class_order :: "sched_class list"
  cfs_nr_running :: "'c \<Rightarrow> nat \<Rightarrow> ul"
  sched_clock_cpu :: "'c \<Rightarrow> nat \<Rightarrow> u64"
  migration_cost :: u64
  cpumask_of_node :: "nat \<Rightarrow> nat list"
  cpumask_any_and :: "nat list \<Rightarrow> nat list \<Rightarrow> nat option"
  cpuset_fallback :: "'c \<Rightarrow> nat \<Rightarrow> nat list \<times> nat"
  signal_pending_state :: "u32 \<Rightarrow> nat \<Rightarrow> 'c \<Rightarrow> bool"
  wq_worker_waking_up :: "nat \<Rightarrow> nat \<Rightarrow> 'c callback"
  wq_worker_sleeping :: "nat \<Rightarrow> nat \<Rightarrow> 'c sys \<Rightarrow> nat option \<times> 'c \<times> (nat \<Rightarrow> bool)"
  pre_balance :: "nat \<Rightarrow> 'c sys \<Rightarrow> 'c sys"
  idle_balance :: "nat \<Rightarrow> 'c sys \<Rightarrow> 'c sys"
  post_balance :: "nat \<Rightarrow> 'c sys \<Rightarrow> 'c sys"

section \<open>Priorities\<close>

definition NICE_TO_PRIO :: "kconsts \<Rightarrow> int \<Rightarrow> int" where
  "NICE_TO_PRIO K nice = MAX_RT_PRIO K + nice + 20"

definition PRIO_TO_NICE :: "kconsts \<Rightarrow> int \<Rightarrow> int" where
  "PRIO_TO_NICE K x = x - MAX_RT_PRIO K - 20"

definition TASK_NICE :: "kconsts \<Rightarrow> task \<Rightarrow> int" where
  "TASK_NICE K p = PRIO_TO_NICE K (static_prio p)"

definition USER_PRIO :: "kconsts \<Rightarrow> int \<Rightarrow> int" where
  "USER_PRIO K p = p - MAX_RT_PRIO K"

definition rt_policy :: "kconsts \<Rightarrow> u32 \<Rightarrow> bool" where
  "rt_policy K x \<longleftrightarrow> x = SCHED_FIFO K \<or> x = SCHED_RR K"

definition task_has_rt_policy :: "kconsts \<Rightarrow> task \<Rightarrow> bool" where
  "task_has_rt_policy K p = rt_policy K (policy p)"

definition normal_static_prio :: "task \<Rightarrow> int" where
  "normal_static_prio p = static_prio p"

text \<open>\<open>MAX_RT_PRIO-1 - p->rt_priority\<close> is computed on \<open>unsigned int\<close> and stored in an \<open>int\<close>.\<close>

definition normal_priority :: "kconsts \<Rightarrow> task \<Rightarrow> int" where
  "normal_priority K p =
     (if task_has_rt_policy K p then sint (word_of_int (MAX_RT_PRIO K - 1) - rt_priority p)
      else normal_static_prio p)"

definition effective_prio :: "kconsts \<Rightarrow> task \<Rightarrow> task \<times> int" where
  "effective_prio K p =
     (let p = p\<lparr>normal_prio := normal_priority K p\<rparr>
      in (p, if \<not> rt_prio K (prio p) then normal_prio p else prio p))"

definition task_prio :: "kconsts \<Rightarrow> task \<Rightarrow> int" where
  "task_prio K p = prio p - MAX_RT_PRIO K"

definition task_nice :: "kconsts \<Rightarrow> task \<Rightarrow> int" where
  "task_nice K p = TASK_NICE K p"

definition class_of_prio :: "kconsts \<Rightarrow> int \<Rightarrow> sched_class" where
  "class_of_prio K x = (if rt_prio K x then rt_sched_class else fair_sched_class)"

section \<open>Load weights\<close>

definition WEIGHT_IDLEPRIO :: ul where "WEIGHT_IDLEPRIO = 3"
definition WMULT_IDLEPRIO :: u32 where "WMULT_IDLEPRIO = 1431655765"

definition prio_to_weight :: "ul list" where
  "prio_to_weight =
    [88761, 71755, 56483, 46273, 36291,
     29154, 23254, 18705, 14949, 11916,
      9548,  7620,  6100,  4904,  3906,
      3121,  2501,  1991,  1586,  1277,
      1024,   820,   655,   526,   423,
       335,   272,   215,   172,   137,
       110,    87,    70,    56,    45,
        36,    29,    23,    18,    15]"

definition prio_to_wmult :: "u32 list" where
  "prio_to_wmult =
    [    48388,     59856,     76040,     92818,    118348,
        147320,    184698,    229616,    287308,    360437,
        449829,    563644,    704093,    875809,   1099582,
       1376151,   1717300,   2157191,   2708050,   3363326,
       4194304,   5237765,   6557202,   8165337,  10153587,
      12820798,  15790321,  19976592,  24970740,  31350126,
      39045157,  49367440,  61356676,  76695844,  95443717,
     119304647, 148102320, 186737708, 238609294, 286331153]"

text \<open>\<^const>\<open>None\<close> is an access outside the tables.\<close>

definition set_load_weight :: "kconsts \<Rightarrow> task \<Rightarrow> task option" where
  "set_load_weight K p =
     (if policy p = SCHED_IDLE K
      then Some (p\<lparr>se_weight := WEIGHT_IDLEPRIO, se_inv_weight := WMULT_IDLEPRIO\<rparr>)
      else do {
        w \<leftarrow> read_at prio_to_weight (static_prio p - MAX_RT_PRIO K);
        m \<leftarrow> read_at prio_to_wmult (static_prio p - MAX_RT_PRIO K);
        Some (p\<lparr>se_weight := w, se_inv_weight := m\<rparr>) })"

end
