(* ===== verification/SchedQueue.thy ===== *)
theory SchedQueue
  imports SchedBase
begin

text \<open>
  The runqueues of opcional2/kernel/sched.c: moving tasks on and off a runqueue, waking a task up,
  starting a new one, and \<open>schedule\<close>.  A processor is named by its number \<open>c\<close>, which stands for
  \<open>cpu_rq(c)\<close>.  A function is split where it releases the lock of the runqueue; within a piece it
  runs alone.  Statistics, tracing and the clocks of interrupt accounting are left out.
\<close>

section \<open>On and off a runqueue\<close>

definition update_rq_clock :: "'c hooks \<Rightarrow> nat \<Rightarrow> 'c sys \<Rightarrow> 'c sys" where
  "update_rq_clock H c s =
     (if skip_clock_update (rqs s c) then s
      else set_rq c (\<lambda>r. r\<lparr>clock := clock r + (sched_clock_cpu H (ext s) c - clock r)\<rparr>) s)"

definition inc_nr_running :: "rq \<Rightarrow> rq" where
  "inc_nr_running r = r\<lparr>nr_running := nr_running r + 1\<rparr>"

definition dec_nr_running :: "rq \<Rightarrow> rq" where
  "dec_nr_running r = r\<lparr>nr_running := nr_running r - 1\<rparr>"

definition enqueue_task :: "'c hooks \<Rightarrow> nat \<Rightarrow> nat \<Rightarrow> u32 \<Rightarrow> 'c sys \<Rightarrow> 'c sys" where
  "enqueue_task H c p fl s =
     (let s = update_rq_clock H c s;
          s = call (enqueue_method H (sclass (tasks s p)) c p fl) s
      in set_task p (\<lambda>t. t\<lparr>on_rq := True\<rparr>) s)"

definition dequeue_task :: "'c hooks \<Rightarrow> nat \<Rightarrow> nat \<Rightarrow> u32 \<Rightarrow> 'c sys \<Rightarrow> 'c sys" where
  "dequeue_task H c p fl s =
     (let s = update_rq_clock H c s;
          s = call (dequeue_method H (sclass (tasks s p)) c p fl) s
      in set_task p (\<lambda>t. t\<lparr>on_rq := False\<rparr>) s)"

definition activate_task :: "kconsts \<Rightarrow> 'c hooks \<Rightarrow> nat \<Rightarrow> nat \<Rightarrow> u32 \<Rightarrow> 'c sys \<Rightarrow> 'c sys" where
  "activate_task K H c p fl s =
     (let s = (if task_contributes_to_load K (tasks s p)
               then set_rq c (\<lambda>r. r\<lparr>nr_uninterruptible := nr_uninterruptible r - 1\<rparr>) s else s)
      in set_rq c inc_nr_running (enqueue_task H c p fl s))"

definition deactivate_task :: "kconsts \<Rightarrow> 'c hooks \<Rightarrow> nat \<Rightarrow> nat \<Rightarrow> u32 \<Rightarrow> 'c sys \<Rightarrow> 'c sys" where
  "deactivate_task K H c p fl s =
     (let s = (if task_contributes_to_load K (tasks s p)
               then set_rq c (\<lambda>r. r\<lparr>nr_uninterruptible := nr_uninterruptible r + 1\<rparr>) s else s)
      in set_rq c dec_nr_running (dequeue_task H c p fl s))"

text \<open>The interrupt that \<open>resched_task\<close> may send to another processor has no effect on the state.\<close>

definition resched_task :: "nat \<Rightarrow> 'c sys \<Rightarrow> 'c sys" where
  "resched_task p s = (if need_resched s p then s else s\<lparr>need_resched := (need_resched s)(p := True)\<rparr>)"

text \<open>\<open>for_each_class\<close>: whether the class of \<open>p\<close> comes strictly before that of the current task.\<close>

fun higher_class :: "sched_class list \<Rightarrow> sched_class \<Rightarrow> sched_class \<Rightarrow> bool" where
  "higher_class [] k cur = False"
| "higher_class (c # cs) k cur = (if c = cur then False else if c = k then True else higher_class cs k cur)"

definition check_preempt_curr :: "'c hooks \<Rightarrow> nat \<Rightarrow> nat \<Rightarrow> u32 \<Rightarrow> 'c sys \<Rightarrow> 'c sys" where
  "check_preempt_curr H c p fl s =
     (let cur = curr (rqs s c);
          s = (if sclass (tasks s p) = sclass (tasks s cur)
               then call (check_preempt_method H (sclass (tasks s cur)) c p fl) s
               else if higher_class (class_order H) (sclass (tasks s p)) (sclass (tasks s cur))
               then resched_task cur s else s)
      in if on_rq (tasks s cur) \<and> need_resched s cur
         then set_rq c (\<lambda>r. r\<lparr>skip_clock_update := True\<rparr>) s else s)"

definition check_class_changed :: "'c hooks \<Rightarrow> nat \<Rightarrow> nat \<Rightarrow> sched_class \<Rightarrow> int \<Rightarrow> 'c sys \<Rightarrow> 'c sys" where
  "check_class_changed H c p prev_class oldprio s =
     (if prev_class \<noteq> sclass (tasks s p)
      then let s = (case switched_from_method H prev_class of Some f \<Rightarrow> call (f c p) s | None \<Rightarrow> s)
           in call (switched_to_method H (sclass (tasks s p)) c p) s
      else if oldprio \<noteq> prio (tasks s p)
      then call (prio_changed_method H (sclass (tasks s p)) c p oldprio) s else s)"

definition task_current :: "'c sys \<Rightarrow> nat \<Rightarrow> nat \<Rightarrow> bool" where
  "task_current s c p \<longleftrightarrow> curr (rqs s c) = p"

text \<open>On the modelled architecture the lock is held over the switch.\<close>

definition task_running :: "'c sys \<Rightarrow> nat \<Rightarrow> nat \<Rightarrow> bool" where
  "task_running s c p = task_current s c p"

section \<open>Choosing a processor\<close>

text \<open>The result is the processor, and the task's \<open>cpus_allowed\<close>, which the last resort may widen.\<close>

definition select_fallback_rq :: "'c hooks \<Rightarrow> 'c sys \<Rightarrow> nat \<Rightarrow> nat \<Rightarrow> nat \<times> nat list" where
  "select_fallback_rq H s c p =
     (let allowed = cpus_allowed (tasks s p)
      in case find (\<lambda>d. d \<in> set (active s) \<and> d \<in> set allowed) (cpumask_of_node H c) of
           Some d \<Rightarrow> (d, allowed)
         | None \<Rightarrow> (case cpumask_any_and H allowed (active s) of
             Some d \<Rightarrow> (d, allowed)
           | None \<Rightarrow> (let (msk, d) = cpuset_fallback H (ext s) p in (d, msk))))"

definition select_task_rq :: "'c hooks \<Rightarrow> 'c sys \<Rightarrow> nat \<Rightarrow> nat \<Rightarrow> u32 \<Rightarrow> u32 \<Rightarrow> nat \<times> nat list" where
  "select_task_rq H s c p sd wfl =
     (let d = select_method H (sclass (tasks s p)) c p sd wfl s
      in if d \<notin> set (cpus_allowed (tasks s p)) \<or> \<not> online s d
         then select_fallback_rq H s (task_cpu (tasks s p)) p
         else (d, cpus_allowed (tasks s p)))"

definition set_task_cpu :: "nat \<Rightarrow> nat \<Rightarrow> 'c sys \<Rightarrow> 'c sys" where
  "set_task_cpu p c s =
     set_task p (\<lambda>t. (if task_cpu t \<noteq> c then t\<lparr>nr_migrations := nr_migrations t + 1\<rparr> else t)\<lparr>task_cpu := c\<rparr>) s"

section \<open>Waking a task up\<close>

definition update_avg :: "u64 \<Rightarrow> u64 \<Rightarrow> u64" where
  "update_avg avg sample = avg + signed_drop_bit 3 (sample - avg)"

text \<open>The runqueue's estimate of how long it stays idle, ended by a wake-up.\<close>

definition end_idle :: "u64 \<Rightarrow> rq \<Rightarrow> rq" where
  "end_idle cost r =
     (if idle_stamp r \<noteq> 0
      then let delta = clock r - idle_stamp r; m = 2 * cost
           in r\<lparr>avg_idle := (if m < delta then m else update_avg (avg_idle r) delta), idle_stamp := 0\<rparr>
      else r)"

definition ttwu_activate :: "kconsts \<Rightarrow> 'c hooks \<Rightarrow> nat \<Rightarrow> nat \<Rightarrow> u32 \<Rightarrow> 'c sys \<Rightarrow> 'c sys" where
  "ttwu_activate K H c p en_flags s = activate_task K H c p en_flags s"

definition ttwu_post_activation ::
  "kconsts \<Rightarrow> 'c hooks \<Rightarrow> nat \<Rightarrow> nat \<Rightarrow> u32 \<Rightarrow> bool \<Rightarrow> 'c sys \<Rightarrow> 'c sys" where
  "ttwu_post_activation K H c p wake_flags success s =
     (let s = check_preempt_curr H c p wake_flags s;
          s = set_task p (\<lambda>t. t\<lparr>state := TASK_RUNNING K\<rparr>) s;
          s = (case task_woken_method H (sclass (tasks s p)) of Some f \<Rightarrow> call (f c p) s | None \<Rightarrow> s);
          s = set_rq c (end_idle (migration_cost H)) s
      in if flags (tasks s p) AND PF_WQ_WORKER K \<noteq> 0 \<and> success
         then call (wq_worker_waking_up H p c) s else s)"

text \<open>
  \<open>try_to_wake_up\<close> up to the point where it releases the lock of the old runqueue: it has returned,
  or the task is waking and goes on the runqueue of the processor chosen for it.
\<close>

datatype ttwu = Ttwu_return bool | Ttwu_requeue nat u32

text \<open>
  The task leaves the count of sleepers, on the runqueue of processor \<open>c\<close>, and waits for its new
  runqueue in the state \<open>TASK_WAKING\<close>.
\<close>

definition waking_sys :: "kconsts \<Rightarrow> nat \<Rightarrow> nat \<Rightarrow> 'c sys \<Rightarrow> 'c sys" where
  "waking_sys K c p s =
     set_task p (\<lambda>t. t\<lparr>state := TASK_WAKING K\<rparr>)
       (if task_contributes_to_load K (tasks s p)
        then set_rq c (\<lambda>r. r\<lparr>nr_uninterruptible := nr_uninterruptible r - 1\<rparr>) s else s)"

text \<open>The choice of \<open>select_task_rq\<close> takes effect: its mask, and the processor if it is another.\<close>

definition place :: "nat \<Rightarrow> nat list \<Rightarrow> nat \<Rightarrow> 'c sys \<Rightarrow> 'c sys" where
  "place p m d s =
     (let s = set_task p (\<lambda>t. t\<lparr>cpus_allowed := m\<rparr>) s
      in if d \<noteq> task_cpu (tasks s p) then set_task_cpu p d s else s)"

definition try_to_wake_up_begin ::
  "kconsts \<Rightarrow> 'c hooks \<Rightarrow> nat \<Rightarrow> nat \<Rightarrow> u32 \<Rightarrow> u32 \<Rightarrow> 'c sys \<Rightarrow> 'c sys \<times> ttwu" where
  "try_to_wake_up_begin K H this_cpu p msk wake_flags s =
     (let c = task_cpu (tasks s p) in
      if state (tasks s p) AND msk = 0 then (s, Ttwu_return False)
      else if on_rq (tasks s p) then (ttwu_post_activation K H c p wake_flags False s, Ttwu_return False)
      else if task_running s c p
      then (ttwu_post_activation K H c p wake_flags True (ttwu_activate K H c p (ENQUEUE_WAKEUP K) s),
            Ttwu_return True)
      else
        let s = waking_sys K (if online s c then c else this_cpu) p s;
            method = task_waking_method H (sclass (tasks s p));
            s = (case method of Some f \<Rightarrow> call (f c p) s | None \<Rightarrow> s);
            en_flags = (case method of Some f \<Rightarrow> ENQUEUE_WAKEUP K OR ENQUEUE_WAKING K
                        | None \<Rightarrow> ENQUEUE_WAKEUP K);
            (d, m) = select_task_rq H s c p (SD_BALANCE_WAKE K) wake_flags
        in (place p m d s, Ttwu_requeue d en_flags))"

text \<open>The rest, under the lock of the runqueue of processor \<open>c\<close>.\<close>

definition try_to_wake_up_end ::
  "kconsts \<Rightarrow> 'c hooks \<Rightarrow> nat \<Rightarrow> nat \<Rightarrow> u32 \<Rightarrow> u32 \<Rightarrow> 'c sys \<Rightarrow> 'c sys" where
  "try_to_wake_up_end K H p c en_flags wake_flags s =
     ttwu_post_activation K H c p wake_flags True (ttwu_activate K H c p en_flags s)"

text \<open>Without interference between the two parts; the result is 1 for a task woken up.\<close>

definition try_to_wake_up ::
  "kconsts \<Rightarrow> 'c hooks \<Rightarrow> nat \<Rightarrow> nat \<Rightarrow> u32 \<Rightarrow> u32 \<Rightarrow> 'c sys \<Rightarrow> 'c sys \<times> bool" where
  "try_to_wake_up K H this_cpu p msk wake_flags s =
     (case try_to_wake_up_begin K H this_cpu p msk wake_flags s of
        (s, Ttwu_return b) \<Rightarrow> (s, b)
      | (s, Ttwu_requeue c en_flags) \<Rightarrow> (try_to_wake_up_end K H p c en_flags wake_flags s, True))"

definition wake_up_process :: "kconsts \<Rightarrow> 'c hooks \<Rightarrow> nat \<Rightarrow> nat \<Rightarrow> 'c sys \<Rightarrow> 'c sys \<times> bool" where
  "wake_up_process K H this_cpu p s = try_to_wake_up K H this_cpu p (TASK_ALL K) 0 s"

definition wake_up_state :: "kconsts \<Rightarrow> 'c hooks \<Rightarrow> nat \<Rightarrow> nat \<Rightarrow> u32 \<Rightarrow> 'c sys \<Rightarrow> 'c sys \<times> bool" where
  "wake_up_state K H this_cpu p msk s = try_to_wake_up K H this_cpu p msk 0 s"

text \<open>On processor \<open>c\<close> with its lock held; \<^const>\<open>None\<close> is a \<open>BUG_ON\<close>.\<close>

definition try_to_wake_up_local :: "kconsts \<Rightarrow> 'c hooks \<Rightarrow> nat \<Rightarrow> nat \<Rightarrow> 'c sys \<Rightarrow> 'c sys option" where
  "try_to_wake_up_local K H c p s =
     (if task_cpu (tasks s p) \<noteq> c \<or> p = curr (rqs s c) then None
      else if state (tasks s p) AND TASK_NORMAL K = 0 then Some s
      else if \<not> on_rq (tasks s p)
      then Some (ttwu_post_activation K H c p 0 True (ttwu_activate K H c p (ENQUEUE_WAKEUP K) s))
      else Some (ttwu_post_activation K H c p 0 False s))"

section \<open>New tasks\<close>

text \<open>
  \<open>fork\<close> has copied the structure of the current task to the new one; \<open>sched_fork\<close> prepares the
  copy.  \<^const>\<open>None\<close> is an access outside the tables of weights.
\<close>

definition sched_fork_reset :: "kconsts \<Rightarrow> task \<Rightarrow> task option" where
  "sched_fork_reset K t =
     (if \<not> reset_on_fork t then Some t
      else
        let t = (if policy t = SCHED_FIFO K \<or> policy t = SCHED_RR K
                 then t\<lparr>policy := SCHED_NORMAL K, normal_prio := static_prio t\<rparr> else t)
        in do {
          t \<leftarrow> (if PRIO_TO_NICE K (static_prio t) < 0
               then set_load_weight K
                      (t\<lparr>static_prio := NICE_TO_PRIO K 0, normal_prio := NICE_TO_PRIO K 0\<rparr>)
               else Some t);
          Some (t\<lparr>reset_on_fork := False\<rparr>) })"

definition sched_fork :: "kconsts \<Rightarrow> 'c hooks \<Rightarrow> nat \<Rightarrow> nat \<Rightarrow> nat \<Rightarrow> 'c sys \<Rightarrow> 'c sys option" where
  "sched_fork K H c current p s = do {
     t \<leftarrow> sched_fork_reset K ((tasks s p)\<lparr>on_rq := False, nr_migrations := 0, state := TASK_RUNNING K\<rparr>);
     let t = t\<lparr>prio := normal_prio (tasks s current)\<rparr>;
     let t = (if \<not> rt_prio K (prio t) then t\<lparr>sclass := fair_sched_class\<rparr> else t);
     let s = set_task p (\<lambda>_. t) s;
     let s = (case task_fork_method H (sclass t) of Some f \<Rightarrow> call (f p) s | None \<Rightarrow> s);
     Some (set_task_cpu p c s) }"

definition wake_up_new_task_begin :: "kconsts \<Rightarrow> 'c hooks \<Rightarrow> nat \<Rightarrow> 'c sys \<Rightarrow> 'c sys" where
  "wake_up_new_task_begin K H p s =
     (let c = task_cpu (tasks s p);
          s = set_task p (\<lambda>t. t\<lparr>state := TASK_WAKING K\<rparr>) s;
          (d, msk) = select_task_rq H s c p (SD_BALANCE_FORK K) 0;
          s = set_task p (\<lambda>t. t\<lparr>cpus_allowed := msk\<rparr>) s;
          s = set_task_cpu p d s
      in set_task p (\<lambda>t. t\<lparr>state := TASK_RUNNING K\<rparr>) s)"

definition wake_up_new_task_end :: "kconsts \<Rightarrow> 'c hooks \<Rightarrow> nat \<Rightarrow> 'c sys \<Rightarrow> 'c sys" where
  "wake_up_new_task_end K H p s =
     (let c = task_cpu (tasks s p);
          s = activate_task K H c p 0 s;
          s = check_preempt_curr H c p (WF_FORK K) s
      in case task_woken_method H (sclass (tasks s p)) of Some f \<Rightarrow> call (f c p) s | None \<Rightarrow> s)"

section \<open>The main scheduler function\<close>

definition put_prev_task :: "'c hooks \<Rightarrow> nat \<Rightarrow> nat \<Rightarrow> 'c sys \<Rightarrow> 'c sys" where
  "put_prev_task H c prev s =
     (let s = (if on_rq (tasks s prev) then update_rq_clock H c s else s)
      in call (put_prev_method H (sclass (tasks s prev)) c prev) s)"

definition call_pick :: "'c hooks \<Rightarrow> sched_class \<Rightarrow> nat \<Rightarrow> 'c sys \<Rightarrow> 'c sys \<times> nat option" where
  "call_pick H k c s = (call (\<lambda>s. snd (pick_next_method H k c s)) s, fst (pick_next_method H k c s))"

text \<open>The loop over the classes; \<^const>\<open>None\<close> is the \<open>BUG()\<close> after it.\<close>

fun pick_in_order :: "'c hooks \<Rightarrow> sched_class list \<Rightarrow> nat \<Rightarrow> 'c sys \<Rightarrow> ('c sys \<times> nat) option" where
  "pick_in_order H [] c s = None"
| "pick_in_order H (k # ks) c s =
     (case call_pick H k c s of
        (s, Some p) \<Rightarrow> Some (s, p)
      | (s, None) \<Rightarrow> pick_in_order H ks c s)"

definition pick_next_task :: "'c hooks \<Rightarrow> nat \<Rightarrow> 'c sys \<Rightarrow> ('c sys \<times> nat) option" where
  "pick_next_task H c s =
     (if nr_running (rqs s c) = cfs_nr_running H (ext s) c
      then (case call_pick H fair_sched_class c s of
              (s, Some p) \<Rightarrow> Some (s, p)
            | (s, None) \<Rightarrow> pick_in_order H (class_order H) c s)
      else pick_in_order H (class_order H) c s)"

text \<open>
  \<open>schedule\<close> up to the place where it may release the lock for plugged block requests; the flag is
  \<open>preempt_count() & PREEMPT_ACTIVE\<close>.  The result says which counter of context switches counts.
\<close>

definition schedule_begin ::
  "kconsts \<Rightarrow> 'c hooks \<Rightarrow> nat \<Rightarrow> bool \<Rightarrow> 'c sys \<Rightarrow> ('c sys \<times> bool) option" where
  "schedule_begin K H c preempt_active s =
     (let prev = curr (rqs s c) in
      if state (tasks s prev) \<noteq> 0 \<and> \<not> preempt_active
      then
        if signal_pending_state H (state (tasks s prev)) prev (ext s)
        then Some (set_task prev (\<lambda>t. t\<lparr>state := TASK_RUNNING K\<rparr>) s, True)
        else do {
          s \<leftarrow> (if flags (tasks s prev) AND PF_WQ_WORKER K \<noteq> 0
               then let (w, e) = wq_worker_sleeping H prev c s; s = call (\<lambda>_. e) s
                    in (case w of Some p \<Rightarrow> try_to_wake_up_local K H c p s | None \<Rightarrow> Some s)
               else Some s);
          Some (deactivate_task K H c prev (DEQUEUE_SLEEP K) s, True) }
      else Some (s, False))"

text \<open>The switch itself, up to the change of the stack, which the model does not have.\<close>

definition switch_to :: "nat \<Rightarrow> nat \<Rightarrow> nat \<Rightarrow> bool \<Rightarrow> 'c sys \<Rightarrow> 'c sys" where
  "switch_to c prev nxt voluntary s =
     (let s = s\<lparr>need_resched := (need_resched s)(prev := False)\<rparr>;
          s = set_rq c (\<lambda>r. r\<lparr>skip_clock_update := False\<rparr>) s
      in if prev \<noteq> nxt
         then set_task prev (\<lambda>t. if voluntary then t\<lparr>nvcsw := nvcsw t + 1\<rparr>
                                else t\<lparr>nivcsw := nivcsw t + 1\<rparr>)
                (set_rq c (\<lambda>r. r\<lparr>nr_switches := nr_switches r + 1, curr := nxt\<rparr>) s)
         else s)"

definition schedule_end :: "kconsts \<Rightarrow> 'c hooks \<Rightarrow> nat \<Rightarrow> bool \<Rightarrow> 'c sys \<Rightarrow> 'c sys option" where
  "schedule_end K H c voluntary s =
     (let prev = curr (rqs s c);
          s = pre_balance H c s;
          s = (if nr_running (rqs s c) = 0 then idle_balance H c s else s);
          s = put_prev_task H c prev s
      in do {
        (s, nxt) \<leftarrow> pick_next_task H c s;
        Some (post_balance H c (switch_to c prev nxt voluntary s)) })"

section \<open>Statistics\<close>

definition nr_running_total :: "'c sys \<Rightarrow> ul" where
  "nr_running_total s = sum_list (map (\<lambda>c. nr_running (rqs s c)) (filter (online s) (cpus s)))"

definition nr_uninterruptible_total :: "'c sys \<Rightarrow> ul" where
  "nr_uninterruptible_total s =
     (let sm = sum_list (map (\<lambda>c. nr_uninterruptible (rqs s c)) (cpus s))
      in if sint sm < 0 then 0 else sm)"

definition nr_context_switches :: "'c sys \<Rightarrow> u64" where
  "nr_context_switches s = sum_list (map (\<lambda>c. nr_switches (rqs s c)) (cpus s))"

definition idle_cpu :: "'c sys \<Rightarrow> nat \<Rightarrow> bool" where
  "idle_cpu s c \<longleftrightarrow> curr (rqs s c) = idle (rqs s c)"

definition task_curr :: "'c sys \<Rightarrow> nat \<Rightarrow> bool" where
  "task_curr s p \<longleftrightarrow> curr (rqs s (task_cpu (tasks s p))) = p"

section \<open>Affinity and migration\<close>

definition task_is_waking :: "kconsts \<Rightarrow> task \<Rightarrow> bool" where
  "task_is_waking K t \<longleftrightarrow> state t = TASK_WAKING K"

definition migrate_task :: "'c sys \<Rightarrow> nat \<Rightarrow> nat \<Rightarrow> bool" where
  "migrate_task s c p \<longleftrightarrow> on_rq (tasks s p) \<or> task_running s c p"

text \<open>
  \<open>set_cpus_allowed_ptr\<close> once the task is no longer waking (\<^const>\<open>None\<close>: it must still wait).  The
  method of the class, where there is one, installs the mask like the code beside it does.  The
  result is the return value and, when the task has to be moved, the source and the destination for
  \<open>migration_cpu_stop\<close>, which runs later on the source.
\<close>

definition set_cpus_allowed_ptr ::
  "kconsts \<Rightarrow> 'c hooks \<Rightarrow> nat \<Rightarrow> nat \<Rightarrow> nat list \<Rightarrow> 'c sys \<Rightarrow> ('c sys \<times> int \<times> (nat \<times> nat) option) option" where
  "set_cpus_allowed_ptr K H current p new_mask s =
     (if task_is_waking K (tasks s p) then None
      else if set new_mask \<inter> set (active s) = {} then Some (s, - EINVAL, None)
      else if flags (tasks s p) AND PF_THREAD_BOUND K \<noteq> 0 \<and> p \<noteq> current \<and>
              set (cpus_allowed (tasks s p)) \<noteq> set new_mask then Some (s, - EINVAL, None)
      else
        let s = (case set_cpus_allowed_method H (sclass (tasks s p)) of
                   Some f \<Rightarrow> call (f p new_mask) s | None \<Rightarrow> s);
            s = set_task p (\<lambda>t. t\<lparr>cpus_allowed := new_mask\<rparr>) s;
            c = task_cpu (tasks s p)
        in if c \<in> set new_mask then Some (s, 0, None)
           else case cpumask_any_and H (active s) new_mask of
             Some d \<Rightarrow> Some (s, 0, if migrate_task s c p then Some (c, d) else None)
           | None \<Rightarrow> Some (s, 0, None))"

definition do_migrate_task ::
  "kconsts \<Rightarrow> 'c hooks \<Rightarrow> nat \<Rightarrow> nat \<Rightarrow> nat \<Rightarrow> 'c sys \<Rightarrow> 'c sys \<times> bool" where
  "do_migrate_task K H p src dest s =
     (if dest \<notin> set (active s) then (s, False)
      else if task_cpu (tasks s p) \<noteq> src then (s, True)
      else if dest \<notin> set (cpus_allowed (tasks s p)) then (s, False)
      else if on_rq (tasks s p)
      then (check_preempt_curr H dest p 0
             (activate_task K H dest p 0 (set_task_cpu p dest (deactivate_task K H src p 0 s))), True)
      else (s, True))"

text \<open>A processor goes down: its counter is added to that of another processor \<open>d\<close>.\<close>

definition migrate_nr_uninterruptible :: "nat \<Rightarrow> nat \<Rightarrow> 'c sys \<Rightarrow> 'c sys" where
  "migrate_nr_uninterruptible src d s =
     (let s = set_rq d (\<lambda>r. r\<lparr>nr_uninterruptible := nr_uninterruptible r + nr_uninterruptible (rqs s src)\<rparr>) s
      in set_rq src (\<lambda>r. r\<lparr>nr_uninterruptible := 0\<rparr>) s)"

end
