(* ===== verification/SchedPolicy.thy ===== *)
theory SchedPolicy
  imports SchedQueue
begin

text \<open>
  Priorities and policies of opcional2/kernel/sched.c: nice values, priority inheritance, and the
  system calls that set and read the scheduling policy.  What the code asks of the rest of the
  kernel (capabilities, resource limits, the security module, user memory) is the record \<open>E\<close>.
\<close>

record 'c kenv =
  current :: nat
  in_interrupt :: bool
  capable_sys_nice :: bool
  rlimit_nice :: "nat \<Rightarrow> ul"
  rlimit_rtprio :: "nat \<Rightarrow> ul"
  security_task_setnice :: "nat \<Rightarrow> int \<Rightarrow> int"
  security_task_setscheduler :: "nat \<Rightarrow> int"
  security_task_getscheduler :: "nat \<Rightarrow> int"
  rt_mutex_getprio :: "'c \<Rightarrow> nat \<Rightarrow> int \<Rightarrow> int"
  rt_mutex_adjust_pi :: "nat \<Rightarrow> 'c callback"
  sysctl_sched_rt_runtime :: int
  group_without_runtime :: "nat \<Rightarrow> bool"
  find_task_by_vpid :: "int \<Rightarrow> nat option"
  get_rr_interval :: "sched_class \<Rightarrow> nat \<Rightarrow> u32"

section \<open>Priority inheritance\<close>

text \<open>\<^const>\<open>None\<close> is a \<open>BUG_ON\<close> or an access outside a table, here and below.\<close>

definition rt_mutex_setprio :: "kconsts \<Rightarrow> 'c hooks \<Rightarrow> nat \<Rightarrow> int \<Rightarrow> 'c sys \<Rightarrow> 'c sys option" where
  "rt_mutex_setprio K H p x s =
     (if x < 0 \<or> MAX_PRIO K < x then None
      else
        let c = task_cpu (tasks s p);
            oldprio = prio (tasks s p);
            prev_class = sclass (tasks s p);
            queued = on_rq (tasks s p);
            running = task_current s c p;
            s = (if queued then dequeue_task H c p 0 s else s);
            s = (if running then call (put_prev_method H (sclass (tasks s p)) c p) s else s);
            s = set_task p (\<lambda>t. t\<lparr>sclass := class_of_prio K x, prio := x\<rparr>) s;
            s = (if running then call (set_curr_method H (sclass (tasks s p)) c) s else s);
            s = (if queued then enqueue_task H c p (if oldprio < x then ENQUEUE_HEAD K else 0) s else s)
        in Some (check_class_changed H c p prev_class oldprio s))"

section \<open>Nice values\<close>

definition set_user_nice :: "kconsts \<Rightarrow> 'c hooks \<Rightarrow> nat \<Rightarrow> int \<Rightarrow> 'c sys \<Rightarrow> 'c sys option" where
  "set_user_nice K H p nice s =
     (let c = task_cpu (tasks s p) in
      if TASK_NICE K (tasks s p) = nice \<or> nice < - 20 \<or> 19 < nice then Some s
      else if task_has_rt_policy K (tasks s p)
      then Some (set_task p (\<lambda>t. t\<lparr>static_prio := NICE_TO_PRIO K nice\<rparr>) s)
      else
        let queued = on_rq (tasks s p);
            s = (if queued then dequeue_task H c p 0 s else s)
        in do {
          t \<leftarrow> set_load_weight K ((tasks s p)\<lparr>static_prio := NICE_TO_PRIO K nice\<rparr>);
          let old_prio = prio t;
          let (t, new_prio) = effective_prio K t;
          let s = set_task p (\<lambda>_. t\<lparr>prio := new_prio\<rparr>) s;
          let delta = new_prio - old_prio;
          Some (if queued
                then let s = enqueue_task H c p 0 s
                     in if delta < 0 \<or> 0 < delta \<and> task_running s c p
                        then resched_task (curr (rqs s c)) s else s
                else s) })"

text \<open>The comparison with the limit is made on \<open>unsigned long\<close>.\<close>

definition can_nice :: "'c kenv \<Rightarrow> nat \<Rightarrow> int \<Rightarrow> bool" where
  "can_nice E p nice \<longleftrightarrow> word_of_int (20 - nice) \<le> rlimit_nice E p \<or> capable_sys_nice E"

definition clamp :: "int \<Rightarrow> int \<Rightarrow> int \<Rightarrow> int" where
  "clamp lo hi x = (let x = (if x < lo then lo else x) in if hi < x then hi else x)"

definition sys_nice :: "kconsts \<Rightarrow> 'c hooks \<Rightarrow> 'c kenv \<Rightarrow> int \<Rightarrow> 'c sys \<Rightarrow> ('c sys \<times> int) option" where
  "sys_nice K H E increment s =
     (let increment = clamp (- 40) 40 increment;
          nice = clamp (- 20) 19 (TASK_NICE K (tasks s (current E)) + increment)
      in if increment < 0 \<and> \<not> can_nice E (current E) nice then Some (s, - EPERM)
         else let retval = security_task_setnice E (current E) nice
              in if retval \<noteq> 0 then Some (s, retval)
                 else do { s \<leftarrow> set_user_nice K H (current E) nice s; Some (s, 0) })"

section \<open>Changing the policy\<close>

definition find_process_by_pid :: "'c kenv \<Rightarrow> int \<Rightarrow> nat option" where
  "find_process_by_pid E pid = (if pid \<noteq> 0 then find_task_by_vpid E pid else Some (current E))"

definition apply_scheduler ::
  "kconsts \<Rightarrow> 'c kenv \<Rightarrow> nat \<Rightarrow> u32 \<Rightarrow> int \<Rightarrow> 'c sys \<Rightarrow> 'c sys option" where
  "apply_scheduler K E p pol x s =
     (if on_rq (tasks s p) then None
      else do {
        let t = (tasks s p)\<lparr>policy := pol, rt_priority := word_of_int x\<rparr>;
        let t = t\<lparr>normal_prio := normal_priority K t\<rparr>;
        let t = t\<lparr>prio := rt_mutex_getprio E (ext s) p (normal_prio t)\<rparr>;
        let t = t\<lparr>sclass := class_of_prio K (prio t)\<rparr>;
        t \<leftarrow> set_load_weight K t;
        Some (set_task p (\<lambda>_. t) s) })"

definition check_same_owner :: "'c kenv \<Rightarrow> nat \<Rightarrow> 'c sys \<Rightarrow> bool" where
  "check_same_owner E p s =
     (let cred = tasks s (current E); pcred = tasks s p
      in if user_ns cred = user_ns pcred then euid cred = euid pcred \<or> euid cred = uid pcred else False)"

text \<open>
  \<open>__sched_setscheduler\<close> from \<open>recheck\<close> to the locks: an error, or the policy, the policy the task
  had (\<open>-1\<close> when the caller gave one) and the new flag.
\<close>

definition setscheduler_check ::
  "kconsts \<Rightarrow> 'c kenv \<Rightarrow> nat \<Rightarrow> s32 \<Rightarrow> int \<Rightarrow> bool \<Rightarrow> 'c sys \<Rightarrow> int + (u32 \<times> s32 \<times> bool)" where
  "setscheduler_check K E p arg x user s =
     (let t = tasks s p;
          (pol, oldpolicy, reset) =
            (if sint arg < 0 then (policy t, policy t, reset_on_fork t)
             else (arg AND NOT (SCHED_RESET_ON_FORK K), - 1, arg AND SCHED_RESET_ON_FORK K \<noteq> 0))
      in
      if 0 \<le> sint arg \<and> pol \<noteq> SCHED_FIFO K \<and> pol \<noteq> SCHED_RR K \<and> pol \<noteq> SCHED_NORMAL K \<and>
         pol \<noteq> SCHED_BATCH K \<and> pol \<noteq> SCHED_IDLE K then Inl (- EINVAL)
      else if x < 0 \<or> mm t \<and> MAX_USER_RT_PRIO K - 1 < x \<or> \<not> mm t \<and> MAX_RT_PRIO K - 1 < x
      then Inl (- EINVAL)
      else if rt_policy K pol \<noteq> (x \<noteq> 0) then Inl (- EINVAL)
      else if user \<and> \<not> capable_sys_nice E \<and>
        (rt_policy K pol \<and>
           (pol \<noteq> policy t \<and> rlimit_rtprio E p = 0 \<or>
            rt_priority t < word_of_int x \<and> rlimit_rtprio E p < word_of_int x) \<or>
         policy t = SCHED_IDLE K \<and> pol \<noteq> SCHED_IDLE K \<and> \<not> can_nice E p (TASK_NICE K t) \<or>
         \<not> check_same_owner E p s \<or>
         reset_on_fork t \<and> \<not> reset)
      then Inl (- EPERM)
      else if user \<and> security_task_setscheduler E p \<noteq> 0 then Inl (security_task_setscheduler E p)
      else Inr (pol, oldpolicy, reset))"

definition rt_bandwidth_enabled :: "int \<Rightarrow> bool" where
  "rt_bandwidth_enabled runtime \<longleftrightarrow> 0 \<le> runtime"

text \<open>The change itself, under the locks.\<close>

definition setscheduler_change ::
  "kconsts \<Rightarrow> 'c hooks \<Rightarrow> 'c kenv \<Rightarrow> nat \<Rightarrow> u32 \<Rightarrow> bool \<Rightarrow> int \<Rightarrow> 'c sys \<Rightarrow> 'c sys option" where
  "setscheduler_change K H E p pol reset x s =
     (let c = task_cpu (tasks s p);
          queued = on_rq (tasks s p);
          running = task_current s c p;
          s = (if queued then deactivate_task K H c p 0 s else s);
          s = (if running then call (put_prev_method H (sclass (tasks s p)) c p) s else s);
          s = set_task p (\<lambda>t. t\<lparr>reset_on_fork := reset\<rparr>) s;
          oldprio = prio (tasks s p);
          prev_class = sclass (tasks s p)
      in do {
        s \<leftarrow> apply_scheduler K E p pol x s;
        let s = (if running then call (set_curr_method H (sclass (tasks s p)) c) s else s);
        let s = (if queued then activate_task K H c p 0 s else s);
        let s = check_class_changed H c p prev_class oldprio s;
        Some (call (rt_mutex_adjust_pi E p) s) })"

text \<open>The part under the locks: it returns, or the policy has changed and the checks are repeated.\<close>

datatype commit = Commit_return int | Commit_recheck

definition setscheduler_commit ::
  "kconsts \<Rightarrow> 'c hooks \<Rightarrow> 'c kenv \<Rightarrow> nat \<Rightarrow> u32 \<Rightarrow> s32 \<Rightarrow> bool \<Rightarrow> int \<Rightarrow> bool \<Rightarrow> 'c sys \<Rightarrow>
   ('c sys \<times> commit) option" where
  "setscheduler_commit K H E p pol oldpolicy reset x user s =
     (if Some p = stop (rqs s (task_cpu (tasks s p))) then Some (s, Commit_return (- EINVAL))
      else if pol = policy (tasks s p) \<and> (\<not> rt_policy K pol \<or> word_of_int x = rt_priority (tasks s p))
      then Some (s, Commit_return 0)
      else if user \<and> rt_bandwidth_enabled (sysctl_sched_rt_runtime E) \<and> rt_policy K pol \<and>
        group_without_runtime E p then Some (s, Commit_return (- EPERM))
      else if oldpolicy \<noteq> - 1 \<and> oldpolicy \<noteq> policy (tasks s p) then Some (s, Commit_recheck)
      else do { s \<leftarrow> setscheduler_change K H E p pol reset x s; Some (s, Commit_return 0) })"

text \<open>
  The whole call without interference between the check and the locks; the repetition then starts
  with the policy \<open>-1\<close> on the same state and can happen only once, see \<open>setscheduler_no_recheck\<close>.
\<close>

definition do_setscheduler ::
  "kconsts \<Rightarrow> 'c hooks \<Rightarrow> 'c kenv \<Rightarrow> nat \<Rightarrow> s32 \<Rightarrow> int \<Rightarrow> bool \<Rightarrow> 'c sys \<Rightarrow> ('c sys \<times> commit) option" where
  "do_setscheduler K H E p arg x user s =
     (if in_interrupt E then None
      else case setscheduler_check K E p arg x user s of
        Inl e \<Rightarrow> Some (s, Commit_return e)
      | Inr (pol, oldpolicy, reset) \<Rightarrow> setscheduler_commit K H E p pol oldpolicy reset x user s)"

definition sched_setscheduler ::
  "kconsts \<Rightarrow> 'c hooks \<Rightarrow> 'c kenv \<Rightarrow> nat \<Rightarrow> s32 \<Rightarrow> int \<Rightarrow> 'c sys \<Rightarrow> ('c sys \<times> commit) option" where
  "sched_setscheduler K H E p arg x s = do_setscheduler K H E p arg x True s"

definition sched_setscheduler_nocheck ::
  "kconsts \<Rightarrow> 'c hooks \<Rightarrow> 'c kenv \<Rightarrow> nat \<Rightarrow> s32 \<Rightarrow> int \<Rightarrow> 'c sys \<Rightarrow> ('c sys \<times> commit) option" where
  "sched_setscheduler_nocheck K H E p arg x s = do_setscheduler K H E p arg x False s"

section \<open>System calls\<close>

text \<open>
  A pointer to user memory is \<^const>\<open>None\<close> for \<open>NULL\<close>; the inner option is \<^const>\<open>None\<close> when the copy
  faults.
\<close>

definition do_sched_setscheduler ::
  "kconsts \<Rightarrow> 'c hooks \<Rightarrow> 'c kenv \<Rightarrow> int \<Rightarrow> s32 \<Rightarrow> int option option \<Rightarrow> 'c sys \<Rightarrow> ('c sys \<times> commit) option" where
  "do_sched_setscheduler K H E pid arg param s =
     (case param of None \<Rightarrow> Some (s, Commit_return (- EINVAL))
      | Some copied \<Rightarrow>
          if pid < 0 then Some (s, Commit_return (- EINVAL))
          else case copied of None \<Rightarrow> Some (s, Commit_return (- EFAULT))
          | Some x \<Rightarrow> (case find_process_by_pid E pid of
              None \<Rightarrow> Some (s, Commit_return (- ESRCH))
            | Some p \<Rightarrow> sched_setscheduler K H E p arg x s))"

definition sys_sched_setscheduler ::
  "kconsts \<Rightarrow> 'c hooks \<Rightarrow> 'c kenv \<Rightarrow> int \<Rightarrow> s32 \<Rightarrow> int option option \<Rightarrow> 'c sys \<Rightarrow> ('c sys \<times> commit) option" where
  "sys_sched_setscheduler K H E pid arg param s =
     (if sint arg < 0 then Some (s, Commit_return (- EINVAL))
      else do_sched_setscheduler K H E pid arg param s)"

definition sys_sched_setparam ::
  "kconsts \<Rightarrow> 'c hooks \<Rightarrow> 'c kenv \<Rightarrow> int \<Rightarrow> int option option \<Rightarrow> 'c sys \<Rightarrow> ('c sys \<times> commit) option" where
  "sys_sched_setparam K H E pid param s = do_sched_setscheduler K H E pid (- 1) param s"

definition sys_sched_getscheduler :: "kconsts \<Rightarrow> 'c kenv \<Rightarrow> int \<Rightarrow> 'c sys \<Rightarrow> int" where
  "sys_sched_getscheduler K E pid s =
     (if pid < 0 then - EINVAL
      else case find_process_by_pid E pid of None \<Rightarrow> - ESRCH
      | Some p \<Rightarrow>
          let retval = security_task_getscheduler E p
          in if retval \<noteq> 0 then retval
             else sint (policy (tasks s p) OR
                        (if reset_on_fork (tasks s p) then SCHED_RESET_ON_FORK K else 0)))"

text \<open>The pair is the return value and what was copied to user memory; \<open>writable\<close> is \<open>copy_to_user\<close>.\<close>

definition sys_sched_getparam ::
  "'c kenv \<Rightarrow> int \<Rightarrow> bool option \<Rightarrow> 'c sys \<Rightarrow> int \<times> int option" where
  "sys_sched_getparam E pid param s =
     (case param of None \<Rightarrow> (- EINVAL, None)
      | Some writable \<Rightarrow>
          if pid < 0 then (- EINVAL, None)
          else case find_process_by_pid E pid of None \<Rightarrow> (- ESRCH, None)
          | Some p \<Rightarrow>
              let retval = security_task_getscheduler E p
              in if retval \<noteq> 0 then (retval, None)
                 else if writable then (0, Some (sint (rt_priority (tasks s p)))) else (- EFAULT, None))"

definition sys_sched_get_priority_max :: "kconsts \<Rightarrow> u32 \<Rightarrow> int" where
  "sys_sched_get_priority_max K pol =
     (if pol = SCHED_FIFO K \<or> pol = SCHED_RR K then MAX_USER_RT_PRIO K - 1
      else if pol = SCHED_NORMAL K \<or> pol = SCHED_BATCH K \<or> pol = SCHED_IDLE K then 0
      else - EINVAL)"

definition sys_sched_get_priority_min :: "kconsts \<Rightarrow> u32 \<Rightarrow> int" where
  "sys_sched_get_priority_min K pol =
     (if pol = SCHED_FIFO K \<or> pol = SCHED_RR K then 1
      else if pol = SCHED_NORMAL K \<or> pol = SCHED_BATCH K \<or> pol = SCHED_IDLE K then 0
      else - EINVAL)"

definition sys_sched_rr_get_interval :: "'c kenv \<Rightarrow> int \<Rightarrow> bool \<Rightarrow> 'c sys \<Rightarrow> int \<times> u32 option" where
  "sys_sched_rr_get_interval E pid writable s =
     (if pid < 0 then (- EINVAL, None)
      else case find_process_by_pid E pid of None \<Rightarrow> (- ESRCH, None)
      | Some p \<Rightarrow>
          let retval = security_task_getscheduler E p
          in if retval \<noteq> 0 then (retval, None)
             else if writable then (0, Some (get_rr_interval E (sclass (tasks s p)) p)) else (- EFAULT, None))"

text \<open>\<open>sched_yield\<close> and \<open>yield\<close> up to their call of \<open>schedule\<close>.\<close>

definition sched_yield_begin :: "'c hooks \<Rightarrow> 'c kenv \<Rightarrow> nat \<Rightarrow> 'c sys \<Rightarrow> 'c sys" where
  "sched_yield_begin H E c s = call (yield_method H (sclass (tasks s (current E))) c) s"

definition yield_begin :: "kconsts \<Rightarrow> 'c hooks \<Rightarrow> 'c kenv \<Rightarrow> nat \<Rightarrow> 'c sys \<Rightarrow> 'c sys" where
  "yield_begin K H E c s =
     sched_yield_begin H E c (set_task (current E) (\<lambda>t. t\<lparr>state := TASK_RUNNING K\<rparr>) s)"

end
