(* ===== verification/SchedAcct.thy ===== *)
theory SchedAcct
  imports SchedPolicy
begin

text \<open>
  The accounting of the runqueues: \<open>nr_running\<close> of a processor counts the threads queued there, and
  the sum of the counters \<open>nr_uninterruptible\<close> counts the threads that sleep uninterruptibly.  The
  lemmas show which functions leave the counted facts alone (\<open>silent\<close>) and how the others change
  them.
\<close>

named_theorems silent \<open>functions that do not touch the counters or what they count\<close>

section \<open>What the elementary updates do\<close>

lemma set_task_simps [simp]:
  "tasks (set_task p f s) = (tasks s)(p := f (tasks s p))" "rqs (set_task p f s) = rqs s"
  "threads (set_task p f s) = threads s" "cpus (set_task p f s) = cpus s"
  "online (set_task p f s) = online s" "active (set_task p f s) = active s"
  "ext (set_task p f s) = ext s" "need_resched (set_task p f s) = need_resched s"
  by (simp_all add: set_task_def)

lemma set_rq_simps [simp]:
  "rqs (set_rq c g s) = (rqs s)(c := g (rqs s c))" "tasks (set_rq c g s) = tasks s"
  "threads (set_rq c g s) = threads s" "cpus (set_rq c g s) = cpus s"
  "online (set_rq c g s) = online s" "active (set_rq c g s) = active s"
  "ext (set_rq c g s) = ext s" "need_resched (set_rq c g s) = need_resched s"
  by (simp_all add: set_rq_def)

lemma call_simps [simp]:
  "rqs (call f s) = rqs s" "tasks (call f s) = tasks s" "threads (call f s) = threads s"
  "cpus (call f s) = cpus s" "online (call f s) = online s" "active (call f s) = active s"
  by (simp_all add: call_def)

text \<open>What a runqueue shows to the rest: its counters and the tasks it names.\<close>

definition rq_view :: "rq \<Rightarrow> ul \<times> ul \<times> nat \<times> nat \<times> nat option" where
  "rq_view r = (nr_running r, nr_uninterruptible r, curr r, idle r, stop r)"

text \<open>The same system for everybody but the scheduling classes.\<close>

definition same_view :: "'c sys \<Rightarrow> 'c sys \<Rightarrow> bool" where
  "same_view s s' \<longleftrightarrow> threads s' = threads s \<and> cpus s' = cpus s \<and> online s' = online s \<and>
     active s' = active s \<and> tasks s' = tasks s \<and> (\<forall>c. rq_view (rqs s' c) = rq_view (rqs s c))"

lemma same_view_refl [simp, intro]: "same_view s s"
  by (simp add: same_view_def)

lemma same_view_trans: "same_view s s' \<Longrightarrow> same_view s' s'' \<Longrightarrow> same_view s s''"
  by (simp add: same_view_def)

lemma same_view_call [silent]: "same_view s (call f s)"
  by (simp add: same_view_def)

lemma same_view_clock [silent]: "same_view s (update_rq_clock H c s)"
  by (simp add: same_view_def update_rq_clock_def rq_view_def)

lemma same_view_resched [silent]: "same_view s (resched_task p s)"
  by (simp add: same_view_def resched_task_def)

lemma same_view_preempt [silent]: "same_view s (check_preempt_curr H c p fl s)"
  by (auto simp: check_preempt_curr_def same_view_def rq_view_def Let_def resched_task_def)

lemma same_view_class [silent]: "same_view s (check_class_changed H c p k x s)"
  by (auto simp: check_class_changed_def same_view_def Let_def split: option.split)

lemma same_view_end_idle [silent]: "same_view s (set_rq c (end_idle d) s)"
  by (auto simp: same_view_def rq_view_def end_idle_def Let_def)

lemma same_view_put_prev [silent]: "same_view s (put_prev_task H c p s)"
  by (auto simp: put_prev_task_def Let_def intro: silent same_view_trans)

text \<open>The views of a system after the functions that touch the queues.\<close>

lemma same_viewD:
  assumes "same_view s s'"
  shows "threads s' = threads s" "cpus s' = cpus s" "online s' = online s" "active s' = active s"
    "tasks s' = tasks s" "nr_running (rqs s' c) = nr_running (rqs s c)"
    "nr_uninterruptible (rqs s' c) = nr_uninterruptible (rqs s c)" "curr (rqs s' c) = curr (rqs s c)"
    "idle (rqs s' c) = idle (rqs s c)" "stop (rqs s' c) = stop (rqs s c)"
  using assms by (auto simp: same_view_def rq_view_def)

lemmas clock_simps [simp] = same_viewD [OF same_view_clock]
lemmas resched_simps [simp] = same_viewD [OF same_view_resched]
lemmas preempt_simps [simp] = same_viewD [OF same_view_preempt]
lemmas class_changed_simps [simp] = same_viewD [OF same_view_class]
lemmas put_prev_simps [simp] = same_viewD [OF same_view_put_prev]

lemma end_idle_simps [simp]:
  "nr_running (end_idle d r) = nr_running r" "nr_uninterruptible (end_idle d r) = nr_uninterruptible r"
  "curr (end_idle d r) = curr r" "idle (end_idle d r) = idle r" "stop (end_idle d r) = stop r"
  by (simp_all add: end_idle_def Let_def)

section \<open>The accounting invariant\<close>

definition queued_on :: "'c sys \<Rightarrow> nat \<Rightarrow> nat" where
  "queued_on s c = count_if (\<lambda>p. on_rq (tasks s p) \<and> task_cpu (tasks s p) = c) (threads s)"

definition sleeping_tasks :: "kconsts \<Rightarrow> 'c sys \<Rightarrow> nat" where
  "sleeping_tasks K s = count_if (\<lambda>p. task_contributes_to_load K (tasks s p) \<and> \<not> on_rq (tasks s p)) (threads s)"

definition uninterruptible_sum :: "'c sys \<Rightarrow> ul" where
  "uninterruptible_sum s = sum_list (map (\<lambda>c. nr_uninterruptible (rqs s c)) (cpus s))"

definition acct :: "kconsts \<Rightarrow> 'c sys \<Rightarrow> bool" where
  "acct K s \<longleftrightarrow> distinct (threads s) \<and> distinct (cpus s) \<and>
     (\<forall>c \<in> set (cpus s). nr_running (rqs s c) = of_nat (queued_on s c)) \<and>
     uninterruptible_sum s = of_nat (sleeping_tasks K s)"

lemma count_if_cong:
  "(\<And>x. x \<in> set xs \<Longrightarrow> P x = Q x) \<Longrightarrow> count_if P xs = count_if Q xs"
  by (induction xs) auto

lemma count_if_change:
  assumes "distinct xs" "p \<in> set xs" "\<And>q. q \<in> set xs \<Longrightarrow> q \<noteq> p \<Longrightarrow> Q q = P q"
  shows "count_if Q xs + of_bool (P p) = count_if P xs + of_bool (Q p)"
  using assms
proof (induction xs)
  case (Cons x xs)
  show ?case
  proof (cases "x = p")
    case True
    then have "count_if Q xs = count_if P xs" using Cons.prems by (intro count_if_cong) auto
    then show ?thesis using True by simp
  next
    case False
    then have "count_if Q xs + of_bool (P p) = count_if P xs + of_bool (Q p)" "Q x = P x"
      using Cons by auto
    then show ?thesis by simp
  qed
qed simp

lemma sum_update:
  fixes f :: "nat \<Rightarrow> 'a::ab_group_add"
  assumes "distinct cs" "c \<in> set cs" "\<And>d. d \<in> set cs \<Longrightarrow> d \<noteq> c \<Longrightarrow> g d = f d"
  shows "sum_list (map g cs) = sum_list (map f cs) + (g c - f c)"
  using assms
proof (induction cs)
  case (Cons d cs)
  show ?case
  proof (cases "d = c")
    case True
    then have "sum_list (map g cs) = sum_list (map f cs)"
      using Cons.prems by (intro arg_cong [of _ _ sum_list]) auto
    then show ?thesis using True by simp
  next
    case False
    then show ?thesis using Cons by auto
  qed
qed simp

text \<open>Only these facts count.\<close>

definition same_acct :: "kconsts \<Rightarrow> 'c sys \<Rightarrow> 'c sys \<Rightarrow> bool" where
  "same_acct K s s' \<longleftrightarrow> threads s' = threads s \<and> cpus s' = cpus s \<and>
     (\<forall>p. on_rq (tasks s' p) = on_rq (tasks s p) \<and> task_cpu (tasks s' p) = task_cpu (tasks s p) \<and>
        (\<not> on_rq (tasks s p) \<longrightarrow>
           task_contributes_to_load K (tasks s' p) = task_contributes_to_load K (tasks s p))) \<and>
     (\<forall>c. nr_running (rqs s' c) = nr_running (rqs s c) \<and>
        nr_uninterruptible (rqs s' c) = nr_uninterruptible (rqs s c))"

lemma same_acct_cong: "same_acct K s s' \<Longrightarrow> acct K s \<Longrightarrow> acct K s'"
proof -
  assume s: "same_acct K s s'" and a: "acct K s"
  have "queued_on s' c = queued_on s c" for c
    using s by (simp add: queued_on_def same_acct_def)
  moreover have "sleeping_tasks K s' = sleeping_tasks K s"
    unfolding sleeping_tasks_def using s by (auto simp: same_acct_def intro!: count_if_cong)
  ultimately show "acct K s'"
    using s a by (simp add: acct_def same_acct_def uninterruptible_sum_def)
qed

lemma same_acct_view: "same_view s s' \<Longrightarrow> same_acct K s s'"
  by (auto simp: same_acct_def same_view_def rq_view_def)

lemma acct_view: "same_view s s' \<Longrightarrow> acct K s \<Longrightarrow> acct K s'"
  by (blast intro: same_acct_cong same_acct_view)

section \<open>The functions that move tasks\<close>

lemma enqueue_simps [simp]:
  "tasks (enqueue_task H c p fl s) = (tasks s)(p := (tasks s p)\<lparr>on_rq := True\<rparr>)"
  "threads (enqueue_task H c p fl s) = threads s" "cpus (enqueue_task H c p fl s) = cpus s"
  "online (enqueue_task H c p fl s) = online s" "active (enqueue_task H c p fl s) = active s"
  "nr_running (rqs (enqueue_task H c p fl s) d) = nr_running (rqs s d)"
  "nr_uninterruptible (rqs (enqueue_task H c p fl s) d) = nr_uninterruptible (rqs s d)"
  "curr (rqs (enqueue_task H c p fl s) d) = curr (rqs s d)"
  "idle (rqs (enqueue_task H c p fl s) d) = idle (rqs s d)"
  "stop (rqs (enqueue_task H c p fl s) d) = stop (rqs s d)"
  by (simp_all add: enqueue_task_def)

lemma dequeue_simps [simp]:
  "tasks (dequeue_task H c p fl s) = (tasks s)(p := (tasks s p)\<lparr>on_rq := False\<rparr>)"
  "threads (dequeue_task H c p fl s) = threads s" "cpus (dequeue_task H c p fl s) = cpus s"
  "online (dequeue_task H c p fl s) = online s" "active (dequeue_task H c p fl s) = active s"
  "nr_running (rqs (dequeue_task H c p fl s) d) = nr_running (rqs s d)"
  "nr_uninterruptible (rqs (dequeue_task H c p fl s) d) = nr_uninterruptible (rqs s d)"
  "curr (rqs (dequeue_task H c p fl s) d) = curr (rqs s d)"
  "idle (rqs (dequeue_task H c p fl s) d) = idle (rqs s d)"
  "stop (rqs (dequeue_task H c p fl s) d) = stop (rqs s d)"
  by (simp_all add: dequeue_task_def)

lemma activate_simps [simp]:
  "tasks (activate_task K H c p fl s) = (tasks s)(p := (tasks s p)\<lparr>on_rq := True\<rparr>)"
  "threads (activate_task K H c p fl s) = threads s" "cpus (activate_task K H c p fl s) = cpus s"
  "online (activate_task K H c p fl s) = online s" "active (activate_task K H c p fl s) = active s"
  "nr_running (rqs (activate_task K H c p fl s) d) = nr_running (rqs s d) + of_bool (d = c)"
  "nr_uninterruptible (rqs (activate_task K H c p fl s) d) =
     nr_uninterruptible (rqs s d) - of_bool (d = c \<and> task_contributes_to_load K (tasks s p))"
  "curr (rqs (activate_task K H c p fl s) d) = curr (rqs s d)"
  "idle (rqs (activate_task K H c p fl s) d) = idle (rqs s d)"
  "stop (rqs (activate_task K H c p fl s) d) = stop (rqs s d)"
  by (simp_all add: activate_task_def inc_nr_running_def Let_def)

lemma deactivate_simps [simp]:
  "tasks (deactivate_task K H c p fl s) = (tasks s)(p := (tasks s p)\<lparr>on_rq := False\<rparr>)"
  "threads (deactivate_task K H c p fl s) = threads s" "cpus (deactivate_task K H c p fl s) = cpus s"
  "online (deactivate_task K H c p fl s) = online s" "active (deactivate_task K H c p fl s) = active s"
  "nr_running (rqs (deactivate_task K H c p fl s) d) = nr_running (rqs s d) - of_bool (d = c)"
  "nr_uninterruptible (rqs (deactivate_task K H c p fl s) d) =
     nr_uninterruptible (rqs s d) + of_bool (d = c \<and> task_contributes_to_load K (tasks s p))"
  "curr (rqs (deactivate_task K H c p fl s) d) = curr (rqs s d)"
  "idle (rqs (deactivate_task K H c p fl s) d) = idle (rqs s d)"
  "stop (rqs (deactivate_task K H c p fl s) d) = stop (rqs s d)"
  by (simp_all add: deactivate_task_def dec_nr_running_def Let_def)

text \<open>
  One task changes, and the counters with it: the general step behind all the functions.
\<close>

lemma acct_change:
  assumes a: "acct K s" and p: "p \<in> set (threads s)"
    and lists: "threads s' = threads s" "cpus s' = cpus s"
    and others: "\<And>q. q \<noteq> p \<Longrightarrow> tasks s' q = tasks s q"
    and run: "\<And>c. c \<in> set (cpus s) \<Longrightarrow> nr_running (rqs s' c) + of_bool (on_rq (tasks s p) \<and> task_cpu (tasks s p) = c)
        = nr_running (rqs s c) + of_bool (on_rq (tasks s' p) \<and> task_cpu (tasks s' p) = c)"
    and sleep: "uninterruptible_sum s' + of_bool (task_contributes_to_load K (tasks s p) \<and> \<not> on_rq (tasks s p))
        = uninterruptible_sum s + of_bool (task_contributes_to_load K (tasks s' p) \<and> \<not> on_rq (tasks s' p))"
  shows "acct K s'"
proof -
  have d: "distinct (threads s)" using a by (simp add: acct_def)
  have q: "queued_on s' c + of_bool (on_rq (tasks s p) \<and> task_cpu (tasks s p) = c) =
      queued_on s c + of_bool (on_rq (tasks s' p) \<and> task_cpu (tasks s' p) = c)" for c
    unfolding queued_on_def lists
    by (rule count_if_change [OF d p]) (use others in auto)
  have u: "sleeping_tasks K s' + of_bool (task_contributes_to_load K (tasks s p) \<and> \<not> on_rq (tasks s p)) =
      sleeping_tasks K s + of_bool (task_contributes_to_load K (tasks s' p) \<and> \<not> on_rq (tasks s' p))"
    unfolding sleeping_tasks_def lists by (rule count_if_change [OF d p]) (use others in auto)
  have "nr_running (rqs s' c) = of_nat (queued_on s' c)" if "c \<in> set (cpus s)" for c
  proof -
    have "nr_running (rqs s' c) + of_bool (on_rq (tasks s p) \<and> task_cpu (tasks s p) = c) =
        (of_nat (queued_on s c + of_bool (on_rq (tasks s' p) \<and> task_cpu (tasks s' p) = c)) :: ul)"
      using run [OF that] a that by (simp add: acct_def)
    then show ?thesis unfolding q [symmetric] by simp
  qed
  moreover have "uninterruptible_sum s' = of_nat (sleeping_tasks K s')"
  proof -
    have "uninterruptible_sum s' + of_bool (task_contributes_to_load K (tasks s p) \<and> \<not> on_rq (tasks s p)) =
        (of_nat (sleeping_tasks K s + of_bool (task_contributes_to_load K (tasks s' p) \<and> \<not> on_rq (tasks s' p))) :: ul)"
      using sleep a by (simp add: acct_def)
    then show ?thesis unfolding u [symmetric] by simp
  qed
  ultimately show ?thesis using a lists by (simp add: acct_def)
qed

lemma uninterruptible_sum_change:
  assumes "distinct (cpus s)" "c \<in> set (cpus s)" "cpus s' = cpus s"
    "\<And>d. d \<noteq> c \<Longrightarrow> nr_uninterruptible (rqs s' d) = nr_uninterruptible (rqs s d)"
  shows "uninterruptible_sum s' =
    uninterruptible_sum s + (nr_uninterruptible (rqs s' c) - nr_uninterruptible (rqs s c))"
  unfolding uninterruptible_sum_def assms(3)
  by (rule sum_update [OF assms(1,2)]) (use assms(4) in auto)

lemma acct_activate:
  assumes "acct K s" "p \<in> set (threads s)" "\<not> on_rq (tasks s p)" "c = task_cpu (tasks s p)"
    "c \<in> set (cpus s)"
  shows "acct K (activate_task K H c p fl s)"
proof (rule acct_change [OF assms(1,2)])
  have d: "distinct (cpus s)" using assms(1) by (simp add: acct_def)
  show "uninterruptible_sum (activate_task K H c p fl s) +
      of_bool (task_contributes_to_load K (tasks s p) \<and> \<not> on_rq (tasks s p)) =
    uninterruptible_sum s + of_bool (task_contributes_to_load K (tasks (activate_task K H c p fl s) p) \<and>
      \<not> on_rq (tasks (activate_task K H c p fl s) p))"
    using assms(3) by (subst uninterruptible_sum_change [OF d assms(5)]) auto
qed (use assms in auto)

lemma acct_deactivate:
  assumes "acct K s" "p \<in> set (threads s)" "on_rq (tasks s p)" "c = task_cpu (tasks s p)"
    "c \<in> set (cpus s)"
  shows "acct K (deactivate_task K H c p fl s)"
proof (rule acct_change [OF assms(1,2)])
  have d: "distinct (cpus s)" using assms(1) by (simp add: acct_def)
  have [simp]: "task_contributes_to_load K (tasks s p\<lparr>on_rq := False\<rparr>) = task_contributes_to_load K (tasks s p)"
    by (simp add: task_contributes_to_load_def)
  show "uninterruptible_sum (deactivate_task K H c p fl s) +
      of_bool (task_contributes_to_load K (tasks s p) \<and> \<not> on_rq (tasks s p)) =
    uninterruptible_sum s + of_bool (task_contributes_to_load K (tasks (deactivate_task K H c p fl s) p) \<and>
      \<not> on_rq (tasks (deactivate_task K H c p fl s) p))"
    using assms(3) by (subst uninterruptible_sum_change [OF d assms(5)]) auto
qed (use assms in auto)

section \<open>Waking up\<close>

lemma post_activation_simps [simp]:
  "tasks (ttwu_post_activation K H c p fl b s) = (tasks s)(p := (tasks s p)\<lparr>state := TASK_RUNNING K\<rparr>)"
  "threads (ttwu_post_activation K H c p fl b s) = threads s"
  "cpus (ttwu_post_activation K H c p fl b s) = cpus s"
  "online (ttwu_post_activation K H c p fl b s) = online s"
  "active (ttwu_post_activation K H c p fl b s) = active s"
  "nr_running (rqs (ttwu_post_activation K H c p fl b s) d) = nr_running (rqs s d)"
  "nr_uninterruptible (rqs (ttwu_post_activation K H c p fl b s) d) = nr_uninterruptible (rqs s d)"
  "curr (rqs (ttwu_post_activation K H c p fl b s) d) = curr (rqs s d)"
  "idle (rqs (ttwu_post_activation K H c p fl b s) d) = idle (rqs s d)"
  "stop (rqs (ttwu_post_activation K H c p fl b s) d) = stop (rqs s d)"
  by (simp_all add: ttwu_post_activation_def Let_def split: option.split)

lemma acct_post_activation:
  "acct K s \<Longrightarrow> on_rq (tasks s p) \<Longrightarrow> acct K (ttwu_post_activation K H c p fl b s)"
  by (rule same_acct_cong) (auto simp: same_acct_def)

lemma set_task_cpu_simps [simp]:
  "tasks (set_task_cpu p c s) = (tasks s)(p := (if task_cpu (tasks s p) \<noteq> c
      then (tasks s p)\<lparr>nr_migrations := nr_migrations (tasks s p) + 1\<rparr> else tasks s p)\<lparr>task_cpu := c\<rparr>)"
  "rqs (set_task_cpu p c s) = rqs s" "threads (set_task_cpu p c s) = threads s"
  "cpus (set_task_cpu p c s) = cpus s" "online (set_task_cpu p c s) = online s"
  "active (set_task_cpu p c s) = active s"
  by (simp_all add: set_task_cpu_def)

lemma contributes_update [simp]:
  "task_contributes_to_load K (t\<lparr>on_rq := b\<rparr>) = task_contributes_to_load K t"
  "task_contributes_to_load K (t\<lparr>task_cpu := c\<rparr>) = task_contributes_to_load K t"
  "task_contributes_to_load K (t\<lparr>nr_migrations := n\<rparr>) = task_contributes_to_load K t"
  "task_contributes_to_load K (t\<lparr>cpus_allowed := m\<rparr>) = task_contributes_to_load K t"
  by (simp_all add: task_contributes_to_load_def)

text \<open>A task that is not queued can be given a processor, and a change to no counted fact is free.\<close>

lemma acct_unqueued:
  assumes "acct K s" "p \<in> set (threads s)" "\<not> on_rq (tasks s p)" "\<not> on_rq t"
    "task_contributes_to_load K t = task_contributes_to_load K (tasks s p)"
  shows "acct K (set_task p (\<lambda>_. t) s)"
  by (rule acct_change [OF assms(1,2)]) (use assms in \<open>auto simp: uninterruptible_sum_def\<close>)

lemma acct_move:
  assumes "acct K s" "p \<in> set (threads s)" "on_rq (tasks s p)" "c = task_cpu (tasks s p)"
    "c \<in> set (cpus s)" "d \<in> set (cpus s)"
  shows "acct K (activate_task K H d p fl (set_task_cpu p d (deactivate_task K H c p fl' s)))"
proof (rule acct_activate)
  show "acct K (set_task_cpu p d (deactivate_task K H c p fl' s))"
    unfolding set_task_cpu_def set_task_def
    using acct_unqueued [OF acct_deactivate [OF assms(1-5)], of p] assms(2)
    by (fastforce simp: set_task_def)
qed (use assms in auto)

text \<open>
  \<open>try_to_wake_up\<close> takes a sleeper out of the count before it is queued, so the sum stays right
  while the lock is released.
\<close>

lemma waking_sys_simps [simp]:
  "tasks (waking_sys K c p s) = (tasks s)(p := (tasks s p)\<lparr>state := TASK_WAKING K\<rparr>)"
  "threads (waking_sys K c p s) = threads s" "cpus (waking_sys K c p s) = cpus s"
  "online (waking_sys K c p s) = online s" "active (waking_sys K c p s) = active s"
  "curr (rqs (waking_sys K c p s) d) = curr (rqs s d)"
  "idle (rqs (waking_sys K c p s) d) = idle (rqs s d)"
  by (simp_all add: waking_sys_def)

lemma acct_waking_sys:
  assumes "acct K s" "p \<in> set (threads s)" "\<not> on_rq (tasks s p)" "c \<in> set (cpus s)" "consts_ok K"
  shows "acct K (waking_sys K c p s)"
proof (rule acct_change [OF assms(1,2)])
  have d: "distinct (cpus s)" using assms(1) by (simp add: acct_def)
  have "\<not> task_contributes_to_load K ((tasks s p)\<lparr>state := TASK_WAKING K\<rparr>)"
    using assms(5) by (simp add: task_contributes_to_load_def consts_ok_def)
  then show "uninterruptible_sum (waking_sys K c p s) +
      of_bool (task_contributes_to_load K (tasks s p) \<and> \<not> on_rq (tasks s p)) =
    uninterruptible_sum s + of_bool (task_contributes_to_load K (tasks (waking_sys K c p s) p) \<and>
      \<not> on_rq (tasks (waking_sys K c p s) p))"
    using assms(3) by (subst uninterruptible_sum_change [OF d assms(4)]) (auto simp: waking_sys_def)
qed (use assms in \<open>auto simp: waking_sys_def\<close>)

section \<open>Priorities and policies\<close>

text \<open>The same queues: only priorities, policies and weights differ.\<close>

definition task_place :: "task \<Rightarrow> u32 \<times> u32 \<times> bool \<times> nat \<times> nat list" where
  "task_place t = (state t, flags t, on_rq t, task_cpu t, cpus_allowed t)"

definition same_queues :: "'c sys \<Rightarrow> 'c sys \<Rightarrow> bool" where
  "same_queues s s' \<longleftrightarrow> threads s' = threads s \<and> cpus s' = cpus s \<and> online s' = online s \<and>
     active s' = active s \<and> (\<forall>p. task_place (tasks s' p) = task_place (tasks s p)) \<and>
     (\<forall>c. rq_view (rqs s' c) = rq_view (rqs s c))"

lemma same_queues_refl [simp, intro]: "same_queues s s"
  by (simp add: same_queues_def)

lemma same_queuesD:
  assumes "same_queues s s'"
  shows "threads s' = threads s" "cpus s' = cpus s" "online s' = online s" "active s' = active s"
    "state (tasks s' p) = state (tasks s p)" "on_rq (tasks s' p) = on_rq (tasks s p)"
    "task_cpu (tasks s' p) = task_cpu (tasks s p)" "cpus_allowed (tasks s' p) = cpus_allowed (tasks s p)"
    "curr (rqs s' c) = curr (rqs s c)" "idle (rqs s' c) = idle (rqs s c)"
    "task_contributes_to_load K (tasks s' p) = task_contributes_to_load K (tasks s p)"
  using assms by (auto simp: same_queues_def task_place_def rq_view_def task_contributes_to_load_def)

lemma same_queues_acct: "same_queues s s' \<Longrightarrow> same_acct K s s'"
  by (auto simp: same_acct_def same_queues_def task_place_def rq_view_def task_contributes_to_load_def)

lemma place_update [simp]:
  "task_place (t\<lparr>static_prio := x\<rparr>) = task_place t" "task_place (t\<lparr>normal_prio := x\<rparr>) = task_place t"
  "task_place (t\<lparr>prio := x\<rparr>) = task_place t" "task_place (t\<lparr>rt_priority := r\<rparr>) = task_place t"
  "task_place (t\<lparr>policy := r\<rparr>) = task_place t" "task_place (t\<lparr>reset_on_fork := b\<rparr>) = task_place t"
  "task_place (t\<lparr>sclass := k\<rparr>) = task_place t" "task_place (t\<lparr>se_weight := w\<rparr>) = task_place t"
  "task_place (t\<lparr>se_inv_weight := m\<rparr>) = task_place t"
  by (simp_all add: task_place_def)

lemma place_load_weight: "set_load_weight K t = Some t' \<Longrightarrow> task_place t' = task_place t"
  by (auto simp: set_load_weight_def bind_eq_Some_conv split: if_splits)

lemma place_effective: "task_place (fst (effective_prio K t)) = task_place t"
  by (simp add: effective_prio_def Let_def)

lemma rq_view_simps [simp]:
  "rq_view (rqs (enqueue_task H c p fl s) d) = rq_view (rqs s d)"
  "rq_view (rqs (dequeue_task H c p fl s) d) = rq_view (rqs s d)"
  "rq_view (rqs (resched_task p s) d) = rq_view (rqs s d)"
  "rq_view (rqs (check_class_changed H c p k x s) d) = rq_view (rqs s d)"
  by (simp_all add: rq_view_def)

text \<open>Off the queue and on again with new parameters.\<close>

lemma place_requeued:
  "on_rq t = b \<Longrightarrow> task_place (u\<lparr>on_rq := True\<rparr>) = task_place (t\<lparr>on_rq := True\<rparr>) \<Longrightarrow> b \<Longrightarrow>
   task_place (u\<lparr>on_rq := True\<rparr>) = task_place t"
  by (simp add: task_place_def)

lemma place_on_rq:
  "task_place u = task_place (t\<lparr>on_rq := False\<rparr>) \<Longrightarrow> on_rq t \<Longrightarrow>
   task_place (u\<lparr>on_rq := True\<rparr>) = task_place t"
  by (simp add: task_place_def)

lemma set_user_nice_queues:
  assumes "set_user_nice K H p nice s = Some s'"
  shows "same_queues s s'"
proof -
  consider "s' = s" | "s' = set_task p (\<lambda>t. t\<lparr>static_prio := NICE_TO_PRIO K nice\<rparr>) s"
    | t where "\<not> (TASK_NICE K (tasks s p) = nice \<or> nice < - 20 \<or> 19 < nice)"
        "\<not> task_has_rt_policy K (tasks s p)"
        "set_load_weight K ((tasks s p)\<lparr>on_rq := False, static_prio := NICE_TO_PRIO K nice\<rparr>) = Some t"
        "on_rq (tasks s p)"
    | t where "\<not> (TASK_NICE K (tasks s p) = nice \<or> nice < - 20 \<or> 19 < nice)"
        "\<not> task_has_rt_policy K (tasks s p)"
        "set_load_weight K ((tasks s p)\<lparr>static_prio := NICE_TO_PRIO K nice\<rparr>) = Some t"
        "\<not> on_rq (tasks s p)"
    using assms by (cases "on_rq (tasks s p)") (auto simp: set_user_nice_def Let_def bind_eq_Some_conv split: if_splits)
  then show ?thesis
  proof cases
    case 3
    then have "task_place (fst (effective_prio K t)) = task_place ((tasks s p)\<lparr>on_rq := False\<rparr>)"
      by (auto dest: place_load_weight simp: place_effective)
    then show ?thesis using assms 3
      by (auto simp: set_user_nice_def split_beta Let_def same_queues_def place_on_rq)
  next
    case 4
    then have "task_place (fst (effective_prio K t)) = task_place (tasks s p)"
      by (auto dest: place_load_weight simp: place_effective)
    then show ?thesis using assms 4
      by (auto simp: set_user_nice_def split_beta Let_def same_queues_def)
  qed (auto simp: same_queues_def)
qed

lemma rt_mutex_setprio_queues:
  assumes "rt_mutex_setprio K H p x s = Some s'"
  shows "same_queues s s'"
  using assms
  by (cases "on_rq (tasks s p)"; cases "task_current s (task_cpu (tasks s p)) p")
    (auto simp: rt_mutex_setprio_def Let_def same_queues_def task_place_def split: if_splits)

lemma apply_scheduler_place:
  assumes "apply_scheduler K E p pol x s = Some s'"
  shows "\<exists>u. s' = set_task p (\<lambda>_. u) s \<and> task_place u = task_place (tasks s p)"
  using assms
  by (auto simp: apply_scheduler_def Let_def bind_eq_Some_conv split: if_splits dest!: place_load_weight)

lemma place_contributes:
  "task_place u = task_place t \<Longrightarrow> task_contributes_to_load K u = task_contributes_to_load K t"
  by (simp add: task_place_def task_contributes_to_load_def)

text \<open>The system in which the new parameters are installed, and the one made of it afterwards.\<close>

definition before_change :: "kconsts \<Rightarrow> 'c hooks \<Rightarrow> nat \<Rightarrow> bool \<Rightarrow> 'c sys \<Rightarrow> 'c sys" where
  "before_change K H p reset s =
     (let c = task_cpu (tasks s p);
          s1 = (if on_rq (tasks s p) then deactivate_task K H c p 0 s else s);
          s2 = (if task_current s c p then call (put_prev_method H (sclass (tasks s1 p)) c p) s1 else s1)
      in set_task p (\<lambda>t. t\<lparr>reset_on_fork := reset\<rparr>) s2)"

definition after_change :: "kconsts \<Rightarrow> 'c hooks \<Rightarrow> 'c kenv \<Rightarrow> nat \<Rightarrow> 'c sys \<Rightarrow> 'c sys \<Rightarrow> 'c sys" where
  "after_change K H E p s s2 =
     (let c = task_cpu (tasks s p);
          s3 = (if task_current s c p then call (set_curr_method H (sclass (tasks s2 p)) c) s2 else s2);
          s4 = (if on_rq (tasks s p) then activate_task K H c p 0 s3 else s3)
      in call (rt_mutex_adjust_pi E p)
           (check_class_changed H c p (sclass (tasks s p)) (prio (tasks s p)) s4))"

lemma tasks_before_change:
  "tasks (before_change K H p reset s) =
     (tasks s)(p := (tasks s p)\<lparr>on_rq := False, reset_on_fork := reset\<rparr>)"
  by (cases "on_rq (tasks s p)"; cases "tasks s p") (simp_all add: before_change_def Let_def)

lemma setscheduler_change_split:
  "setscheduler_change K H E p pol reset x s =
     map_option (after_change K H E p s) (apply_scheduler K E p pol x (before_change K H p reset s))"
proof -
  have "sclass (tasks (before_change K H p reset s) p) = sclass (tasks s p)"
    "prio (tasks (before_change K H p reset s) p) = prio (tasks s p)"
    by (simp_all add: tasks_before_change)
  then show ?thesis
    unfolding setscheduler_change_def after_change_def before_change_def Let_def
    by (cases "apply_scheduler K E p pol x (before_change K H p reset s)")
      (simp_all add: before_change_def Let_def)
qed

lemma view_before_change:
  "threads (before_change K H p reset s) = threads s" "cpus (before_change K H p reset s) = cpus s"
  "online (before_change K H p reset s) = online s" "active (before_change K H p reset s) = active s"
  "rq_view (rqs (before_change K H p reset s) d) =
     (if on_rq (tasks s p) then rq_view (rqs (deactivate_task K H (task_cpu (tasks s p)) p 0 s) d)
      else rq_view (rqs s d))"
  by (simp_all add: before_change_def Let_def)

lemma setscheduler_change_queues:
  assumes "setscheduler_change K H E p pol reset x s = Some s'"
  shows "same_queues s s'"
proof -
  obtain s2 where s2: "apply_scheduler K E p pol x (before_change K H p reset s) = Some s2"
      "s' = after_change K H E p s s2"
    using assms by (auto simp: setscheduler_change_split)
  then obtain u where u: "s2 = set_task p (\<lambda>_. u) (before_change K H p reset s)"
      "task_place u = task_place ((tasks s p)\<lparr>on_rq := False\<rparr>)"
    by (auto dest!: apply_scheduler_place simp: tasks_before_change)
  have c: "task_contributes_to_load K u = task_contributes_to_load K (tasks s p)"
    using place_contributes [OF u(2)] by simp
  show ?thesis
  proof (cases "on_rq (tasks s p)")
    case True
    then show ?thesis using s2(2) u c view_before_change [of K H p reset s]
      by (simp add: same_queues_def after_change_def Let_def place_on_rq rq_view_def tasks_before_change)
  next
    case False
    then have "task_place ((tasks s p)\<lparr>on_rq := False\<rparr>) = task_place (tasks s p)"
      by (simp add: task_place_def)
    then show ?thesis using s2(2) u False view_before_change [of K H p reset s]
      by (simp add: same_queues_def after_change_def Let_def rq_view_def tasks_before_change)
  qed
qed

lemma setscheduler_commit_queues:
  "setscheduler_commit K H E p pol old reset x user s = Some (s', r) \<Longrightarrow> same_queues s s'"
  by (auto simp: setscheduler_commit_def bind_eq_Some_conv intro: setscheduler_change_queues
      split: if_splits)

end
