(* ===== verification/SchedAffinity.thy ===== *)
theory SchedAffinity
  imports SchedAcct
begin

text \<open>
  Where a task may run, in opcional2/kernel/sched.c: the affinity system calls, waiting for a task to
  leave its processor, moving it at \<open>execve\<close> and between groups, yielding to it, the idle task of a
  processor, and the evacuation of a processor that goes down.  A \<open>cpumask\<close> in user memory is a block
  of bytes; inside the kernel it is the list of its processors.
\<close>

section \<open>Masks as bytes\<close>

text \<open>The byte order is that of x86: bit \<open>i mod 8\<close> of byte \<open>i div 8\<close> is processor \<open>i\<close>.\<close>

definition mask_of_bytes :: "u8 list \<Rightarrow> nat list" where
  "mask_of_bytes bs = filter (\<lambda>i. bit (bs ! (i div 8)) (i mod 8)) [0..<8 * length bs]"

definition byte_of_mask :: "nat list \<Rightarrow> nat \<Rightarrow> u8" where
  "byte_of_mask m j = fold (\<lambda>k w. if 8 * j + k \<in> set m then set_bit k w else w) [0..<8] 0"

definition bytes_of_mask :: "nat \<Rightarrow> nat list \<Rightarrow> u8 list" where
  "bytes_of_mask n m = map (byte_of_mask m) [0..<n]"

section \<open>The affinity system calls\<close>

text \<open>
  \<open>stop_one_cpu\<close> of kernel/stop_machine.c is the parameter \<open>R\<close>: it gets the processor and the function
  to run there.  \<open>allowed\<close> are the masks that the successive calls of \<open>cpuset_cpus_allowed\<close> return.
\<close>

type_synonym 'c stopper = "nat \<Rightarrow> ('c sys \<Rightarrow> 'c sys) \<Rightarrow> 'c sys \<Rightarrow> 'c sys"

definition migration_cpu_stop :: "kconsts \<Rightarrow> 'c hooks \<Rightarrow> nat \<Rightarrow> nat \<Rightarrow> nat \<Rightarrow> 'c sys \<Rightarrow> 'c sys" where
  "migration_cpu_stop K H p dest_cpu this_cpu s = fst (do_migrate_task K H p this_cpu dest_cpu s)"

text \<open>From \<open>again:\<close>; \<^const>\<open>None\<close> when it still has to wait: for a wake-up, or to read the mask again.\<close>

fun affinity_retry ::
  "kconsts \<Rightarrow> 'c hooks \<Rightarrow> 'c stopper \<Rightarrow> nat \<Rightarrow> nat \<Rightarrow> nat list \<Rightarrow> nat list list \<Rightarrow> 'c sys \<Rightarrow> ('c sys \<times> int) option" where
  "affinity_retry K H R me p new_mask allowed s =
     (case set_cpus_allowed_ptr K H me p new_mask s of
        None \<Rightarrow> None
      | Some (s, retval, move) \<Rightarrow>
          let s = (case move of Some (c, d) \<Rightarrow> R c (migration_cpu_stop K H p d c) s | None \<Rightarrow> s)
          in if retval \<noteq> 0 then Some (s, retval)
             else case allowed of
               [] \<Rightarrow> None
             | a # allowed \<Rightarrow>
                 if set new_mask \<subseteq> set a then Some (s, 0) else affinity_retry K H R me p a allowed s)"

declare affinity_retry.simps [simp del]

definition sched_setaffinity ::
  "kconsts \<Rightarrow> 'c hooks \<Rightarrow> 'c stopper \<Rightarrow> 'c kenv \<Rightarrow> (nat \<Rightarrow> bool) \<Rightarrow> bool \<Rightarrow> bool \<Rightarrow> int \<Rightarrow> nat list \<Rightarrow>
   nat list list \<Rightarrow> 'c sys \<Rightarrow> ('c sys \<times> int) option" where
  "sched_setaffinity K H R E task_ns_capable alloc1 alloc2 pid in_mask allowed s =
     (case find_process_by_pid E pid of
        None \<Rightarrow> Some (s, - ESRCH)
      | Some p \<Rightarrow>
          if \<not> alloc1 then Some (s, - ENOMEM)
          else if \<not> alloc2 then Some (s, - ENOMEM)
          else if \<not> check_same_owner E p s \<and> \<not> task_ns_capable p then Some (s, - EPERM)
          else if security_task_setscheduler E p \<noteq> 0 then Some (s, security_task_setscheduler E p)
          else case allowed of
            [] \<Rightarrow> None
          | a # allowed \<Rightarrow>
              affinity_retry K H R (current E) p (filter (\<lambda>c. c \<in> set a) in_mask) allowed s)"

text \<open>
  \<open>new_mask\<close> is the block of \<open>cpumask_size()\<close> bytes as it was allocated, \<open>user\<close> the user's bytes, and
  \<open>copied\<close> says whether \<open>copy_from_user\<close> copied everything.
\<close>

definition get_user_cpu_mask :: "u8 list \<Rightarrow> u32 \<Rightarrow> u8 list \<Rightarrow> bool \<Rightarrow> (u8 list \<times> int) option" where
  "get_user_cpu_mask new_mask len user copied =
     (let size = length new_mask;
          (new_mask, n) = (if unat len < size then (replicate size 0, unat len)
                           else if size < unat len then (new_mask, size) else (new_mask, unat len))
      in do {
        new_mask \<leftarrow> memcpy new_mask 0 (take n user) (int n);
        Some (new_mask, if copied then 0 else - EFAULT) })"

definition sys_sched_setaffinity ::
  "kconsts \<Rightarrow> 'c hooks \<Rightarrow> 'c stopper \<Rightarrow> 'c kenv \<Rightarrow> (nat \<Rightarrow> bool) \<Rightarrow> u8 list option \<Rightarrow> bool \<Rightarrow> bool \<Rightarrow> int \<Rightarrow> u32 \<Rightarrow>
   u8 list \<Rightarrow> bool \<Rightarrow> nat list list \<Rightarrow> 'c sys \<Rightarrow> ('c sys \<times> int) option" where
  "sys_sched_setaffinity K H R E task_ns_capable block alloc1 alloc2 pid len user copied allowed s =
     (case block of
        None \<Rightarrow> Some (s, - ENOMEM)
      | Some new_mask \<Rightarrow> do {
          (new_mask, retval) \<leftarrow> get_user_cpu_mask new_mask len user copied;
          if retval = 0
          then sched_setaffinity K H R E task_ns_capable alloc1 alloc2 pid (mask_of_bytes new_mask) allowed s
          else Some (s, retval) })"

text \<open>An error, or the mask.\<close>

definition sched_getaffinity :: "'c kenv \<Rightarrow> int \<Rightarrow> 'c sys \<Rightarrow> int + nat list" where
  "sched_getaffinity E pid s =
     (case find_process_by_pid E pid of
        None \<Rightarrow> Inl (- ESRCH)
      | Some p \<Rightarrow>
          if security_task_getscheduler E p \<noteq> 0 then Inl (security_task_getscheduler E p)
          else Inr (filter (online s) (cpus_allowed (tasks s p))))"

text \<open>The return value and the bytes written to user memory; \<open>len\<close> times 8 wraps.\<close>

definition sys_sched_getaffinity ::
  "'c kenv \<Rightarrow> u32 \<Rightarrow> nat \<Rightarrow> bool \<Rightarrow> bool \<Rightarrow> int \<Rightarrow> u32 \<Rightarrow> 'c sys \<Rightarrow> int \<times> u8 list" where
  "sys_sched_getaffinity E nr_cpu_ids cpumask_size alloc copied pid len s =
     (if len * 8 < nr_cpu_ids then (- EINVAL, [])
      else if len AND 3 \<noteq> 0 then (- EINVAL, [])
      else if \<not> alloc then (- ENOMEM, [])
      else case sched_getaffinity E pid s of
        Inl e \<Rightarrow> (e, [])
      | Inr m \<Rightarrow>
          let retlen = min (unat len) cpumask_size
          in if \<not> copied then (- EFAULT, []) else (int retlen, take retlen (bytes_of_mask cpumask_size m)))"

section \<open>Waiting for a task to leave its processor\<close>

text \<open>
  \<open>wait_task_inactive\<close> looks without the lock (\<open>inactive_look\<close>) and then with it (\<open>inactive_check\<close>), and
  starts again after a pause.  Without the lock, processor \<open>c\<close> is the one the task had when the loop
  started.  A \<open>match_state\<close> of 0 asks for no state.
\<close>

datatype inactive = Inactive_return ul | Inactive_spin | Inactive_lock | Inactive_sleep

definition LONG_MIN :: ul where "LONG_MIN = 2147483648"

definition inactive_look :: "nat \<Rightarrow> nat \<Rightarrow> u32 \<Rightarrow> 'c sys \<Rightarrow> inactive" where
  "inactive_look c p match_state s =
     (if task_running s c p
      then if match_state \<noteq> 0 \<and> state (tasks s p) \<noteq> match_state then Inactive_return 0 else Inactive_spin
      else Inactive_lock)"

definition inactive_check :: "nat \<Rightarrow> u32 \<Rightarrow> 'c sys \<Rightarrow> inactive" where
  "inactive_check p match_state s =
     (let running = task_running s (task_cpu (tasks s p)) p;
          queued = on_rq (tasks s p);
          ncsw = (if match_state = 0 \<or> state (tasks s p) = match_state
                  then nvcsw (tasks s p) OR LONG_MIN else 0)
      in if ncsw = 0 then Inactive_return 0
         else if running then Inactive_spin
         else if queued then Inactive_sleep
         else Inactive_return ncsw)"

section \<open>Moving a task\<close>

definition sched_exec :: "kconsts \<Rightarrow> 'c hooks \<Rightarrow> 'c stopper \<Rightarrow> u32 \<Rightarrow> nat \<Rightarrow> nat \<Rightarrow> 'c sys \<Rightarrow> 'c sys" where
  "sched_exec K H R SD_BALANCE_EXEC p this_cpu s =
     (let c = task_cpu (tasks s p);
          dest_cpu = select_method H (sclass (tasks s p)) c p SD_BALANCE_EXEC 0 s
      in if dest_cpu = this_cpu then s
         else if dest_cpu \<in> set (cpus_allowed (tasks s p)) \<and> dest_cpu \<in> set (active s) \<and> migrate_task s c p
         then R c (migration_cpu_stop K H p dest_cpu c) s
         else s)"

text \<open>
  \<open>task_move_group\<close> is the method of the class, where it has one; \<open>set_task_rq\<close>, of the group
  scheduler, sets pointers the model does not have, inside \<open>ext\<close>.
\<close>

definition sched_move_task ::
  "'c hooks \<Rightarrow> (sched_class \<Rightarrow> (nat \<Rightarrow> bool \<Rightarrow> 'c callback) option) \<Rightarrow> (nat \<Rightarrow> nat \<Rightarrow> 'c callback) \<Rightarrow> nat \<Rightarrow>
   'c sys \<Rightarrow> 'c sys" where
  "sched_move_task H task_move_group set_task_rq p s =
     (let c = task_cpu (tasks s p);
          running = task_current s c p;
          queued = on_rq (tasks s p);
          s = (if queued then dequeue_task H c p 0 s else s);
          s = (if running then call (put_prev_method H (sclass (tasks s p)) c p) s else s);
          s = (case task_move_group (sclass (tasks s p)) of
                 Some f \<Rightarrow> call (f p queued) s
               | None \<Rightarrow> call (set_task_rq p (task_cpu (tasks s p))) s);
          s = (if running then call (set_curr_method H (sclass (tasks s p)) c) s else s)
      in if queued then enqueue_task H c p 0 s else s)"

text \<open>
  \<open>yield_to\<close> between taking and releasing the two locks; \<open>me\<close> is the current task, on processor \<open>c\<close>.
  A class that can yield to a task says whether it did.
\<close>

definition yield_to_locked ::
  "(sched_class \<Rightarrow> (nat \<Rightarrow> nat \<Rightarrow> bool \<Rightarrow> 'c sys \<Rightarrow> bool \<times> 'c \<times> (nat \<Rightarrow> bool)) option) \<Rightarrow> nat \<Rightarrow> nat \<Rightarrow> nat \<Rightarrow>
   bool \<Rightarrow> 'c sys \<Rightarrow> 'c sys \<times> bool" where
  "yield_to_locked yield_to_task me c p preempt s =
     (let d = task_cpu (tasks s p) in
      case yield_to_task (sclass (tasks s me)) of
        None \<Rightarrow> (s, False)
      | Some f \<Rightarrow>
          if sclass (tasks s me) \<noteq> sclass (tasks s p) then (s, False)
          else if task_running s d p \<or> state (tasks s p) \<noteq> 0 then (s, False)
          else
            let yielded = fst (f c p preempt s); s = call (\<lambda>s. snd (f c p preempt s)) s
            in (if yielded \<and> preempt \<and> c \<noteq> d then resched_task (curr (rqs s d)) s else s, yielded))"

section \<open>Idle tasks\<close>

definition init_idle_bootup_task :: "nat \<Rightarrow> 'c sys \<Rightarrow> 'c sys" where
  "init_idle_bootup_task p s = set_task p (\<lambda>t. t\<lparr>sclass := idle_sched_class\<rparr>) s"

definition sched_fork_common :: "task \<Rightarrow> task" where
  "sched_fork_common t = t\<lparr>nr_migrations := 0, on_rq := False\<rparr>"

definition init_idle :: "kconsts \<Rightarrow> nat \<Rightarrow> nat \<Rightarrow> 'c sys \<Rightarrow> 'c sys" where
  "init_idle K p c s =
     (let s = set_task p sched_fork_common s;
          s = set_task p (\<lambda>t. t\<lparr>state := TASK_RUNNING K\<rparr>) s;
          s = set_task p (\<lambda>t. t\<lparr>cpus_allowed := [c]\<rparr>) s;
          s = set_task p (\<lambda>t. t\<lparr>task_cpu := c\<rparr>) s;
          s = set_rq c (\<lambda>r. r\<lparr>curr := p, idle := p\<rparr>) s
      in set_task p (\<lambda>t. t\<lparr>sclass := idle_sched_class\<rparr>) s)"

section \<open>A processor goes down\<close>

text \<open>
  The loop of \<open>migrate_tasks\<close>, inside \<open>stop_machine\<close>; \<^const>\<open>None\<close> is a \<open>BUG\<close>, or a loop that never ends.
\<close>

partial_function (option) migrate_loop ::
  "kconsts \<Rightarrow> 'c hooks \<Rightarrow> nat \<Rightarrow> 'c sys \<Rightarrow> 'c sys option" where
  "migrate_loop K H dead s =
     (if nr_running (rqs s dead) = 1 then Some s
      else do {
        (s, nxt) \<leftarrow> pick_next_task H dead s;
        let s = call (put_prev_method H (sclass (tasks s nxt)) dead nxt) s;
        let (dest, msk) = select_fallback_rq H s dead nxt;
        let s = set_task nxt (\<lambda>t. t\<lparr>cpus_allowed := msk\<rparr>) s;
        migrate_loop K H dead (fst (do_migrate_task K H nxt dead dest s)) })"

definition migrate_tasks :: "kconsts \<Rightarrow> 'c hooks \<Rightarrow> nat \<Rightarrow> 'c sys \<Rightarrow> 'c sys option" where
  "migrate_tasks K H dead s =
     (let stp = stop (rqs s dead)
      in map_option (set_rq dead (\<lambda>r. r\<lparr>stop := stp\<rparr>))
           (migrate_loop K H dead (set_rq dead (\<lambda>r. r\<lparr>stop := None\<rparr>) s)))"

end
