(* ===== verification/SchedMachine.thy ===== *)
theory SchedMachine
  imports SchedAffinity
begin

text \<open>
  The runqueues under concurrency: every step takes the lock of one runqueue (or of two, for a
  migration), so the steps of different processors interleave, also between the two parts of a
  wake-up, of the start of a new task and of \<open>schedule\<close>, where the code releases the lock.
\<close>

section \<open>What the rest of the kernel does\<close>

text \<open>
  Load balancing, called from \<open>schedule\<close>, is code of the scheduling classes: it moves queued tasks
  that do not run from one runqueue to another with the functions of this file.
\<close>

inductive balance_moves :: "kconsts \<Rightarrow> 'c hooks \<Rightarrow> 'c sys \<Rightarrow> 'c sys \<Rightarrow> bool" for K H where
  balance_moves_none: "balance_moves K H s s"
| balance_moves_call: "balance_moves K H s s' \<Longrightarrow> balance_moves K H s (call f s')"
| balance_moves_pull:
    "balance_moves K H s s' \<Longrightarrow> p \<in> set (threads s') \<Longrightarrow> on_rq (tasks s' p) \<Longrightarrow> c = task_cpu (tasks s' p) \<Longrightarrow>
     c \<in> set (cpus s') \<Longrightarrow> p \<noteq> curr (rqs s' c) \<Longrightarrow> d \<in> set (cpus s') \<Longrightarrow>
     balance_moves K H s (activate_task K H d p fl (set_task_cpu p d (deactivate_task K H c p fl' s')))"

text \<open>
  The documented behaviour of the code outside the file: \<open>balance_moves\<close> for balancing; a class picks a task
  queued on the processor, or the idle task; the masks of processors; a workqueue wakes up one of
  the threads.
\<close>

definition hooks_ok :: "kconsts \<Rightarrow> 'c hooks \<Rightarrow> nat list \<Rightarrow> bool" where
  "hooks_ok K H cs \<longleftrightarrow>
     (\<forall>c s. balance_moves K H s (pre_balance H c s) \<and> balance_moves K H s (idle_balance H c s) \<and>
        balance_moves K H s (post_balance H c s)) \<and>
     (\<forall>k c s p. fst (pick_next_method H k c s) = Some p \<longrightarrow>
        p \<in> set (threads s) \<and> on_rq (tasks s p) \<and> task_cpu (tasks s p) = c \<or> p = idle (rqs s c)) \<and>
     (\<forall>a b d. cpumask_any_and H a b = Some d \<longrightarrow> d \<in> set a \<and> d \<in> set b) \<and>
     (\<forall>e p. snd (cpuset_fallback H e p) \<in> set (fst (cpuset_fallback H e p)) \<and>
        snd (cpuset_fallback H e p) \<in> set cs) \<and>
     (\<forall>prev c s p. fst (wq_worker_sleeping H prev c s) = Some p \<longrightarrow> p \<in> set (threads s))"

section \<open>The steps\<close>

text \<open>
  \<open>waking\<close>: the wake-ups between their two parts (task, processor, flags of the queue and of the
  wake-up); \<open>switching\<close>: the processors between the two parts of \<open>schedule\<close>, with the kind of the
  switch; \<open>newborn\<close>: the tasks made by \<open>sched_fork\<close> and not yet queued.
\<close>

record 'c machine =
  kernel :: "'c sys"
  waking :: "(nat \<times> nat \<times> u32 \<times> u32) list"
  switching :: "nat \<Rightarrow> bool option"
  newborn :: "nat list"

inductive sched_step :: "kconsts \<Rightarrow> 'c hooks \<Rightarrow> 'c machine \<Rightarrow> 'c machine \<Rightarrow> bool" for K H where
  Wake_return:
    "try_to_wake_up_begin K H tc p msk wfl (kernel M) = (s', Ttwu_return b) \<Longrightarrow>
     p \<in> set (threads (kernel M)) \<Longrightarrow> tc \<in> set (cpus (kernel M)) \<Longrightarrow> msk AND TASK_WAKING K = 0 \<Longrightarrow>
     sched_step K H M (M\<lparr>kernel := s'\<rparr>)"
| Wake_begin:
    "try_to_wake_up_begin K H tc p msk wfl (kernel M) = (s', Ttwu_requeue c fl) \<Longrightarrow>
     p \<in> set (threads (kernel M)) \<Longrightarrow> tc \<in> set (cpus (kernel M)) \<Longrightarrow> msk AND TASK_WAKING K = 0 \<Longrightarrow>
     sched_step K H M (M\<lparr>kernel := s', waking := (p, c, fl, wfl) # waking M\<rparr>)"
| Wake_end:
    "waking M = ws @ (p, c, fl, wfl) # ws' \<Longrightarrow>
     sched_step K H M (M\<lparr>kernel := try_to_wake_up_end K H p c fl wfl (kernel M), waking := ws @ ws'\<rparr>)"
| Schedule_begin:
    "c \<in> set (cpus (kernel M)) \<Longrightarrow> switching M c = None \<Longrightarrow>
     schedule_begin K H c preempt (kernel M) = Some (s', v) \<Longrightarrow>
     sched_step K H M (M\<lparr>kernel := s', switching := (switching M)(c \<mapsto> v)\<rparr>)"
| Schedule_end:
    "c \<in> set (cpus (kernel M)) \<Longrightarrow> switching M c = Some v \<Longrightarrow>
     schedule_end K H c v (kernel M) = Some s' \<Longrightarrow>
     sched_step K H M (M\<lparr>kernel := s', switching := (switching M)(c := None)\<rparr>)"
| Set_state:
    "c \<in> set (cpus (kernel M)) \<Longrightarrow> switching M c = None \<Longrightarrow> p = curr (rqs (kernel M) c) \<Longrightarrow>
     p \<noteq> idle (rqs (kernel M) c) \<Longrightarrow> st \<noteq> TASK_WAKING K \<Longrightarrow>
     sched_step K H M (M\<lparr>kernel := set_task p (\<lambda>t. t\<lparr>state := st\<rparr>) (kernel M)\<rparr>)"
| Fork:
    "c \<in> set (cpus (kernel M)) \<Longrightarrow> q = curr (rqs (kernel M) c) \<Longrightarrow> p \<notin> set (threads (kernel M)) \<Longrightarrow>
     sched_fork K H c q p (set_task p (\<lambda>_. tasks (kernel M) q)
       ((kernel M)\<lparr>threads := p # threads (kernel M)\<rparr>)) = Some s' \<Longrightarrow>
     sched_step K H M (M\<lparr>kernel := s', newborn := p # newborn M\<rparr>)"
| New_begin:
    "p \<in> set (newborn M) \<Longrightarrow> sched_step K H M (M\<lparr>kernel := wake_up_new_task_begin K H p (kernel M)\<rparr>)"
| New_end:
    "newborn M = ps @ p # ps' \<Longrightarrow>
     sched_step K H M (M\<lparr>kernel := wake_up_new_task_end K H p (kernel M), newborn := ps @ ps'\<rparr>)"
| Nice:
    "set_user_nice K H p nice (kernel M) = Some s' \<Longrightarrow> sched_step K H M (M\<lparr>kernel := s'\<rparr>)"
| Set_prio:
    "rt_mutex_setprio K H p x (kernel M) = Some s' \<Longrightarrow> sched_step K H M (M\<lparr>kernel := s'\<rparr>)"
| Set_scheduler:
    "setscheduler_commit K H E p pol old reset x user (kernel M) = Some (s', r) \<Longrightarrow>
     sched_step K H M (M\<lparr>kernel := s'\<rparr>)"
| Set_affinity:
    "p \<in> set (threads (kernel M)) \<Longrightarrow> set_cpus_allowed_ptr K H me p msk (kernel M) = Some (s', r, m) \<Longrightarrow>
     sched_step K H M (M\<lparr>kernel := s'\<rparr>)"
| Migrate:
    "p \<in> set (threads (kernel M)) \<Longrightarrow> src \<in> set (cpus (kernel M)) \<Longrightarrow>
     p \<noteq> curr (rqs (kernel M) src) \<Longrightarrow> do_migrate_task K H p src d (kernel M) = (s', b) \<Longrightarrow>
     sched_step K H M (M\<lparr>kernel := s'\<rparr>)"
| Cpu_down:
    "src \<in> set (cpus (kernel M)) \<Longrightarrow> d \<in> set (cpus (kernel M)) \<Longrightarrow> src \<noteq> d \<Longrightarrow>
     sched_step K H M (M\<lparr>kernel := migrate_nr_uninterruptible src d (kernel M)\<rparr>)"
| Move_group: "sched_step K H M (M\<lparr>kernel := sched_move_task H move setrq p (kernel M)\<rparr>)"
| Yield_to: "sched_step K H M (M\<lparr>kernel := fst (yield_to_locked Y me c p preempt (kernel M))\<rparr>)"
| Outside: "sched_step K H M (M\<lparr>kernel := call f (kernel M)\<rparr>)"

inductive sched_reachable :: "kconsts \<Rightarrow> 'c hooks \<Rightarrow> 'c machine \<Rightarrow> 'c machine \<Rightarrow> bool" for K H M where
  start: "sched_reachable K H M M"
| more: "sched_reachable K H M M' \<Longrightarrow> sched_step K H M' M'' \<Longrightarrow> sched_reachable K H M M''"

section \<open>The invariant\<close>

text \<open>The processors: their idle and current tasks.\<close>

definition cpu_ok :: "'c sys \<Rightarrow> (nat \<Rightarrow> bool option) \<Rightarrow> nat \<Rightarrow> bool" where
  "cpu_ok s sw c \<longleftrightarrow>
     (let i = idle (rqs s c); q = curr (rqs s c) in
      i \<in> set (threads s) \<and> \<not> on_rq (tasks s i) \<and> state (tasks s i) = 0 \<and> task_cpu (tasks s i) = c \<and>
      q \<in> set (threads s) \<and> task_cpu (tasks s q) = c \<and> (sw c = None \<longrightarrow> q = i \<or> on_rq (tasks s q)))"

text \<open>A task that is off every queue and that nobody else will put on one.\<close>

definition reserved :: "'c sys \<Rightarrow> nat \<Rightarrow> bool" where
  "reserved s p \<longleftrightarrow> p \<in> set (threads s) \<and> \<not> on_rq (tasks s p) \<and>
     (\<forall>c \<in> set (cpus s). p \<noteq> curr (rqs s c) \<and> p \<noteq> idle (rqs s c))"

definition wakeup_ok :: "kconsts \<Rightarrow> 'c sys \<Rightarrow> nat \<times> nat \<times> u32 \<times> u32 \<Rightarrow> bool" where
  "wakeup_ok K s w \<longleftrightarrow> (case w of (p, c, _) \<Rightarrow>
     reserved s p \<and> state (tasks s p) = TASK_WAKING K \<and> task_cpu (tasks s p) = c \<and>
     c \<in> set (cpus_allowed (tasks s p)))"

definition newborn_ok :: "kconsts \<Rightarrow> 'c sys \<Rightarrow> nat \<Rightarrow> bool" where
  "newborn_ok K s p \<longleftrightarrow> reserved s p \<and> state (tasks s p) = 0"

definition lists_ok :: "nat list \<Rightarrow> 'c sys \<Rightarrow> bool" where
  "lists_ok cs s \<longleftrightarrow> cpus s = cs \<and> (\<forall>c. online s c \<longrightarrow> c \<in> set cs) \<and> set (active s) \<subseteq> set cs \<and>
     (\<forall>p \<in> set (threads s). task_cpu (tasks s p) \<in> set cs)"

definition sched_inv :: "kconsts \<Rightarrow> nat list \<Rightarrow> 'c machine \<Rightarrow> bool" where
  "sched_inv K cs M \<longleftrightarrow>
     acct K (kernel M) \<and> lists_ok cs (kernel M) \<and>
     (\<forall>c \<in> set cs. cpu_ok (kernel M) (switching M) c) \<and>
     (\<forall>w \<in> set (waking M). wakeup_ok K (kernel M) w) \<and> distinct (map fst (waking M)) \<and>
     (\<forall>p \<in> set (newborn M). newborn_ok K (kernel M) p) \<and> distinct (newborn M)"

section \<open>One task changes\<close>

definition frame :: "nat \<Rightarrow> 'c sys \<Rightarrow> 'c sys \<Rightarrow> bool" where
  "frame p s s' \<longleftrightarrow> threads s' = threads s \<and> cpus s' = cpus s \<and> online s' = online s \<and>
     active s' = active s \<and> (\<forall>q. q \<noteq> p \<longrightarrow> tasks s' q = tasks s q) \<and>
     (\<forall>c. curr (rqs s' c) = curr (rqs s c) \<and> idle (rqs s' c) = idle (rqs s c))"

lemma reserved_frame: "frame p s s' \<Longrightarrow> reserved s q \<Longrightarrow> q \<noteq> p \<Longrightarrow> reserved s' q"
  by (simp add: reserved_def frame_def)

lemma wakeup_frame: "frame p s s' \<Longrightarrow> wakeup_ok K s w \<Longrightarrow> fst w \<noteq> p \<Longrightarrow> wakeup_ok K s' w"
  by (auto simp: wakeup_ok_def reserved_frame) (simp_all add: frame_def)

lemma newborn_frame: "frame p s s' \<Longrightarrow> newborn_ok K s q \<Longrightarrow> q \<noteq> p \<Longrightarrow> newborn_ok K s' q"
  by (auto simp: newborn_ok_def reserved_frame) (simp_all add: frame_def)

lemma cpu_frame:
  assumes "frame p s s'" "cpu_ok s sw c" "sw' c = None \<Longrightarrow> sw c = None"
    "p = idle (rqs s c) \<Longrightarrow> \<not> on_rq (tasks s' p) \<and> state (tasks s' p) = 0 \<and> task_cpu (tasks s' p) = c"
    "p = curr (rqs s c) \<Longrightarrow> task_cpu (tasks s' p) = c \<and>
       (sw' c = None \<longrightarrow> p = idle (rqs s c) \<or> on_rq (tasks s' p))"
  shows "cpu_ok s' sw' c"
proof (cases "p = idle (rqs s c)")
  case True
  then show ?thesis using assms by (cases "curr (rqs s c) = p") (auto simp: cpu_ok_def frame_def Let_def)
next
  case False
  then show ?thesis using assms by (cases "curr (rqs s c) = p") (auto simp: cpu_ok_def frame_def Let_def)
qed

text \<open>
  The shape of most steps: the accounting holds again, the changed task \<open>p\<close> keeps what its roles
  need, and the pending wake-ups and new tasks are old ones of other tasks or fit the new system.
\<close>

lemma inv_change:
  assumes inv: "sched_inv K cs M" and fr: "frame p (kernel M) (kernel M')" and a: "acct K (kernel M')"
    and cpu: "task_cpu (tasks (kernel M') p) \<in> set cs"
    and sw: "\<And>c. switching M' c = None \<Longrightarrow> switching M c = None"
    and idl: "\<And>c. c \<in> set cs \<Longrightarrow> p = idle (rqs (kernel M) c) \<Longrightarrow> \<not> on_rq (tasks (kernel M') p) \<and>
        state (tasks (kernel M') p) = 0 \<and> task_cpu (tasks (kernel M') p) = c"
    and cur: "\<And>c. c \<in> set cs \<Longrightarrow> p = curr (rqs (kernel M) c) \<Longrightarrow> task_cpu (tasks (kernel M') p) = c \<and>
        (switching M' c = None \<longrightarrow> p = idle (rqs (kernel M) c) \<or> on_rq (tasks (kernel M') p))"
    and wk: "\<And>w. w \<in> set (waking M') \<Longrightarrow> w \<in> set (waking M) \<and> fst w \<noteq> p \<or> wakeup_ok K (kernel M') w"
    and dw: "distinct (map fst (waking M'))"
    and nb: "\<And>q. q \<in> set (newborn M') \<Longrightarrow> q \<in> set (newborn M) \<and> q \<noteq> p \<or> newborn_ok K (kernel M') q"
    and dn: "distinct (newborn M')"
  shows "sched_inv K cs M'"
proof -
  have "lists_ok cs (kernel M')"
    using inv fr cpu unfolding sched_inv_def lists_ok_def frame_def
    by (metis (no_types, lifting))
  moreover have "\<forall>c \<in> set cs. cpu_ok (kernel M') (switching M') c"
  proof
    fix c
    assume c: "c \<in> set cs"
    show "cpu_ok (kernel M') (switching M') c"
      using inv c sw [of c] idl [OF c] cur [OF c]
      by (intro cpu_frame [OF fr, of "switching M"]) (auto simp: sched_inv_def)
  qed
  moreover have "\<forall>w \<in> set (waking M'). wakeup_ok K (kernel M') w"
    using inv wk wakeup_frame [OF fr] unfolding sched_inv_def by blast
  moreover have "\<forall>q \<in> set (newborn M'). newborn_ok K (kernel M') q"
    using inv nb newborn_frame [OF fr] unfolding sched_inv_def by blast
  ultimately show ?thesis using a dw dn by (simp add: sched_inv_def)
qed

text \<open>The same for a task that is neither idle nor current anywhere.\<close>

lemma inv_change_off:
  assumes "sched_inv K cs M" "frame p (kernel M) (kernel M')" "acct K (kernel M')"
    "task_cpu (tasks (kernel M') p) \<in> set cs" "switching M' = switching M"
    "\<forall>c \<in> set cs. p \<noteq> idle (rqs (kernel M) c) \<and> p \<noteq> curr (rqs (kernel M) c)"
    "\<And>w. w \<in> set (waking M') \<Longrightarrow> w \<in> set (waking M) \<and> fst w \<noteq> p \<or> wakeup_ok K (kernel M') w"
    "distinct (map fst (waking M'))"
    "\<And>q. q \<in> set (newborn M') \<Longrightarrow> q \<in> set (newborn M) \<and> q \<noteq> p \<or> newborn_ok K (kernel M') q"
    "distinct (newborn M')"
  shows "sched_inv K cs M'"
proof (rule inv_change [OF assms(1-4) _ _ _ assms(7-10)])
  show "switching M' c = None \<Longrightarrow> switching M c = None" for c by (simp add: assms(5))
qed (use assms(6) in blast)+

lemma invD:
  assumes "sched_inv K cs M"
  shows "acct K (kernel M)" "cpus (kernel M) = cs" "distinct cs"
    "\<And>p. p \<in> set (threads (kernel M)) \<Longrightarrow> task_cpu (tasks (kernel M) p) \<in> set cs"
    "\<And>c. online (kernel M) c \<Longrightarrow> c \<in> set cs" "set (active (kernel M)) \<subseteq> set cs"
    "\<And>c. c \<in> set cs \<Longrightarrow> cpu_ok (kernel M) (switching M) c"
    "\<And>w. w \<in> set (waking M) \<Longrightarrow> wakeup_ok K (kernel M) w" "distinct (map fst (waking M))"
    "\<And>p. p \<in> set (newborn M) \<Longrightarrow> newborn_ok K (kernel M) p" "distinct (newborn M)"
  using assms by (auto simp: sched_inv_def lists_ok_def acct_def)

text \<open>Who a task can be, seen from its state.\<close>

lemma cpu_okD:
  assumes "cpu_ok s sw c"
  shows "idle (rqs s c) \<in> set (threads s)" "\<not> on_rq (tasks s (idle (rqs s c)))"
    "state (tasks s (idle (rqs s c))) = 0" "task_cpu (tasks s (idle (rqs s c))) = c"
    "curr (rqs s c) \<in> set (threads s)" "task_cpu (tasks s (curr (rqs s c))) = c"
    "sw c = None \<Longrightarrow> curr (rqs s c) = idle (rqs s c) \<or> on_rq (tasks s (curr (rqs s c)))"
  using assms by (simp_all add: cpu_ok_def Let_def)

lemma wakeup_okD:
  assumes "wakeup_ok K s (p, c, fl, wfl)"
  shows "reserved s p" "state (tasks s p) = TASK_WAKING K" "task_cpu (tasks s p) = c"
    "c \<in> set (cpus_allowed (tasks s p))"
  using assms by (simp_all add: wakeup_ok_def)

lemma newborn_okD:
  assumes "newborn_ok K s p" shows "reserved s p" "state (tasks s p) = 0"
  using assms by (simp_all add: newborn_ok_def)

lemma reservedD:
  assumes "reserved s p"
  shows "p \<in> set (threads s)" "\<not> on_rq (tasks s p)"
    "\<And>c. c \<in> set (cpus s) \<Longrightarrow> p \<noteq> curr (rqs s c)" "\<And>c. c \<in> set (cpus s) \<Longrightarrow> p \<noteq> idle (rqs s c)"
  using assms by (auto simp: reserved_def)

lemma consts_okD:
  assumes "consts_ok K"
  shows "TASK_RUNNING K = 0" "TASK_WAKING K \<noteq> 0" "TASK_WAKING K AND TASK_NORMAL K = 0"
    "\<not> contributes_state K (TASK_RUNNING K) fl" "\<not> contributes_state K (TASK_WAKING K) fl"
  using assms unfolding consts_ok_def by blast+

section \<open>The steps keep the invariant\<close>

lemma inv_same_queues:
  assumes "sched_inv K cs M" "same_queues (kernel M) s'"
  shows "sched_inv K cs (M\<lparr>kernel := s'\<rparr>)"
proof -
  note same = same_queuesD [OF assms(2)]
  have "acct K s'"
    using assms by (auto simp: sched_inv_def intro: same_acct_cong same_queues_acct)
  then show ?thesis using assms(1)
    by (auto simp: sched_inv_def lists_ok_def cpu_ok_def wakeup_ok_def newborn_ok_def reserved_def same Let_def)
qed

lemma same_view_queues: "same_view s s' \<Longrightarrow> same_queues s s'"
  by (simp add: same_view_def same_queues_def)

lemma step_policy:
  "sched_inv K cs M \<Longrightarrow> set_user_nice K H p nice (kernel M) = Some s' \<Longrightarrow> sched_inv K cs (M\<lparr>kernel := s'\<rparr>)"
  "sched_inv K cs M \<Longrightarrow> rt_mutex_setprio K H p x (kernel M) = Some s' \<Longrightarrow> sched_inv K cs (M\<lparr>kernel := s'\<rparr>)"
  "sched_inv K cs M \<Longrightarrow> setscheduler_commit K H E p pol old reset x user (kernel M) = Some (s', r) \<Longrightarrow>
     sched_inv K cs (M\<lparr>kernel := s'\<rparr>)"
  by (blast intro: inv_same_queues set_user_nice_queues rt_mutex_setprio_queues setscheduler_commit_queues)+

text \<open>Moving a task between groups, and yielding to it, leave every runqueue as it was.\<close>

lemma sched_move_task_queues: "same_queues s (sched_move_task H move setrq p s)"
  by (auto simp: same_queues_def sched_move_task_def Let_def task_place_def rq_view_def split: option.split)

lemma yield_to_view: "same_view s (fst (yield_to_locked Y me c p preempt s))"
  by (auto simp: yield_to_locked_def Let_def same_view_def rq_view_def split: option.split)

text \<open>A task that a mask selects is neither idle, nor waking, nor new.\<close>

lemma wakeable:
  assumes "sched_inv K cs M" "state (tasks (kernel M) p) AND msk \<noteq> 0" "msk AND TASK_WAKING K = 0"
  shows "\<And>w. w \<in> set (waking M) \<Longrightarrow> fst w \<noteq> p" "p \<notin> set (newborn M)"
    "\<And>c. c \<in> set cs \<Longrightarrow> p \<noteq> idle (rqs (kernel M) c)"
proof -
  show "p \<notin> set (newborn M)"
    using newborn_okD(2) [OF invD(10) [OF assms(1)], of p] assms(2) by auto
  show "p \<noteq> idle (rqs (kernel M) c)" if "c \<in> set cs" for c
    using cpu_okD(3) [OF invD(7) [OF assms(1) that]] assms(2) by auto
  show "fst w \<noteq> p" if "w \<in> set (waking M)" for w
  proof
    obtain q c fl wfl where w: "w = (q, c, fl, wfl)" by (cases w)
    assume "fst w = p"
    then have "state (tasks (kernel M) p) = TASK_WAKING K"
      using wakeup_okD(2) invD(8) [OF assms(1) that] w by auto
    then show False using assms(2,3) by (simp add: and.commute)
  qed
qed

lemma wakeup_okI:
  "reserved s p \<Longrightarrow> state (tasks s p) = TASK_WAKING K \<Longrightarrow> task_cpu (tasks s p) = c \<Longrightarrow>
   c \<in> set (cpus_allowed (tasks s p)) \<Longrightarrow> wakeup_ok K s (p, c, fl, wfl)"
  by (simp add: wakeup_ok_def)

lemma frame_post_activation [simp]: "frame p s (ttwu_post_activation K H c p fl b s)"
  by (simp add: frame_def)

lemma frame_activate: "frame p s (activate_task K H c p fl s)"
  by (simp add: frame_def)

lemma frame_trans: "frame p s s' \<Longrightarrow> frame p s' s'' \<Longrightarrow> frame p s s''"
  by (simp add: frame_def)

text \<open>The parts of a wake-up that queue the task \<open>p\<close> or find it queued.\<close>

lemma inv_woken:
  assumes inv: "sched_inv K cs M" and p: "p \<in> set (threads (kernel M))"
    and K: "consts_ok K"
    and free: "\<And>w. w \<in> set (waking M') \<Longrightarrow> w \<in> set (waking M) \<and> fst w \<noteq> p" "distinct (map fst (waking M'))"
      "\<And>q. q \<in> set (newborn M') \<Longrightarrow> q \<in> set (newborn M) \<and> q \<noteq> p" "distinct (newborn M')"
      "\<And>c. c \<in> set cs \<Longrightarrow> p \<noteq> idle (rqs (kernel M) c)"
    and s': "frame p (kernel M) (kernel M')" "acct K (kernel M')" "on_rq (tasks (kernel M') p)"
      "task_cpu (tasks (kernel M') p) = task_cpu (tasks (kernel M) p)" "switching M' = switching M"
  shows "sched_inv K cs M'"
proof (rule inv_change [OF inv s'(1,2)])
  show "task_cpu (tasks (kernel M') p) \<in> set cs" using invD(4) [OF inv p] s'(4) by simp
  fix c
  assume c: "c \<in> set cs" and q: "p = curr (rqs (kernel M) c)"
  show "task_cpu (tasks (kernel M') p) = c \<and>
      (switching M' c = None \<longrightarrow> p = idle (rqs (kernel M) c) \<or> on_rq (tasks (kernel M') p))"
    using cpu_okD(6) [OF invD(7) [OF inv c]] s'(3,4) q by simp
qed (use free s'(5) in \<open>blast | simp\<close>)+

lemma step_wake_return:
  assumes inv: "sched_inv K cs M" and p: "p \<in> set (threads (kernel M))" and K: "consts_ok K"
    and m: "msk AND TASK_WAKING K = 0"
    and b: "try_to_wake_up_begin K H tc p msk wfl (kernel M) = (s', Ttwu_return b)"
  shows "sched_inv K cs (M\<lparr>kernel := s'\<rparr>)"
proof (cases "state (tasks (kernel M) p) AND msk = 0")
  case True
  then have "s' = kernel M" using b by (simp add: try_to_wake_up_begin_def Let_def)
  then show ?thesis using inv by (cases M) simp
next
  case False
  let ?s = "kernel M" and ?c = "task_cpu (tasks (kernel M) p)"
  note free = wakeable [OF inv False m]
  consider "on_rq (tasks ?s p)" "s' = ttwu_post_activation K H ?c p wfl False ?s"
    | "\<not> on_rq (tasks ?s p)"
      "s' = ttwu_post_activation K H ?c p wfl True (activate_task K H ?c p (ENQUEUE_WAKEUP K) ?s)"
    using b False
    by (auto simp: try_to_wake_up_begin_def Let_def ttwu_activate_def split: if_splits prod.splits option.splits)
  then show ?thesis
  proof cases
    case 1
    show ?thesis
      by (rule inv_woken [OF inv p K])
        (use 1 free invD(1,9,11) [OF inv] in \<open>auto intro: acct_post_activation\<close>)
  next
    case 2
    then have "acct K (activate_task K H ?c p (ENQUEUE_WAKEUP K) ?s)"
      using p invD(1,2,4) [OF inv] by (intro acct_activate) auto
    then have "acct K s'" using 2 by (auto intro: acct_post_activation)
    then show ?thesis
      by (intro inv_woken [OF inv p K])
        (use 2 free invD(9,11) [OF inv] in \<open>auto simp: frame_def\<close>)
  qed
qed

lemma hooks_okD:
  assumes "hooks_ok K H cs"
  shows "balance_moves K H s (pre_balance H c s)" "balance_moves K H s (idle_balance H c s)"
    "balance_moves K H s (post_balance H c s)"
    "fst (pick_next_method H k c s) = Some p \<Longrightarrow>
       p \<in> set (threads s) \<and> on_rq (tasks s p) \<and> task_cpu (tasks s p) = c \<or> p = idle (rqs s c)"
    "cpumask_any_and H a b = Some d \<Longrightarrow> d \<in> set a \<and> d \<in> set b"
    "snd (cpuset_fallback H e p) \<in> set (fst (cpuset_fallback H e p))"
    "snd (cpuset_fallback H e p) \<in> set cs"
    "fst (wq_worker_sleeping H prev c s) = Some p \<Longrightarrow> p \<in> set (threads s)"
  using assms unfolding hooks_ok_def by blast+

text \<open>The processor chosen is allowed, by the mask the task has afterwards.\<close>

lemma select_task_rq_allowed:
  assumes H: "hooks_ok K H cs" and d: "select_task_rq H s c p sd wfl = (d, m)"
    and "\<And>c. online s c \<Longrightarrow> c \<in> set cs" "set (active s) \<subseteq> set cs"
  shows "d \<in> set m" "d \<in> set cs"
proof -
  have fb: "d \<in> set m \<and> d \<in> set cs" if "select_fallback_rq H s c' p = (d, m)" for c'
  proof (cases "find (\<lambda>d. d \<in> set (active s) \<and> d \<in> set (cpus_allowed (tasks s p))) (cpumask_of_node H c')")
    case (Some e)
    then have "d = e" "m = cpus_allowed (tasks s p)"
      using that by (simp_all add: select_fallback_rq_def Let_def)
    moreover have "e \<in> set (active s)" "e \<in> set (cpus_allowed (tasks s p))"
      using Some by (auto simp: find_Some_iff)
    ultimately show ?thesis using assms(4) by auto
  next
    case None
    show ?thesis
    proof (cases "cpumask_any_and H (cpus_allowed (tasks s p)) (active s)")
      case (Some e)
      then have "d = e" using that None by (simp add: select_fallback_rq_def Let_def)
      moreover have "m = cpus_allowed (tasks s p)"
        using that None Some by (simp add: select_fallback_rq_def Let_def)
      ultimately show ?thesis using hooks_okD(5) [OF H Some] assms(4) by auto
    next
      case none: None
      then have "d = snd (cpuset_fallback H (ext s) p)" "m = fst (cpuset_fallback H (ext s) p)"
        using that None by (simp_all add: select_fallback_rq_def Let_def split_beta)
      then show ?thesis using hooks_okD(6,7) [OF H] by simp
    qed
  qed
  have "d \<in> set m \<and> d \<in> set cs"
    using d fb assms(3) by (auto simp: select_task_rq_def Let_def split: if_splits)
  then show "d \<in> set m" "d \<in> set cs" by simp_all
qed

lemma frame_set_task [simp]: "frame p s (set_task p f s)"
  by (simp add: frame_def)

lemma frame_set_task_cpu [simp]: "frame p s (set_task_cpu p c s)"
  by (simp add: frame_def)

text \<open>Placing an unqueued task: a new mask and a new processor.\<close>

lemma place_simps [simp]:
  "threads (place p m d s) = threads s" "frame p s (place p m d s)"
  "on_rq (tasks (place p m d s) p) = on_rq (tasks s p)"
  "state (tasks (place p m d s) p) = state (tasks s p)"
  "task_cpu (tasks (place p m d s) p) = d" "cpus_allowed (tasks (place p m d s) p) = m"
  by (simp_all add: place_def Let_def frame_def)

lemma acct_place:
  assumes "acct K s" "p \<in> set (threads s)" "\<not> on_rq (tasks s p)"
  shows "acct K (place p m d s)"
proof -
  have "place p m d s = set_task p (\<lambda>_. tasks (place p m d s) p) s"
    by (simp add: place_def Let_def set_task_cpu_def set_task_def)
  moreover have "acct K (set_task p (\<lambda>_. tasks (place p m d s) p) s)"
    using assms by (intro acct_unqueued) (simp_all add: place_def Let_def)
  ultimately show ?thesis by simp
qed

lemma begin_requeue:
  assumes "try_to_wake_up_begin K H tc p msk wfl s = (s', Ttwu_requeue d fl)"
  shows "\<exists>c s1 m. (c = task_cpu (tasks s p) \<or> c = tc) \<and> same_view (waking_sys K c p s) s1 \<and>
    s' = place p m d s1 \<and> select_task_rq H s1 (task_cpu (tasks s p)) p (SD_BALANCE_WAKE K) wfl = (d, m) \<and>
    state (tasks s p) AND msk \<noteq> 0 \<and> \<not> on_rq (tasks s p) \<and> curr (rqs s (task_cpu (tasks s p))) \<noteq> p"
proof -
  let ?c = "if online s (task_cpu (tasks s p)) then task_cpu (tasks s p) else tc"
  let ?f = "task_waking_method H (sclass (tasks s p))"
  let ?s = "case ?f of Some f \<Rightarrow> call (f (task_cpu (tasks s p)) p) (waking_sys K ?c p s) | None \<Rightarrow> waking_sys K ?c p s"
  have g: "\<not> state (tasks s p) AND msk = 0" "\<not> on_rq (tasks s p)"
    "\<not> task_running s (task_cpu (tasks s p)) p"
    using assms by (auto simp: try_to_wake_up_begin_def Let_def split: if_splits)
  have cls: "sclass (tasks (waking_sys K ?c p s) p) = sclass (tasks s p)" by simp
  define S where "S = ?s"
  define en where "en = (case ?f of Some f \<Rightarrow> ENQUEUE_WAKEUP K OR ENQUEUE_WAKING K | None \<Rightarrow> ENQUEUE_WAKEUP K)"
  have "try_to_wake_up_begin K H tc p msk wfl s =
      (let (d, m) = select_task_rq H S (task_cpu (tasks s p)) p (SD_BALANCE_WAKE K) wfl
       in (place p m d S, Ttwu_requeue d en))"
    using g by (simp add: try_to_wake_up_begin_def Let_def cls S_def en_def)
  then have e: "s' = place p (snd (select_task_rq H S (task_cpu (tasks s p)) p (SD_BALANCE_WAKE K) wfl)) d S"
    "fst (select_task_rq H S (task_cpu (tasks s p)) p (SD_BALANCE_WAKE K) wfl) = d"
    using assms by (auto simp: split_beta Let_def)
  define m where "m = snd (select_task_rq H S (task_cpu (tasks s p)) p (SD_BALANCE_WAKE K) wfl)"
  have sel: "select_task_rq H S (task_cpu (tasks s p)) p (SD_BALANCE_WAKE K) wfl = (d, m)"
      "s' = place p m d S"
    using e by (simp_all add: m_def prod_eq_iff)
  have "same_view (waking_sys K ?c p s) S" unfolding S_def by (auto split: option.split intro: silent)
  then show ?thesis using sel g
    by (intro exI [of _ ?c] exI [of _ S] exI [of _ m]) (auto simp: task_running_def task_current_def)
qed

lemma step_wake_begin:
  assumes inv: "sched_inv K cs M" and p: "p \<in> set (threads (kernel M))" and K: "consts_ok K"
    and H: "hooks_ok K H cs" and tc: "tc \<in> set cs" and m: "msk AND TASK_WAKING K = 0"
    and b: "try_to_wake_up_begin K H tc p msk wfl (kernel M) = (s', Ttwu_requeue d fl)"
  shows "sched_inv K cs (M\<lparr>kernel := s', waking := (p, d, fl, wfl) # waking M\<rparr>)"
proof -
  let ?s = "kernel M" and ?c = "task_cpu (tasks (kernel M) p)"
  obtain c s1 mk where c: "c = ?c \<or> c = tc" and v: "same_view (waking_sys K c p ?s) s1"
      and s': "s' = place p mk d s1" and sel: "select_task_rq H s1 ?c p (SD_BALANCE_WAKE K) wfl = (d, mk)"
      and w: "state (tasks ?s p) AND msk \<noteq> 0" and q: "\<not> on_rq (tasks ?s p)" and r: "curr (rqs ?s ?c) \<noteq> p"
    using begin_requeue [OF b] by blast
  note free = wakeable [OF inv w m]
  have ccs: "c \<in> set cs" using c tc invD(4) [OF inv p] by auto
  have a1: "acct K s1"
    using acct_view [OF v] acct_waking_sys [OF invD(1) [OF inv] p q _ K] ccs invD(2) [OF inv] by simp
  note v' = same_viewD [OF v]
  have t1: "tasks s1 = (tasks ?s)(p := (tasks ?s p)\<lparr>state := TASK_WAKING K\<rparr>)"
    by (simp add: v'(5))
  have fr1: "frame p ?s s1"
    using v' by (simp add: frame_def t1)
  have d: "d \<in> set mk" "d \<in> set cs"
    using select_task_rq_allowed [OF H sel] invD(5,6) [OF inv] v' by simp_all
  have fr: "frame p ?s s'" using fr1 by (auto simp: s' intro: frame_trans)
  have notcurr: "p \<noteq> curr (rqs ?s e)" if "e \<in> set cs" for e
    using cpu_okD(6) [OF invD(7) [OF inv that]] r by auto
  have res: "reserved s' p"
    using fr p q notcurr free(3) invD(2) [OF inv] t1
    by (auto simp: reserved_def frame_def s')
  have ok: "wakeup_ok K s' (p, d, fl, wfl)"
    using res d(1) t1 by (intro wakeup_okI) (simp_all add: s')
  have a: "acct K s'"
    unfolding s' using a1 fr1 p q t1 by (intro acct_place) (auto simp: frame_def)
  have "\<forall>e \<in> set cs. p \<noteq> idle (rqs ?s e) \<and> p \<noteq> curr (rqs ?s e)" using free(3) notcurr by blast
  then show ?thesis
    using fr a d(2) ok free(1,2) invD(9,11) [OF inv]
    by (intro inv_change_off [OF inv, of p]) (fastforce simp: s')+
qed

lemma step_wake_end:
  assumes inv: "sched_inv K cs M" and K: "consts_ok K" and w: "waking M = ws @ (p, c, fl, wfl) # ws'"
  shows "sched_inv K cs (M\<lparr>kernel := try_to_wake_up_end K H p c fl wfl (kernel M), waking := ws @ ws'\<rparr>)"
proof -
  have ok: "wakeup_ok K (kernel M) (p, c, fl, wfl)" using invD(8) [OF inv] w by simp
  note o = wakeup_okD [OF ok] and r = reservedD [OF wakeup_okD(1) [OF ok]]
  have "acct K (activate_task K H c p fl (kernel M))"
    using r o(3) invD(1,2,4) [OF inv] by (intro acct_activate) auto
  then have a: "acct K (try_to_wake_up_end K H p c fl wfl (kernel M))"
    by (auto simp: try_to_wake_up_end_def ttwu_activate_def intro: acct_post_activation)
  have fresh: "fst x \<noteq> p" if "x \<in> set (ws @ ws')" for x
    using invD(9) [OF inv] that by (auto simp: w)
  have nb: "p \<notin> set (newborn M)"
    using newborn_okD(2) [OF invD(10) [OF inv], of p] o(2) consts_okD(2) [OF K] by auto
  show ?thesis
    using invD(9,11) [OF inv] fresh nb r o(3) invD(2) [OF inv] a
    by (intro inv_woken [OF inv r(1) K])
      (auto simp: w try_to_wake_up_end_def ttwu_activate_def frame_def)
qed

text \<open>A queued task is neither idle, nor waking, nor new.\<close>

lemma queued_free:
  assumes "sched_inv K cs M" "on_rq (tasks (kernel M) p)"
  shows "\<And>w. w \<in> set (waking M) \<Longrightarrow> fst w \<noteq> p" "p \<notin> set (newborn M)"
    "\<And>c. c \<in> set cs \<Longrightarrow> p \<noteq> idle (rqs (kernel M) c)"
proof -
  show "p \<notin> set (newborn M)"
    using reservedD(2) [OF newborn_okD(1) [OF invD(10) [OF assms(1)]], of p] assms(2) by auto
  show "p \<noteq> idle (rqs (kernel M) c)" if "c \<in> set cs" for c
    using cpu_okD(2) [OF invD(7) [OF assms(1) that]] assms(2) by auto
  show "fst w \<noteq> p" if "w \<in> set (waking M)" for w
  proof
    obtain q c fl wfl where w: "w = (q, c, fl, wfl)" by (cases w)
    assume "fst w = p"
    then show False
      using reservedD(2) [OF wakeup_okD(1) [OF invD(8) [OF assms(1) that, unfolded w]]] w assms(2) by simp
  qed
qed

text \<open>A queued task that stays queued on its processor.\<close>

lemma inv_queued:
  assumes "sched_inv K cs M" "on_rq (tasks (kernel M) p)" "p \<in> set (threads (kernel M))" "consts_ok K"
    "frame p (kernel M) s'" "on_rq (tasks s' p)" "task_cpu (tasks s' p) = task_cpu (tasks (kernel M) p)"
    "acct K s'"
  shows "sched_inv K cs (M\<lparr>kernel := s'\<rparr>)"
  using assms(5-8) queued_free [OF assms(1,2)] invD(9,11) [OF assms(1)]
  by (intro inv_woken [OF assms(1,3,4)]) auto

lemma inv_switching:
  "sched_inv K cs M \<Longrightarrow> sched_inv K cs (M\<lparr>switching := (switching M)(c \<mapsto> v)\<rparr>)"
  by (auto simp: sched_inv_def cpu_ok_def Let_def)

lemma step_wake_local:
  assumes inv: "sched_inv K cs M" and K: "consts_ok K" and p: "p \<in> set (threads (kernel M))"
    and w: "try_to_wake_up_local K H c p (kernel M) = Some s'"
  shows "sched_inv K cs (M\<lparr>kernel := s'\<rparr>) \<and> curr (rqs s' c) = curr (rqs (kernel M) c) \<and>
    state (tasks s' (curr (rqs (kernel M) c))) = state (tasks (kernel M) (curr (rqs (kernel M) c)))"
proof -
  let ?s = "kernel M"
  have pc: "task_cpu (tasks ?s p) = c" "p \<noteq> curr (rqs ?s c)"
    using w unfolding try_to_wake_up_local_def by (metis option.distinct(1))+
  consider "s' = ?s" | "on_rq (tasks ?s p)" "s' = ttwu_post_activation K H c p 0 False ?s"
    | "\<not> on_rq (tasks ?s p)" "state (tasks ?s p) AND TASK_NORMAL K \<noteq> 0"
      "s' = ttwu_post_activation K H c p 0 True (activate_task K H c p (ENQUEUE_WAKEUP K) ?s)"
    using w pc unfolding try_to_wake_up_local_def ttwu_activate_def by (metis option.inject)
  then show ?thesis
  proof cases
    case 1
    then show ?thesis using inv by (cases M) simp
  next
    case 2
    have "sched_inv K cs (M\<lparr>kernel := s'\<rparr>)"
    proof (rule inv_queued [OF inv 2(1) p K])
      show "acct K s'" using invD(1) [OF inv] 2 by (simp add: acct_post_activation)
    qed (simp_all add: 2)
    then show ?thesis using 2 pc(2) by simp
  next
    case 3
    have "TASK_NORMAL K AND TASK_WAKING K = 0" using consts_okD(3) [OF K] by (simp add: and.commute)
    note free = wakeable [OF inv 3(2) this]
    have "acct K (activate_task K H c p (ENQUEUE_WAKEUP K) ?s)"
      using 3(1) p pc invD(1,2,4) [OF inv] by (intro acct_activate) auto
    then have a: "acct K s'" unfolding 3 by (rule acct_post_activation) simp
    have "sched_inv K cs (M\<lparr>kernel := s'\<rparr>)"
    proof (rule inv_woken [OF inv p K])
      show "frame p ?s (kernel (M\<lparr>kernel := s'\<rparr>))" by (simp add: frame_def 3(3))
    qed (use a free invD(9,11) [OF inv] in \<open>auto simp: 3(3)\<close>)
    then show ?thesis using 3(3) pc(2) by simp
  qed
qed

text \<open>The current task leaves the queue while its processor is between the parts of \<open>schedule\<close>.\<close>

lemma inv_deactivate_current:
  assumes inv: "sched_inv K cs M" and c: "c \<in> set cs" and sw: "switching M c = None"
    and st: "state (tasks (kernel M) (curr (rqs (kernel M) c))) \<noteq> 0"
  shows "sched_inv K cs (M\<lparr>kernel := deactivate_task K H c (curr (rqs (kernel M) c)) fl (kernel M),
      switching := (switching M)(c \<mapsto> v)\<rparr>)"
proof -
  let ?s = "kernel M" and ?p = "curr (rqs (kernel M) c)"
  note cp = cpu_okD [OF invD(7) [OF inv c]]
  have q: "on_rq (tasks ?s ?p)" using cp(3,7) sw st by auto
  note free = queued_free [OF inv q]
  have a: "acct K (deactivate_task K H c ?p fl ?s)"
    using q cp(5,6) c invD(1,2) [OF inv] by (intro acct_deactivate) auto
  have one: "d = c" if "d \<in> set cs" "?p = curr (rqs ?s d)" for d
    using cpu_okD(6) [OF invD(7) [OF inv that(1)]] cp(6) that(2) by simp
  show ?thesis
  proof (rule inv_change [OF inv])
    show "frame ?p ?s (kernel (M\<lparr>kernel := deactivate_task K H c ?p fl ?s,
        switching := (switching M)(c \<mapsto> v)\<rparr>))" by (simp add: frame_def)
    fix d
    assume "d \<in> set cs" "?p = curr (rqs ?s d)"
    then show "task_cpu (tasks (kernel (M\<lparr>kernel := deactivate_task K H c ?p fl ?s,
          switching := (switching M)(c \<mapsto> v)\<rparr>)) ?p) = d \<and>
        (switching (M\<lparr>kernel := deactivate_task K H c ?p fl ?s, switching := (switching M)(c \<mapsto> v)\<rparr>) d = None \<longrightarrow>
         ?p = idle (rqs ?s d) \<or> on_rq (tasks (kernel (M\<lparr>kernel := deactivate_task K H c ?p fl ?s,
          switching := (switching M)(c \<mapsto> v)\<rparr>)) ?p))"
      using one cp(6) by auto
  qed (use a c cp(6) free invD(9,11) [OF inv] in \<open>auto split: if_splits\<close>)
qed

lemma step_schedule_begin:
  assumes inv: "sched_inv K cs M" and K: "consts_ok K" and H: "hooks_ok K H cs"
    and c: "c \<in> set cs" and sw: "switching M c = None"
    and b: "schedule_begin K H c preempt (kernel M) = Some (s', v)"
  shows "sched_inv K cs (M\<lparr>kernel := s', switching := (switching M)(c \<mapsto> v)\<rparr>)"
proof -
  let ?s = "kernel M" and ?p = "curr (rqs (kernel M) c)"
  note cp = cpu_okD [OF invD(7) [OF inv c]]
  show ?thesis
  proof (cases "state (tasks ?s ?p) \<noteq> 0 \<and> \<not> preempt")
    case False
    then have "s' = ?s" using b by (auto simp: schedule_begin_def Let_def)
    then show ?thesis using inv_switching [OF inv, of c v] by (cases M) simp
  next
    case st: True
    have q: "on_rq (tasks ?s ?p)" using cp(3,7) sw st by auto
    show ?thesis
    proof (cases "signal_pending_state H (state (tasks ?s ?p)) ?p (ext ?s)")
      case True
      then have s': "s' = set_task ?p (\<lambda>t. t\<lparr>state := TASK_RUNNING K\<rparr>) ?s"
        using b st by (simp add: schedule_begin_def Let_def)
      have "acct K s'"
        by (rule same_acct_cong [OF _ invD(1) [OF inv]]) (simp add: same_acct_def s' q)
      then have "sched_inv K cs (M\<lparr>kernel := s'\<rparr>)"
        using q cp(5) by (intro inv_queued [OF inv q cp(5) K]) (simp_all add: s')
      from inv_switching [OF this, of c v] show ?thesis by simp
    next
      case False
      define s0 where "s0 = call (\<lambda>_. snd (wq_worker_sleeping H ?p c ?s)) ?s"
      have i0: "sched_inv K cs (M\<lparr>kernel := s0\<rparr>)"
        unfolding s0_def by (intro inv_same_queues [OF inv] same_view_queues silent)
      obtain s1 where s1: "sched_inv K cs (M\<lparr>kernel := s1\<rparr>)" "curr (rqs s1 c) = ?p"
          "state (tasks s1 ?p) = state (tasks ?s ?p)" "s' = deactivate_task K H c ?p (DEQUEUE_SLEEP K) s1"
      proof (cases "flags (tasks ?s ?p) AND PF_WQ_WORKER K \<noteq> 0")
        case True
        show ?thesis
        proof (cases "fst (wq_worker_sleeping H ?p c ?s)")
          case None
          then have "s' = deactivate_task K H c ?p (DEQUEUE_SLEEP K) s0"
            using b st False True by (simp add: schedule_begin_def Let_def split_beta s0_def)
          then show ?thesis using that [of s0] i0 by (simp add: s0_def)
        next
          case (Some w)
          then obtain s1 where l: "try_to_wake_up_local K H c w s0 = Some s1"
              "s' = deactivate_task K H c ?p (DEQUEUE_SLEEP K) s1"
            using b st False True
            by (auto simp: schedule_begin_def Let_def split_beta s0_def bind_eq_Some_conv)
          have "w \<in> set (threads s0)" using hooks_okD(8) [OF H Some] by (simp add: s0_def)
          then have f: "sched_inv K cs (M\<lparr>kernel := s1\<rparr>)" "curr (rqs s1 c) = ?p"
              "state (tasks s1 ?p) = state (tasks ?s ?p)"
            using step_wake_local [OF i0 K, where p = w and H = H and c = c and s' = s1] l(1) by (simp_all add: s0_def)
          show ?thesis by (rule that [OF f l(2)])
        qed
      next
        case no: False
        then have "s' = deactivate_task K H c ?p (DEQUEUE_SLEEP K) ?s"
          using b st False by (simp add: schedule_begin_def Let_def)
        then show ?thesis using that [of ?s] inv by (cases M) simp
      qed
      have "sched_inv K cs (M\<lparr>kernel := s', switching := (switching (M\<lparr>kernel := s1\<rparr>))(c \<mapsto> v)\<rparr>)"
        using inv_deactivate_current [OF s1(1) c, where H = H and fl = "DEQUEUE_SLEEP K" and v = v] sw st s1(2-4) by simp
      then show ?thesis by simp
    qed
  qed
qed

text \<open>Load balancing.\<close>

lemma step_moves:
  assumes "balance_moves K H s s'" "sched_inv K cs M" "kernel M = s" "consts_ok K"
  shows "sched_inv K cs (M\<lparr>kernel := s'\<rparr>)"
  using assms
proof (induction rule: balance_moves.induct)
  case (balance_moves_none s)
  then show ?case by (cases M) simp
next
  case (balance_moves_call s s' f)
  have "sched_inv K cs (M\<lparr>kernel := s'\<rparr>)" using balance_moves_call by simp
  from inv_same_queues [OF this, of "call f s'"] show ?case
    by (simp add: same_view_queues silent)
next
  case (balance_moves_pull s s' p c d fl fl')
  let ?M = "M\<lparr>kernel := s'\<rparr>"
  have inv: "sched_inv K cs ?M" using balance_moves_pull by simp
  have q: "on_rq (tasks (kernel ?M) p)" using balance_moves_pull by simp
  note free = queued_free [OF inv q]
  have cd: "c \<in> set cs" "d \<in> set cs" using balance_moves_pull invD(2) [OF inv] by auto
  have "p \<noteq> curr (rqs s' e)" if "e \<in> set cs" for e
    using cpu_okD(6) [OF invD(7) [OF inv that]] balance_moves_pull by auto
  then have off: "\<forall>e \<in> set cs. p \<noteq> idle (rqs (kernel ?M) e) \<and> p \<noteq> curr (rqs (kernel ?M) e)"
    using free(3) by auto
  let ?s = "activate_task K H d p fl (set_task_cpu p d (deactivate_task K H c p fl' s'))"
  have "acct K ?s" using balance_moves_pull invD(1,2) [OF inv] cd by (intro acct_move) auto
  moreover have "frame p (kernel ?M) ?s" by (simp add: frame_def)
  ultimately have "sched_inv K cs (?M\<lparr>kernel := ?s\<rparr>)"
    using cd(2) off free(1,2) invD(9,11) [OF inv]
    by (intro inv_change_off [OF inv, of p]) auto
  then show ?case by simp
qed

text \<open>Another task becomes current.\<close>

lemma inv_switch:
  assumes inv: "sched_inv K cs M" and c: "c \<in> set cs"
    and nxt: "nxt \<in> set (threads (kernel M)) \<and> on_rq (tasks (kernel M) nxt) \<and> task_cpu (tasks (kernel M) nxt) = c
      \<or> nxt = idle (rqs (kernel M) c)"
    and views: "threads s' = threads (kernel M)" "cpus s' = cpus (kernel M)"
      "online s' = online (kernel M)" "active s' = active (kernel M)"
      "\<And>p. task_place (tasks s' p) = task_place (tasks (kernel M) p)"
      "\<And>d. idle (rqs s' d) = idle (rqs (kernel M) d)"
      "\<And>d. curr (rqs s' d) = (if d = c then nxt else curr (rqs (kernel M) d))"
      "\<And>d. nr_running (rqs s' d) = nr_running (rqs (kernel M) d)"
      "\<And>d. nr_uninterruptible (rqs s' d) = nr_uninterruptible (rqs (kernel M) d)"
  shows "sched_inv K cs (M\<lparr>kernel := s', switching := (switching M)(c := None)\<rparr>)"
proof -
  have pl: "state (tasks s' p) = state (tasks (kernel M) p)" "on_rq (tasks s' p) = on_rq (tasks (kernel M) p)"
    "task_cpu (tasks s' p) = task_cpu (tasks (kernel M) p)"
    "cpus_allowed (tasks s' p) = cpus_allowed (tasks (kernel M) p)"
    "task_contributes_to_load K (tasks s' p) = task_contributes_to_load K (tasks (kernel M) p)" for p
    using views(5) [of p] place_contributes [OF views(5)] by (simp_all add: task_place_def)
  have a: "acct K s'"
    by (rule same_acct_cong [OF _ invD(1) [OF inv]]) (simp add: same_acct_def views pl)
  have cpu: "cpu_ok s' ((switching M)(c := None)) d" if "d \<in> set cs" for d
  proof (cases "d = c")
    case True
    then show ?thesis using cpu_okD(1-4) [OF invD(7) [OF inv c]] nxt
      by (auto simp: cpu_ok_def Let_def views pl)
  next
    case False
    then show ?thesis using invD(7) [OF inv that] by (simp add: cpu_ok_def Let_def views pl)
  qed
  have res: "reserved s' p" if "reserved (kernel M) p" for p
    using that nxt c invD(2) [OF inv] by (auto simp: reserved_def views pl)
  show ?thesis
    using inv a cpu res
    by (auto simp: sched_inv_def lists_ok_def wakeup_ok_def newborn_ok_def views pl)
qed

lemma call_pick_simps [simp]:
  "rqs (fst (call_pick H k c s)) = rqs s" "tasks (fst (call_pick H k c s)) = tasks s"
  "threads (fst (call_pick H k c s)) = threads s" "cpus (fst (call_pick H k c s)) = cpus s"
  "online (fst (call_pick H k c s)) = online s" "active (fst (call_pick H k c s)) = active s"
  by (simp_all add: call_pick_def)

text \<open>What \<open>pick_next_task\<close> returns is queued on the processor, or its idle task.\<close>

lemma call_pick_Some:
  assumes "hooks_ok K H cs" "call_pick H k c s = (s', Some p)"
  shows "same_view s s' \<and> (p \<in> set (threads s) \<and> on_rq (tasks s p) \<and> task_cpu (tasks s p) = c \<or> p = idle (rqs s c))"
proof -
  have "s' = call (\<lambda>s. snd (pick_next_method H k c s)) s" "fst (pick_next_method H k c s) = Some p"
    using assms(2) by (auto simp: call_pick_def)
  then show ?thesis using hooks_okD(4) [OF assms(1)] by (auto intro: silent)
qed

lemma pick_in_order_ok:
  assumes H: "hooks_ok K H cs"
  shows "pick_in_order H ks c s = Some (s', p) \<Longrightarrow> same_view s s' \<and>
    (p \<in> set (threads s) \<and> on_rq (tasks s p) \<and> task_cpu (tasks s p) = c \<or> p = idle (rqs s c))"
proof (induction ks arbitrary: s)
  case (Cons k ks)
  obtain s1 o1 where k: "call_pick H k c s = (s1, o1)" by fastforce
  show ?case
  proof (cases o1)
    case (Some q)
    then show ?thesis using Cons.prems k call_pick_Some [OF H, of k c s s1 q] by simp
  next
    case None
    then have "same_view s s1" using k by (auto simp: call_pick_def intro: silent)
    moreover have "same_view s1 s' \<and> (p \<in> set (threads s1) \<and> on_rq (tasks s1 p) \<and>
        task_cpu (tasks s1 p) = c \<or> p = idle (rqs s1 c))"
      using Cons.prems Cons.IH [of s1] k None by simp
    ultimately show ?thesis by (auto simp: same_view_def rq_view_def)
  qed
qed simp

lemma pick_next_task_ok:
  assumes H: "hooks_ok K H cs" and p: "pick_next_task H c s = Some (s', p)"
  shows "same_view s s' \<and>
    (p \<in> set (threads s) \<and> on_rq (tasks s p) \<and> task_cpu (tasks s p) = c \<or> p = idle (rqs s c))"
proof (cases "nr_running (rqs s c) = cfs_nr_running H (ext s) c")
  case False
  then show ?thesis using p pick_in_order_ok [OF H] by (simp add: pick_next_task_def)
next
  case True
  obtain s1 o1 where k: "call_pick H fair_sched_class c s = (s1, o1)" by fastforce
  show ?thesis
  proof (cases o1)
    case (Some q)
    then show ?thesis
      using p True k call_pick_Some [OF H, of fair_sched_class c s s1 q] by (simp add: pick_next_task_def)
  next
    case None
    then have v: "same_view s s1" using k by (auto simp: call_pick_def intro: silent)
    have "same_view s1 s' \<and> (p \<in> set (threads s1) \<and> on_rq (tasks s1 p) \<and>
        task_cpu (tasks s1 p) = c \<or> p = idle (rqs s1 c))"
      using p True k None pick_in_order_ok [OF H] by (simp add: pick_next_task_def)
    then show ?thesis using v by (auto simp: same_view_def rq_view_def)
  qed
qed

lemma switch_to_views:
  assumes "prev = curr (rqs s c)"
  shows "threads (switch_to c prev nxt v s) = threads s" "cpus (switch_to c prev nxt v s) = cpus s"
    "online (switch_to c prev nxt v s) = online s" "active (switch_to c prev nxt v s) = active s"
    "task_place (tasks (switch_to c prev nxt v s) p) = task_place (tasks s p)"
    "idle (rqs (switch_to c prev nxt v s) d) = idle (rqs s d)"
    "curr (rqs (switch_to c prev nxt v s) d) = (if d = c then nxt else curr (rqs s d))"
    "nr_running (rqs (switch_to c prev nxt v s) d) = nr_running (rqs s d)"
    "nr_uninterruptible (rqs (switch_to c prev nxt v s) d) = nr_uninterruptible (rqs s d)"
  using assms by (auto simp: switch_to_def Let_def task_place_def)

lemma balance_moves_curr: "balance_moves K H s s' \<Longrightarrow> curr (rqs s' c) = curr (rqs s c)"
  by (induction rule: balance_moves.induct) simp_all

lemma step_schedule_end:
  assumes inv: "sched_inv K cs M" and K: "consts_ok K" and H: "hooks_ok K H cs"
    and c: "c \<in> set cs" and e: "schedule_end K H c v (kernel M) = Some s'"
  shows "sched_inv K cs (M\<lparr>kernel := s', switching := (switching M)(c := None)\<rparr>)"
proof -
  let ?s = "kernel M" and ?p = "curr (rqs (kernel M) c)"
  define s1 where "s1 = pre_balance H c ?s"
  define s2 where "s2 = (if nr_running (rqs s1 c) = 0 then idle_balance H c s1 else s1)"
  have i1: "sched_inv K cs (M\<lparr>kernel := s1\<rparr>)"
    unfolding s1_def by (rule step_moves [OF hooks_okD(1) [OF H] inv refl K])
  have "sched_inv K cs (M\<lparr>kernel := s1\<rparr>\<lparr>kernel := s2\<rparr>)"
    unfolding s2_def using i1 step_moves [OF hooks_okD(2) [OF H] i1 _ K, of s1] by simp
  then have i2: "sched_inv K cs (M\<lparr>kernel := s2\<rparr>)" by simp
  obtain s3 nxt where pk: "pick_next_task H c (put_prev_task H c ?p s2) = Some (s3, nxt)"
      "s' = post_balance H c (switch_to c ?p nxt v s3)"
    using e by (auto simp: schedule_end_def Let_def bind_eq_Some_conv simp flip: s1_def s2_def)
  have v3: "same_view s2 s3" and n: "nxt \<in> set (threads s2) \<and> on_rq (tasks s2 nxt) \<and>
      task_cpu (tasks s2 nxt) = c \<or> nxt = idle (rqs s2 c)"
    using pick_next_task_ok [OF H pk(1)] same_view_trans [OF same_view_put_prev] by auto
  have i3: "sched_inv K cs (M\<lparr>kernel := s3\<rparr>)"
    using inv_same_queues [OF i2, of s3] v3 by (simp add: same_view_queues)
  have p3: "?p = curr (rqs s3 c)"
    using same_viewD(8) [OF v3] balance_moves_curr [OF hooks_okD(1) [OF H]] balance_moves_curr [OF hooks_okD(2) [OF H]]
    by (auto simp: s1_def s2_def split: if_splits)
  have n3: "nxt \<in> set (threads s3) \<and> on_rq (tasks s3 nxt) \<and> task_cpu (tasks s3 nxt) = c \<or> nxt = idle (rqs s3 c)"
    using n same_viewD [OF v3] by simp
  have i4: "sched_inv K cs (M\<lparr>kernel := switch_to c ?p nxt v s3, switching := (switching M)(c := None)\<rparr>)"
    using inv_switch [OF i3 c, of nxt "switch_to c ?p nxt v s3"] n3 switch_to_views [OF p3, of nxt v]
    by simp
  have "balance_moves K H (switch_to c ?p nxt v s3) s'" unfolding pk(2) by (rule hooks_okD(3) [OF H])
  from step_moves [OF this i4 _ K] show ?thesis by (cases M) simp
qed

text \<open>Changes by the running task, by \<open>fork\<close>, of the affinity and of the processors.\<close>

lemma step_set_state:
  assumes inv: "sched_inv K cs M" and K: "consts_ok K" and c: "c \<in> set cs" and sw: "switching M c = None"
    and p: "p = curr (rqs (kernel M) c)" "p \<noteq> idle (rqs (kernel M) c)"
  shows "sched_inv K cs (M\<lparr>kernel := set_task p (\<lambda>t. t\<lparr>state := st\<rparr>) (kernel M)\<rparr>)"
proof -
  have q: "on_rq (tasks (kernel M) p)" "p \<in> set (threads (kernel M))"
    using cpu_okD(5,7) [OF invD(7) [OF inv c]] sw p by auto
  have "acct K (set_task p (\<lambda>t. t\<lparr>state := st\<rparr>) (kernel M))"
    by (rule same_acct_cong [OF _ invD(1) [OF inv]]) (simp add: same_acct_def q)
  then show ?thesis using q by (intro inv_queued [OF inv q K]) simp_all
qed

lemma sched_fork_reset_place:
  "sched_fork_reset K t = Some u \<Longrightarrow> task_place u = task_place t"
  by (auto simp: sched_fork_reset_def Let_def bind_eq_Some_conv split: if_splits dest!: place_load_weight)

text \<open>The task \<open>sched_fork\<close> makes.\<close>

lemma sched_fork_result:
  assumes "sched_fork K H c q p s = Some s'"
  shows "\<exists>u s1. same_view (set_task p (\<lambda>_. u) s) s1 \<and> s' = set_task_cpu p c s1 \<and> \<not> on_rq u \<and>
    state u = TASK_RUNNING K"
proof -
  obtain u0 where u0: "sched_fork_reset K ((tasks s p)\<lparr>on_rq := False, nr_migrations := 0, state := TASK_RUNNING K\<rparr>) = Some u0"
    using assms by (auto simp: sched_fork_def bind_eq_Some_conv)
  define u1 where "u1 = u0\<lparr>prio := normal_prio (tasks s q)\<rparr>"
  define u where "u = (if \<not> rt_prio K (prio u1) then u1\<lparr>sclass := fair_sched_class\<rparr> else u1)"
  have u: "\<not> on_rq u" "state u = TASK_RUNNING K"
    using sched_fork_reset_place [OF u0] by (simp_all add: u_def u1_def task_place_def)
  define s1 where "s1 = (case task_fork_method H (sclass u) of Some f \<Rightarrow> call (f p) (set_task p (\<lambda>_. u) s)
      | None \<Rightarrow> set_task p (\<lambda>_. u) s)"
  have "s' = set_task_cpu p c s1"
    using assms u0 unfolding sched_fork_def Let_def s1_def u_def u1_def by simp
  moreover have "same_view (set_task p (\<lambda>_. u) s) s1"
    unfolding s1_def by (auto split: option.split intro: silent)
  ultimately show ?thesis using u by blast
qed

lemma step_fork:
  assumes inv: "sched_inv K cs M" and K: "consts_ok K" and c: "c \<in> set cs"
    and p: "p \<notin> set (threads (kernel M))"
    and f: "sched_fork K H c q p (set_task p (\<lambda>_. tasks (kernel M) q)
       ((kernel M)\<lparr>threads := p # threads (kernel M)\<rparr>)) = Some s'"
  shows "sched_inv K cs (M\<lparr>kernel := s', newborn := p # newborn M\<rparr>)"
proof -
  let ?s = "kernel M"
  obtain u s1 where u: "\<not> on_rq u" "state u = TASK_RUNNING K" and s': "s' = set_task_cpu p c s1"
      and v: "same_view (set_task p (\<lambda>_. u) (set_task p (\<lambda>_. tasks ?s q) (?s\<lparr>threads := p # threads ?s\<rparr>))) s1"
    using sched_fork_result [OF f] by blast
  note v1 = same_viewD [OF v]
  have t: "tasks s' r = tasks ?s r" if "r \<noteq> p" for r using v1(5) that by (simp add: s')
  have tp: "\<not> on_rq (tasks s' p)" "state (tasks s' p) = 0" "task_cpu (tasks s' p) = c"
    using v1(5) u consts_okD(1) [OF K] by (simp_all add: s')
  have lists: "threads s' = p # threads ?s" "cpus s' = cpus ?s" "online s' = online ?s" "active s' = active ?s"
    using v1(1-4) by (simp_all add: s')
  have r: "curr (rqs s' d) = curr (rqs ?s d)" "idle (rqs s' d) = idle (rqs ?s d)"
    "nr_running (rqs s' d) = nr_running (rqs ?s d)"
    "nr_uninterruptible (rqs s' d) = nr_uninterruptible (rqs ?s d)" for d
    using v1(6-9) [of d] by (simp_all add: s')
  have old: "r \<noteq> p" if "r \<in> set (threads ?s)" for r using that p by auto
  have nc: "\<not> task_contributes_to_load K (tasks s' p)"
    using tp(2) consts_okD(1,4) [OF K] by (simp add: task_contributes_to_load_def)
  have "queued_on s' d = queued_on ?s d" for d
    unfolding queued_on_def lists using tp(1) old t by (auto intro!: count_if_cong)
  moreover have "sleeping_tasks K s' = sleeping_tasks K ?s"
    unfolding sleeping_tasks_def lists using nc old t by (auto intro!: count_if_cong)
  ultimately have a: "acct K s'"
    using invD(1) [OF inv] p by (simp add: acct_def lists r uninterruptible_sum_def)
  have l: "lists_ok cs s'"
    using inv c tp(3) t old by (auto simp: sched_inv_def lists_ok_def lists)
  have cpu: "cpu_ok s' (switching M) d" if "d \<in> set cs" for d
    using invD(7) [OF inv that] t old by (simp add: cpu_ok_def Let_def lists r)
  have res: "reserved s' x" if "reserved ?s x" for x
    using that t old by (simp add: reserved_def lists r)
  have wk: "wakeup_ok K s' w" if "w \<in> set (waking M)" for w
    using invD(8) [OF inv that] res old t
    by (auto simp: wakeup_ok_def split: prod.splits dest: reservedD(1))
  have nb: "newborn_ok K s' x" if "x \<in> set (newborn M)" for x
    using invD(10) [OF inv that] res old t by (auto simp: newborn_ok_def dest: reservedD(1))
  have "p \<noteq> curr (rqs ?s d) \<and> p \<noteq> idle (rqs ?s d)" if "d \<in> set cs" for d
    using cpu_okD(1,5) [OF invD(7) [OF inv that]] old by auto
  then have np: "newborn_ok K s' p"
    using tp(1,2) invD(2) [OF inv] by (simp add: newborn_ok_def reserved_def lists r)
  have "p \<notin> set (newborn M)"
    using reservedD(1) [OF newborn_okD(1) [OF invD(10) [OF inv]], of p] p by auto
  then show ?thesis using a l cpu wk nb np invD(9,11) [OF inv] by (simp add: sched_inv_def)
qed

lemma step_new_begin:
  assumes inv: "sched_inv K cs M" and K: "consts_ok K" and H: "hooks_ok K H cs"
    and p: "p \<in> set (newborn M)"
  shows "sched_inv K cs (M\<lparr>kernel := wake_up_new_task_begin K H p (kernel M)\<rparr>)"
proof -
  let ?s = "kernel M" and ?c = "task_cpu (tasks (kernel M) p)"
  define w where "w = set_task p (\<lambda>t. t\<lparr>state := TASK_WAKING K\<rparr>) ?s"
  obtain d m where sel: "select_task_rq H w ?c p (SD_BALANCE_FORK K) 0 = (d, m)" by fastforce
  define s' where "s' = wake_up_new_task_begin K H p ?s"
  have s': "s' = set_task p (\<lambda>t. t\<lparr>state := TASK_RUNNING K\<rparr>)
      (set_task_cpu p d (set_task p (\<lambda>t. t\<lparr>cpus_allowed := m\<rparr>) w))"
    using sel by (simp add: s'_def wake_up_new_task_begin_def Let_def w_def)
  note nb = newborn_okD [OF invD(10) [OF inv p]] and r = reservedD [OF newborn_okD(1) [OF invD(10) [OF inv p]]]
  have d: "d \<in> set cs"
    using select_task_rq_allowed(2) [OF H sel] invD(5,6) [OF inv] by (simp add: w_def)
  have t: "\<not> on_rq (tasks s' p)" "state (tasks s' p) = 0" "task_cpu (tasks s' p) = d"
    using r(2) consts_okD(1) [OF K] by (simp_all add: s' w_def)
  have fr: "frame p ?s s'" by (simp add: frame_def s' w_def)
  have "s' = set_task p (\<lambda>_. tasks s' p) ?s"
    by (simp add: s' w_def set_task_cpu_def set_task_def)
  moreover have "acct K (set_task p (\<lambda>_. tasks s' p) ?s)"
    using invD(1) [OF inv] r t consts_okD(1,4) [OF K] nb(2)
    by (intro acct_unqueued) (simp_all add: task_contributes_to_load_def)
  ultimately have a: "acct K s'" by simp
  have "newborn_ok K s' p" using fr r t by (simp add: newborn_ok_def reserved_def frame_def)
  moreover have "fst x \<noteq> p" if "x \<in> set (waking M)" for x
    using wakeup_okD(2) invD(8) [OF inv that] nb(2) consts_okD(2) [OF K] by (cases x) force
  moreover have "\<forall>c \<in> set cs. p \<noteq> idle (rqs ?s c) \<and> p \<noteq> curr (rqs ?s c)" using r(3,4) invD(2) [OF inv] by simp
  ultimately have "sched_inv K cs (M\<lparr>kernel := s'\<rparr>)"
    using fr a t(3) d invD(9,11) [OF inv]
    by (intro inv_change_off [OF inv, of p]) (auto simp: newborn_okD)
  then show ?thesis by (simp add: s'_def)
qed

lemma step_new_end:
  assumes inv: "sched_inv K cs M" and K: "consts_ok K" and w: "newborn M = ps @ p # ps'"
  shows "sched_inv K cs (M\<lparr>kernel := wake_up_new_task_end K H p (kernel M), newborn := ps @ ps'\<rparr>)"
proof -
  let ?s = "kernel M" and ?c = "task_cpu (tasks (kernel M) p)"
  define s1 where "s1 = activate_task K H ?c p 0 ?s"
  define s' where "s' = wake_up_new_task_end K H p ?s"
  have pn: "p \<in> set (newborn M)" using w by simp
  note nb = newborn_okD [OF invD(10) [OF inv pn]] and r = reservedD [OF newborn_okD(1) [OF invD(10) [OF inv pn]]]
  have v: "same_view s1 s'"
    by (auto simp: s'_def s1_def wake_up_new_task_end_def Let_def split: option.split
        intro: silent same_view_trans)
  have "acct K s1" unfolding s1_def using r invD(1,2,4) [OF inv] by (intro acct_activate) auto
  then have a: "acct K s'" by (rule acct_view [OF v])
  have t: "on_rq (tasks s' p)" "task_cpu (tasks s' p) = ?c"
    using same_viewD(5) [OF v] by (simp_all add: s1_def)
  have fr: "frame p ?s s'" using same_viewD [OF v] by (simp add: frame_def s1_def)
  have "fst x \<noteq> p" if "x \<in> set (waking M)" for x
    using wakeup_okD(2) invD(8) [OF inv that] nb(2) consts_okD(2) [OF K] by (cases x) force
  then have "sched_inv K cs (M\<lparr>kernel := s', newborn := ps @ ps'\<rparr>)"
    using a t fr r(4) invD(2,9,11) [OF inv] w
    by (intro inv_woken [OF inv r(1) K]) auto
  then show ?thesis by (simp add: s'_def)
qed

lemma step_set_affinity:
  assumes inv: "sched_inv K cs M" and K: "consts_ok K" and p: "p \<in> set (threads (kernel M))"
    and a: "set_cpus_allowed_ptr K H me p msk (kernel M) = Some (s', r, m)"
  shows "sched_inv K cs (M\<lparr>kernel := s'\<rparr>)"
proof -
  let ?s = "kernel M"
  have nw: "state (tasks ?s p) \<noteq> TASK_WAKING K"
    using a by (auto simp: set_cpus_allowed_ptr_def task_is_waking_def split: if_splits)
  consider "s' = ?s"
    | f where "s' = set_task p (\<lambda>t. t\<lparr>cpus_allowed := msk\<rparr>) (call f ?s)"
    | "s' = set_task p (\<lambda>t. t\<lparr>cpus_allowed := msk\<rparr>) ?s"
    using a by (auto simp: set_cpus_allowed_ptr_def Let_def split: if_splits option.splits)
  then have v: "s' = ?s \<or> (frame p ?s s' \<and> tasks s' p = (tasks ?s p)\<lparr>cpus_allowed := msk\<rparr> \<and> same_acct K ?s s')"
    by cases (auto simp: frame_def same_acct_def)
  then show ?thesis
  proof
    assume "s' = ?s"
    then show ?thesis using inv by (cases M) simp
  next
    assume v: "frame p ?s s' \<and> tasks s' p = (tasks ?s p)\<lparr>cpus_allowed := msk\<rparr> \<and> same_acct K ?s s'"
    have nwk: "fst x \<noteq> p" if "x \<in> set (waking M)" for x
      using wakeup_okD(2) invD(8) [OF inv that] nw by (cases x) force
    have n: "newborn_ok K s' q" if "q \<in> set (newborn M)" for q
      using invD(10) [OF inv that] v by (cases "q = p") (auto simp: newborn_ok_def reserved_def frame_def)
    show ?thesis
    proof (rule inv_change [OF inv])
      show "acct K (kernel (M\<lparr>kernel := s'\<rparr>))" using v same_acct_cong [OF _ invD(1) [OF inv]] by simp
      show "task_cpu (tasks (kernel (M\<lparr>kernel := s'\<rparr>)) p) \<in> set cs" using v invD(4) [OF inv p] by simp
    next
      fix c assume c: "c \<in> set cs" and q: "p = idle (rqs ?s c)"
      then show "\<not> on_rq (tasks (kernel (M\<lparr>kernel := s'\<rparr>)) p) \<and>
          state (tasks (kernel (M\<lparr>kernel := s'\<rparr>)) p) = 0 \<and> task_cpu (tasks (kernel (M\<lparr>kernel := s'\<rparr>)) p) = c"
        using v cpu_okD(2-4) [OF invD(7) [OF inv c]] by simp
    next
      fix c assume c: "c \<in> set cs" and q: "p = curr (rqs ?s c)"
      then show "task_cpu (tasks (kernel (M\<lparr>kernel := s'\<rparr>)) p) = c \<and>
          (switching (M\<lparr>kernel := s'\<rparr>) c = None \<longrightarrow> p = idle (rqs ?s c) \<or> on_rq (tasks (kernel (M\<lparr>kernel := s'\<rparr>)) p))"
        using v cpu_okD(6,7) [OF invD(7) [OF inv c]] by simp
    qed (use v n nwk invD(9,11) [OF inv] in auto)
  qed
qed

lemma step_migrate:
  assumes inv: "sched_inv K cs M" and K: "consts_ok K" and p: "p \<in> set (threads (kernel M))"
    and src: "src \<in> set cs" "p \<noteq> curr (rqs (kernel M) src)"
    and m: "do_migrate_task K H p src d (kernel M) = (s', b)"
  shows "sched_inv K cs (M\<lparr>kernel := s'\<rparr>)"
proof -
  let ?s = "kernel M"
  let ?t = "activate_task K H d p 0 (set_task_cpu p d (deactivate_task K H src p 0 ?s))"
  consider "s' = ?s" | "on_rq (tasks ?s p)" "task_cpu (tasks ?s p) = src" "d \<in> set (active ?s)" "same_view ?t s'"
    using m by (auto simp: do_migrate_task_def silent split: if_splits)
  then show ?thesis
  proof cases
    case 1
    then show ?thesis using inv by (cases M) simp
  next
    case 2
    have "balance_moves K H ?s ?t"
      using 2 p src invD(2,6) [OF inv] by (intro balance_moves_pull balance_moves_none) auto
    from step_moves [OF this inv refl K] have i: "sched_inv K cs (M\<lparr>kernel := ?t\<rparr>)" .
    have "sched_inv K cs (M\<lparr>kernel := ?t\<rparr>\<lparr>kernel := s'\<rparr>)"
      using 2(4) by (intro inv_same_queues [OF i]) (simp add: same_view_queues)
    then show ?thesis by simp
  qed
qed

lemma step_cpu_down:
  assumes inv: "sched_inv K cs M" and c: "src \<in> set cs" "d \<in> set cs" "src \<noteq> d"
  shows "sched_inv K cs (M\<lparr>kernel := migrate_nr_uninterruptible src d (kernel M)\<rparr>)"
proof -
  let ?s = "kernel M" and ?t = "migrate_nr_uninterruptible src d (kernel M)"
  define s1 where "s1 = set_rq d (\<lambda>r. r\<lparr>nr_uninterruptible := nr_uninterruptible r + nr_uninterruptible (rqs ?s src)\<rparr>) ?s"
  have t: "?t = set_rq src (\<lambda>r. r\<lparr>nr_uninterruptible := 0\<rparr>) s1"
    by (simp add: migrate_nr_uninterruptible_def s1_def)
  have "uninterruptible_sum s1 = uninterruptible_sum ?s + nr_uninterruptible (rqs ?s src)"
    using c invD(2,3) [OF inv] by (subst uninterruptible_sum_change [of ?s d]) (auto simp: s1_def)
  moreover have "uninterruptible_sum ?t = uninterruptible_sum s1 - nr_uninterruptible (rqs s1 src)"
    using c invD(2,3) [OF inv] by (subst uninterruptible_sum_change [of s1 src]) (auto simp: t s1_def)
  ultimately have u: "uninterruptible_sum ?t = uninterruptible_sum ?s" using c(3) by (simp add: s1_def)
  have views: "threads ?t = threads ?s" "cpus ?t = cpus ?s" "online ?t = online ?s" "active ?t = active ?s"
    "tasks ?t = tasks ?s" "nr_running (rqs ?t e) = nr_running (rqs ?s e)" "curr (rqs ?t e) = curr (rqs ?s e)"
    "idle (rqs ?t e) = idle (rqs ?s e)" for e
    using c(3) by (simp_all add: t s1_def)
  have "acct K ?t"
    using invD(1) [OF inv] u by (simp add: acct_def queued_on_def sleeping_tasks_def views)
  then show ?thesis using inv
    by (auto simp: sched_inv_def lists_ok_def cpu_ok_def wakeup_ok_def newborn_ok_def reserved_def views Let_def)
qed

section \<open>Every reachable system\<close>

lemma step_inv:
  assumes "sched_step K H M M'" "sched_inv K cs M" "consts_ok K" "hooks_ok K H cs"
  shows "sched_inv K cs M'"
  using assms(1)
proof cases
  case (Wake_return tc p msk wfl s' b)
  then show ?thesis using step_wake_return [OF assms(2) _ assms(3)] by simp
next
  case (Wake_begin tc p msk wfl s' c fl)
  then show ?thesis using step_wake_begin [OF assms(2) _ assms(3,4)] invD(2) [OF assms(2)] by simp
next
  case (Wake_end ws p c fl wfl ws')
  then show ?thesis using step_wake_end [OF assms(2,3)] by simp
next
  case (Schedule_begin c preempt s' v)
  then show ?thesis using step_schedule_begin [OF assms(2,3,4)] invD(2) [OF assms(2)] by simp
next
  case (Schedule_end c v s')
  then show ?thesis using step_schedule_end [OF assms(2,3,4)] invD(2) [OF assms(2)] by simp
next
  case (Set_state c p st)
  then show ?thesis using step_set_state [OF assms(2,3)] invD(2) [OF assms(2)] by simp
next
  case (Fork c q p s')
  then show ?thesis using step_fork [OF assms(2,3)] invD(2) [OF assms(2)] by simp
next
  case (New_begin p)
  then show ?thesis using step_new_begin [OF assms(2,3,4)] by simp
next
  case (New_end ps p ps')
  then show ?thesis using step_new_end [OF assms(2,3)] by simp
next
  case (Nice p nice s')
  then show ?thesis using step_policy(1) [OF assms(2)] by simp
next
  case (Set_prio p x s')
  then show ?thesis using step_policy(2) [OF assms(2)] by simp
next
  case (Set_scheduler E p pol old reset x user s' r)
  then show ?thesis using step_policy(3) [OF assms(2)] by simp
next
  case (Set_affinity p me msk s' r m)
  then show ?thesis using step_set_affinity [OF assms(2,3)] by simp
next
  case (Migrate p src d s' b)
  then show ?thesis using step_migrate [OF assms(2,3)] invD(2) [OF assms(2)] by simp
next
  case (Cpu_down src d)
  then show ?thesis using step_cpu_down [OF assms(2)] invD(2) [OF assms(2)] by simp
next
  case (Move_group move setrq p)
  then show ?thesis using inv_same_queues [OF assms(2) sched_move_task_queues] by simp
next
  case (Yield_to Y me c p preempt)
  then show ?thesis using inv_same_queues [OF assms(2) same_view_queues [OF yield_to_view]] by simp
next
  case (Outside f)
  then show ?thesis using inv_same_queues [OF assms(2)] by (simp add: same_view_queues silent)
qed

lemma reachable_inv:
  "sched_reachable K H M M' \<Longrightarrow> sched_inv K cs M \<Longrightarrow> consts_ok K \<Longrightarrow> hooks_ok K H cs \<Longrightarrow> sched_inv K cs M'"
  by (induction rule: sched_reachable.induct) (auto intro: step_inv)

lemma unat_clamped:
  "n < 2 ^ 31 \<Longrightarrow> unat (if sint (of_nat n :: ul) < 0 then 0 else of_nat n :: ul) = n"
  by (simp add: signed_of_nat signed_take_bit_int_eq_self unsigned_of_nat take_bit_nat_eq_self)

text \<open>
  C22 (runqueue_accounting): in every system reached from one where the counters are right, \<open>nr_running\<close>
  of each processor is the number of threads queued on it, and \<open>nr_uninterruptible()\<close> is the number of
  threads that sleep uninterruptibly and are on no queue, as long as they are fewer than \<open>2^31\<close>;
  also when wake-ups, migrations, switches and changes of policy interleave.
\<close>

theorem runqueue_accounting:
  assumes "sched_reachable K H M M'" "sched_inv K cs M" "consts_ok K" "hooks_ok K H cs"
  shows "(\<forall>c \<in> set cs. nr_running (rqs (kernel M') c) = of_nat (queued_on (kernel M') c)) \<and>
    (sleeping_tasks K (kernel M') < 2 ^ 31 \<longrightarrow>
       unat (nr_uninterruptible_total (kernel M')) = sleeping_tasks K (kernel M'))"
proof -
  have a: "acct K (kernel M')" "cpus (kernel M') = cs"
    using reachable_inv [OF assms] by (auto dest: invD(1,2))
  have s: "sum_list (map (\<lambda>c. nr_uninterruptible (rqs (kernel M') c)) (cpus (kernel M'))) =
      (of_nat (sleeping_tasks K (kernel M')) :: ul)"
    using a by (simp add: acct_def uninterruptible_sum_def)
  show ?thesis
    using a unat_clamped [of "sleeping_tasks K (kernel M')"]
    unfolding nr_uninterruptible_total_def s Let_def by (simp add: acct_def)
qed

lemma current_once:
  assumes "sched_inv K cs M" "c \<in> set cs" "d \<in> set cs" "curr (rqs (kernel M) c) = curr (rqs (kernel M) d)"
  shows "c = d"
proof -
  have "c = task_cpu (tasks (kernel M) (curr (rqs (kernel M) c)))"
    by (rule cpu_okD(6) [OF invD(7) [OF assms(1,2)], symmetric])
  also have "\<dots> = d" unfolding assms(4) by (rule cpu_okD(6) [OF invD(7) [OF assms(1,3)]])
  finally show ?thesis .
qed

lemma waking_nowhere_else:
  assumes "sched_inv K cs M" "(p, c, fl, wfl) \<in> set (waking M)"
  shows "(\<forall>d \<in> set cs. curr (rqs (kernel M) d) \<noteq> p) \<and>
    \<not> on_rq (tasks (kernel M) p) \<and> c \<in> set (cpus_allowed (tasks (kernel M) p)) \<and>
    on_rq (tasks (try_to_wake_up_end K H p c fl wfl (kernel M)) p) \<and>
    task_cpu (tasks (try_to_wake_up_end K H p c fl wfl (kernel M)) p) = c"
proof -
  note o = wakeup_okD [OF invD(8) [OF assms]]
  have "\<forall>d \<in> set cs. curr (rqs (kernel M) d) \<noteq> p"
    using reservedD(3) [OF o(1)] invD(2) [OF assms(1)] by metis
  then show ?thesis
    using o(3,4) reservedD(2) [OF o(1)] by (simp add: try_to_wake_up_end_def ttwu_activate_def)
qed

text \<open>
  C23 (tasks_run_in_one_place): in every reachable system no thread is current on two processors, a
  processor that is not switching runs its idle task or a queued thread, and a thread between the
  two parts of its wake-up is current nowhere, is on no queue, and will be queued on a processor its
  affinity allows.
\<close>

theorem tasks_run_in_one_place:
  assumes "sched_reachable K H M M'" "sched_inv K cs M" "consts_ok K" "hooks_ok K H cs"
  shows "(\<forall>c \<in> set cs. \<forall>d \<in> set cs. curr (rqs (kernel M') c) = curr (rqs (kernel M') d) \<longrightarrow> c = d) \<and>
    (\<forall>c \<in> set cs. switching M' c = None \<longrightarrow> curr (rqs (kernel M') c) = idle (rqs (kernel M') c) \<or>
       on_rq (tasks (kernel M') (curr (rqs (kernel M') c)))) \<and>
    (\<forall>(p, c, fl, wfl) \<in> set (waking M'). (\<forall>d \<in> set cs. curr (rqs (kernel M') d) \<noteq> p) \<and>
       \<not> on_rq (tasks (kernel M') p) \<and> c \<in> set (cpus_allowed (tasks (kernel M') p)) \<and>
       on_rq (tasks (try_to_wake_up_end K H p c fl wfl (kernel M')) p) \<and>
       task_cpu (tasks (try_to_wake_up_end K H p c fl wfl (kernel M')) p) = c)"
proof -
  have inv: "sched_inv K cs M'" using reachable_inv [OF assms] .
  then show ?thesis
    using current_once [OF inv] cpu_okD(7) [OF invD(7) [OF inv]] waking_nowhere_else [OF inv]
    by (intro conjI ballI impI) (blast, blast, clarify, blast)
qed

section \<open>A concrete system\<close>

text \<open>Classes that do nothing but pick the first queued thread, or the idle task.\<close>

definition sample_hooks :: "unit hooks" where
  "sample_hooks = \<lparr>enqueue_method = (\<lambda>_ _ _ _ s. ((), need_resched s)),
     dequeue_method = (\<lambda>_ _ _ _ s. ((), need_resched s)), put_prev_method = (\<lambda>_ _ _ s. ((), need_resched s)),
     set_curr_method = (\<lambda>_ _ s. ((), need_resched s)), check_preempt_method = (\<lambda>_ _ _ _ s. ((), need_resched s)),
     switched_from_method = (\<lambda>_. None), switched_to_method = (\<lambda>_ _ _ s. ((), need_resched s)),
     prio_changed_method = (\<lambda>_ _ _ _ s. ((), need_resched s)), task_waking_method = (\<lambda>_. None),
     task_woken_method = (\<lambda>_. None), task_fork_method = (\<lambda>_. None), set_cpus_allowed_method = (\<lambda>_. None),
     yield_method = (\<lambda>_ _ s. ((), need_resched s)), select_method = (\<lambda>_ c _ _ _ _. c),
     pick_next_method = (\<lambda>k c s. (case find (\<lambda>p. on_rq (tasks s p) \<and> task_cpu (tasks s p) = c) (threads s) of
         Some p \<Rightarrow> Some p | None \<Rightarrow> Some (idle (rqs s c)), (), need_resched s)),
     class_order = [stop_sched_class, rt_sched_class, fair_sched_class, idle_sched_class],
     cfs_nr_running = (\<lambda>_ _. 0), sched_clock_cpu = (\<lambda>_ _. 0), migration_cost = 500000,
     cpumask_of_node = (\<lambda>_. [0, 1]), cpumask_any_and = (\<lambda>a b. find (\<lambda>c. c \<in> set b) a),
     cpuset_fallback = (\<lambda>_ _. ([0], 0)), signal_pending_state = (\<lambda>_ _ _. False),
     wq_worker_waking_up = (\<lambda>_ _ s. ((), need_resched s)),
     wq_worker_sleeping = (\<lambda>_ _ s. (None, (), need_resched s)),
     pre_balance = (\<lambda>_ s. s), idle_balance = (\<lambda>_ s. s), post_balance = (\<lambda>_ s. s)\<rparr>"

lemma sample_hooks_ok: "hooks_ok linux_consts sample_hooks [0, 1]"
  by (auto simp: hooks_ok_def sample_hooks_def find_Some_iff find_None_iff balance_moves_none split: option.splits)

text \<open>
  Two processors with the idle tasks 0 and 1; task 2 runs on processor 0, task 3 sleeps
  uninterruptibly and last ran on processor 1.
\<close>

definition thread_of :: "nat \<Rightarrow> bool \<Rightarrow> u32 \<Rightarrow> task" where
  "thread_of c queued st = \<lparr>state = st, flags = 0, static_prio = 120, normal_prio = 120, prio = 120,
     rt_priority = 0, policy = 0, reset_on_fork = False, mm = True, sclass = fair_sched_class,
     se_weight = 1024, se_inv_weight = 4194304, on_rq = queued, task_cpu = c, cpus_allowed = [0, 1],
     nr_migrations = 0, nvcsw = 0, nivcsw = 0, uid = 1000, euid = 1000, user_ns = 0\<rparr>"

definition rq_of :: "nat \<Rightarrow> nat \<Rightarrow> ul \<Rightarrow> ul \<Rightarrow> rq" where
  "rq_of i q run unint = \<lparr>nr_running = run, nr_uninterruptible = unint, curr = q, idle = i, stop = None,
     skip_clock_update = False, nr_switches = 0, clock = 0, idle_stamp = 0, avg_idle = 0\<rparr>"

definition sample_sys :: "unit sys" where
  "sample_sys = \<lparr>threads = [0, 1, 2, 3], cpus = [0, 1], online = (\<lambda>c. c < 2), active = [0, 1],
     tasks = (\<lambda>p. if p = 0 then thread_of 0 False 0 else if p = 1 then thread_of 1 False 0
               else if p = 2 then thread_of 0 True 0 else thread_of 1 False 2),
     rqs = (\<lambda>c. if c = 0 then rq_of 0 2 1 0 else rq_of 1 1 0 1),
     need_resched = (\<lambda>_. False), ext = ()\<rparr>"

definition sample_machine :: "unit machine" where
  "sample_machine = \<lparr>kernel = sample_sys, waking = [], switching = (\<lambda>_. None), newborn = []\<rparr>"

lemma sample_inv: "sched_inv linux_consts [0, 1] sample_machine"
  by (auto simp: sched_inv_def sample_machine_def sample_sys_def acct_def queued_on_def sleeping_tasks_def
      uninterruptible_sum_def lists_ok_def cpu_ok_def thread_of_def rq_of_def linux_consts_def
      task_contributes_to_load_def Let_def)

text \<open>Task 3 is being woken up.\<close>

definition waking_sample :: "unit sys" where
  "waking_sample = place 3 [0, 1] 1 (waking_sys linux_consts 1 3 sample_sys)"

lemma sample_wakes:
  "sched_reachable linux_consts sample_hooks sample_machine
     (sample_machine\<lparr>kernel := waking_sample, waking := [(3, 1, 1, 0)]\<rparr>)"
proof -
  have "try_to_wake_up_begin linux_consts sample_hooks 0 3 3 0 sample_sys = (waking_sample, Ttwu_requeue 1 1)"
    by (simp add: try_to_wake_up_begin_def waking_sample_def select_task_rq_def sample_hooks_def
        sample_sys_def thread_of_def rq_of_def linux_consts_def task_running_def task_current_def Let_def
        waking_sys_def set_task_def set_rq_def task_contributes_to_load_def)
  then show ?thesis
    using sched_step.Wake_begin [of linux_consts sample_hooks 0 3 3 0 sample_machine waking_sample 1 1]
    by (intro more [OF start]) (simp add: sample_machine_def sample_sys_def linux_consts_def)
qed

lemma runqueue_accounting_witness:
  "unat (nr_uninterruptible_total sample_sys) = 1 \<and> nr_running (rqs waking_sample 0) = 1 \<and>
   nr_running (rqs waking_sample 1) = 0 \<and> unat (nr_uninterruptible_total waking_sample) = 0"
proof -
  have q: "queued_on waking_sample 0 = 1" "queued_on waking_sample 1 = 0"
    "sleeping_tasks linux_consts waking_sample = 0" "sleeping_tasks linux_consts sample_sys = 1"
    by (simp_all add: queued_on_def sleeping_tasks_def waking_sample_def place_def waking_sys_def sample_sys_def
        thread_of_def rq_of_def linux_consts_def task_contributes_to_load_def Let_def set_task_def set_rq_def)
  show ?thesis
    using runqueue_accounting [OF sample_wakes sample_inv linux_consts_ok sample_hooks_ok]
      runqueue_accounting [OF start sample_inv linux_consts_ok sample_hooks_ok] q
    by (simp add: sample_machine_def)
qed

lemma tasks_run_in_one_place_witness:
  "on_rq (tasks (try_to_wake_up_end linux_consts sample_hooks 3 1 1 0 waking_sample) 3) \<and>
   task_cpu (tasks (try_to_wake_up_end linux_consts sample_hooks 3 1 1 0 waking_sample) 3) = 1"
  using tasks_run_in_one_place [OF sample_wakes sample_inv linux_consts_ok sample_hooks_ok]
  by (simp add: sample_machine_def)

end
