(* ===== verification/SchedWeight.thy ===== *)
theory SchedWeight
  imports SchedBase
begin

text \<open>
  The arithmetic on load weights of opcional2/kernel/sched.c: \<open>struct load_weight\<close> with its cached
  inverse, \<open>calc_delta_mine\<close>, and the accuracy of the precomputed inverses of the nice levels.
\<close>

record load_weight =
  weight :: ul
  inv_weight :: ul

definition WMULT_CONST :: ul where "WMULT_CONST = NOT 0"
definition WMULT_SHIFT :: nat where "WMULT_SHIFT = 32"

text \<open>\<open>SRR(x, y)\<close>: shift right and round, on 64 bits.\<close>

definition SRR :: "u64 \<Rightarrow> nat \<Rightarrow> u64" where
  "SRR x y = drop_bit y (x + push_bit (y - 1) 1)"

definition LONG_MAX :: ul where "LONG_MAX = 2147483647"

text \<open>The first part of \<open>calc_delta_mine\<close>: the inverse is computed when the cache is empty.\<close>

definition fill_inverse :: "load_weight \<Rightarrow> load_weight" where
  "fill_inverse lw =
     (if inv_weight lw = 0
      then lw\<lparr>inv_weight := 1 + (WMULT_CONST - weight lw div 2) div (weight lw + 1)\<rparr> else lw)"

text \<open>
  \<open>delta *= weight / lw\<close>.  A weight of \<open>2^32 - 1\<close> makes the divisor of the inverse 0, which is
  undefined.  The result is truncated to \<open>unsigned long\<close>; \<open>lw\<close> keeps the inverse.
\<close>

definition calc_delta_mine :: "ul \<Rightarrow> ul \<Rightarrow> load_weight \<Rightarrow> (ul \<times> load_weight) option" where
  "calc_delta_mine delta_exec w lw =
     (if inv_weight lw = 0 \<and> weight lw + 1 = 0 then None
      else
        let lw = fill_inverse lw;
            tmp = ucast delta_exec * ucast w;
            tmp = (if ucast WMULT_CONST < tmp
                   then SRR (SRR tmp (WMULT_SHIFT div 2) * ucast (inv_weight lw)) (WMULT_SHIFT div 2)
                   else SRR (tmp * ucast (inv_weight lw)) WMULT_SHIFT)
        in Some (ucast (min tmp (ucast LONG_MAX)), lw))"

definition update_load_add :: "load_weight \<Rightarrow> ul \<Rightarrow> load_weight" where
  "update_load_add lw inc = lw\<lparr>weight := weight lw + inc, inv_weight := 0\<rparr>"

definition update_load_sub :: "load_weight \<Rightarrow> ul \<Rightarrow> load_weight" where
  "update_load_sub lw dec = lw\<lparr>weight := weight lw - dec, inv_weight := 0\<rparr>"

definition update_load_set :: "load_weight \<Rightarrow> ul \<Rightarrow> load_weight" where
  "update_load_set lw w = lw\<lparr>weight := w, inv_weight := 0\<rparr>"

section \<open>The tables\<close>

text \<open>
  The pairs of the two tables, and of the idle policy: each inverse differs from \<open>2^32\<close> divided by
  its weight by less than 1.
\<close>

definition good_inverse :: "ul \<Rightarrow> ul \<Rightarrow> bool" where
  "good_inverse w m \<longleftrightarrow> 3 \<le> unat w \<and> \<bar>int (unat w) * int (unat m) - 2 ^ 32\<bar> < int (unat w)"

lemma length_tables [simp]: "length prio_to_weight = 40" "length prio_to_wmult = 40"
  by (simp_all add: prio_to_weight_def prio_to_wmult_def)

lemma tables_good: "list_all2 good_inverse prio_to_weight prio_to_wmult"
  by (simp add: prio_to_weight_def prio_to_wmult_def good_inverse_def)

lemma idle_good: "good_inverse WEIGHT_IDLEPRIO WMULT_IDLEPRIO"
  by (simp add: good_inverse_def WEIGHT_IDLEPRIO_def WMULT_IDLEPRIO_def)

lemma set_load_weight_Some:
  assumes "policy p = SCHED_IDLE K \<or>
    MAX_RT_PRIO K \<le> static_prio p \<and> static_prio p < MAX_RT_PRIO K + 40"
  shows "\<exists>w m. set_load_weight K p = Some (p\<lparr>se_weight := w, se_inv_weight := m\<rparr>) \<and> good_inverse w m"
proof (cases "policy p = SCHED_IDLE K")
  case True
  then show ?thesis using idle_good by (auto simp: set_load_weight_def)
next
  case False
  define i where "i = nat (static_prio p - MAX_RT_PRIO K)"
  have i: "i < 40" "static_prio p - MAX_RT_PRIO K = int i" using assms False by (auto simp: i_def)
  have "good_inverse (prio_to_weight ! i) (prio_to_wmult ! i)"
    using tables_good i by (simp add: list_all2_conv_all_nth)
  then show ?thesis using False i by (simp add: set_load_weight_def) blast
qed

text \<open>
  The weights fall by a factor between 1.2 and 1.3 from each level to the next: what the comment on
  the table calls the 10% effect.
\<close>

lemma weight_ratio:
  "i < 39 \<Longrightarrow> 12 * uint (prio_to_weight ! Suc i) \<le> 10 * uint (prio_to_weight ! i) \<and>
     10 * uint (prio_to_weight ! i) \<le> 13 * uint (prio_to_weight ! Suc i)"
proof -
  have "\<forall>i \<in> set [0..<39]. 12 * uint (prio_to_weight ! Suc i) \<le> 10 * uint (prio_to_weight ! i) \<and>
     10 * uint (prio_to_weight ! i) \<le> 13 * uint (prio_to_weight ! Suc i)"
    by (simp add: prio_to_weight_def upt_rec)
  then show "i < 39 \<Longrightarrow> ?thesis" by simp
qed

section \<open>Accuracy of the scaled time\<close>

lemma unat_ucast_64 [simp]: "unat (ucast (x :: ul) :: u64) = unat x"
proof -
  have "unat x < 2 ^ 32" using unsigned_less [of x, where ?'a = nat] by simp
  then show ?thesis by (simp add: unsigned_ucast_eq take_bit_nat_eq_self)
qed

lemma unat_SRR:
  assumes "0 < y" "y < 64" "unat x + 2 ^ (y - 1) < 2 ^ 64"
  shows "unat (SRR x y) = (unat x + 2 ^ (y - 1)) div 2 ^ y"
proof -
  define q where "q = (push_bit (y - 1) 1 :: u64)"
  have p: "unat q = 2 ^ (y - 1)"
    using assms(1,2) unfolding q_def unsigned_push_bit_eq by (simp add: take_bit_nat_eq_self)
  have "unat (x + q) = unat x + 2 ^ (y - 1)"
    using assms(3) unfolding p [symmetric] by (subst unat_add_lem [THEN iffD1]) simp_all
  then show ?thesis
    unfolding SRR_def q_def [symmetric] unat_drop_bit_eq by (simp add: drop_bit_eq_div)
qed

lemma unat_WMULT_CONST: "unat WMULT_CONST = 2 ^ 32 - 1"
  by (simp add: WMULT_CONST_def unsigned_minus_1_eq_mask mask_eq_exp_minus_1)

text \<open>
  Both branches on numbers: \<open>q\<close> is the rounded product of \<open>T\<close> and \<open>M\<close>, in the second one after \<open>T\<close> has been
  rounded to \<open>S\<close>; \<open>M\<close> is the inverse of \<open>W\<close> up to \<open>W * M - 2 ^ 32\<close>.
\<close>

lemma rounded:
  fixes x :: nat
  assumes "0 < h"
  shows "\<bar>int (2 * h) * int ((x + h) div (2 * h)) - int x\<bar> \<le> int h"
proof -
  have e: "(x + h) div (2 * h) * (2 * h) + (x + h) mod (2 * h) = x + h" by (rule div_mult_mod_eq)
  have "(x + h) mod (2 * h) < 2 * h" using assms by simp
  moreover have "int (2 * h) * int ((x + h) div (2 * h)) = int (x + h) - int ((x + h) mod (2 * h))"
    using e by (metis add_diff_cancel_right' mult.commute of_nat_add of_nat_mult)
  ultimately show ?thesis by (simp add: abs_le_iff)
qed

lemma short_bound:
  fixes T W M q :: int
  assumes "0 \<le> T" "0 \<le> W" "\<bar>2 ^ 32 * q - T * M\<bar> \<le> 2 ^ 31"
  shows "2 ^ 32 * \<bar>W * q - T\<bar> \<le> T * \<bar>W * M - 2 ^ 32\<bar> + 2 ^ 31 * W"
proof -
  have "2 ^ 32 * (W * q - T) = W * (2 ^ 32 * q - T * M) + T * (W * M - 2 ^ 32)" by (simp add: algebra_simps)
  then have "2 ^ 32 * \<bar>W * q - T\<bar> = \<bar>W * (2 ^ 32 * q - T * M) + T * (W * M - 2 ^ 32)\<bar>"
    by (metis abs_mult abs_numeral power_abs)
  also have "\<dots> \<le> \<bar>W * (2 ^ 32 * q - T * M)\<bar> + \<bar>T * (W * M - 2 ^ 32)\<bar>" by (rule abs_triangle_ineq)
  also have "\<dots> \<le> W * 2 ^ 31 + T * \<bar>W * M - 2 ^ 32\<bar>"
    using assms mult_left_mono [OF assms(3,2)] by (simp add: abs_mult)
  finally show ?thesis by simp
qed

lemma long_bound:
  fixes T W M S q :: int
  assumes "0 \<le> T" "0 \<le> W" "0 \<le> M" "\<bar>2 ^ 16 * q - S * M\<bar> \<le> 2 ^ 15" "\<bar>2 ^ 16 * S - T\<bar> \<le> 2 ^ 15"
  shows "2 ^ 32 * \<bar>W * q - T\<bar> \<le> T * \<bar>W * M - 2 ^ 32\<bar> + 2 ^ 31 * W + 2 ^ 15 * (W * M)"
proof -
  let ?a = "2 ^ 16 * W * (2 ^ 16 * q - S * M)" and ?b = "W * M * (2 ^ 16 * S - T)" and ?c = "T * (W * M - 2 ^ 32)"
  have "2 ^ 32 * (W * q - T) = ?a + ?b + ?c" by (simp add: algebra_simps)
  then have "2 ^ 32 * \<bar>W * q - T\<bar> = \<bar>?a + ?b + ?c\<bar>" by (metis abs_mult abs_numeral power_abs)
  also have "\<dots> \<le> \<bar>?a\<bar> + \<bar>?b\<bar> + \<bar>?c\<bar>" by linarith
  also have "\<bar>?a\<bar> \<le> 2 ^ 16 * W * 2 ^ 15" using assms(2) mult_left_mono [OF assms(4), of "2 ^ 16 * W"] by (simp add: abs_mult)
  also have "\<bar>?b\<bar> \<le> W * M * 2 ^ 15" using assms(2,3) mult_left_mono [OF assms(5), of "W * M"] by (simp add: abs_mult)
  also have "\<bar>?c\<bar> = T * \<bar>W * M - 2 ^ 32\<bar>" using assms(1) by (simp add: abs_mult)
  finally show ?thesis by simp
qed

lemma fill_inverse_full [simp]: "inv_weight lw \<noteq> 0 \<Longrightarrow> fill_inverse lw = lw"
  by (simp add: fill_inverse_def)

lemma weight_fill_inverse [simp]: "weight (fill_inverse lw) = weight lw"
  by (simp add: fill_inverse_def)

text \<open>How far the inverse that \<open>calc_delta_mine\<close> computes is off: it is that of \<open>weight + 1\<close>.\<close>

lemma fill_inverse_accurate:
  assumes "inv_weight lw = 0" "weight lw \<noteq> 0" "weight lw + 1 \<noteq> 0"
  defines "m \<equiv> unat (inv_weight (fill_inverse lw))" and "w \<equiv> unat (weight lw)"
  shows "\<bar>int w * int m - 2 ^ 32\<bar> \<le> int w + int m"
proof -
  define N where "N = 2 ^ 32 - 1 - w div 2"
  have w: "0 < w" "w < 2 ^ 32"
    using assms(2) unsigned_less [of "weight lw", where ?'a = nat] by (simp_all add: w_def unat_gt_0)
  have w1: "unat (weight lw + 1) = w + 1"
    using assms(3) unatSuc [of "weight lw"] by (simp add: w_def add.commute)
  have half: "weight lw div 2 \<le> WMULT_CONST"
    unfolding word_le_nat_alt unat_WMULT_CONST using w by (simp add: unat_div w_def)
  have n: "unat (WMULT_CONST - weight lw div 2) = N"
    unfolding unat_sub [OF half] unat_WMULT_CONST N_def by (simp add: unat_div w_def)
  have "N div (w + 1) \<le> N div 2" using w by (intro div_le_mono2) simp_all
  also have "\<dots> < 2 ^ 32 - 1" by (simp add: N_def)
  finally have small: "N div (w + 1) + 1 < 2 ^ 32" by simp
  have q: "unat ((WMULT_CONST - weight lw div 2) div (weight lw + 1)) = N div (w + 1)"
    by (simp only: unat_div n w1)
  have m: "m = N div (w + 1) + 1"
    using small assms(1) q unfolding m_def fill_inverse_def by (simp add: unat_word_ariths)
  have up: "(w + 1) * m \<le> N + (w + 1)" unfolding m using times_div_less_eq_dividend [of "w + 1" N] by simp
  have low: "N < (w + 1) * m" unfolding m using dividend_less_times_div [of "w + 1" N] by simp
  have "2 ^ 32 \<le> w * m + m + w" "w * m + m \<le> 2 ^ 32 + w" using up low w by (simp_all add: N_def)
  then have "int (2 ^ 32) \<le> int (w * m + m + w)" "int (w * m + m) \<le> int (2 ^ 32 + w)" by (simp_all only: of_nat_le_iff)
  then show ?thesis by (simp add: abs_le_iff)
qed

lemma good_inverse_nonzero: "good_inverse w m \<Longrightarrow> m \<noteq> 0"
  using unsigned_less [of w, where ?'a = int] by (auto simp: good_inverse_def)

lemma capped:
  fixes x :: u64
  shows "ucast (min x (ucast LONG_MAX)) = (of_nat (min (unat x) (2 ^ 31 - 1)) :: ul)"
proof -
  have "unat (min x (ucast LONG_MAX)) = min (unat x) (2 ^ 31 - 1)"
    by (simp add: min_def word_le_nat_alt LONG_MAX_def)
  then show ?thesis by (simp add: word_unat_eq_iff unsigned_ucast_eq unat_of_nat take_bit_nat_eq_self take_bit_eq_mod)
qed

lemma calc_delta_accurate:
  fixes d l :: ul and lw :: load_weight
  defines "T \<equiv> unat d * unat l" and "w \<equiv> unat (weight lw)" and "m \<equiv> unat (inv_weight (fill_inverse lw))"
  assumes defined: "weight lw + 1 \<noteq> 0 \<or> inv_weight lw \<noteq> 0" and fits: "T * m < 2 ^ 79"
  shows "\<exists>q. calc_delta_mine d l lw = Some (of_nat (min q (2 ^ 31 - 1)), fill_inverse lw) \<and>
     2 ^ 32 * \<bar>int w * int q - int T\<bar> \<le> int T * \<bar>int w * int m - 2 ^ 32\<bar> + 2 ^ 31 * int w +
       (if T < 2 ^ 32 then 0 else 2 ^ 15 * (int w * int m))"
proof -
  let ?M = "ucast (inv_weight (fill_inverse lw)) :: u64"
  have b: "unat d \<le> 2 ^ 32 - 1" "unat l \<le> 2 ^ 32 - 1" "m \<le> 2 ^ 32 - 1"
    using unsigned_less [of d, where ?'a = nat] unsigned_less [of l, where ?'a = nat]
      unsigned_less [of "inv_weight (fill_inverse lw)", where ?'a = nat] by (simp_all add: m_def)
  have T: "T \<le> (2 ^ 32 - 1) * (2 ^ 32 - 1)" unfolding T_def using b(1,2) by (rule mult_le_mono)
  have p: "unat (ucast d * ucast l :: u64) = T"
    using T by (subst unat_mult_lem [THEN iffD1]) (simp_all add: T_def)
  have low: "ucast WMULT_CONST < (ucast d * ucast l :: u64) \<longleftrightarrow> \<not> T < 2 ^ 32"
    unfolding word_less_nat_alt p unat_ucast_64 unat_WMULT_CONST by (simp add: not_less) linarith
  show ?thesis
  proof (cases "T < 2 ^ 32")
    case True
    then have Tm: "T * m \<le> (2 ^ 32 - 1) * (2 ^ 32 - 1)" using b(3) by (intro mult_le_mono) simp_all
    have pm: "unat (ucast d * ucast l * ?M) = T * m"
      using Tm by (subst unat_mult_lem [THEN iffD1]) (simp_all add: p m_def)
    define q where "q = (T * m + 2 ^ 31) div 2 ^ 32"
    have "unat (SRR (ucast d * ucast l * ?M) 32) = q"
      using Tm by (subst unat_SRR) (simp_all add: pm q_def)
    then have "calc_delta_mine d l lw = Some (of_nat (min q (2 ^ 31 - 1)), fill_inverse lw)"
      using defined low True capped [of "SRR (ucast d * ucast l * ?M) 32"]
      by (auto simp: calc_delta_mine_def WMULT_SHIFT_def Let_def)
    moreover have "\<bar>2 ^ 32 * int q - int T * int m\<bar> \<le> 2 ^ 31"
      using rounded [of "2 ^ 31" "T * m"] by (simp add: q_def)
    ultimately show ?thesis using True short_bound [of "int T" "int w" "int q" "int m"] by auto
  next
    case False
    define S where "S = (T + 2 ^ 15) div 2 ^ 16"
    have s: "unat (SRR (ucast d * ucast l) 16) = S"
      using T by (subst unat_SRR) (simp_all add: p S_def)
    have "2 ^ 16 * S \<le> T + 2 ^ 15" by (simp add: S_def)
    then have "2 ^ 16 * S * m \<le> (T + 2 ^ 15) * m" by (rule mult_le_mono1)
    also have "\<dots> \<le> T * m + 2 ^ 15 * (2 ^ 32 - 1)" using b(3) by (simp add: algebra_simps)
    finally have Sm: "S * m + 2 ^ 15 < 2 ^ 64" using fits by simp
    have pm: "unat (SRR (ucast d * ucast l) 16 * ?M) = S * m"
      using Sm by (subst unat_mult_lem [THEN iffD1]) (simp_all add: s m_def)
    define q where "q = (S * m + 2 ^ 15) div 2 ^ 16"
    have "unat (SRR (SRR (ucast d * ucast l) 16 * ?M) 16) = q"
      using Sm by (subst unat_SRR) (simp_all add: pm q_def)
    then have "calc_delta_mine d l lw = Some (of_nat (min q (2 ^ 31 - 1)), fill_inverse lw)"
      using defined low False capped [of "SRR (SRR (ucast d * ucast l) 16 * ?M) 16"]
      by (auto simp: calc_delta_mine_def WMULT_SHIFT_def Let_def)
    moreover have "\<bar>2 ^ 16 * int q - int S * int m\<bar> \<le> 2 ^ 15" "\<bar>2 ^ 16 * int S - int T\<bar> \<le> 2 ^ 15"
      using rounded [of "2 ^ 15" "S * m"] rounded [of "2 ^ 15" T] by (simp_all add: q_def S_def)
    ultimately show ?thesis using False long_bound [of "int T" "int w" "int m" "int q" "int S"] by auto
  qed
qed

text \<open>
  C27 (sched_delta_is_accurate): \<open>calc_delta_mine\<close> for a weight other than 0 and \<open>2 ^ 32 - 1\<close> whose inverse is
  not cached, or is the one that \<open>set_load_weight\<close> gave with the weight of a task.  It returns the quotient
  \<open>q\<close> of \<open>d * l\<close> by the weight, cut off at \<open>LONG_MAX\<close>, and the inverse \<open>m\<close> stays cached.  Multiplied by \<open>2 ^ 32\<close>
  and the weight, \<open>q\<close> is off by at most half a unit for its rounding, the product times the error of the
  inverse, which is less than the weight for a task and at most the weight plus the inverse when it is computed here,
  and in the branch for products of more than 32 bits the rounding of the product.  The product with
  the inverse has to stay below \<open>2 ^ 79\<close>, that is quotients below about \<open>2 ^ 47\<close>: beyond that the code wraps
  (\<open>scaled_time_wraps\<close>).
\<close>

theorem sched_delta_is_accurate:
  assumes "weight lw \<noteq> 0" "weight lw + 1 \<noteq> 0"
    and "inv_weight lw = 0 \<or> (\<exists>K p p'. set_load_weight K p = Some p' \<and>
        (policy p = SCHED_IDLE K \<or> MAX_RT_PRIO K \<le> static_prio p \<and> static_prio p < MAX_RT_PRIO K + 40) \<and>
        weight lw = se_weight p' \<and> inv_weight lw = se_inv_weight p')"
    and "unat d * unat l * unat (inv_weight (fill_inverse lw)) < 2 ^ 79"
  shows "let w = int (unat (weight lw)); m = int (unat (inv_weight (fill_inverse lw))); T = int (unat d) * int (unat l) in
     \<exists>q. calc_delta_mine d l lw = Some (of_nat (min q (2 ^ 31 - 1)), fill_inverse lw) \<and>
       2 ^ 32 * \<bar>w * int q - T\<bar> \<le> 2 ^ 31 * w + T * (if inv_weight lw = 0 then w + m else w) +
         (if T < 2 ^ 32 then 0 else 2 ^ 15 * (w * m))"
proof -
  let ?w = "int (unat (weight lw))" and ?m = "int (unat (inv_weight (fill_inverse lw)))" and ?T = "unat d * unat l"
  have e: "\<bar>?w * ?m - 2 ^ 32\<bar> \<le> (if inv_weight lw = 0 then ?w + ?m else ?w)"
  proof (cases "inv_weight lw = 0")
    case False
    then obtain K p p' where p: "set_load_weight K p = Some p'"
        "policy p = SCHED_IDLE K \<or> MAX_RT_PRIO K \<le> static_prio p \<and> static_prio p < MAX_RT_PRIO K + 40"
        "weight lw = se_weight p'" "inv_weight lw = se_inv_weight p'" using assms(3) by blast
    then have "good_inverse (weight lw) (inv_weight lw)" using set_load_weight_Some [OF p(2)] by auto
    then show ?thesis using False by (simp add: good_inverse_def)
  qed (use fill_inverse_accurate [OF _ assms(1,2)] in simp)
  obtain q where q: "calc_delta_mine d l lw = Some (of_nat (min q (2 ^ 31 - 1)), fill_inverse lw)"
      "2 ^ 32 * \<bar>?w * int q - int ?T\<bar> \<le> int ?T * \<bar>?w * ?m - 2 ^ 32\<bar> + 2 ^ 31 * ?w +
        (if ?T < 2 ^ 32 then 0 else 2 ^ 15 * (?w * ?m))"
    using calc_delta_accurate [OF _ assms(4)] assms(2) by blast
  have "int ?T * \<bar>?w * ?m - 2 ^ 32\<bar> \<le> int ?T * (if inv_weight lw = 0 then ?w + ?m else ?w)"
    by (rule mult_left_mono [OF e]) simp
  moreover have "?T < 2 ^ 32 \<longleftrightarrow> int (unat d) * int (unat l) < 2 ^ 32"
    by (metis of_nat_less_iff of_nat_mult of_nat_numeral of_nat_power)
  ultimately show ?thesis unfolding Let_def using q by (intro exI [of _ q] conjI) (simp_all split: if_splits)
qed

text \<open>A product of more than 32 bits, and a weight whose inverse is not cached.\<close>

theorem sched_delta_is_accurate_witness:
  "\<exists>q. calc_delta_mine 8000000 1024 \<lparr>weight = 335, inv_weight = 0\<rparr> =
      Some (of_nat (min q (2 ^ 31 - 1)), fill_inverse \<lparr>weight = 335, inv_weight = 0\<rparr>) \<and>
    \<bar>335 * int q - 8192000000\<bar> \<le> 25000000"
proof -
  let ?lw = "\<lparr>weight = 335, inv_weight = 0\<rparr>"
  have m: "unat (inv_weight (fill_inverse ?lw)) = 12782641" by (simp add: fill_inverse_def WMULT_CONST_def)
  then show ?thesis
    using sched_delta_is_accurate [of ?lw 8000000 1024] by (auto simp: Let_def)
qed

text \<open>
  The branch for long products still overflows: here the quotient is \<open>2 ^ 48\<close> and a bit, to be cut off at \<open>LONG_MAX\<close>.
\<close>

lemma scaled_time_wraps:
  "calc_delta_mine 2147483649 393216 \<lparr>weight = WEIGHT_IDLEPRIO, inv_weight = WMULT_IDLEPRIO\<rparr> =
     Some (65536, \<lparr>weight = WEIGHT_IDLEPRIO, inv_weight = WMULT_IDLEPRIO\<rparr>) \<and>
   WEIGHT_IDLEPRIO = 3 \<and> (2 :: int) ^ 48 \<le> 2147483649 * 393216 div 3"
  by (simp add: calc_delta_mine_def WEIGHT_IDLEPRIO_def WMULT_IDLEPRIO_def WMULT_SHIFT_def WMULT_CONST_def SRR_def LONG_MAX_def Let_def)

end
