(* ===== verification/SchedPolicyProps.thy ===== *)
theory SchedPolicyProps
  imports SchedMachine SchedWeight
begin

text \<open>
  Properties of the priorities: the fields of a task stay consistent under every change, an
  unprivileged caller cannot raise a task above its limits, and errors change nothing.
\<close>

section \<open>Consistent scheduling parameters\<close>

text \<open>
  The priority is the normal priority of the policy or better (priority inheritance), the class is
  the one of the priority, and the weight is that of the nice value unless the policy is real-time.
\<close>

definition weight_ok :: "kconsts \<Rightarrow> task \<Rightarrow> bool" where
  "weight_ok K t \<longleftrightarrow>
     (if policy t = SCHED_IDLE K then se_weight t = WEIGHT_IDLEPRIO \<and> se_inv_weight t = WMULT_IDLEPRIO
      else read_at prio_to_weight (static_prio t - MAX_RT_PRIO K) = Some (se_weight t) \<and>
           read_at prio_to_wmult (static_prio t - MAX_RT_PRIO K) = Some (se_inv_weight t))"

definition prio_ok :: "kconsts \<Rightarrow> task \<Rightarrow> bool" where
  "prio_ok K t \<longleftrightarrow> policy t \<in> set (policies K) \<and>
     MAX_RT_PRIO K \<le> static_prio t \<and> static_prio t < MAX_PRIO K \<and>
     (rt_policy K (policy t) \<longleftrightarrow> rt_priority t \<noteq> 0) \<and> uint (rt_priority t) < MAX_RT_PRIO K \<and>
     normal_prio t = normal_priority K t \<and> 0 \<le> prio t \<and> prio t \<le> normal_prio t \<and>
     sclass t = class_of_prio K (prio t) \<and> (rt_policy K (policy t) \<or> weight_ok K t)"

lemma prio_consts:
  assumes "consts_ok K"
  shows "rt_prio K x \<longleftrightarrow> x < MAX_RT_PRIO K" "MAX_PRIO K = MAX_RT_PRIO K + 40" "0 < MAX_RT_PRIO K"
    "MAX_RT_PRIO K < 1000" "MAX_USER_RT_PRIO K \<le> MAX_RT_PRIO K" "distinct (policies K)"
    "y \<in> set (policies K) \<Longrightarrow> 0 \<le> sint y" "y \<in> set (policies K) \<Longrightarrow> y AND SCHED_RESET_ON_FORK K = 0"
  using assms by (auto simp: consts_ok_def)

lemma uint_small: "0 \<le> x \<Longrightarrow> x < 2 ^ 31 \<Longrightarrow> uint (word_of_int x :: u32) = x"
  by (simp add: unsigned_of_int take_bit_int_eq_self)

lemma sint_small: "0 \<le> x \<Longrightarrow> x < 2 ^ 31 \<Longrightarrow> sint (word_of_int x :: u32) = x"
  by (simp add: signed_of_int signed_take_bit_int_eq_self)

lemma normal_priority_rt:
  assumes "consts_ok K" "rt_policy K (policy t)" "uint (rt_priority t) < MAX_RT_PRIO K"
  shows "normal_priority K t = MAX_RT_PRIO K - 1 - uint (rt_priority t)"
proof -
  define y where "y = MAX_RT_PRIO K - 1 - uint (rt_priority t)"
  have "uint (rt_priority t) \<ge> 0" by simp
  then have "0 \<le> y" "y < 1000"
    using assms(3) prio_consts(3,4) [OF assms(1)] unfolding y_def by linarith+
  then have y: "0 \<le> y" "y < 2 ^ 31" by simp_all
  have "word_of_int (MAX_RT_PRIO K - 1) - rt_priority t = (word_of_int y :: u32)"
    by (simp add: y_def)
  then show ?thesis
    using sint_small [OF y] assms(2) by (simp add: normal_priority_def task_has_rt_policy_def y_def)
qed

lemma normal_priority_fair:
  "\<not> rt_policy K (policy t) \<Longrightarrow> normal_priority K t = static_prio t"
  by (simp add: normal_priority_def task_has_rt_policy_def normal_static_prio_def)

lemma normal_priority_range:
  assumes "consts_ok K" "MAX_RT_PRIO K \<le> static_prio t" "static_prio t < MAX_PRIO K"
    "uint (rt_priority t) < MAX_RT_PRIO K"
  shows "0 \<le> normal_priority K t" "normal_priority K t < MAX_PRIO K"
proof -
  have u: "uint (rt_priority t) \<ge> 0" by simp
  have "0 \<le> normal_priority K t \<and> normal_priority K t < MAX_PRIO K"
  proof (cases "rt_policy K (policy t)")
    case True
    show ?thesis
      unfolding normal_priority_rt [OF assms(1) True assms(4)]
      using u assms(4) prio_consts(2) [OF assms(1)] by linarith
  next
    case False
    then show ?thesis using assms(2,3) prio_consts(3) [OF assms(1)] by (simp add: normal_priority_fair)
  qed
  then show "0 \<le> normal_priority K t" "normal_priority K t < MAX_PRIO K" by simp_all
qed

text \<open>\<open>set_load_weight\<close> succeeds on a static priority in range and makes the weight right.\<close>

lemma set_load_weight_ok:
  assumes "MAX_RT_PRIO K \<le> static_prio t" "static_prio t < MAX_RT_PRIO K + 40"
  shows "\<exists>w m. set_load_weight K t = Some (t\<lparr>se_weight := w, se_inv_weight := m\<rparr>) \<and>
    weight_ok K (t\<lparr>se_weight := w, se_inv_weight := m\<rparr>)"
proof -
  have i: "0 \<le> static_prio t - MAX_RT_PRIO K" "static_prio t - MAX_RT_PRIO K < int (length prio_to_weight)"
    "static_prio t - MAX_RT_PRIO K < int (length prio_to_wmult)" using assms by simp_all
  then show ?thesis
    by (auto simp: set_load_weight_def weight_ok_def read_at_def)
qed

lemma weight_ok_cong:
  "policy u = policy t \<Longrightarrow> static_prio u = static_prio t \<Longrightarrow> se_weight u = se_weight t \<Longrightarrow>
   se_inv_weight u = se_inv_weight t \<Longrightarrow> weight_ok K u = weight_ok K t"
  by (simp add: weight_ok_def)

section \<open>Nice values\<close>

lemma nice_prio_range:
  "- 20 \<le> n \<Longrightarrow> n \<le> 19 \<Longrightarrow> MAX_RT_PRIO K \<le> NICE_TO_PRIO K n \<and> NICE_TO_PRIO K n < MAX_RT_PRIO K + 40"
  by (simp add: NICE_TO_PRIO_def)

text \<open>What \<open>set_user_nice\<close> makes of the task.\<close>

lemma set_user_nice_task:
  assumes K: "consts_ok K" and ok: "prio_ok K (tasks s p)"
  shows "\<exists>s'. set_user_nice K H p nice s = Some s' \<and> (\<forall>q. q \<noteq> p \<longrightarrow> tasks s' q = tasks s q) \<and>
    prio_ok K (tasks s' p) \<and>
    TASK_NICE K (tasks s' p) = (if nice < - 20 \<or> 19 < nice then TASK_NICE K (tasks s p) else nice)"
proof -
  let ?t = "tasks s p" and ?c = "task_cpu (tasks s p)"
  note c = prio_consts [OF K]
  show ?thesis
  proof (cases "TASK_NICE K ?t = nice \<or> nice < - 20 \<or> 19 < nice")
    case True
    then show ?thesis using ok by (auto simp: set_user_nice_def Let_def)
  next
    case False
    then have r: "MAX_RT_PRIO K \<le> NICE_TO_PRIO K nice" "NICE_TO_PRIO K nice < MAX_RT_PRIO K + 40"
      using nice_prio_range [of nice K] by auto
    have n: "TASK_NICE K (t\<lparr>static_prio := NICE_TO_PRIO K nice\<rparr>) = nice" for t
      by (simp add: TASK_NICE_def PRIO_TO_NICE_def NICE_TO_PRIO_def)
    show ?thesis
    proof (cases "rt_policy K (policy ?t)")
      case rt: True
      have "normal_priority K (?t\<lparr>static_prio := NICE_TO_PRIO K nice\<rparr>) = normal_priority K ?t"
        using rt by (simp add: normal_priority_def task_has_rt_policy_def)
      then have "prio_ok K (?t\<lparr>static_prio := NICE_TO_PRIO K nice\<rparr>)"
        using ok rt r c(2) by (simp add: prio_ok_def)
      then show ?thesis using False rt n
        by (auto simp: set_user_nice_def Let_def task_has_rt_policy_def)
    next
      case fair: False
      define u where "u = (tasks (if on_rq ?t then dequeue_task H ?c p 0 s else s) p)\<lparr>static_prio := NICE_TO_PRIO K nice\<rparr>"
      have u: "u = ?t\<lparr>on_rq := False, static_prio := NICE_TO_PRIO K nice\<rparr> \<or>
          u = ?t\<lparr>static_prio := NICE_TO_PRIO K nice\<rparr>" by (simp add: u_def)
      obtain w m where w: "set_load_weight K u = Some (u\<lparr>se_weight := w, se_inv_weight := m\<rparr>)"
          "weight_ok K (u\<lparr>se_weight := w, se_inv_weight := m\<rparr>)"
        using set_load_weight_ok [of K u] r u by auto
      define v where "v = u\<lparr>se_weight := w, se_inv_weight := m\<rparr>"
      have pol: "policy v = policy ?t" "static_prio v = NICE_TO_PRIO K nice" "prio v = prio ?t"
        "rt_priority v = rt_priority ?t" "sclass v = sclass ?t" using u by (auto simp: v_def)
      have np: "normal_priority K v = NICE_TO_PRIO K nice"
        using fair pol by (simp add: normal_priority_fair)
      have e: "effective_prio K v = (v\<lparr>normal_prio := NICE_TO_PRIO K nice\<rparr>,
          if prio ?t < MAX_RT_PRIO K then prio ?t else NICE_TO_PRIO K nice)"
        using np pol c(1) by (simp add: effective_prio_def Let_def)
      define x where "x = (if prio ?t < MAX_RT_PRIO K then prio ?t else NICE_TO_PRIO K nice)"
      define v' where "v' = v\<lparr>normal_prio := NICE_TO_PRIO K nice, prio := x\<rparr>"
      have wv: "weight_ok K v'" using w(2) by (subst weight_ok_cong [of _ v]) (simp_all add: v'_def v_def)
      have nv: "normal_priority K v' = NICE_TO_PRIO K nice"
        using fair pol by (simp add: normal_priority_fair v'_def)
      have "prio_ok K v'"
        using ok pol wv nv r c(1,2,3) by (auto simp: prio_ok_def v'_def x_def class_of_prio_def)
      moreover have "prio_ok K (v'\<lparr>on_rq := True\<rparr>) = prio_ok K v'"
        by (simp add: prio_ok_def weight_ok_def normal_priority_def task_has_rt_policy_def normal_static_prio_def)
      moreover have "TASK_NICE K v' = nice" "TASK_NICE K (v'\<lparr>on_rq := True\<rparr>) = nice"
        using pol(2) by (simp_all add: v'_def TASK_NICE_def PRIO_TO_NICE_def NICE_TO_PRIO_def)
      moreover have "\<exists>s'. set_user_nice K H p nice s = Some s' \<and> (\<forall>q. q \<noteq> p \<longrightarrow> tasks s' q = tasks s q) \<and>
          (tasks s' p = v' \<or> tasks s' p = v'\<lparr>on_rq := True\<rparr>)"
        using False fair w(1) e
        by (cases "on_rq ?t")
          (simp_all add: set_user_nice_def Let_def task_has_rt_policy_def u_def v_def v'_def x_def)
      ultimately show ?thesis using False by auto
    qed
  qed
qed

section \<open>Priority inheritance\<close>

lemma prio_ok_on_rq [simp]: "prio_ok K (t\<lparr>on_rq := b\<rparr>) = prio_ok K t"
  by (simp add: prio_ok_def weight_ok_def normal_priority_def task_has_rt_policy_def normal_static_prio_def)

lemma prio_ok_boost:
  assumes "prio_ok K t" "0 \<le> x" "x \<le> normal_prio t"
  shows "prio_ok K (t\<lparr>sclass := class_of_prio K x, prio := x\<rparr>)"
proof -
  let ?u = "t\<lparr>sclass := class_of_prio K x, prio := x\<rparr>"
  have "normal_priority K ?u = normal_priority K t" "weight_ok K ?u = weight_ok K t"
    by (simp_all add: weight_ok_def normal_priority_def task_has_rt_policy_def normal_static_prio_def)
  then show ?thesis using assms by (auto simp: prio_ok_def)
qed

lemma rt_mutex_setprio_task:
  assumes K: "consts_ok K" and ok: "prio_ok K (tasks s p)" and x: "0 \<le> x" "x \<le> normal_prio (tasks s p)"
  shows "\<exists>s'. rt_mutex_setprio K H p x s = Some s' \<and> (\<forall>q. q \<noteq> p \<longrightarrow> tasks s' q = tasks s q) \<and>
    prio_ok K (tasks s' p) \<and> prio (tasks s' p) = x \<and> normal_prio (tasks s' p) = normal_prio (tasks s p)"
proof -
  have "normal_prio (tasks s p) < MAX_PRIO K"
    using ok normal_priority_range(2) [OF K] by (simp add: prio_ok_def)
  then have g: "\<not> (x < 0 \<or> MAX_PRIO K < x)" using x by auto
  have b: "prio_ok K ((tasks s p)\<lparr>sclass := class_of_prio K x, prio := x, on_rq := b\<rparr>)" for b
    using prio_ok_boost [OF ok x] prio_ok_on_rq [where t = "(tasks s p)\<lparr>sclass := class_of_prio K x, prio := x\<rparr>" and b = b]
    by simp
  have "prio_ok K ((tasks s p)\<lparr>on_rq := b, sclass := class_of_prio K x, prio := x, on_rq := c\<rparr>)" for b c
    using b [of c] by simp
  then show ?thesis
    using g prio_ok_boost [OF ok x] b
    by (cases "on_rq (tasks s p)"; cases "task_current s (task_cpu (tasks s p)) p")
      (auto simp: rt_mutex_setprio_def Let_def)
qed

section \<open>Changing the policy\<close>

definition getprio_ok :: "'c kenv \<Rightarrow> bool" where
  "getprio_ok E \<longleftrightarrow> (\<forall>e p n. 0 \<le> n \<longrightarrow> 0 \<le> rt_mutex_getprio E e p n \<and> rt_mutex_getprio E e p n \<le> n)"

lemma setscheduler_check_Inr:
  assumes K: "consts_ok K" and ok: "prio_ok K (tasks s p)"
    and c: "setscheduler_check K E p arg x user s = Inr (pol, old, reset)"
  shows "pol \<in> set (policies K)" "0 \<le> x" "x < MAX_RT_PRIO K" "rt_policy K pol \<longleftrightarrow> x \<noteq> 0"
    "old = - 1 \<or> old = policy (tasks s p)"
    "sint arg < 0 \<Longrightarrow> pol = policy (tasks s p) \<and> reset = reset_on_fork (tasks s p)"
    "\<not> sint arg < 0 \<Longrightarrow> pol = arg AND NOT (SCHED_RESET_ON_FORK K) \<and> reset = (arg AND SCHED_RESET_ON_FORK K \<noteq> 0)"
proof -
  note u = prio_consts(5) [OF K]
  have "pol \<in> set (policies K) \<and> 0 \<le> x \<and> x < MAX_RT_PRIO K \<and> (rt_policy K pol \<longleftrightarrow> x \<noteq> 0) \<and>
    (old = - 1 \<or> old = policy (tasks s p)) \<and>
    (sint arg < 0 \<longrightarrow> pol = policy (tasks s p) \<and> reset = reset_on_fork (tasks s p)) \<and>
    (\<not> sint arg < 0 \<longrightarrow> pol = arg AND NOT (SCHED_RESET_ON_FORK K) \<and> reset = (arg AND SCHED_RESET_ON_FORK K \<noteq> 0))"
  proof (cases "sint arg < 0")
    case True
    then show ?thesis using c ok u
      by (cases "mm (tasks s p)") (auto simp: setscheduler_check_def Let_def prio_ok_def split: if_splits)
  next
    case False
    then show ?thesis using c u
      by (cases "mm (tasks s p)") (auto simp: setscheduler_check_def Let_def policies_def split: if_splits)
  qed
  then show "pol \<in> set (policies K)" "0 \<le> x" "x < MAX_RT_PRIO K" "rt_policy K pol \<longleftrightarrow> x \<noteq> 0"
    "old = - 1 \<or> old = policy (tasks s p)"
    "sint arg < 0 \<Longrightarrow> pol = policy (tasks s p) \<and> reset = reset_on_fork (tasks s p)"
    "\<not> sint arg < 0 \<Longrightarrow> pol = arg AND NOT (SCHED_RESET_ON_FORK K) \<and> reset = (arg AND SCHED_RESET_ON_FORK K \<noteq> 0)"
    by blast+
qed

text \<open>The parameters \<open>__setscheduler\<close> installs.\<close>

lemma apply_scheduler_task:
  assumes K: "consts_ok K" and E: "getprio_ok E" and off: "\<not> on_rq (tasks s p)"
    and st: "MAX_RT_PRIO K \<le> static_prio (tasks s p)" "static_prio (tasks s p) < MAX_PRIO K"
    and a: "pol \<in> set (policies K)" "0 \<le> x" "x < MAX_RT_PRIO K" "rt_policy K pol \<longleftrightarrow> x \<noteq> 0"
  shows "\<exists>u. apply_scheduler K E p pol x s = Some (set_task p (\<lambda>_. u) s) \<and> prio_ok K u \<and>
    policy u = pol \<and> rt_priority u = word_of_int x \<and> static_prio u = static_prio (tasks s p) \<and>
    reset_on_fork u = reset_on_fork (tasks s p) \<and> \<not> on_rq u"
proof -
  note c = prio_consts [OF K]
  have ux: "uint (word_of_int x :: u32) = x" using a c(4) by (intro uint_small) auto
  define t0 where "t0 = (tasks s p)\<lparr>policy := pol, rt_priority := word_of_int x\<rparr>"
  define t1 where "t1 = t0\<lparr>normal_prio := normal_priority K t0\<rparr>"
  define t2 where "t2 = t1\<lparr>prio := rt_mutex_getprio E (ext s) p (normal_prio t1)\<rparr>"
  define t3 where "t3 = t2\<lparr>sclass := class_of_prio K (prio t2)\<rparr>"
  have st3: "static_prio t3 = static_prio (tasks s p)" by (simp add: t3_def t2_def t1_def t0_def)
  obtain w m where w: "set_load_weight K t3 = Some (t3\<lparr>se_weight := w, se_inv_weight := m\<rparr>)"
      "weight_ok K (t3\<lparr>se_weight := w, se_inv_weight := m\<rparr>)"
    using set_load_weight_ok [of K t3] st c(2) st3 by auto
  define u where "u = t3\<lparr>se_weight := w, se_inv_weight := m\<rparr>"
  have np: "normal_priority K u = normal_priority K t0"
    by (simp add: u_def t3_def t2_def t1_def t0_def normal_priority_def task_has_rt_policy_def normal_static_prio_def)
  have n0: "0 \<le> normal_priority K t0"
    using normal_priority_range(1) [OF K, of t0] st a(3) ux by (simp add: t0_def)
  have pu: "0 \<le> prio u" "prio u \<le> normal_prio u" "normal_prio u = normal_priority K t0"
    "sclass u = class_of_prio K (prio u)"
    using E n0 by (simp_all add: getprio_ok_def u_def t3_def t2_def t1_def)
  have f: "policy u = pol" "rt_priority u = word_of_int x" "static_prio u = static_prio (tasks s p)"
    "reset_on_fork u = reset_on_fork (tasks s p)" "\<not> on_rq u"
    using off by (simp_all add: u_def t3_def t2_def t1_def t0_def)
  have nz: "(word_of_int x :: u32) \<noteq> 0 \<longleftrightarrow> x \<noteq> 0"
    using ux by (metis unsigned_0 word_of_int_0)
  have "prio_ok K u"
    using st a pu np w(2) f ux nz by (simp add: prio_ok_def u_def [symmetric])
  moreover have "apply_scheduler K E p pol x s = Some (set_task p (\<lambda>_. u) s)"
    using off w(1) by (simp add: apply_scheduler_def Let_def u_def t3_def t2_def t1_def t0_def)
  ultimately show ?thesis using f by blast
qed

lemma tasks_after_change:
  "tasks (after_change K H E p s s2) =
     (if on_rq (tasks s p) then (tasks s2)(p := (tasks s2 p)\<lparr>on_rq := True\<rparr>) else tasks s2)"
  by (simp add: after_change_def Let_def)

lemma setscheduler_change_task:
  assumes K: "consts_ok K" and E: "getprio_ok E" and ok: "prio_ok K (tasks s p)"
    and a: "pol \<in> set (policies K)" "0 \<le> x" "x < MAX_RT_PRIO K" "rt_policy K pol \<longleftrightarrow> x \<noteq> 0"
  shows "\<exists>s'. setscheduler_change K H E p pol reset x s = Some s' \<and>
    (\<forall>q. q \<noteq> p \<longrightarrow> tasks s' q = tasks s q) \<and> prio_ok K (tasks s' p) \<and> policy (tasks s' p) = pol \<and>
    rt_priority (tasks s' p) = word_of_int x \<and> static_prio (tasks s' p) = static_prio (tasks s p) \<and>
    reset_on_fork (tasks s' p) = reset"
proof -
  let ?b = "before_change K H p reset s"
  have b: "\<not> on_rq (tasks ?b p)" "static_prio (tasks ?b p) = static_prio (tasks s p)"
    "reset_on_fork (tasks ?b p) = reset" "\<And>q. q \<noteq> p \<Longrightarrow> tasks ?b q = tasks s q"
    by (simp_all add: tasks_before_change)
  obtain u where u: "apply_scheduler K E p pol x ?b = Some (set_task p (\<lambda>_. u) ?b)" "prio_ok K u"
      "policy u = pol" "rt_priority u = word_of_int x" "static_prio u = static_prio (tasks s p)"
      "reset_on_fork u = reset" "\<not> on_rq u"
  proof -
    have "MAX_RT_PRIO K \<le> static_prio (tasks ?b p)" "static_prio (tasks ?b p) < MAX_PRIO K"
      using ok unfolding b(2) prio_ok_def by blast+
    from apply_scheduler_task [OF K E b(1) this a] show ?thesis using that b(2,3) by auto
  qed
  define s2 where "s2 = set_task p (\<lambda>_. u) ?b"
  have "tasks s2 = (tasks ?b)(p := u)" by (simp add: s2_def)
  then have t: "tasks (after_change K H E p s s2) p = (if on_rq (tasks s p) then u\<lparr>on_rq := True\<rparr> else u)"
    "\<And>q. q \<noteq> p \<Longrightarrow> tasks (after_change K H E p s s2) q = tasks s q" by (simp_all add: tasks_after_change b(4))
  have "prio_ok K (tasks (after_change K H E p s s2) p)"
    "policy (tasks (after_change K H E p s s2) p) = pol"
    "rt_priority (tasks (after_change K H E p s s2) p) = word_of_int x"
    "static_prio (tasks (after_change K H E p s s2) p) = static_prio (tasks s p)"
    "reset_on_fork (tasks (after_change K H E p s s2) p) = reset"
    unfolding t(1) using u(2-6) by simp_all
  moreover have "setscheduler_change K H E p pol reset x s = Some (after_change K H E p s s2)"
    using u(1) by (simp add: setscheduler_change_split s2_def)
  ultimately show ?thesis using t(2) by blast
qed

section \<open>The whole call\<close>

text \<open>Without interference the policy is the one just read, so the checks are not repeated.\<close>

lemma setscheduler_cases:
  assumes K: "consts_ok K" and E: "getprio_ok E" and i: "\<not> in_interrupt E" and ok: "prio_ok K (tasks s p)"
  obtains e where "do_setscheduler K H E p arg x user s = Some (s, Commit_return e)" "e \<noteq> 0"
  | pol old reset where "setscheduler_check K E p arg x user s = Inr (pol, old, reset)"
      "do_setscheduler K H E p arg x user s = Some (s, Commit_return 0)"
      "pol = policy (tasks s p)" "rt_priority (tasks s p) = word_of_int x"
  | pol old reset s' where "setscheduler_check K E p arg x user s = Inr (pol, old, reset)"
      "do_setscheduler K H E p arg x user s = Some (s', Commit_return 0)"
      "\<And>q. q \<noteq> p \<Longrightarrow> tasks s' q = tasks s q" "prio_ok K (tasks s' p)" "policy (tasks s' p) = pol"
      "rt_priority (tasks s' p) = word_of_int x" "static_prio (tasks s' p) = static_prio (tasks s p)"
      "reset_on_fork (tasks s' p) = reset"
proof (cases "setscheduler_check K E p arg x user s")
  case (Inl e)
  have "e \<noteq> 0" using Inl by (auto simp: setscheduler_check_def Let_def split: if_splits)
  then show thesis using that(1) Inl i by (simp add: do_setscheduler_def)
next
  case (Inr v)
  obtain pol old reset where v: "v = (pol, old, reset)" by (cases v)
  note c = setscheduler_check_Inr [OF K ok Inr [unfolded v]]
  have d: "do_setscheduler K H E p arg x user s = setscheduler_commit K H E p pol old reset x user s"
    using Inr v i by (simp add: do_setscheduler_def)
  consider (stop) "Some p = stop (rqs s (task_cpu (tasks s p)))"
    | (same) "Some p \<noteq> stop (rqs s (task_cpu (tasks s p)))"
        "pol = policy (tasks s p) \<and> (\<not> rt_policy K pol \<or> word_of_int x = rt_priority (tasks s p))"
    | (group) "Some p \<noteq> stop (rqs s (task_cpu (tasks s p)))"
        "\<not> (pol = policy (tasks s p) \<and> (\<not> rt_policy K pol \<or> word_of_int x = rt_priority (tasks s p)))"
        "user \<and> rt_bandwidth_enabled (sysctl_sched_rt_runtime E) \<and> rt_policy K pol \<and> group_without_runtime E p"
    | (change) "Some p \<noteq> stop (rqs s (task_cpu (tasks s p)))"
        "\<not> (pol = policy (tasks s p) \<and> (\<not> rt_policy K pol \<or> word_of_int x = rt_priority (tasks s p)))"
        "\<not> (user \<and> rt_bandwidth_enabled (sysctl_sched_rt_runtime E) \<and> rt_policy K pol \<and> group_without_runtime E p)"
    by blast
  then show thesis
  proof cases
    case stop
    then show thesis using that(1) d by (simp add: setscheduler_commit_def)
  next
    case same
    have "rt_priority (tasks s p) = word_of_int x"
    proof (cases "rt_policy K pol")
      case False
      then have "x = 0" "rt_priority (tasks s p) = 0" using same c(4) ok by (auto simp: prio_ok_def)
      then show ?thesis by simp
    qed (use same in simp)
    moreover have "do_setscheduler K H E p arg x user s = Some (s, Commit_return 0)"
      using same d by (simp add: setscheduler_commit_def)
    ultimately show thesis using that(2) Inr v same(2) by blast
  next
    case group
    then have "do_setscheduler K H E p arg x user s = Some (s, Commit_return (- EPERM))"
      unfolding d setscheduler_commit_def by simp
    then show thesis using that(1) by simp
  next
    case change
    obtain s' where s': "setscheduler_change K H E p pol reset x s = Some s'"
        "\<forall>q. q \<noteq> p \<longrightarrow> tasks s' q = tasks s q" "prio_ok K (tasks s' p)" "policy (tasks s' p) = pol"
        "rt_priority (tasks s' p) = word_of_int x" "static_prio (tasks s' p) = static_prio (tasks s p)"
        "reset_on_fork (tasks s' p) = reset"
      using setscheduler_change_task [OF K E ok c(1-4)] by blast
    have "do_setscheduler K H E p arg x user s = Some (s', Commit_return 0)"
      using change c(5) s'(1) unfolding d setscheduler_commit_def by auto
    then show thesis using that(3) Inr v s' by blast
  qed
qed

text \<open>
  C24 (scheduling_parameters_stay_consistent): for a task whose parameters are consistent, setting the
  nice value, the inherited priority or the policy always ends without a \<open>BUG_ON\<close>, an access outside
  the weight tables or a repetition of the checks, and leaves the parameters consistent: a known
  policy, a static priority of a nice level, a real-time priority exactly for the real-time
  policies, the normal priority computed from them, a priority no worse than it, the class of that
  priority and the weight of the nice level; no other task changes.
\<close>

theorem scheduling_parameters_stay_consistent:
  assumes "consts_ok K" "getprio_ok E" "\<not> in_interrupt E" "prio_ok K (tasks s p)"
  shows "(\<exists>s'. set_user_nice K H p nice s = Some s' \<and> prio_ok K (tasks s' p) \<and>
       (\<forall>q. q \<noteq> p \<longrightarrow> tasks s' q = tasks s q)) \<and>
    (0 \<le> x \<and> x \<le> normal_prio (tasks s p) \<longrightarrow> (\<exists>s'. rt_mutex_setprio K H p x s = Some s' \<and>
       prio_ok K (tasks s' p) \<and> prio (tasks s' p) = x \<and> (\<forall>q. q \<noteq> p \<longrightarrow> tasks s' q = tasks s q))) \<and>
    (\<exists>s' r. do_setscheduler K H E p arg y user s = Some (s', Commit_return r) \<and> prio_ok K (tasks s' p) \<and>
       (\<forall>q. q \<noteq> p \<longrightarrow> tasks s' q = tasks s q))"
proof (intro conjI impI)
  show "\<exists>s'. set_user_nice K H p nice s = Some s' \<and> prio_ok K (tasks s' p) \<and>
       (\<forall>q. q \<noteq> p \<longrightarrow> tasks s' q = tasks s q)"
    using set_user_nice_task [OF assms(1,4)] by blast
  show "\<exists>s'. rt_mutex_setprio K H p x s = Some s' \<and>
       prio_ok K (tasks s' p) \<and> prio (tasks s' p) = x \<and> (\<forall>q. q \<noteq> p \<longrightarrow> tasks s' q = tasks s q)"
    if "0 \<le> x \<and> x \<le> normal_prio (tasks s p)"
    using rt_mutex_setprio_task [OF assms(1,4)] that by blast
  show "\<exists>s' r. do_setscheduler K H E p arg y user s = Some (s', Commit_return r) \<and> prio_ok K (tasks s' p) \<and>
       (\<forall>q. q \<noteq> p \<longrightarrow> tasks s' q = tasks s q)"
    by (rule setscheduler_cases [OF assms, of H arg y user]) (use assms(4) in blast)+
qed

text \<open>
  C25 (setscheduler_outcome): a call of \<open>sched_setscheduler\<close> that fails changes nothing; one that
  returns 0 leaves the task with the policy that was asked for (its own for \<open>sched_setparam\<close>), with
  the real-time priority that was asked for, and with its nice value; unless nothing had to change,
  the flag for \<open>fork\<close> is the one that was asked for.
\<close>

theorem setscheduler_outcome:
  assumes "consts_ok K" "getprio_ok E" "\<not> in_interrupt E" "prio_ok K (tasks s p)"
    and "do_setscheduler K H E p arg x user s = Some (s', Commit_return r)"
  shows "(r \<noteq> 0 \<longrightarrow> s' = s) \<and>
    (r = 0 \<longrightarrow> policy (tasks s' p) = (if sint arg < 0 then policy (tasks s p)
        else arg AND NOT (SCHED_RESET_ON_FORK K)) \<and>
      int (unat (rt_priority (tasks s' p))) = x \<and>
      TASK_NICE K (tasks s' p) = TASK_NICE K (tasks s p) \<and>
      (s' = s \<or> reset_on_fork (tasks s' p) =
        (if sint arg < 0 then reset_on_fork (tasks s p) else arg AND SCHED_RESET_ON_FORK K \<noteq> 0)))"
proof (rule setscheduler_cases [OF assms(1-4), of H arg x user])
  fix e
  assume "do_setscheduler K H E p arg x user s = Some (s, Commit_return e)" "e \<noteq> 0"
  then show ?thesis using assms(5) by simp
next
  fix pol old reset
  assume a: "setscheduler_check K E p arg x user s = Inr (pol, old, reset)"
    "do_setscheduler K H E p arg x user s = Some (s, Commit_return 0)"
    "pol = policy (tasks s p)" "rt_priority (tasks s p) = word_of_int x"
  note c = setscheduler_check_Inr [OF assms(1,4) a(1)]
  have "uint (word_of_int x :: u32) = x"
    using c(2,3) prio_consts(4) [OF assms(1)] by (intro uint_small) auto
  then show ?thesis using a assms(5) c(6,7) by auto
next
  fix pol old reset s''
  assume a: "setscheduler_check K E p arg x user s = Inr (pol, old, reset)"
    "do_setscheduler K H E p arg x user s = Some (s'', Commit_return 0)"
    "policy (tasks s'' p) = pol" "rt_priority (tasks s'' p) = word_of_int x"
    "static_prio (tasks s'' p) = static_prio (tasks s p)" "reset_on_fork (tasks s'' p) = reset"
  note c = setscheduler_check_Inr [OF assms(1,4) a(1)]
  have "uint (word_of_int x :: u32) = x"
    using c(2,3) prio_consts(4) [OF assms(1)] by (intro uint_small) auto
  then show ?thesis using a assms(5) c(6,7) by (auto simp: TASK_NICE_def)
qed

section \<open>Permissions\<close>

lemma if_Inl_eq: "(if b then Inl e else z) = Inr v \<longleftrightarrow> \<not> b \<and> z = Inr v"
  by simp

lemma check_permissions:
  assumes "setscheduler_check K E p arg x True s = Inr (pol, old, reset)" "\<not> capable_sys_nice E"
  shows "rt_policy K pol \<Longrightarrow> pol = policy (tasks s p) \<or> rlimit_rtprio E p \<noteq> 0"
    "rt_policy K pol \<Longrightarrow> word_of_int x \<le> rt_priority (tasks s p) \<or> word_of_int x \<le> rlimit_rtprio E p"
    "policy (tasks s p) = SCHED_IDLE K \<Longrightarrow> pol = SCHED_IDLE K \<or> can_nice E p (TASK_NICE K (tasks s p))"
    "check_same_owner E p s" "reset_on_fork (tasks s p) \<Longrightarrow> reset"
    "security_task_setscheduler E p = 0"
proof -
  define q where "q = (if sint arg < 0 then policy (tasks s p) else arg AND NOT (SCHED_RESET_ON_FORK K))"
  define f where "f = (if sint arg < 0 then reset_on_fork (tasks s p) else arg AND SCHED_RESET_ON_FORK K \<noteq> 0)"
  have "\<not> (rt_policy K q \<and> (q \<noteq> policy (tasks s p) \<and> rlimit_rtprio E p = 0 \<or>
            rt_priority (tasks s p) < word_of_int x \<and> rlimit_rtprio E p < word_of_int x) \<or>
         policy (tasks s p) = SCHED_IDLE K \<and> q \<noteq> SCHED_IDLE K \<and> \<not> can_nice E p (TASK_NICE K (tasks s p)) \<or>
         \<not> check_same_owner E p s \<or> reset_on_fork (tasks s p) \<and> \<not> f) \<and>
       security_task_setscheduler E p = 0 \<and> pol = q \<and> reset = f"
    using assms
    by (cases "sint arg < 0"; simp add: setscheduler_check_def Let_def if_Inl_eq q_def f_def; blast?)
  then have "(rt_policy K pol \<longrightarrow> (pol = policy (tasks s p) \<or> rlimit_rtprio E p \<noteq> 0) \<and>
      (word_of_int x \<le> rt_priority (tasks s p) \<or> word_of_int x \<le> rlimit_rtprio E p)) \<and>
    (policy (tasks s p) = SCHED_IDLE K \<longrightarrow> pol = SCHED_IDLE K \<or> can_nice E p (TASK_NICE K (tasks s p))) \<and>
    check_same_owner E p s \<and> (reset_on_fork (tasks s p) \<longrightarrow> reset) \<and> security_task_setscheduler E p = 0"
    unfolding not_le [symmetric] by blast
  then show "rt_policy K pol \<Longrightarrow> pol = policy (tasks s p) \<or> rlimit_rtprio E p \<noteq> 0"
    "rt_policy K pol \<Longrightarrow> word_of_int x \<le> rt_priority (tasks s p) \<or> word_of_int x \<le> rlimit_rtprio E p"
    "policy (tasks s p) = SCHED_IDLE K \<Longrightarrow> pol = SCHED_IDLE K \<or> can_nice E p (TASK_NICE K (tasks s p))"
    "check_same_owner E p s" "reset_on_fork (tasks s p) \<Longrightarrow> reset"
    "security_task_setscheduler E p = 0" by blast+
qed

text \<open>
  C26 (unprivileged_callers_stay_within_limits): a caller without the capability \<open>CAP_SYS_NICE\<close> whose
  call succeeds owns the task; the real-time priority of the task has not grown beyond both its old
  value and the limit \<open>RLIMIT_RTPRIO\<close>; a policy has become real-time only if that limit is not 0; the
  idle policy is left only if the nice value of the task would be allowed; the flag that resets the
  policy on \<open>fork\<close> is never cleared.
\<close>

theorem unprivileged_callers_stay_within_limits:
  assumes "consts_ok K" "getprio_ok E" "\<not> in_interrupt E" "prio_ok K (tasks s p)"
    and "sched_setscheduler K H E p arg x s = Some (s', Commit_return 0)" "\<not> capable_sys_nice E"
  shows "check_same_owner E p s \<and>
    rt_priority (tasks s' p) \<le> max (rt_priority (tasks s p)) (rlimit_rtprio E p) \<and>
    (rt_policy K (policy (tasks s' p)) \<longrightarrow> policy (tasks s' p) = policy (tasks s p) \<or> rlimit_rtprio E p \<noteq> 0) \<and>
    (policy (tasks s p) = SCHED_IDLE K \<longrightarrow> policy (tasks s' p) = SCHED_IDLE K \<or>
       can_nice E p (TASK_NICE K (tasks s p))) \<and>
    (reset_on_fork (tasks s p) \<longrightarrow> reset_on_fork (tasks s' p))"
proof (rule setscheduler_cases [OF assms(1-4), of H arg x True])
  fix e
  assume "do_setscheduler K H E p arg x True s = Some (s, Commit_return e)" "e \<noteq> 0"
  then show ?thesis using assms(5) by (simp add: sched_setscheduler_def)
next
  fix pol old reset
  assume a: "setscheduler_check K E p arg x True s = Inr (pol, old, reset)"
    "do_setscheduler K H E p arg x True s = Some (s, Commit_return 0)" "pol = policy (tasks s p)"
  then have "s' = s" using assms(5) by (simp add: sched_setscheduler_def)
  then show ?thesis using check_permissions(3,4) [OF a(1) assms(6)] a(3) by auto
next
  fix pol old reset s''
  assume a: "setscheduler_check K E p arg x True s = Inr (pol, old, reset)"
    "do_setscheduler K H E p arg x True s = Some (s'', Commit_return 0)"
    "prio_ok K (tasks s'' p)" "policy (tasks s'' p) = pol" "rt_priority (tasks s'' p) = word_of_int x"
    "reset_on_fork (tasks s'' p) = reset"
  have s': "s' = s''" using a(2) assms(5) by (simp add: sched_setscheduler_def)
  note perm = check_permissions [OF a(1) assms(6)]
  have "rt_priority (tasks s' p) \<le> max (rt_priority (tasks s p)) (rlimit_rtprio E p)"
  proof (cases "rt_policy K pol")
    case True
    then show ?thesis using perm(2) a(5) s' by (auto simp: le_max_iff_disj)
  next
    case False
    then have "rt_priority (tasks s' p) = 0" using a(3,4) s' by (simp add: prio_ok_def)
    then show ?thesis by simp
  qed
  then show ?thesis using perm(1,3,4,5) a(4,6) s' by auto
qed

section \<open>The system call \<open>nice\<close>\<close>

text \<open>
  For a consistent task \<open>nice\<close> either returns an error and changes
  nothing, or returns 0 and adds the increment to the nice value, both limited to their ranges; only
  a caller with the capability or a resource limit above the new value improves it.
\<close>

theorem nice_moves_within_range:
  assumes "consts_ok K" "prio_ok K (tasks s (current E))"
  shows "\<exists>s' r. sys_nice K H E inc s = Some (s', r) \<and> prio_ok K (tasks s' (current E)) \<and>
    (r \<noteq> 0 \<longrightarrow> s' = s) \<and>
    (r = 0 \<longrightarrow> TASK_NICE K (tasks s' (current E)) =
       max (- 20) (min 19 (TASK_NICE K (tasks s (current E)) + max (- 40) (min 40 inc))) \<and>
     (TASK_NICE K (tasks s' (current E)) < TASK_NICE K (tasks s (current E)) \<longrightarrow> capable_sys_nice E \<or>
       word_of_int (20 - TASK_NICE K (tasks s' (current E))) \<le> rlimit_nice E (current E)))"
proof -
  let ?p = "current E" and ?old = "TASK_NICE K (tasks s (current E))"
  define i where "i = max (- 40) (min 40 inc)"
  define n where "n = max (- 20) (min 19 (?old + i))"
  have nr: "\<not> n < - 20" "\<not> 19 < n" by (simp_all add: n_def)
  have ci: "clamp (- 40) 40 inc = i" and cn: "clamp (- 20) 19 (?old + i) = n"
    by (auto simp: clamp_def Let_def i_def n_def)
  have old: "- 20 \<le> ?old" "?old \<le> 19"
    using assms(2) prio_consts(2) [OF assms(1)] by (auto simp: prio_ok_def TASK_NICE_def PRIO_TO_NICE_def)
  obtain s1 where s1: "set_user_nice K H ?p n s = Some s1" "prio_ok K (tasks s1 ?p)"
      "TASK_NICE K (tasks s1 ?p) = n"
    using set_user_nice_task [OF assms, of H n] nr by auto
  have e: "sys_nice K H E inc s = (if i < 0 \<and> \<not> can_nice E ?p n then Some (s, - EPERM)
      else if security_task_setnice E ?p n \<noteq> 0 then Some (s, security_task_setnice E ?p n)
      else do { s \<leftarrow> set_user_nice K H ?p n s; Some (s, 0) })"
    by (simp only: sys_nice_def Let_def ci cn)
  consider "sys_nice K H E inc s = Some (s, - EPERM)"
    | "security_task_setnice E ?p n \<noteq> 0" "sys_nice K H E inc s = Some (s, security_task_setnice E ?p n)"
    | "\<not> (i < 0 \<and> \<not> can_nice E ?p n)" "sys_nice K H E inc s = Some (s1, 0)"
    using e s1(1) by (cases "i < 0 \<and> \<not> can_nice E ?p n"; cases "security_task_setnice E ?p n = 0") simp_all
  then show ?thesis
  proof cases
    case 3
    have "n < ?old \<longrightarrow> i < 0" using old unfolding n_def by linarith
    then have "n < ?old \<longrightarrow> capable_sys_nice E \<or> word_of_int (20 - n) \<le> rlimit_nice E ?p"
      using 3(1) by (auto simp: can_nice_def)
    then show ?thesis
      unfolding i_def [symmetric] n_def [symmetric] using 3(2) s1(2,3) by simp
  qed (use assms(2) in auto)
qed

section \<open>A concrete caller\<close>

text \<open>Task 2 of the sample system calls, without the capability and with a limit of 10.\<close>

definition sample_env :: "unit kenv" where
  "sample_env = \<lparr>current = 2, in_interrupt = False, capable_sys_nice = False, rlimit_nice = (\<lambda>_. 0),
     rlimit_rtprio = (\<lambda>_. 10), security_task_setnice = (\<lambda>_ _. 0), security_task_setscheduler = (\<lambda>_. 0),
     security_task_getscheduler = (\<lambda>_. 0), rt_mutex_getprio = (\<lambda>_ _ n. n),
     rt_mutex_adjust_pi = (\<lambda>_ s. ((), need_resched s)), sysctl_sched_rt_runtime = 950000,
     group_without_runtime = (\<lambda>_. False), find_task_by_vpid = (\<lambda>pid. if pid < 4 then Some (nat pid) else None),
     get_rr_interval = (\<lambda>_ _. 100)\<rparr>"

lemma sample_env_ok: "getprio_ok sample_env" "\<not> in_interrupt sample_env" "\<not> capable_sys_nice sample_env"
  by (simp_all add: getprio_ok_def sample_env_def)

lemma linux_values:
  "MAX_RT_PRIO linux_consts = 100" "MAX_USER_RT_PRIO linux_consts = 100" "SCHED_NORMAL linux_consts = 0"
  "SCHED_FIFO linux_consts = 1" "SCHED_RR linux_consts = 2" "SCHED_BATCH linux_consts = 3"
  "SCHED_IDLE linux_consts = 5" "SCHED_RESET_ON_FORK linux_consts = 1073741824"
  "rt_policy linux_consts 1" "\<not> rt_policy linux_consts 0"
  by (simp_all add: linux_consts_def rt_policy_def)

lemma weight_of_nice_0: "read_at prio_to_weight 20 = Some 1024" "read_at prio_to_wmult 20 = Some 4194304"
  by (simp_all add: read_at_def prio_to_weight_def prio_to_wmult_def)

lemma thread_of_ok: "prio_ok linux_consts (thread_of c b st)"
proof -
  have "rt_prio linux_consts 120 = False" "MAX_PRIO linux_consts = 140"
    by (simp_all add: prio_consts [OF linux_consts_ok] linux_values)
  then show ?thesis
    by (simp add: prio_ok_def thread_of_def linux_values policies_def normal_priority_fair normal_static_prio_def
        class_of_prio_def weight_ok_def weight_of_nice_0)
qed

lemma sample_task_ok: "prio_ok linux_consts (tasks sample_sys p)"
  by (simp add: sample_sys_def thread_of_ok)

lemma scheduling_parameters_stay_consistent_witness:
  "(\<exists>s'. set_user_nice linux_consts sample_hooks 2 5 sample_sys = Some s' \<and> prio_ok linux_consts (tasks s' 2)) \<and>
   (\<exists>s'. rt_mutex_setprio linux_consts sample_hooks 2 50 sample_sys = Some s' \<and> prio (tasks s' 2) = 50) \<and>
   (\<exists>s' r. do_setscheduler linux_consts sample_hooks sample_env 2 1 7 True sample_sys = Some (s', Commit_return r) \<and>
      prio_ok linux_consts (tasks s' 2))"
proof -
  have "normal_prio (tasks sample_sys 2) = 120" by (simp add: sample_sys_def thread_of_def)
  then show ?thesis
    using scheduling_parameters_stay_consistent [OF linux_consts_ok sample_env_ok(1,2) sample_task_ok,
        of sample_hooks 2 5 50 1 7 True]
    by auto
qed

lemma sample_values:
  "tasks sample_sys 2 = thread_of 0 True 0" "policy (thread_of c b st) = 0" "mm (thread_of c b st)"
  "reset_on_fork (thread_of c b st) = False" "rt_priority (thread_of c b st) = 0"
  "task_cpu (thread_of c b st) = c" "stop (rqs sample_sys c) = None"
  "capable_sys_nice sample_env = False" "rlimit_rtprio sample_env p = 10" "check_same_owner sample_env 2 sample_sys"
  "security_task_setscheduler sample_env p = 0" "in_interrupt sample_env = False"
  "group_without_runtime sample_env p = False"
  by (simp_all add: sample_sys_def thread_of_def sample_env_def rq_of_def check_same_owner_def)

lemma sample_call_result:
  "\<exists>s'. do_setscheduler linux_consts sample_hooks sample_env 2 1 7 True sample_sys = Some (s', Commit_return 0)"
proof -
  have c: "setscheduler_check linux_consts sample_env 2 1 7 True sample_sys = Inr (1, - 1, False)"
    by (simp add: setscheduler_check_def linux_values sample_values)
  have pol: "1 \<in> set (policies linux_consts)" "(0::int) \<le> 7" "(7::int) < MAX_RT_PRIO linux_consts"
    "rt_policy linux_consts 1 \<longleftrightarrow> (7::int) \<noteq> 0"
    by (simp_all add: linux_values policies_def)
  obtain s' where "setscheduler_change linux_consts sample_hooks sample_env 2 1 False 7 sample_sys = Some s'"
    using setscheduler_change_task [OF linux_consts_ok sample_env_ok(1) sample_task_ok pol, of sample_hooks 2 False]
    by blast
  then show ?thesis using c
    by (simp add: do_setscheduler_def setscheduler_commit_def linux_values sample_values)
qed

lemma setscheduler_outcome_witness:
  "\<exists>s'. do_setscheduler linux_consts sample_hooks sample_env 2 1 7 True sample_sys = Some (s', Commit_return 0) \<and>
     policy (tasks s' 2) = 1 \<and> int (unat (rt_priority (tasks s' 2))) = 7"
proof -
  obtain s' where s': "do_setscheduler linux_consts sample_hooks sample_env 2 1 7 True sample_sys = Some (s', Commit_return 0)"
    using sample_call_result by blast
  then show ?thesis
    using setscheduler_outcome [OF linux_consts_ok sample_env_ok(1,2) sample_task_ok s']
    by (simp add: linux_values)
qed

lemma unprivileged_callers_stay_within_limits_witness:
  "\<exists>s'. sched_setscheduler linux_consts sample_hooks sample_env 2 1 7 sample_sys = Some (s', Commit_return 0) \<and>
     rt_priority (tasks s' 2) \<le> 10"
proof -
  obtain s' where s': "sched_setscheduler linux_consts sample_hooks sample_env 2 1 7 sample_sys = Some (s', Commit_return 0)"
    using sample_call_result by (auto simp: sched_setscheduler_def)
  have "max (rt_priority (tasks sample_sys 2)) (rlimit_rtprio sample_env 2) = 10"
    by (simp add: sample_sys_def thread_of_def sample_env_def)
  then show ?thesis
    using unprivileged_callers_stay_within_limits
      [OF linux_consts_ok sample_env_ok(1,2) sample_task_ok s' sample_env_ok(3)] s' by auto
qed

lemma nice_moves_within_range_witness:
  "\<exists>s' r. sys_nice linux_consts sample_hooks sample_env 50 sample_sys = Some (s', r) \<and>
     (r = 0 \<longrightarrow> TASK_NICE linux_consts (tasks s' 2) = 19)"
proof -
  have "current sample_env = 2" "TASK_NICE linux_consts (tasks sample_sys 2) = 0"
    by (simp_all add: sample_env_def sample_sys_def thread_of_def TASK_NICE_def PRIO_TO_NICE_def linux_consts_def)
  then show ?thesis
    using nice_moves_within_range [OF linux_consts_ok sample_task_ok, where E = sample_env and H = sample_hooks and inc = 50] by auto
qed

section \<open>Behaviour one would not expect\<close>

text \<open>
  Asking for the flag \<open>SCHED_RESET_ON_FORK\<close> with the policy the task already has returns 0 and does
  not set the flag.
\<close>

lemma reset_flag_is_dropped:
  "do_setscheduler linux_consts sample_hooks sample_env 2 1073741824 0 True sample_sys =
     Some (sample_sys, Commit_return 0) \<and> \<not> reset_on_fork (tasks sample_sys 2)"
proof -
  have "setscheduler_check linux_consts sample_env 2 1073741824 0 True sample_sys = Inr (0, - 1, True)"
    by (simp add: setscheduler_check_def linux_values sample_values)
  then show ?thesis
    by (simp add: do_setscheduler_def setscheduler_commit_def linux_values sample_values)
qed

text \<open>
  A real-time task with the flag set forks: the child gets the policy \<open>SCHED_NORMAL\<close>, and keeps the
  real-time priority and class of its parent, because \<open>prio\<close> is taken from the parent after the reset.
\<close>

definition rt_thread :: task where
  "rt_thread = (thread_of 0 True 0)\<lparr>policy := 1, rt_priority := 50, normal_prio := 49, prio := 49,
     sclass := rt_sched_class, reset_on_fork := True\<rparr>"

lemma fork_keeps_real_time_priority:
  "\<exists>s'. sched_fork linux_consts sample_hooks 0 2 9
       (sample_sys\<lparr>tasks := (tasks sample_sys)(2 := rt_thread, 9 := rt_thread)\<rparr>) = Some s' \<and>
     policy (tasks s' 9) = SCHED_NORMAL linux_consts \<and> prio (tasks s' 9) = 49 \<and>
     sclass (tasks s' 9) = rt_sched_class \<and> \<not> prio_ok linux_consts (tasks s' 9)"
proof -
  have "rt_prio linux_consts 49" by (simp add: prio_consts [OF linux_consts_ok] linux_values)
  moreover have "task_fork_method sample_hooks k = None" for k by (simp add: sample_hooks_def)
  ultimately show ?thesis
    by (simp add: sched_fork_def sched_fork_reset_def linux_values rt_thread_def thread_of_def PRIO_TO_NICE_def
        prio_ok_def)
qed

text \<open>
  The checks are made before the locks are taken and, when the caller gives a policy, never again: if
  the task loses its real-time policy in between, the call gives it back although the limit is 0.
\<close>

lemma checks_can_be_overtaken:
  fixes E :: "unit kenv"
  assumes E: "E = sample_env\<lparr>rlimit_rtprio := (\<lambda>_. 0)\<rparr>"
    and s0: "s0 = sample_sys\<lparr>tasks := (tasks sample_sys)(2 := rt_thread\<lparr>reset_on_fork := False\<rparr>)\<rparr>"
  shows "setscheduler_check linux_consts E 2 1 50 True s0 = Inr (1, - 1, False) \<and>
    (\<exists>s'. setscheduler_commit linux_consts sample_hooks E 2 1 (- 1) False 50 True sample_sys =
         Some (s', Commit_return 0) \<and> policy (tasks s' 2) = SCHED_FIFO linux_consts \<and>
       rt_priority (tasks s' 2) = 50)"
proof
  have "check_same_owner E 2 s0"
    by (simp add: check_same_owner_def E s0 sample_env_def rt_thread_def thread_of_def)
  then show "setscheduler_check linux_consts E 2 1 50 True s0 = Inr (1, - 1, False)"
    by (simp add: setscheduler_check_def linux_values E s0 rt_thread_def thread_of_def sample_env_def)
  have pol: "1 \<in> set (policies linux_consts)" "(0::int) \<le> 50" "(50::int) < MAX_RT_PRIO linux_consts"
    "rt_policy linux_consts 1 \<longleftrightarrow> (50::int) \<noteq> 0"
    by (simp_all add: linux_values policies_def)
  have e: "getprio_ok E" "group_without_runtime E 2 = False" by (simp_all add: E getprio_ok_def sample_env_def)
  obtain s' where "setscheduler_change linux_consts sample_hooks E 2 1 False 50 sample_sys = Some s'"
      "policy (tasks s' 2) = 1" "rt_priority (tasks s' 2) = 50"
    using setscheduler_change_task [OF linux_consts_ok e(1) sample_task_ok pol, of sample_hooks 2 False] by auto
  then show "\<exists>s'. setscheduler_commit linux_consts sample_hooks E 2 1 (- 1) False 50 True sample_sys =
         Some (s', Commit_return 0) \<and> policy (tasks s' 2) = SCHED_FIFO linux_consts \<and>
       rt_priority (tasks s' 2) = 50"
    using e(2) by (simp add: setscheduler_commit_def linux_values sample_values)
qed

end
