(* ===== verification/SchedLoad.thy ===== *)
theory SchedLoad
  imports SchedBase
begin

text \<open>
  Load averages of opcional2/kernel/sched.c: the three global averages \<open>avenrun\<close> with the deferred
  accounting of idle processors, the load of each processor over its five periods, and the average
  of the real-time load.  All arithmetic is on 32-bit \<open>unsigned long\<close> and wraps.
\<close>

section \<open>Constants and state\<close>

text \<open>From include/linux/sched.h and jiffies.h, as a parameter.\<close>

record load_consts =
  FSHIFT :: nat
  FIXED_1 :: ul
  LOAD_FREQ :: ul
  EXP_1 :: ul
  EXP_5 :: ul
  EXP_15 :: ul
  time_before :: "ul \<Rightarrow> ul \<Rightarrow> bool"

definition load_consts_ok :: "load_consts \<Rightarrow> bool" where
  "load_consts_ok L \<longleftrightarrow> FSHIFT L = 11 \<and> FIXED_1 L = 2048 \<and> 0 < LOAD_FREQ L \<and>
     EXP_1 L \<le> 2048 \<and> EXP_5 L \<le> 2048 \<and> EXP_15 L \<le> 2048"

definition linux_load :: load_consts where
  "linux_load = \<lparr>FSHIFT = 11, FIXED_1 = 2048, LOAD_FREQ = 5001, EXP_1 = 1884, EXP_5 = 2014,
     EXP_15 = 2037, time_before = (\<lambda>a b. sint (a - b) < 0)\<rparr>"

lemma linux_load_ok: "load_consts_ok linux_load"
  by (simp add: load_consts_ok_def linux_load_def)

definition CPU_LOAD_IDX_MAX :: nat where "CPU_LOAD_IDX_MAX = 5"

record load_rq =
  running :: ul
  uninterruptible :: ul
  calc_load_active :: ul
  rq_calc_load_update :: ul
  load_weight_of :: ul
  nr_load_updates :: ul
  last_load_update_tick :: ul
  cpu_load :: "ul list"
  avg_clock :: u64
  age_stamp :: u64
  rt_avg :: u64

record load_state =
  load_rqs :: "nat \<Rightarrow> load_rq"
  calc_load_tasks :: ul
  calc_load_tasks_idle :: ul
  calc_load_update :: ul
  avenrun :: "ul list"
  jiffies :: ul

definition set_load_rq :: "nat \<Rightarrow> load_rq \<Rightarrow> load_state \<Rightarrow> load_state" where
  "set_load_rq c r s = s\<lparr>load_rqs := (load_rqs s)(c := r)\<rparr>"

section \<open>The global averages\<close>

definition calc_load_fold_active :: "load_rq \<Rightarrow> load_rq \<times> ul" where
  "calc_load_fold_active r =
     (let nr_active = running r + uninterruptible r
      in if nr_active \<noteq> calc_load_active r
         then (r\<lparr>calc_load_active := nr_active\<rparr>, nr_active - calc_load_active r) else (r, 0))"

definition calc_load :: "load_consts \<Rightarrow> ul \<Rightarrow> ul \<Rightarrow> ul \<Rightarrow> ul" where
  "calc_load L load e act =
     drop_bit (FSHIFT L) (load * e + act * (FIXED_1 L - e) + push_bit (FSHIFT L - 1) 1)"

definition calc_load_account_idle :: "nat \<Rightarrow> load_state \<Rightarrow> load_state" where
  "calc_load_account_idle c s =
     (let (r, delta) = calc_load_fold_active (load_rqs s c);
          s = set_load_rq c r s
      in if delta \<noteq> 0 then s\<lparr>calc_load_tasks_idle := calc_load_tasks_idle s + delta\<rparr> else s)"

definition calc_load_fold_idle :: "load_state \<Rightarrow> load_state \<times> ul" where
  "calc_load_fold_idle s =
     (if calc_load_tasks_idle s \<noteq> 0 then (s\<lparr>calc_load_tasks_idle := 0\<rparr>, calc_load_tasks_idle s)
      else (s, 0))"

lemma unat_half: "unat (drop_bit (Suc 0) n) = unat n div 2" for n :: ul
  by (simp add: unat_drop_bit_eq drop_bit_eq_div unat_div_distrib)

lemma half_less: "n \<noteq> 0 \<Longrightarrow> unat (drop_bit (Suc 0) n) < unat n" for n :: ul
  by (metis div_less_dividend one_less_numeral_iff semiring_norm(76) unat_gt_0 unat_half)

lemma half_nonzero: "drop_bit (Suc 0) n \<noteq> 0 \<Longrightarrow> unat (drop_bit (Suc 0) n) < unat n" for n :: ul
  by (rule half_less) auto

text \<open>The loop of \<open>fixed_power_int\<close>: entered with \<open>n\<close> different from 0, left when the next \<open>n\<close> is 0.\<close>

function power_loop :: "nat \<Rightarrow> ul \<Rightarrow> ul \<Rightarrow> u32 \<Rightarrow> ul" where
  "power_loop frac_bits result x n =
     (let result = (if n AND 1 \<noteq> 0
                    then drop_bit frac_bits (result * x + push_bit (frac_bits - 1) 1) else result);
          n' = drop_bit 1 n
      in if n' = 0 then result
         else power_loop frac_bits result (drop_bit frac_bits (x * x + push_bit (frac_bits - 1) 1)) n')"
  by pat_completeness auto

termination
  by (relation "measure (\<lambda>(_, _, _, n). unat n)") (auto intro: half_nonzero)

declare power_loop.simps [simp del]

definition fixed_power_int :: "ul \<Rightarrow> nat \<Rightarrow> u32 \<Rightarrow> ul" where
  "fixed_power_int x frac_bits n =
     (if n \<noteq> 0 then power_loop frac_bits (push_bit frac_bits 1) x n else push_bit frac_bits 1)"

definition calc_load_n :: "load_consts \<Rightarrow> ul \<Rightarrow> ul \<Rightarrow> ul \<Rightarrow> u32 \<Rightarrow> ul" where
  "calc_load_n L load e act n = calc_load L load (fixed_power_int e (FSHIFT L) n) act"

text \<open>\<open>active > 0 ? active * FIXED_1 : 0\<close> on \<open>long\<close>.\<close>

definition active_load :: "load_consts \<Rightarrow> load_state \<Rightarrow> ul" where
  "active_load L s = (if 0 < sint (calc_load_tasks s) then calc_load_tasks s * FIXED_1 L else 0)"

definition calc_global_nohz :: "load_consts \<Rightarrow> ul \<Rightarrow> load_state \<Rightarrow> load_state" where
  "calc_global_nohz L ticks s =
     (if time_before L (jiffies s) (calc_load_update s) then s
      else
        let (s, delta) = calc_load_fold_idle s;
            s = (if delta \<noteq> 0 then s\<lparr>calc_load_tasks := calc_load_tasks s + delta\<rparr> else s)
        in if LOAD_FREQ L \<le> ticks
           then let n = ticks div LOAD_FREQ L; act = active_load L s
                in s\<lparr>avenrun := [calc_load_n L (avenrun s ! 0) (EXP_1 L) act n,
                                 calc_load_n L (avenrun s ! 1) (EXP_5 L) act n,
                                 calc_load_n L (avenrun s ! 2) (EXP_15 L) act n],
                     calc_load_update := calc_load_update s + n * LOAD_FREQ L\<rparr>
           else s)"

definition get_avenrun :: "ul \<Rightarrow> nat \<Rightarrow> load_state \<Rightarrow> ul list" where
  "get_avenrun offset shift s = map (\<lambda>a. push_bit shift (a + offset)) (avenrun s)"

definition calc_global_load :: "load_consts \<Rightarrow> ul \<Rightarrow> load_state \<Rightarrow> load_state" where
  "calc_global_load L ticks s =
     (let s = calc_global_nohz L ticks s
      in if time_before L (jiffies s) (calc_load_update s + 10) then s
         else let act = active_load L s
              in s\<lparr>avenrun := [calc_load L (avenrun s ! 0) (EXP_1 L) act,
                               calc_load L (avenrun s ! 1) (EXP_5 L) act,
                               calc_load L (avenrun s ! 2) (EXP_15 L) act],
                   calc_load_update := calc_load_update s + LOAD_FREQ L\<rparr>)"

definition calc_load_account_active :: "load_consts \<Rightarrow> nat \<Rightarrow> load_state \<Rightarrow> load_state" where
  "calc_load_account_active L c s =
     (if time_before L (jiffies s) (rq_calc_load_update (load_rqs s c)) then s
      else
        let (r, delta) = calc_load_fold_active (load_rqs s c);
            s = set_load_rq c r s;
            (s, idle_delta) = calc_load_fold_idle s;
            delta = delta + idle_delta;
            s = (if delta \<noteq> 0 then s\<lparr>calc_load_tasks := calc_load_tasks s + delta\<rparr> else s);
            r = load_rqs s c
        in set_load_rq c (r\<lparr>rq_calc_load_update := rq_calc_load_update r + LOAD_FREQ L\<rparr>) s)"

text \<open>A processor goes down.\<close>

definition calc_global_load_remove :: "nat \<Rightarrow> load_state \<Rightarrow> load_state" where
  "calc_global_load_remove c s =
     (let r = load_rqs s c;
          s = s\<lparr>calc_load_tasks := calc_load_tasks s - calc_load_active r\<rparr>
      in set_load_rq c (r\<lparr>calc_load_active := 0\<rparr>) s)"

section \<open>The load of one processor\<close>

definition DEGRADE_SHIFT :: nat where "DEGRADE_SHIFT = 7"

definition degrade_zero_ticks :: "ul list" where
  "degrade_zero_ticks = [0, 8, 32, 64, 128]"

text \<open>The last rows have seven initializers; the eighth entry is 0.\<close>

definition degrade_factor :: "ul list list" where
  "degrade_factor =
    [[0, 0, 0, 0, 0, 0, 0, 0],
     [64, 32, 8, 0, 0, 0, 0, 0],
     [96, 72, 40, 12, 1, 0, 0, 0],
     [112, 98, 75, 43, 15, 1, 0, 0],
     [120, 112, 98, 76, 45, 16, 2, 0]]"

text \<open>The loop over the bits of \<open>missed\<close>; \<^const>\<open>None\<close> is an access outside the row.\<close>

function decay_loop :: "ul list \<Rightarrow> nat \<Rightarrow> ul \<Rightarrow> ul \<Rightarrow> ul option" where
  "decay_loop row j load missed =
     (if missed = 0 then Some load
      else do {
        load \<leftarrow> (if missed mod 2 \<noteq> 0
                 then map_option (\<lambda>f. drop_bit DEGRADE_SHIFT (load * f)) (read_at row (int j)) else Some load);
        decay_loop row (j + 1) load (drop_bit 1 missed) })"
  by pat_completeness auto

termination
  by (relation "measure (\<lambda>(_, _, _, n). unat n)") (auto intro: half_less)

declare decay_loop.simps [simp del]

definition decay_load_missed :: "ul \<Rightarrow> ul \<Rightarrow> nat \<Rightarrow> ul option" where
  "decay_load_missed load missed idx =
     (if missed = 0 then Some load
      else do {
        limit \<leftarrow> read_at degrade_zero_ticks (int idx);
        if limit \<le> missed then Some 0
        else if idx = 1 then Some (drop_bit (unat missed) load)
        else do { row \<leftarrow> read_at degrade_factor (int idx); decay_loop row 0 load missed } })"

text \<open>The new load at index \<open>i\<close>; \<open>scale\<close> is \<open>2^i\<close>.\<close>

definition blend_load :: "nat \<Rightarrow> ul \<Rightarrow> ul \<Rightarrow> ul" where
  "blend_load i old_load this_load =
     (let scale = push_bit i 1;
          new_load = (if old_load < this_load then this_load + (scale - 1) else this_load)
      in drop_bit i (old_load * (scale - 1) + new_load))"

fun load_loop :: "nat list \<Rightarrow> ul \<Rightarrow> ul \<Rightarrow> ul list \<Rightarrow> ul list option" where
  "load_loop [] this_load pending loads = Some loads"
| "load_loop (i # is) this_load pending loads = do {
     old_load \<leftarrow> read_at loads (int i);
     old_load \<leftarrow> decay_load_missed old_load (pending - 1) i;
     loads \<leftarrow> write_at loads (int i) (blend_load i old_load this_load);
     load_loop is this_load pending loads }"

text \<open>
  \<open>sched_avg_update\<close>: the comparison is on \<open>s64\<close>.  The loop is a partial function: \<^const>\<open>None\<close> is a
  loop that does not end.
\<close>

partial_function (option) avg_loop :: "u64 \<Rightarrow> u64 \<Rightarrow> u64 \<Rightarrow> u64 \<Rightarrow> (u64 \<times> u64) option" where
  "avg_loop period clk age avg =
     (if sint period < sint (clk - age) then avg_loop period clk (age + period) (avg div 2)
      else Some (age, avg))"

definition sched_avg_period :: "u32 \<Rightarrow> u64 \<Rightarrow> u64" where
  "sched_avg_period sysctl_sched_time_avg nsec_per_msec = ucast sysctl_sched_time_avg * nsec_per_msec div 2"

definition sched_avg_update :: "u64 \<Rightarrow> load_rq \<Rightarrow> load_rq option" where
  "sched_avg_update period r = do {
     (age, avg) \<leftarrow> avg_loop period (avg_clock r) (age_stamp r) (rt_avg r);
     Some (r\<lparr>age_stamp := age, rt_avg := avg\<rparr>) }"

definition sched_rt_avg_update :: "u64 \<Rightarrow> u64 \<Rightarrow> load_rq \<Rightarrow> load_rq option" where
  "sched_rt_avg_update period rt_delta r = sched_avg_update period (r\<lparr>rt_avg := rt_avg r + rt_delta\<rparr>)"

definition update_cpu_load :: "u64 \<Rightarrow> ul \<Rightarrow> load_rq \<Rightarrow> load_rq option" where
  "update_cpu_load period now r =
     (let r = r\<lparr>nr_load_updates := nr_load_updates r + 1\<rparr> in
      if now = last_load_update_tick r then Some r
      else
        let pending = now - last_load_update_tick r;
            r = r\<lparr>last_load_update_tick := now\<rparr>
        in do {
          loads \<leftarrow> write_at (cpu_load r) 0 (load_weight_of r);
          loads \<leftarrow> load_loop [1..<CPU_LOAD_IDX_MAX] (load_weight_of r) pending loads;
          sched_avg_update period (r\<lparr>cpu_load := loads\<rparr>) })"

definition update_cpu_load_active :: "load_consts \<Rightarrow> u64 \<Rightarrow> nat \<Rightarrow> load_state \<Rightarrow> load_state option" where
  "update_cpu_load_active L period c s = do {
     r \<leftarrow> update_cpu_load period (jiffies s) (load_rqs s c);
     Some (calc_load_account_active L c (set_load_rq c r s)) }"

text \<open>A processor and a state for the examples.\<close>

definition sample_load_rq :: load_rq where
  "sample_load_rq = \<lparr>running = 2, uninterruptible = 0, calc_load_active = 0, rq_calc_load_update = 0,
     load_weight_of = 2048, nr_load_updates = 0, last_load_update_tick = 0,
     cpu_load = [0, 0, 0, 0, 0], avg_clock = 5000000, age_stamp = 0, rt_avg = 1000\<rparr>"

definition sample_load :: load_state where
  "sample_load = \<lparr>load_rqs = (\<lambda>_. sample_load_rq), calc_load_tasks = 4, calc_load_tasks_idle = 0,
     calc_load_update = 0, avenrun = [4096, 2048, 0], jiffies = 10010\<rparr>"

end
