(* ===== verification/SchedLoadProps.thy ===== *)
theory SchedLoadProps
  imports Complex_Main SchedLoad
begin

text \<open>
  Facts about the load averages of opcional2/kernel/sched.c: the fixed-point power and the averages
  built with it, the accounting of active tasks across processors, the per-processor loads and the
  loop that ages the real-time load.
\<close>

declare of_nat_unat [simp del]

section \<open>Fixed-point arithmetic\<close>

text \<open>A product of two fixed-point numbers rounded to the nearest, as the code computes it.\<close>

lemma unat_le_2048: "(x :: ul) \<le> 2048 \<longleftrightarrow> unat x \<le> 2048"
  by (simp add: word_le_nat_alt)

lemma fixed_mul_unat:
  assumes "unat (a :: ul) \<le> 2048" "unat (b :: ul) \<le> 2048"
  shows "unat (drop_bit 11 (a * b + push_bit 10 1)) = (unat a * unat b + 1024) div 2048"
proof -
  have p: "unat a * unat b \<le> 2048 * 2048"
    using assms by (intro mult_mono) auto
  then have "unat (a * b) = unat a * unat b"
    by (subst unat_mult_lem [THEN iffD1]) auto
  then have "unat (a * b + 1024) = unat a * unat b + 1024"
    using p by (subst unat_add_lem [THEN iffD1]) auto
  then show ?thesis
    by (simp add: unat_drop_bit_eq drop_bit_eq_div push_bit_eq_mult unat_div_distrib)
qed

lemma fixed_mul_le:
  assumes "a \<le> 2048" "b \<le> (2048 :: nat)"
  shows "(a * b + 1024) div 2048 \<le> 2048"
proof -
  have "a * b \<le> 2048 * 2048" using assms by (intro mult_mono) auto
  then show ?thesis by linarith
qed

lemma fixed_mul_error:
  fixes a b :: nat and A B :: real
  assumes "a \<le> 2048" "b \<le> 2048" "0 \<le> A" "A \<le> 1" "0 \<le> B" "B \<le> 1"
    and "\<bar>real a - 2048 * A\<bar> \<le> e" "\<bar>real b - 2048 * B\<bar> \<le> f"
  shows "\<bar>real ((a * b + 1024) div 2048) - 2048 * (A * B)\<bar> \<le> e + f + 1 / 2"
proof -
  have q: "real ((a * b + 1024) div 2048) * 2048 + real ((a * b + 1024) mod 2048)
      = real a * real b + 1024"
  proof -
    have "(a * b + 1024) div 2048 * 2048 + (a * b + 1024) mod 2048 = a * b + 1024" by simp
    from arg_cong [OF this, of real] show ?thesis
      by (simp only: of_nat_add of_nat_mult of_nat_numeral)
  qed
  have r: "real ((a * b + 1024) mod 2048) \<le> 2047" "0 \<le> real ((a * b + 1024) mod 2048)"
    by auto
  have "\<bar>real ((a * b + 1024) div 2048) - real a * real b / 2048\<bar> \<le> 1 / 2"
    using q r by (simp add: abs_le_iff field_simps)
  moreover have "\<bar>real a * real b / 2048 - 2048 * (A * B)\<bar> \<le> e + f"
  proof -
    have "real a * real b / 2048 - 2048 * (A * B)
        = (real a - 2048 * A) * (real b / 2048) + A * (real b - 2048 * B)"
      by (simp add: field_simps)
    moreover have "\<bar>(real a - 2048 * A) * (real b / 2048)\<bar> \<le> e * 1"
      unfolding abs_mult using assms by (intro mult_mono) auto
    moreover have "\<bar>A * (real b - 2048 * B)\<bar> \<le> 1 * f"
      unfolding abs_mult using assms by (intro mult_mono) auto
    ultimately show ?thesis by (smt (verit))
  qed
  ultimately show ?thesis by linarith
qed

lemma odd_bit: "(n :: u32) AND 1 \<noteq> 0 \<longleftrightarrow> odd (unat n)"
proof -
  have "odd n \<longleftrightarrow> odd (unat n)"
    by (metis bit_0 bit_unsigned_iff possible_bit_nat)
  then show ?thesis by (simp add: and_one_eq mod_2_eq_odd)
qed

section \<open>The power of a fixed-point number\<close>

lemma power_loop_error:
  fixes X R :: real
  assumes "unat result \<le> 2048" "unat x \<le> 2048" "n \<noteq> 0" "0 \<le> X" "X \<le> 1" "0 \<le> R" "R \<le> 1"
    and "\<bar>real (unat result) - 2048 * R\<bar> \<le> a" "\<bar>real (unat x) - 2048 * X\<bar> \<le> b"
  shows "unat (power_loop 11 result x n) \<le> 2048 \<and>
    \<bar>real (unat (power_loop 11 result x n)) - 2048 * (R * X ^ unat n)\<bar>
      \<le> a + real (unat n) * b + real (unat n) / 2"
  using assms
proof (induction "11 :: nat" result x n arbitrary: X R a b rule: power_loop.induct)
  case (1 result x n)
  define r where "r = (if n AND 1 \<noteq> 0 then drop_bit 11 (result * x + push_bit (11 - 1) 1) else result)"
  define y where "y = drop_bit 11 (x * x + push_bit (11 - 1) 1)"
  define R' where "R' = (if odd (unat n) then R * X else R)"
  define a' where "a' = (if odd (unat n) then a + b + 1 / 2 else a)"
  have r: "unat r \<le> 2048" "\<bar>real (unat r) - 2048 * R'\<bar> \<le> a'"
    using 1(2-) fixed_mul_le [of "unat result" "unat x"]
      fixed_mul_error [of "unat result" "unat x" R X a b]
    by (auto simp: r_def R'_def a'_def odd_bit fixed_mul_unat simp del: push_bit_of_1)
  have y: "unat y \<le> 2048" "\<bar>real (unat y) - 2048 * (X * X)\<bar> \<le> b + b + 1 / 2"
    using 1(2-) fixed_mul_le [of "unat x" "unat x"] fixed_mul_error [of "unat x" "unat x" X X b b]
    by (auto simp: y_def fixed_mul_unat simp del: push_bit_of_1)
  have R': "0 \<le> R'" "R' \<le> 1" using 1 by (auto simp: R'_def mult_le_one)
  have half: "unat (drop_bit 1 n) = unat n div 2" by (simp add: unat_half)
  have loop: "power_loop 11 result x n =
    (if drop_bit 1 n = 0 then r else power_loop 11 r y (drop_bit 1 n))"
    by (subst power_loop.simps) (simp add: Let_def r_def y_def)
  show ?case
  proof (cases "drop_bit 1 n = 0")
    case True
    with half have "unat n div 2 = 0" by simp
    moreover have "unat n \<noteq> 0" using \<open>n \<noteq> 0\<close> by (simp add: unat_eq_zero)
    ultimately have "unat n = 1" by linarith
    with r True show ?thesis by (simp add: loop R'_def a'_def)
  next
    case False
    have IH: "unat (power_loop 11 r y (drop_bit 1 n)) \<le> 2048 \<and>
      \<bar>real (unat (power_loop 11 r y (drop_bit 1 n))) - 2048 * (R' * (X * X) ^ (unat n div 2))\<bar>
        \<le> a' + real (unat n div 2) * (b + b + 1 / 2) + real (unat n div 2) / 2"
      unfolding half [symmetric]
      by (rule "1.hyps" [OF r_def refl False, folded y_def]) (use r y R' 1(5,6) False in \<open>auto intro: mult_le_one\<close>)
    have n: "unat n = 2 * (unat n div 2) + (if odd (unat n) then 1 else 0)" by simp
    have "R' * (X * X) ^ (unat n div 2) = R * X ^ unat n"
      by (subst (2) n) (simp add: R'_def power_add power_mult power2_eq_square)
    moreover have "real (unat n) = 2 * real (unat n div 2) + (if odd (unat n) then 1 else 0)"
      by (subst n) simp
    ultimately show ?thesis
      using IH False by (simp add: loop a'_def field_simps split: if_splits)
  qed
qed

lemma fixed_power_bounds:
  assumes "unat x \<le> 2048"
  shows "unat (fixed_power_int x 11 n) \<le> 2048"
    and "\<bar>real (unat (fixed_power_int x 11 n)) - 2048 * (real (unat x) / 2048) ^ unat n\<bar>
      \<le> real (unat n) / 2"
  using power_loop_error [of "push_bit 11 1" x n "real (unat x) / 2048" 1 0 0] assms
  by (auto simp: fixed_power_int_def)

text \<open>
  C34 (fixed_power_is_accurate): \<open>fixed_power_int\<close> computes the power of a fixed-point number at
  most 1 with 11 fractional bits: its result is a number at most 1, and it differs from the exact power by at most half a
  unit of the last place for each of the \<open>n\<close> factors.
\<close>

theorem fixed_power_is_accurate:
  assumes "x \<le> 2048"
  shows "fixed_power_int x 11 n \<le> 2048 \<and>
    \<bar>real (unat (fixed_power_int x 11 n)) - 2048 * (real (unat x) / 2048) ^ unat n\<bar>
      \<le> real (unat n) / 2"
  using fixed_power_bounds assms by (simp add: unat_le_2048)

theorem fixed_power_is_accurate_witness:
  "\<bar>real (unat (fixed_power_int 1884 11 12)) - 2048 * (1884 / 2048) ^ 12\<bar> \<le> 6"
  using fixed_power_is_accurate [of 1884 12] by simp

section \<open>The global averages\<close>

lemma calc_load_between:
  assumes "load_consts_ok L" "unat e \<le> 2048" "unat load \<le> 2097151" "unat act \<le> 2097151"
  shows "min (unat load) (unat act) \<le> unat (calc_load L load e act)"
    and "unat (calc_load L load e act) \<le> max (unat load) (unat act)"
proof -
  define m where "m = max (unat load) (unat act)"
  define e' where "e' = 2048 - unat e"
  have sub: "unat (2048 - e) = e'"
    using assms(2) by (simp add: e'_def unat_sub word_le_nat_alt)
  have e: "unat e + e' = 2048" using assms(2) by (simp add: e'_def)
  define u where "u = unat load * unat e + unat act * e'"
  have hi: "u \<le> m * 2048"
  proof -
    have "unat load * unat e \<le> m * unat e" "unat act * e' \<le> m * e'" by (simp_all add: m_def)
    then have "u \<le> m * (unat e + e')" unfolding u_def distrib_left by (rule add_mono)
    then show ?thesis by (simp add: e)
  qed
  have lo: "min (unat load) (unat act) * 2048 \<le> u"
  proof -
    have "min (unat load) (unat act) * unat e \<le> unat load * unat e"
      "min (unat load) (unat act) * e' \<le> unat act * e'" by simp_all
    then have "min (unat load) (unat act) * (unat e + e') \<le> u" unfolding u_def distrib_left by (rule add_mono)
    then show ?thesis by (simp add: e)
  qed
  have m: "m \<le> 2097151" using assms by (simp add: m_def)
  have parts: "unat load * unat e \<le> u" "unat act * e' \<le> u" by (simp_all add: u_def)
  with hi m have small: "unat load * unat e < 2 ^ 32" "unat act * e' < 2 ^ 32" "u + 1024 < 2 ^ 32"
    by simp_all
  have "unat (load * e + act * (2048 - e)) = u"
    using small by (simp add: unat_word_ariths sub u_def)
  then have "unat (calc_load L load e act) = (u + 1024) div 2048"
    using assms(1) small
    by (simp add: calc_load_def load_consts_ok_def unat_drop_bit_eq drop_bit_eq_div push_bit_eq_mult
        unat_div_distrib unat_word_ariths)
  with hi lo show "min (unat load) (unat act) \<le> unat (calc_load L load e act)"
    "unat (calc_load L load e act) \<le> max (unat load) (unat act)"
    unfolding m_def [symmetric] by linarith+
qed

lemma calc_load_within:
  assumes "load_consts_ok L" "unat e \<le> 2048" "hi \<le> 2097151"
    and "lo \<le> unat load" "unat load \<le> hi" "lo \<le> unat act" "unat act \<le> hi"
  shows "lo \<le> unat (calc_load L load e act) \<and> unat (calc_load L load e act) \<le> hi"
  using calc_load_between [of L e load act] assms by (auto intro: order_trans)

lemma calc_load_n_within:
  assumes "load_consts_ok L" "unat e \<le> 2048" "hi \<le> 2097151"
    and "lo \<le> unat load" "unat load \<le> hi" "lo \<le> unat act" "unat act \<le> hi"
  shows "lo \<le> unat (calc_load_n L load e act n) \<and> unat (calc_load_n L load e act n) \<le> hi"
  using calc_load_within [OF assms(1) _ assms(3-), of "fixed_power_int e 11 n"] assms(1,2)
  by (simp add: calc_load_n_def load_consts_ok_def fixed_power_bounds)

definition averages_in :: "nat \<Rightarrow> nat \<Rightarrow> load_state \<Rightarrow> bool" where
  "averages_in lo hi s \<longleftrightarrow>
     length (avenrun s) = 3 \<and> (\<forall>a \<in> set (avenrun s). lo \<le> unat a \<and> unat a \<le> hi)"

lemma averages_inI:
  assumes "averages_in lo hi s"
    and "\<And>i. i < 3 \<Longrightarrow> lo \<le> unat (avenrun s ! i) \<and> unat (avenrun s ! i) \<le> hi \<Longrightarrow>
      lo \<le> unat (f i) \<and> unat (f i) \<le> hi"
  shows "averages_in lo hi (s\<lparr>avenrun := [f 0, f 1, f 2], calc_load_update := u\<rparr>)"
  using assms(1) assms(2) [of 0] assms(2) [of 1] assms(2) [of 2]
  by (simp add: averages_in_def)

lemma active_load_avenrun [simp]:
  "active_load L (s\<lparr>avenrun := a, calc_load_update := u\<rparr>) = active_load L s"
  by (simp add: active_load_def)

lemma load_exps:
  "load_consts_ok L \<Longrightarrow> unat (EXP_1 L) \<le> 2048 \<and> unat (EXP_5 L) \<le> 2048 \<and> unat (EXP_15 L) \<le> 2048"
  by (simp add: load_consts_ok_def unat_le_2048)

lemma averages_in_nohz:
  assumes "load_consts_ok L" "averages_in lo hi s" "hi \<le> 2097151"
    and "lo \<le> unat (active_load L (calc_global_nohz L ticks s))"
      "unat (active_load L (calc_global_nohz L ticks s)) \<le> hi"
  shows "averages_in lo hi (calc_global_nohz L ticks s)"
proof -
  define t where "t = (let (s, delta) = calc_load_fold_idle s
    in if delta \<noteq> 0 then s\<lparr>calc_load_tasks := calc_load_tasks s + delta\<rparr> else s)"
  define act n e where "act = active_load L t" "n = ticks div LOAD_FREQ L"
    "e = (\<lambda>i :: nat. if i = 0 then EXP_1 L else if i = 1 then EXP_5 L else EXP_15 L)"
  note d = act_n_e_def
  have e: "unat (e i) \<le> 2048" for i using load_exps [OF assms(1)] by (simp add: d(3))
  have t: "averages_in lo hi t"
    using assms(2) by (auto simp: t_def averages_in_def calc_load_fold_idle_def Let_def)
  have nohz: "calc_global_nohz L ticks s =
    (if time_before L (jiffies s) (calc_load_update s) then s
     else if LOAD_FREQ L \<le> ticks
       then t\<lparr>avenrun := [calc_load_n L (avenrun t ! 0) (e 0) act n, calc_load_n L (avenrun t ! 1) (e 1) act n,
           calc_load_n L (avenrun t ! 2) (e 2) act n],
         calc_load_update := calc_load_update t + n * LOAD_FREQ L\<rparr>
     else t)"
    by (simp add: calc_global_nohz_def t_def d Let_def split: prod.split)
  show ?thesis
  proof (cases "time_before L (jiffies s) (calc_load_update s) \<or> \<not> LOAD_FREQ L \<le> ticks")
    case True
    with t assms(2) show ?thesis by (auto simp: nohz)
  next
    case False
    then have "lo \<le> unat act \<and> unat act \<le> hi"
      using assms(4,5) by (simp add: nohz d)
    then have "averages_in lo hi (t\<lparr>avenrun := [calc_load_n L (avenrun t ! 0) (e 0) act n,
        calc_load_n L (avenrun t ! 1) (e 1) act n, calc_load_n L (avenrun t ! 2) (e 2) act n],
        calc_load_update := calc_load_update t + n * LOAD_FREQ L\<rparr>)"
      by (intro averages_inI [where f = "\<lambda>i. calc_load_n L (avenrun t ! i) (e i) act n"] t calc_load_n_within
          assms(1,3) e) blast+
    with False show ?thesis by (simp add: nohz)
  qed
qed

text \<open>
  C33 (load_averages_stay_in_range): an update of the three global load averages, over any number
  of missed periods, leaves each of them between a lower and an upper bound of the old averages and
  of the current number of active tasks, as long as the upper bound is below 1024 tasks; no
  intermediate product overflows the 32-bit arithmetic.
\<close>

theorem load_averages_stay_in_range:
  assumes "load_consts_ok L" "averages_in lo hi s" "hi \<le> 2097151"
    and "lo \<le> unat (active_load L (calc_global_load L ticks s))"
      "unat (active_load L (calc_global_load L ticks s)) \<le> hi"
  shows "averages_in lo hi (calc_global_load L ticks s)"
proof -
  define t act e where "t = calc_global_nohz L ticks s" "act = active_load L t"
    "e = (\<lambda>i :: nat. if i = 0 then EXP_1 L else if i = 1 then EXP_5 L else EXP_15 L)"
  note d = t_act_e_def
  have e: "unat (e i) \<le> 2048" for i using load_exps [OF assms(1)] by (simp add: d(3))
  have global: "calc_global_load L ticks s =
    (if time_before L (jiffies t) (calc_load_update t + 10) then t
     else t\<lparr>avenrun := [calc_load L (avenrun t ! 0) (e 0) act, calc_load L (avenrun t ! 1) (e 1) act,
           calc_load L (avenrun t ! 2) (e 2) act],
         calc_load_update := calc_load_update t + LOAD_FREQ L\<rparr>)"
    by (simp add: calc_global_load_def d Let_def)
  have act: "lo \<le> unat act" "unat act \<le> hi"
    using assms(4,5) by (simp_all add: global d(2) split: if_splits)
  have t: "averages_in lo hi t"
    using averages_in_nohz [OF assms(1-3)] act by (simp add: d)
  then have "averages_in lo hi (t\<lparr>avenrun := [calc_load L (avenrun t ! 0) (e 0) act,
      calc_load L (avenrun t ! 1) (e 1) act, calc_load L (avenrun t ! 2) (e 2) act],
      calc_load_update := calc_load_update t + LOAD_FREQ L\<rparr>)"
    by (intro averages_inI [where f = "\<lambda>i. calc_load L (avenrun t ! i) (e i) act"] calc_load_within
        assms(1,3) e act) blast+
  with t show ?thesis by (simp add: global)
qed

theorem load_averages_stay_in_range_witness:
  "averages_in 0 8192 (calc_global_load linux_load 10009 sample_load)"
  by (rule load_averages_stay_in_range [OF linux_load_ok])
    (simp_all add: averages_in_def sample_load_def active_load_def calc_global_load_def
      calc_global_nohz_def calc_load_fold_idle_def linux_load_def)

end
