(* ===== verification/SchedLoadInv.thy ===== *)
theory SchedLoadInv
  imports SchedLoad
begin

text \<open>
  The accounting of active tasks in opcional2/kernel/sched.c: each processor folds the change of its
  number of active tasks into a global counter, directly from the tick or, when it goes idle,
  through a second counter.  The steps below are the calls that touch the three kinds of counter,
  in any order; no task is counted twice or lost.
\<close>

definition load_total :: "nat set \<Rightarrow> load_state \<Rightarrow> ul" where
  "load_total C s = (\<Sum>c \<in> C. calc_load_active (load_rqs s c))"

definition folded :: "load_rq \<Rightarrow> bool" where
  "folded r \<longleftrightarrow> calc_load_active r = running r + uninterruptible r"

inductive load_step :: "load_consts \<Rightarrow> u64 \<Rightarrow> nat set \<Rightarrow> load_state \<Rightarrow> load_state \<Rightarrow> bool"
  for L :: load_consts and period :: u64 and C :: "nat set" where
  tick: "c \<in> C \<Longrightarrow> update_cpu_load_active L period c s = Some s' \<Longrightarrow> load_step L period C s s'"
| goes_idle: "c \<in> C \<Longrightarrow> load_step L period C s (calc_load_account_idle c s)"
| global: "load_step L period C s (calc_global_load L ticks s)"
| goes_down: "c \<in> C \<Longrightarrow> load_step L period C s (calc_global_load_remove c s)"
| tasks_change: "c \<in> C \<Longrightarrow>
    load_step L period C s (set_load_rq c ((load_rqs s c)\<lparr>running := n, uninterruptible := u\<rparr>) s)"
| rt_runs: "c \<in> C \<Longrightarrow> sched_rt_avg_update period delta (load_rqs s c) = Some r \<Longrightarrow>
    load_step L period C s (set_load_rq c r s)"
| time_passes: "load_step L period C s (s\<lparr>jiffies := j\<rparr>)"

inductive load_reachable :: "load_consts \<Rightarrow> u64 \<Rightarrow> nat set \<Rightarrow> load_state \<Rightarrow> bool"
  for L :: load_consts and period :: u64 and C :: "nat set" where
  boot: "\<forall>c \<in> C. calc_load_active (load_rqs s c) = 0 \<Longrightarrow> calc_load_tasks s = 0 \<Longrightarrow>
    calc_load_tasks_idle s = 0 \<Longrightarrow> load_reachable L period C s"
| step: "load_reachable L period C s \<Longrightarrow> load_step L period C s s' \<Longrightarrow> load_reachable L period C s'"

definition load_balanced :: "nat set \<Rightarrow> load_state \<Rightarrow> bool" where
  "load_balanced C s \<longleftrightarrow> calc_load_tasks s + calc_load_tasks_idle s = load_total C s"

lemma set_load_rq_simps [simp]:
  "load_rqs (set_load_rq c r s) = (load_rqs s)(c := r)"
  "calc_load_tasks (set_load_rq c r s) = calc_load_tasks s"
  "calc_load_tasks_idle (set_load_rq c r s) = calc_load_tasks_idle s"
  by (simp_all add: set_load_rq_def)

lemma load_total_update:
  "finite C \<Longrightarrow> c \<in> C \<Longrightarrow>
   load_total C (set_load_rq c r s) = load_total C s + calc_load_active r - calc_load_active (load_rqs s c)"
  unfolding load_total_def by (simp add: sum.remove [of C c])

lemma load_total_cong:
  "load_rqs s' = load_rqs s \<Longrightarrow> load_total C s' = load_total C s"
  by (simp add: load_total_def)

lemma load_total_tasks [simp]:
  "load_total C (s\<lparr>calc_load_tasks := a\<rparr>) = load_total C s"
  "load_total C (s\<lparr>calc_load_tasks_idle := a\<rparr>) = load_total C s"
  "load_total C (s\<lparr>jiffies := j\<rparr>) = load_total C s"
  "load_total C (s\<lparr>avenrun := l, calc_load_update := u\<rparr>) = load_total C s"
  by (simp_all add: load_total_def)

lemma calc_load_fold_active_adds:
  "calc_load_fold_active r = (r', delta) \<Longrightarrow> calc_load_active r' = calc_load_active r + delta \<and> folded r'"
  by (auto simp: calc_load_fold_active_def folded_def Let_def split: if_splits)

lemma calc_load_fold_idle_moves:
  "calc_load_fold_idle s = (s', delta) \<Longrightarrow>
   calc_load_tasks_idle s' = 0 \<and> calc_load_tasks s' = calc_load_tasks s \<and> delta = calc_load_tasks_idle s \<and>
   load_rqs s' = load_rqs s"
  by (auto simp: calc_load_fold_idle_def split: if_splits)

lemma balanced_idle:
  assumes "finite C" "c \<in> C" "load_balanced C s"
  shows "load_balanced C (calc_load_account_idle c s)"
proof -
  obtain r delta where f: "calc_load_fold_active (load_rqs s c) = (r, delta)" by fastforce
  from calc_load_fold_active_adds [OF f] assms show ?thesis
    by (simp add: calc_load_account_idle_def f load_balanced_def load_total_update Let_def algebra_simps)
qed

lemma balanced_fold_idle:
  assumes "load_balanced C s" "calc_load_fold_idle s = (s', delta)"
  shows "load_balanced C (s'\<lparr>calc_load_tasks := calc_load_tasks s' + delta\<rparr>)"
  using calc_load_fold_idle_moves [OF assms(2)] assms(1) load_total_cong [of s' s C]
  by (simp add: load_balanced_def)

lemma balanced_nohz: "load_balanced C s \<Longrightarrow> load_balanced C (calc_global_nohz L ticks s)"
proof -
  assume s: "load_balanced C s"
  obtain t delta where f: "calc_load_fold_idle s = (t, delta)" by fastforce
  define t' where "t' = (if delta \<noteq> 0 then t\<lparr>calc_load_tasks := calc_load_tasks t + delta\<rparr> else t)"
  have "load_balanced C t'"
    using balanced_fold_idle [OF s f] by (cases "delta = 0") (simp_all add: t'_def load_balanced_def)
  with s show ?thesis
    by (simp add: calc_global_nohz_def f Let_def t'_def [symmetric] load_balanced_def)
qed

lemma balanced_global: "load_balanced C s \<Longrightarrow> load_balanced C (calc_global_load L ticks s)"
  using balanced_nohz [of C s L ticks] by (simp add: calc_global_load_def Let_def load_balanced_def)

lemma balanced_tick:
  assumes "finite C" "c \<in> C" "load_balanced C s"
  shows "load_balanced C (calc_load_account_active L c s)"
proof (cases "time_before L (jiffies s) (rq_calc_load_update (load_rqs s c))")
  case True
  with assms show ?thesis by (simp add: calc_load_account_active_def)
next
  case False
  obtain r delta where f: "calc_load_fold_active (load_rqs s c) = (r, delta)" by fastforce
  obtain t idle_delta where i: "calc_load_fold_idle (set_load_rq c r s) = (t, idle_delta)" by fastforce
  note f' = calc_load_fold_active_adds [OF f] and i' = calc_load_fold_idle_moves [OF i]
  define u where "u = t\<lparr>calc_load_tasks := calc_load_tasks t + (delta + idle_delta)\<rparr>"
  have "load_total C u = load_total C s + delta"
    using f' i' load_total_cong [of u "set_load_rq c r s" C] assms
    by (simp add: u_def load_total_update)
  then have u: "load_balanced C u"
    using i' assms(3) by (simp add: load_balanced_def u_def add.assoc add.commute add.left_commute)
  have "calc_load_account_active L c s =
      set_load_rq c ((load_rqs u c)\<lparr>rq_calc_load_update := rq_calc_load_update (load_rqs u c) + LOAD_FREQ L\<rparr>) u"
    using False by (simp add: calc_load_account_active_def f i Let_def u_def)
  with u assms show ?thesis by (simp add: load_balanced_def load_total_update)
qed

lemma balanced_same_active:
  assumes "finite C" "c \<in> C" "load_balanced C s" "calc_load_active r = calc_load_active (load_rqs s c)"
  shows "load_balanced C (set_load_rq c r s)"
  using assms by (simp add: load_balanced_def load_total_update)

lemma sched_avg_update_active:
  "sched_avg_update period r = Some r' \<Longrightarrow> calc_load_active r' = calc_load_active r"
  by (auto simp: sched_avg_update_def split: option.splits Option.bind_splits)

lemma update_cpu_load_active_active:
  "update_cpu_load period now r = Some r' \<Longrightarrow> calc_load_active r' = calc_load_active r"
  by (auto simp: update_cpu_load_def Let_def dest!: sched_avg_update_active split: if_splits Option.bind_splits)

lemma balanced_remove:
  assumes "finite C" "c \<in> C" "load_balanced C s"
  shows "load_balanced C (calc_global_load_remove c s)"
  using assms by (simp add: calc_global_load_remove_def load_balanced_def load_total_update Let_def algebra_simps)

lemma load_step_balanced:
  assumes "finite C" "load_step L period C s s'" "load_balanced C s"
  shows "load_balanced C s'"
  using assms(2)
proof (cases rule: load_step.cases)
  case (tick c)
  then obtain r where r: "update_cpu_load period (jiffies s) (load_rqs s c) = Some r"
    "s' = calc_load_account_active L c (set_load_rq c r s)"
    by (auto simp: update_cpu_load_active_def split: Option.bind_splits)
  with tick assms show ?thesis
    using balanced_tick balanced_same_active update_cpu_load_active_active by metis
next
  case (rt_runs c delta r)
  with assms show ?thesis
    by (auto simp: sched_rt_avg_update_def dest!: sched_avg_update_active intro!: balanced_same_active)
qed (use assms in \<open>auto intro!: balanced_idle balanced_global balanced_remove balanced_same_active,
  simp add: load_balanced_def\<close>)

lemma reachable_balanced:
  assumes "finite C" "load_reachable L period C s"
  shows "load_balanced C s"
  using assms(2)
proof induction
  case (boot s)
  then show ?case by (simp add: load_balanced_def load_total_def)
qed (rule load_step_balanced [OF assms(1)])

lemma folded_total:
  "\<forall>c \<in> C. folded (load_rqs s c) \<Longrightarrow>
   load_total C s = (\<Sum>c \<in> C. running (load_rqs s c) + uninterruptible (load_rqs s c))"
  unfolding load_total_def by (rule sum.cong) (simp_all add: folded_def)

text \<open>
  C35 (active_tasks_are_conserved): in every state reachable by ticks, processors going idle or down,
  deferred updates and changes of the runqueues, in any order, the two global counters add up to
  the sum of what the processors have reported; once every processor has reported and no idle
  contribution is pending, the global counter is the number of runnable and uninterruptible tasks.
\<close>

theorem active_tasks_are_conserved:
  assumes "finite C" "load_reachable L period C s"
  shows "calc_load_tasks s + calc_load_tasks_idle s = (\<Sum>c \<in> C. calc_load_active (load_rqs s c)) \<and>
    ((\<forall>c \<in> C. folded (load_rqs s c)) \<and> calc_load_tasks_idle s = 0 \<longrightarrow>
      calc_load_tasks s = (\<Sum>c \<in> C. running (load_rqs s c) + uninterruptible (load_rqs s c)))"
proof -
  have bal: "calc_load_tasks s + calc_load_tasks_idle s = load_total C s"
    using reachable_balanced [OF assms] by (simp add: load_balanced_def)
  moreover have "calc_load_tasks s = (\<Sum>c \<in> C. running (load_rqs s c) + uninterruptible (load_rqs s c))"
    if "\<forall>c \<in> C. folded (load_rqs s c)" "calc_load_tasks_idle s = 0"
    using bal that folded_total [OF that(1)] by simp
  ultimately show ?thesis unfolding load_total_def by blast
qed

definition idle_sample :: load_state where
  "idle_sample = calc_load_account_idle 0 (sample_load\<lparr>calc_load_tasks := 0\<rparr>)"

theorem active_tasks_are_conserved_witness:
  "calc_load_tasks idle_sample = 0 \<and> calc_load_tasks_idle idle_sample = 2 \<and>
   calc_load_tasks idle_sample + calc_load_tasks_idle idle_sample
     = (\<Sum>c \<in> {0, 1}. calc_load_active (load_rqs idle_sample c))"
proof -
  have "load_reachable linux_load 1 {0, 1} (sample_load\<lparr>calc_load_tasks := 0\<rparr>)"
    by (rule load_reachable.boot) (simp_all add: sample_load_def sample_load_rq_def)
  then have "load_reachable linux_load 1 {0, 1} idle_sample"
    unfolding idle_sample_def by (rule load_reachable.step) (rule goes_idle, simp)
  from active_tasks_are_conserved [OF _ this] show ?thesis
    by (simp add: idle_sample_def calc_load_account_idle_def calc_load_fold_active_def sample_load_def
        sample_load_rq_def set_load_rq_def)
qed

end
