(* ===== verification/SchedCpuLoad.thy ===== *)
theory SchedCpuLoad
  imports SchedLoad
begin

text \<open>
  The load of one processor (\<open>update_cpu_load\<close>) and the ageing of the real-time load
  (\<open>sched_avg_update\<close>) of opcional2/kernel/sched.c: when the loops end, that the tables are read
  within their rows, and how the five loads follow the weight of the runqueue.
\<close>

section \<open>Ageing the real-time load\<close>

lemma sint_diff:
  fixes a b p :: u64
  assumes "0 \<le> sint (a - b)" "0 \<le> sint p" "sint p \<le> sint (a - b)"
  shows "sint (a - (b + p)) = sint (a - b) - sint p"
proof -
  have "a - (b + p) = (a - b) - p" by simp
  moreover have "sint ((a - b) - p) = sint (a - b) - sint p"
    using assms sint_lt [of "a - b"] sint_ge [of p]
    by (simp add: sint_word_ariths(2) [of "a - b" p] signed_take_bit_int_eq_self del: diff_diff_eq)
  ultimately show ?thesis by (simp only:)
qed

lemma div_pow_Suc: "(a :: u64) div 2 div 2 ^ k = a div 2 ^ Suc k"
proof -
  have "drop_bit k (drop_bit 1 a) = drop_bit (Suc k) a" by simp
  then show ?thesis by (simp only: drop_bit_eq_div power_one_right)
qed

lemma avg_loop_returns:
  assumes "0 < sint period"
  shows "\<exists>k. avg_loop period clk age avg = Some (age + of_nat k * period, avg div 2 ^ k) \<and>
    sint (clk - (age + of_nat k * period)) \<le> sint period"
proof (induction "nat (sint (clk - age))" arbitrary: age avg rule: less_induct)
  case less
  show ?case
  proof (cases "sint period < sint (clk - age)")
    case True
    with assms have d: "sint (clk - (age + period)) = sint (clk - age) - sint period"
      by (intro sint_diff) auto
    with True assms have "nat (sint (clk - (age + period))) < nat (sint (clk - age))" by simp
    from less [OF this, of "avg div 2"] obtain k where
      k: "avg_loop period clk (age + period) (avg div 2)
          = Some (age + period + of_nat k * period, avg div 2 div 2 ^ k)"
        "sint (clk - (age + period + of_nat k * period)) \<le> sint period" by blast
    have e: "age + of_nat (Suc k) * period = age + period + of_nat k * period"
      by (simp add: algebra_simps)
    have "avg_loop period clk age avg = Some (age + of_nat (Suc k) * period, avg div 2 ^ Suc k)"
      unfolding e by (simp only: avg_loop.simps [of period clk age] True if_True k(1) div_pow_Suc)
    with k(2) show ?thesis unfolding e [symmetric] by blast
  next
    case False
    then show ?thesis by (intro exI [of _ 0]) (simp add: avg_loop.simps [of period clk age])
  qed
qed

lemma avg_loop_Some: "avg_loop p clk age avg = Some y \<Longrightarrow> \<not> (p = 0 \<and> 0 < sint (clk - age))"
  by (erule avg_loop.raw_induct [where P = "\<lambda>p clk age avg y. \<not> (p = 0 \<and> 0 < sint (clk - age))", rotated])
    (auto split: if_splits)

lemma avg_loop_diverges: "0 < sint (clk - age) \<Longrightarrow> avg_loop 0 clk age avg = None"
  using avg_loop_Some by fastforce

lemma sint_nonneg: "unat w < 2 ^ 63 \<Longrightarrow> sint w = uint w" for w :: u64
proof -
  assume "unat w < 2 ^ 63"
  then have "uint w < 2 ^ 63" by (simp only: unat_eq_nat_uint nat_less_iff [OF unsigned_greater_eq]) simp
  moreover have "- (2 ^ 63) \<le> uint w" by (rule order_trans [OF _ unsigned_greater_eq]) simp
  ultimately show ?thesis by (simp add: sint_uint signed_take_bit_int_eq_self [of 63])
qed

lemma period_positive: "0 < sint (sched_avg_period t 1000000) \<longleftrightarrow> 0 < t"
  and period_zero: "sched_avg_period 0 n = 0"
proof -
  have t: "unat t < 2 ^ 32" using unsigned_less [of t, where ?'a = nat] by simp
  have "unat (ucast t :: u64) = unat t"
    using t by (simp add: unsigned_ucast_eq take_bit_nat_eq_self_iff)
  then have "unat (ucast t * (1000000 :: u64)) = unat t * 1000000"
    using t by (simp add: unat_word_ariths)
  then have "unat (sched_avg_period t 1000000) = unat t * 1000000 div 2"
    by (simp add: sched_avg_period_def unat_div_distrib)
  moreover from this t have "unat (sched_avg_period t 1000000) < 2 ^ 63" by simp
  ultimately have "sint (sched_avg_period t 1000000) = int (unat t * 1000000 div 2)"
    by (simp only: sint_nonneg uint_nat)
  then show "0 < sint (sched_avg_period t 1000000) \<longleftrightarrow> 0 < t"
    by (simp add: word_less_def)
qed (simp add: sched_avg_period_def)

lemma period_zero_of: "0 < t \<or> t = 0" for t :: u32
  by (simp add: word_gt_0)

text \<open>
  C31 (ageing_loop_returns): the loop of \<open>sched_avg_update\<close> ends exactly when the sampling period set
  by \<open>sysctl_sched_time_avg\<close> is positive or the clock of the runqueue is not ahead of its stamp;
  when it ends with a positive period, the stamp is at most one period behind the clock and the
  real-time load has been halved once per period.  With the value 0, which the variable accepts, the loop never ends.
\<close>

theorem ageing_loop_returns:
  "(sched_avg_update (sched_avg_period t 1000000) r \<noteq> None \<longleftrightarrow>
      0 < t \<or> sint (avg_clock r - age_stamp r) \<le> 0) \<and>
   (0 < t \<longrightarrow>
     (\<exists>r' k. sched_avg_update (sched_avg_period t 1000000) r = Some r' \<and>
        sint (avg_clock r' - age_stamp r') \<le> sint (sched_avg_period t 1000000) \<and>
        age_stamp r' = age_stamp r + of_nat k * sched_avg_period t 1000000 \<and>
        rt_avg r' = rt_avg r div 2 ^ k))"
proof (cases "0 < t")
  case True
  then have "0 < sint (sched_avg_period t 1000000)" by (simp add: period_positive)
  from avg_loop_returns [OF this, of "avg_clock r" "age_stamp r" "rt_avg r"] obtain k where
    k: "avg_loop (sched_avg_period t 1000000) (avg_clock r) (age_stamp r) (rt_avg r)
        = Some (age_stamp r + of_nat k * sched_avg_period t 1000000, rt_avg r div 2 ^ k)"
      "sint (avg_clock r - (age_stamp r + of_nat k * sched_avg_period t 1000000))
        \<le> sint (sched_avg_period t 1000000)" by blast
  define r' where "r' = r\<lparr>age_stamp := age_stamp r + of_nat k * sched_avg_period t 1000000,
    rt_avg := rt_avg r div 2 ^ k\<rparr>"
  have "sched_avg_update (sched_avg_period t 1000000) r = Some r'"
    by (simp add: sched_avg_update_def k(1) r'_def)
  moreover have "avg_clock r' = avg_clock r"
    "age_stamp r' = age_stamp r + of_nat k * sched_avg_period t 1000000" "rt_avg r' = rt_avg r div 2 ^ k"
    by (simp_all add: r'_def)
  ultimately show ?thesis using k(2) True by auto
next
  case False
  then have "t = 0" using period_zero_of by blast
  moreover have "avg_loop 0 (avg_clock r) (age_stamp r) (rt_avg r) = Some (age_stamp r, rt_avg r)"
    if "\<not> 0 < sint (avg_clock r - age_stamp r)"
    using that by (subst avg_loop.simps) simp
  ultimately show ?thesis
    using avg_loop_diverges [of "avg_clock r" "age_stamp r" "rt_avg r"]
    by (cases "0 < sint (avg_clock r - age_stamp r)") (simp_all add: sched_avg_update_def period_zero)
qed

theorem ageing_loop_returns_witness:
  "sched_avg_update (sched_avg_period 1000 1000000) sample_load_rq \<noteq> None \<and>
   sched_avg_update (sched_avg_period 0 1000000) sample_load_rq = None"
  using ageing_loop_returns [of 1000 sample_load_rq] ageing_loop_returns [of 0 sample_load_rq]
  by (simp add: sample_load_rq_def)

section \<open>The loads of one processor\<close>

text \<open>Decaying for missed ticks reads the table inside its rows and never increases the load.\<close>

lemma scaled_le:
  fixes load f :: ul
  assumes "unat load < 2 ^ 25" "unat f \<le> 128"
  shows "unat (drop_bit DEGRADE_SHIFT (load * f)) \<le> unat load"
proof -
  have p: "unat load * unat f \<le> unat load * 128" using assms by simp
  then have "unat load * unat f < 4294967296" using assms(1) [simplified] by linarith
  then have "unat (load * f) = unat load * unat f" by (simp add: unat_word_ariths)
  with div_le_mono [OF p, of 128] show ?thesis
    by (simp add: DEGRADE_SHIFT_def unat_drop_bit_eq drop_bit_eq_div unat_div_distrib)
qed

lemma decay_loop_ok:
  assumes "length row = 8" "\<forall>f \<in> set row. unat f \<le> 128" "unat missed < 2 ^ (8 - j)" "j \<le> 8"
    and "unat load < 2 ^ 25"
  shows "\<exists>l. decay_loop row j load missed = Some l \<and> unat l \<le> unat load"
  using assms
proof (induction row j load missed rule: decay_loop.induct)
  case (1 row j load missed)
  show ?case
  proof (cases "missed = 0")
    case True
    then show ?thesis by (simp add: decay_loop.simps)
  next
    case False
    with 1(2-) have j: "j < 8" by (cases "j = 8") (auto simp: unat_eq_zero)
    define l where "l = (if missed mod 2 \<noteq> 0 then drop_bit DEGRADE_SHIFT (load * row ! j) else load)"
    have l: "unat l \<le> unat load"
      using 1(2-) j by (auto simp: l_def intro!: scaled_le)
    have step: "(if missed mod 2 \<noteq> 0 then map_option (\<lambda>f. drop_bit DEGRADE_SHIFT (load * f)) (read_at row (int j))
      else Some load) = Some l"
      using j 1(2) by (simp add: l_def)
    have "unat missed < 2 * 2 ^ (8 - (j + 1))" using 1(2-) j
      by (metis Suc_diff_Suc Suc_eq_plus1 power_Suc)
    then have "unat (drop_bit 1 missed) < 2 ^ (8 - (j + 1))" by (simp add: unat_half)
    then have "\<exists>l'. decay_loop row (j + 1) l (drop_bit 1 missed) = Some l' \<and> unat l' \<le> unat l"
      using 1(2-) j l by (intro 1(1) [OF False step]) auto
    with l False step show ?thesis by (subst decay_loop.simps) auto
  qed
qed

lemma degrade_rows:
  "i \<in> {1..<5} \<Longrightarrow> length (degrade_factor ! i) = 8 \<and> (\<forall>f \<in> set (degrade_factor ! i). unat f \<le> 128) \<and>
    unat (degrade_zero_ticks ! i) \<le> 128"
proof -
  assume "i \<in> {1..<5}"
  then have "i = 1 \<or> i = 2 \<or> i = 3 \<or> i = 4" by auto
  then show ?thesis
    by (elim disjE) (simp_all add: degrade_factor_def degrade_zero_ticks_def)
qed

lemma decay_load_missed_ok:
  assumes "i \<in> {1..<5}" "unat load < 2 ^ 25"
  shows "\<exists>l. decay_load_missed load missed i = Some l \<and> unat l \<le> unat load"
proof -
  have z: "read_at degrade_zero_ticks (int i) = Some (degrade_zero_ticks ! i)"
    "read_at degrade_factor (int i) = Some (degrade_factor ! i)"
    using assms(1) by (simp_all add: degrade_zero_ticks_def degrade_factor_def)
  have "\<exists>l. decay_loop (degrade_factor ! i) 0 load missed = Some l \<and> unat l \<le> unat load"
    if "missed < degrade_zero_ticks ! i"
    using that degrade_rows [OF assms(1)] assms(2)
    by (intro decay_loop_ok) (auto simp: word_less_nat_alt)
  moreover have "unat (drop_bit (unat missed) load) \<le> unat load"
    by (simp only: drop_bit_eq_div unat_div_distrib div_le_dividend)
  ultimately show ?thesis
    by (auto simp: decay_load_missed_def z not_le)
qed

text \<open>The weighted mean of the old and the current load, rounded up when the load grows.\<close>

lemma blend_load_unat:
  assumes "i \<in> {1..<5}" "unat old < 2 ^ 25" "unat this < 2 ^ 25"
  shows "unat (blend_load i old this) =
    (unat old * (2 ^ i - 1) + unat this + (if unat old < unat this then 2 ^ i - 1 else 0)) div 2 ^ i"
proof -
  have "i = 1 \<or> i = 2 \<or> i = 3 \<or> i = 4" using assms(1) by auto
  then show ?thesis
    using assms(2,3)
    by (elim disjE)
      (simp_all add: blend_load_def unat_drop_bit_eq drop_bit_eq_div unat_div_distrib push_bit_eq_mult
        unat_word_ariths word_less_nat_alt add.assoc)
qed

definition moves_toward :: "nat \<Rightarrow> nat \<Rightarrow> nat \<Rightarrow> bool" where
  "moves_toward goal old new \<longleftrightarrow>
     (if old < goal then old < new \<and> new \<le> goal
      else if goal < old then goal \<le> new \<and> new < old else new = old)"

lemma mean_moves_toward:
  assumes "s \<in> {2, 4, 8, 16 :: nat}"
  shows "moves_toward this old ((old * (s - 1) + this + (if old < this then s - 1 else 0)) div s)"
  using assms by (auto simp: moves_toward_def)

lemma blend_moves_toward:
  assumes "i \<in> {1..<5}" "unat old < 2 ^ 25" "unat this < 2 ^ 25"
  shows "moves_toward (unat this) (unat old) (unat (blend_load i old this))"
proof -
  have "i = 1 \<or> i = 2 \<or> i = 3 \<or> i = 4" using assms(1) by auto
  then have "(2 :: nat) ^ i \<in> {2, 4, 8, 16}" by (elim disjE) simp_all
  from mean_moves_toward [OF this] show ?thesis by (simp add: blend_load_unat [OF assms])
qed

lemma moves_toward_max: "moves_toward goal old new \<Longrightarrow> new \<le> max old goal"
  by (auto simp: moves_toward_def split: if_splits)

lemma load_loop_ok:
  assumes "distinct is" "set is \<subseteq> {1..<5}" "length loads = 5" "B < 2 ^ 25" "unat this \<le> B"
    and "\<forall>l \<in> set loads. unat l \<le> B"
  shows "\<exists>loads'. load_loop is this pending loads = Some loads' \<and> length loads' = 5 \<and>
    (\<forall>l \<in> set loads'. unat l \<le> B) \<and> (\<forall>i. i \<notin> set is \<longrightarrow> loads' ! i = loads ! i) \<and>
    (pending = 1 \<longrightarrow> (\<forall>i \<in> set is. moves_toward (unat this) (unat (loads ! i)) (unat (loads' ! i))))"
  using assms
proof (induction "is" arbitrary: loads)
  case (Cons i "is")
  then have i: "i \<in> {1..<5}" "i < length loads" "i \<notin> set is" by auto
  with Cons.prems have old: "unat (loads ! i) \<le> B" by (meson nth_mem)
  then obtain l where l: "decay_load_missed (loads ! i) (pending - 1) i = Some l" "unat l \<le> unat (loads ! i)"
    using decay_load_missed_ok [OF i(1), of "loads ! i" "pending - 1"] Cons.prems(4) by auto
  define new where "new = blend_load i l this"
  have new: "moves_toward (unat this) (unat l) (unat new)"
    unfolding new_def using i(1) l(2) old Cons.prems by (intro blend_moves_toward) linarith+
  have "unat new \<le> B" using moves_toward_max [OF new] l(2) old Cons.prems(5) by simp
  then have "\<forall>x \<in> set (loads[i := new]). unat x \<le> B"
    using Cons.prems(6) set_update_subset_insert [of loads i new] by auto
  with Cons.IH [of "loads[i := new]"] Cons.prems obtain loads' where
    IH: "load_loop is this pending (loads[i := new]) = Some loads'" "length loads' = 5"
      "\<forall>l \<in> set loads'. unat l \<le> B" "\<forall>j. j \<notin> set is \<longrightarrow> loads' ! j = loads[i := new] ! j"
      "pending = 1 \<longrightarrow> (\<forall>j \<in> set is. moves_toward (unat this) (unat (loads[i := new] ! j)) (unat (loads' ! j)))"
    by auto
  have run: "load_loop (i # is) this pending loads = Some loads'"
    using i(2) l(1) IH(1) by (simp add: new_def)
  have same: "\<forall>j. j \<notin> set (i # is) \<longrightarrow> loads' ! j = loads ! j" using IH(4) by simp
  have "moves_toward (unat this) (unat (loads ! j)) (unat (loads' ! j))"
    if "pending = 1" "j \<in> set (i # is)" for j
  proof (cases "j = i")
    case True
    from that(1) l(1) have "l = loads ! i" by (simp add: decay_load_missed_def)
    with new True IH(4) i show ?thesis by simp
  next
    case False
    with that IH(5) show ?thesis by auto
  qed
  with run same IH(2,3) show ?case by blast
qed simp

definition cpu_load_ok :: "nat \<Rightarrow> load_rq \<Rightarrow> bool" where
  "cpu_load_ok B r \<longleftrightarrow> length (cpu_load r) = 5 \<and> (\<forall>l \<in> set (cpu_load r). unat l \<le> B)"

text \<open>
  C32 (cpu_load_follows_the_weight): an update of the five loads of a processor reads its tables in
  range, ends, and keeps every load within a bound of the old loads and of the weight of the
  runqueue, without overflow below \<open>2^25\<close>; load 0 is the weight, and after one tick each other load
  has moved strictly toward the weight without passing it, or already was the weight, so a load does not get stuck.
\<close>

theorem cpu_load_follows_the_weight:
  assumes "cpu_load_ok B r" "unat (load_weight_of r) \<le> B" "B < 2 ^ 25" "0 < t"
    and "now \<noteq> last_load_update_tick r"
  shows "\<exists>r'. update_cpu_load (sched_avg_period t 1000000) now r = Some r' \<and> cpu_load_ok B r' \<and>
    cpu_load r' ! 0 = load_weight_of r \<and> last_load_update_tick r' = now \<and>
    (now = last_load_update_tick r + 1 \<longrightarrow>
      (\<forall>i \<in> {1..<5}. moves_toward (unat (load_weight_of r)) (unat (cpu_load r ! i)) (unat (cpu_load r' ! i))))"
proof -
  define w pending where "w = load_weight_of r" "pending = now - last_load_update_tick r"
  have len: "length (cpu_load r) = 5" using assms(1) by (simp add: cpu_load_ok_def)
  then have zero: "write_at (cpu_load r) 0 w = Some ((cpu_load r)[0 := w])"
    using write_at_nat [of 0 "cpu_load r" w] by simp
  have "\<forall>l \<in> set ((cpu_load r)[0 := w]). unat l \<le> B"
    using assms(1,2) set_update_subset_insert [of "cpu_load r" 0 w]
    by (auto simp: cpu_load_ok_def w_pending_def)
  with load_loop_ok [of "[1..<5]" "(cpu_load r)[0 := w]" B w pending] len assms(2,3) obtain loads where
    loads: "load_loop [1..<5] w pending ((cpu_load r)[0 := w]) = Some loads" "length loads = 5"
      "\<forall>l \<in> set loads. unat l \<le> B" "loads ! 0 = w"
      "pending = 1 \<longrightarrow> (\<forall>i \<in> {1..<5}. moves_toward (unat w) (unat (cpu_load r ! i)) (unat (loads ! i)))"
    by (auto simp: w_pending_def)
  define r1 where "r1 = r\<lparr>nr_load_updates := nr_load_updates r + 1, last_load_update_tick := now, cpu_load := loads\<rparr>"
  have "0 < sint (sched_avg_period t 1000000)" using assms(4) by (simp add: period_positive)
  from avg_loop_returns [OF this, of "avg_clock r1" "age_stamp r1" "rt_avg r1"] obtain a b where
    "avg_loop (sched_avg_period t 1000000) (avg_clock r1) (age_stamp r1) (rt_avg r1) = Some (a, b)"
    by blast
  then have "update_cpu_load (sched_avg_period t 1000000) now r = Some (r1\<lparr>age_stamp := a, rt_avg := b\<rparr>)"
    using assms(5) zero loads(1)
    by (simp add: update_cpu_load_def Let_def CPU_LOAD_IDX_MAX_def w_pending_def sched_avg_update_def r1_def)
  with loads show ?thesis by (simp add: cpu_load_ok_def r1_def w_pending_def)
qed

theorem cpu_load_follows_the_weight_witness:
  "\<exists>r'. update_cpu_load (sched_avg_period 1000 1000000) 1 sample_load_rq = Some r' \<and>
     cpu_load_ok 4096 r' \<and> 0 < unat (cpu_load r' ! 4)"
proof -
  have "\<exists>r'. update_cpu_load (sched_avg_period 1000 1000000) 1 sample_load_rq = Some r' \<and>
      cpu_load_ok 4096 r' \<and> cpu_load r' ! 0 = load_weight_of sample_load_rq \<and>
      last_load_update_tick r' = 1 \<and>
      (1 = last_load_update_tick sample_load_rq + 1 \<longrightarrow> (\<forall>i \<in> {1..<5}.
        moves_toward (unat (load_weight_of sample_load_rq)) (unat (cpu_load sample_load_rq ! i)) (unat (cpu_load r' ! i))))"
    by (rule cpu_load_follows_the_weight) (simp_all add: cpu_load_ok_def sample_load_rq_def)
  then show ?thesis
    by (elim exE) (auto simp: sample_load_rq_def moves_toward_def dest: bspec [of _ _ 4])
qed

end
