(* ===== verification/SchedGroups.thy ===== *)
theory SchedGroups
  imports SchedBase
begin

text \<open>
  The task groups of opcional2/kernel/sched.c: the walk over the tree of groups, the real-time
  bandwidth of each group with the test that keeps the tree schedulable, its system-wide limits, and
  the creation and destruction of groups.  A group is named by a number.  Periods are kept in
  nanoseconds: \<open>ktime_to_ns\<close> and \<open>ns_to_ktime\<close> are inverse.
\<close>

section \<open>State\<close>

text \<open>\<open>struct rt_bandwidth\<close> without its lock and timer.\<close>

record bandwidth =
  rt_period :: u64
  rt_runtime :: u64

text \<open>
  The groups: their bandwidth and shares, the lists of children in the order of \<open>siblings\<close>, the
  parents (\<^const>\<open>None\<close> for the root), and \<open>rt_rq[i]->rt_runtime\<close>.  \<open>rt_threads\<close> lists the threads
  with a real-time priority by their group, \<open>fair\<close> is the state of sched_fair.c.
\<close>

record 'f groups =
  root_group :: nat
  bw :: "nat \<Rightarrow> bandwidth"
  shares :: "nat \<Rightarrow> ul"
  children :: "nat \<Rightarrow> nat list"
  parent_of :: "nat \<Rightarrow> nat option"
  cpu_runtime :: "nat \<Rightarrow> nat \<Rightarrow> u64"
  possible_cpus :: "nat list"
  rt_threads :: "nat list"
  sched_rt_period_us :: u32
  sched_rt_runtime_us :: s32
  def_bw :: bandwidth
  fair :: 'f

definition RUNTIME_INF :: u64 where "RUNTIME_INF = NOT 0"

text \<open>Nanoseconds in a microsecond.\<close>

definition NSEC_PER_USEC :: u64 where "NSEC_PER_USEC = 1000"

definition bandwidth_enabled :: "'f groups \<Rightarrow> bool" where
  "bandwidth_enabled s \<longleftrightarrow> 0 \<le> sint (sched_rt_runtime_us s)"

definition global_rt_period :: "'f groups \<Rightarrow> u64" where
  "global_rt_period s = ucast (sched_rt_period_us s) * NSEC_PER_USEC"

definition global_rt_runtime :: "'f groups \<Rightarrow> u64" where
  "global_rt_runtime s =
     (if sint (sched_rt_runtime_us s) < 0 then RUNTIME_INF
      else scast (sched_rt_runtime_us s) * NSEC_PER_USEC)"

section \<open>The walk over the tree\<close>

text \<open>
  \<open>walk_tg_tree\<close> jumps in and out of the loop over the children of a group.  A program point is the
  call of \<open>down\<close> for a group, or the head of the loop over the children of a group with the next
  child, \<^const>\<open>None\<close> at the end of the list.  A visitor returns its result and changes the data
  behind \<open>data\<close>; \<^const>\<open>None\<close> is a fault in it.  The walk itself may run forever on a malformed tree, so
  it is a partial function.
\<close>

datatype walk_pc = Down nat | Loop nat "nat option"

type_synonym 'd visitor = "nat \<Rightarrow> 'd \<Rightarrow> (int \<times> 'd) option"

fun first_child :: "nat list \<Rightarrow> nat option" where
  "first_child [] = None"
| "first_child (c # cs) = Some c"

fun next_sibling :: "nat \<Rightarrow> nat list \<Rightarrow> nat option" where
  "next_sibling c [] = None"
| "next_sibling c (d # ds) = (if c = d then first_child ds else next_sibling c ds)"

partial_function (option) walk ::
  "'f groups \<Rightarrow> 'd visitor \<Rightarrow> 'd visitor \<Rightarrow> walk_pc \<Rightarrow> 'd \<Rightarrow> (int \<times> 'd) option" where
  "walk s down up pc d =
     (case pc of
        Down p \<Rightarrow> do {
          (ret, d) \<leftarrow> down p d;
          if ret \<noteq> 0 then Some (ret, d) else walk s down up (Loop p (first_child (children s p))) d }
      | Loop p (Some c) \<Rightarrow> walk s down up (Down c) d
      | Loop p None \<Rightarrow> do {
          (ret, d) \<leftarrow> up p d;
          if ret \<noteq> 0 then Some (ret, d)
          else case parent_of s p of
            None \<Rightarrow> Some (ret, d)
          | Some q \<Rightarrow> walk s down up (Loop q (next_sibling p (children s q))) d })"

definition walk_tg_tree :: "'f groups \<Rightarrow> 'd visitor \<Rightarrow> 'd visitor \<Rightarrow> 'd \<Rightarrow> (int \<times> 'd) option" where
  "walk_tg_tree s down up d = walk s down up (Down (root_group s)) d"

definition tg_nop :: "'d visitor" where
  "tg_nop tg d = Some (0, d)"

section \<open>Schedulability\<close>

text \<open>\<^const>\<open>None\<close> is a division by 0.  The quotient is truncated to \<open>unsigned long\<close>.\<close>

definition to_ratio :: "u64 \<Rightarrow> u64 \<Rightarrow> ul option" where
  "to_ratio period runtime =
     (if runtime = RUNTIME_INF then Some (push_bit 20 1)
      else if period = 0 then None
      else Some (ucast (push_bit 20 runtime div period)))"

definition tg_has_rt_tasks :: "'f groups \<Rightarrow> nat \<Rightarrow> bool" where
  "tg_has_rt_tasks s tg \<longleftrightarrow> tg \<in> set (rt_threads s)"

text \<open>\<open>struct rt_schedulable_data\<close>: the group to change, if any, and its new bandwidth.\<close>

record rt_schedulable_data =
  data_tg :: "nat option"
  data_bw :: bandwidth

definition proposed :: "'f groups \<Rightarrow> rt_schedulable_data \<Rightarrow> nat \<Rightarrow> bandwidth" where
  "proposed s dat tg = (if data_tg dat = Some tg then data_bw dat else bw s tg)"

fun sum_ratios :: "'f groups \<Rightarrow> rt_schedulable_data \<Rightarrow> nat list \<Rightarrow> ul option" where
  "sum_ratios s dat [] = Some 0"
| "sum_ratios s dat (c # cs) = do {
     r \<leftarrow> to_ratio (rt_period (proposed s dat c)) (rt_runtime (proposed s dat c));
     sm \<leftarrow> sum_ratios s dat cs;
     Some (r + sm) }"

definition tg_schedulable :: "'f groups \<Rightarrow> rt_schedulable_data \<Rightarrow> nat \<Rightarrow> int option" where
  "tg_schedulable s dat tg =
     (let period = rt_period (proposed s dat tg); runtime = rt_runtime (proposed s dat tg) in
      if period < runtime \<and> runtime \<noteq> RUNTIME_INF then Some (- EINVAL)
      else if bandwidth_enabled s \<and> runtime = 0 \<and> tg_has_rt_tasks s tg then Some (- EBUSY)
      else do {
        total \<leftarrow> to_ratio period runtime;
        limit \<leftarrow> to_ratio (global_rt_period s) (global_rt_runtime s);
        if limit < total then Some (- EINVAL)
        else do {
          sm \<leftarrow> sum_ratios s dat (children s tg);
          Some (if total < sm then - EINVAL else 0) } })"

definition rt_schedulable :: "'f groups \<Rightarrow> nat option \<Rightarrow> u64 \<Rightarrow> u64 \<Rightarrow> int option" where
  "rt_schedulable s tg period runtime =
     (let dat = \<lparr>data_tg = tg, data_bw = \<lparr>rt_period = period, rt_runtime = runtime\<rparr>\<rparr>
      in map_option fst
           (walk_tg_tree s (\<lambda>g d. map_option (\<lambda>ret. (ret, d)) (tg_schedulable s dat g)) tg_nop ()))"

section \<open>Changing the bandwidth of a group\<close>

definition tg_set_bandwidth :: "nat \<Rightarrow> u64 \<Rightarrow> u64 \<Rightarrow> 'f groups \<Rightarrow> ('f groups \<times> int) option" where
  "tg_set_bandwidth tg period runtime s = do {
     err \<leftarrow> rt_schedulable s (Some tg) period runtime;
     Some (if err \<noteq> 0 then (s, err)
           else (s\<lparr>bw := (bw s)(tg := \<lparr>rt_period = period, rt_runtime = runtime\<rparr>),
                   cpu_runtime := (cpu_runtime s)(tg := (\<lambda>i. if i \<in> set (possible_cpus s) then runtime
                                                             else cpu_runtime s tg i))\<rparr>, 0)) }"

text \<open>
  The arguments and results in microseconds are \<open>long\<close>.  The calls that change a group first read what
  they do not change, under no lock, and then call \<open>tg_set_bandwidth\<close>: a request is the group with the period and
  the runtime to set.
\<close>

type_synonym rt_request = "nat \<times> u64 \<times> u64"

definition rt_runtime_request :: "nat \<Rightarrow> ul \<Rightarrow> 'f groups \<Rightarrow> rt_request" where
  "rt_runtime_request tg rt_runtime_us s =
     (let period = rt_period (bw s tg);
          runtime = scast rt_runtime_us * NSEC_PER_USEC;
          runtime = (if sint rt_runtime_us < 0 then RUNTIME_INF else runtime)
      in (tg, period, runtime))"

definition sched_group_set_rt_runtime :: "nat \<Rightarrow> ul \<Rightarrow> 'f groups \<Rightarrow> ('f groups \<times> int) option" where
  "sched_group_set_rt_runtime tg rt_runtime_us s =
     (case rt_runtime_request tg rt_runtime_us s of (tg, period, runtime) \<Rightarrow> tg_set_bandwidth tg period runtime s)"

definition sched_group_rt_runtime :: "'f groups \<Rightarrow> nat \<Rightarrow> ul" where
  "sched_group_rt_runtime s tg =
     (if rt_runtime (bw s tg) = RUNTIME_INF then - 1 else ucast (rt_runtime (bw s tg) div NSEC_PER_USEC))"

definition rt_period_request :: "nat \<Rightarrow> ul \<Rightarrow> 'f groups \<Rightarrow> rt_request option" where
  "rt_period_request tg rt_period_us s =
     (let period = scast rt_period_us * NSEC_PER_USEC;
          runtime = rt_runtime (bw s tg)
      in if period = 0 then None else Some (tg, period, runtime))"

definition sched_group_set_rt_period :: "nat \<Rightarrow> ul \<Rightarrow> 'f groups \<Rightarrow> ('f groups \<times> int) option" where
  "sched_group_set_rt_period tg rt_period_us s =
     (case rt_period_request tg rt_period_us s of
        None \<Rightarrow> Some (s, - EINVAL)
      | Some (tg, period, runtime) \<Rightarrow> tg_set_bandwidth tg period runtime s)"

definition sched_group_rt_period :: "'f groups \<Rightarrow> nat \<Rightarrow> ul" where
  "sched_group_rt_period s tg = ucast (rt_period (bw s tg) div NSEC_PER_USEC)"

definition sched_rt_can_attach :: "'f groups \<Rightarrow> nat \<Rightarrow> bool \<Rightarrow> bool" where
  "sched_rt_can_attach s tg rt_task = (if rt_task \<and> rt_runtime (bw s tg) = 0 then False else True)"

section \<open>The system-wide limits\<close>

definition sched_rt_global_constraints :: "'f groups \<Rightarrow> int option" where
  "sched_rt_global_constraints s =
     (if sched_rt_period_us s = 0 then Some (- EINVAL)
      else
        let runtime = global_rt_runtime s; period = global_rt_period s
        in if period < runtime \<and> runtime \<noteq> RUNTIME_INF then Some (- EINVAL)
           else rt_schedulable s None 0 0)"

text \<open>
  \<open>sched_rt_handler\<close> in its parts, between which bandwidth calls can run: \<open>proc_dointvec\<close> returns \<open>ret\<close> and
  leaves new values in the two variables; \<open>sched_rt_global_constraints\<close> checks them; they are taken back
  when they are refused and become the default of new groups when they are not.
\<close>

definition sched_rt_handler_begin :: "u32 \<Rightarrow> s32 \<Rightarrow> 'f groups \<Rightarrow> 'f groups" where
  "sched_rt_handler_begin period runtime s = s\<lparr>sched_rt_period_us := period, sched_rt_runtime_us := runtime\<rparr>"

definition sched_rt_handler_finish :: "u32 \<Rightarrow> s32 \<Rightarrow> int \<Rightarrow> 'f groups \<Rightarrow> 'f groups" where
  "sched_rt_handler_finish old_period old_runtime ret s =
     (if ret \<noteq> 0 then s\<lparr>sched_rt_period_us := old_period, sched_rt_runtime_us := old_runtime\<rparr>
      else s\<lparr>def_bw := \<lparr>rt_period = global_rt_period s, rt_runtime = global_rt_runtime s\<rparr>\<rparr>)"

definition sched_rt_handler_end ::
  "int \<Rightarrow> bool \<Rightarrow> u32 \<Rightarrow> s32 \<Rightarrow> 'f groups \<Rightarrow> ('f groups \<times> int) option" where
  "sched_rt_handler_end ret write_op old_period old_runtime s =
     (if ret = 0 \<and> write_op
      then do {
        ret \<leftarrow> sched_rt_global_constraints s;
        Some (sched_rt_handler_finish old_period old_runtime ret s, ret) }
      else Some (s, ret))"

text \<open>The whole handler, when nothing else runs.\<close>

definition sched_rt_handler ::
  "int \<Rightarrow> bool \<Rightarrow> u32 \<Rightarrow> s32 \<Rightarrow> 'f groups \<Rightarrow> ('f groups \<times> int) option" where
  "sched_rt_handler ret write_op period runtime s =
     sched_rt_handler_end ret write_op (sched_rt_period_us s) (sched_rt_runtime_us s)
       (sched_rt_handler_begin period runtime s)"

section \<open>Creating and destroying groups\<close>

definition init_rt_bandwidth :: "u64 \<Rightarrow> u64 \<Rightarrow> bandwidth" where
  "init_rt_bandwidth period runtime = \<lparr>rt_period = period, rt_runtime = runtime\<rparr>"

text \<open>
  \<open>sched_create_group\<close>: \<open>new\<close> is the block \<open>kzalloc\<close> returns, and \<open>fair_group\<close> and \<open>rt_group\<close> tell
  whether the allocations of \<open>alloc_fair_sched_group\<close> (which also sets the shares) and of
  \<open>alloc_rt_sched_group\<close> succeed.
\<close>

definition alloc_rt_sched_group :: "nat \<Rightarrow> 'f groups \<Rightarrow> 'f groups" where
  "alloc_rt_sched_group tg s =
     s\<lparr>bw := (bw s)(tg := init_rt_bandwidth (rt_period (def_bw s)) 0),
       cpu_runtime := (cpu_runtime s)(tg := (\<lambda>i. 0))\<rparr>"

definition sched_create_group ::
  "nat option \<Rightarrow> bool \<Rightarrow> bool \<Rightarrow> ul \<Rightarrow> nat \<Rightarrow> 'f groups \<Rightarrow> 'f groups \<times> (int + nat)" where
  "sched_create_group new fair_group rt_group nice_0_load parent s =
     (case new of
        None \<Rightarrow> (s, Inl (- ENOMEM))
      | Some tg \<Rightarrow>
          if \<not> fair_group then (s, Inl (- ENOMEM))
          else if \<not> rt_group then (s, Inl (- ENOMEM))
          else
            let s = s\<lparr>shares := (shares s)(tg := nice_0_load)\<rparr>;
                s = alloc_rt_sched_group tg s;
                s = s\<lparr>parent_of := (parent_of s)(tg := Some parent), children := (children s)(tg := [])\<rparr>;
                s = s\<lparr>children := (children s)(parent := tg # children s parent)\<rparr>
            in (s, Inr tg))"

text \<open>The group leaves the list of its parent; its memory is released after a grace period.\<close>

definition sched_destroy_group :: "nat \<Rightarrow> 'f groups \<Rightarrow> 'f groups" where
  "sched_destroy_group tg s =
     (case parent_of s tg of
        None \<Rightarrow> s
      | Some p \<Rightarrow> s\<lparr>children := (children s)(p := remove1 tg (children s p))\<rparr>)"

section \<open>Shares\<close>

definition MIN_SHARES :: ul where "MIN_SHARES = 2"
definition MAX_SHARES :: ul where "MAX_SHARES = push_bit 18 1"

text \<open>
  The root has no entity to weigh.  \<open>propagate\<close> is the loop that calls \<open>update_cfs_shares\<close> of
  sched_fair.c for the entity of a group on a processor and for those above it.
\<close>

definition sched_group_set_shares ::
  "(nat \<Rightarrow> nat \<Rightarrow> 'f groups \<Rightarrow> 'f) \<Rightarrow> nat \<Rightarrow> ul \<Rightarrow> 'f groups \<Rightarrow> 'f groups \<times> int" where
  "sched_group_set_shares propagate tg sh s =
     (if tg = root_group s then (s, - EINVAL)
      else
        let sh = (if sh < MIN_SHARES then MIN_SHARES else if MAX_SHARES < sh then MAX_SHARES else sh)
        in if shares s tg = sh then (s, 0)
           else (foldl (\<lambda>s i. s\<lparr>fair := propagate tg i s\<rparr>) (s\<lparr>shares := (shares s)(tg := sh)\<rparr>)
                   (possible_cpus s), 0))"

definition sched_group_shares :: "'f groups \<Rightarrow> nat \<Rightarrow> ul" where
  "sched_group_shares s tg = shares s tg"

end
