(* ===== verification/SchedGroupsProps.thy ===== *)
theory SchedGroupsProps
  imports "HOL-Library.Multiset" SchedGroups
begin

text \<open>
  Facts about the task groups of opcional2/kernel/sched.c: the walk visits the tree like the
  obvious recursion and ends, and every change of the groups and of the system-wide limits keeps the
  real-time bandwidth schedulable at every level of the tree.
\<close>

section \<open>Trees\<close>

datatype gtree = Node (root: nat) (subtrees: "gtree list")

primrec nodes :: "gtree \<Rightarrow> nat list" where
  "nodes (Node g ts) = g # concat (map nodes ts)"

fun represents :: "'f groups \<Rightarrow> nat option \<Rightarrow> gtree \<Rightarrow> bool" where
  "represents s par (Node g ts) \<longleftrightarrow>
     parent_of s g = par \<and> children s g = map root ts \<and> (\<forall>t \<in> set ts. represents s (Some g) t)"

definition tree_of :: "'f groups \<Rightarrow> gtree \<Rightarrow> bool" where
  "tree_of s t \<longleftrightarrow> represents s None t \<and> distinct (nodes t) \<and> root t = root_group s"

lemma root_in_nodes [simp]: "root t \<in> set (nodes t)"
  by (cases t) simp

lemma map_root_nodes: "set (map root ts) \<subseteq> set (concat (map nodes ts))"
  by (induction ts) auto

lemma distinct_roots: "distinct (concat (map nodes ts)) \<Longrightarrow> distinct (map root ts)"
proof (induction ts)
  case (Cons t ts)
  then have "set (nodes t) \<inter> set (concat (map nodes ts)) = {}" by simp
  then have "root t \<notin> set (concat (map nodes ts))" using root_in_nodes by blast
  then have "root t \<notin> set (map root ts)" using map_root_nodes [of ts] by blast
  with Cons show ?case by simp
qed simp

section \<open>The walk as a recursion\<close>

text \<open>The traversal \<open>walk_tg_tree\<close> documents: \<open>down\<close> on entering a group, \<open>up\<close> on leaving it.\<close>

fun visit :: "'d visitor \<Rightarrow> 'd visitor \<Rightarrow> gtree \<Rightarrow> 'd \<Rightarrow> (int \<times> 'd) option"
and visit_all :: "'d visitor \<Rightarrow> 'd visitor \<Rightarrow> gtree list \<Rightarrow> 'd \<Rightarrow> (int \<times> 'd) option" where
  "visit down up (Node g ts) d = do {
     (ret, d) \<leftarrow> down g d;
     if ret \<noteq> 0 then Some (ret, d)
     else do {
       (ret, d) \<leftarrow> visit_all down up ts d;
       if ret \<noteq> 0 then Some (ret, d) else up g d } }"
| "visit_all down up [] d = Some (0, d)"
| "visit_all down up (t # ts) d = do {
     (ret, d) \<leftarrow> visit down up t d;
     if ret \<noteq> 0 then Some (ret, d) else visit_all down up ts d }"

text \<open>What the walk does once it has left the subtree of \<open>g\<close> without an error.\<close>

definition after :: "'f groups \<Rightarrow> 'd visitor \<Rightarrow> 'd visitor \<Rightarrow> nat \<Rightarrow> 'd \<Rightarrow> (int \<times> 'd) option" where
  "after s down up g d =
     (case parent_of s g of None \<Rightarrow> Some (0, d)
      | Some q \<Rightarrow> walk s down up (Loop q (next_sibling g (children s q))) d)"

lemma walk_Down: "walk s down up (Down p) d = do {
    (ret, d) \<leftarrow> down p d;
    if ret \<noteq> 0 then Some (ret, d) else walk s down up (Loop p (first_child (children s p))) d }"
  by (subst walk.simps) simp

lemma walk_Loop_Some: "walk s down up (Loop p (Some c)) d = walk s down up (Down c) d"
  by (subst walk.simps) simp

lemma walk_Loop_None: "walk s down up (Loop p None) d = do {
    (ret, d) \<leftarrow> up p d; if ret \<noteq> 0 then Some (ret, d) else after s down up p d }"
  by (subst walk.simps) (auto simp: after_def split: option.splits intro!: Option.bind_cong)

lemma next_sibling_append:
  "c \<notin> set as \<Longrightarrow> next_sibling c (as @ c # bs) = first_child bs"
  by (induction as) auto

lemma walk_visits_all:
  assumes sub: "\<And>t d. t \<in> set (pre @ ts) \<Longrightarrow> walk s down up (Down (root t)) d = do {
      (ret, d) \<leftarrow> visit down up t d;
      if ret \<noteq> 0 then Some (ret, d) else after s down up (root t) d }"
    and group: "children s g = map root (pre @ ts)" "distinct (map root (pre @ ts))"
      "\<forall>t \<in> set (pre @ ts). parent_of s (root t) = Some g"
  shows "walk s down up (Loop g (first_child (map root ts))) d = do {
    (ret, d) \<leftarrow> visit_all down up ts d;
    if ret \<noteq> 0 then Some (ret, d) else walk s down up (Loop g None) d }"
  using assms
proof (induction ts arbitrary: pre d)
  case (Cons t ts)
  have "next_sibling (root t) (children s g) = first_child (map root ts)"
    using Cons.prems(2,3) by (simp add: next_sibling_append)
  then have "after s down up (root t) e = walk s down up (Loop g (first_child (map root ts))) e" for e
    using Cons.prems(4) by (simp add: after_def)
  moreover have "walk s down up (Loop g (first_child (map root ts))) e = do {
      (ret, d) \<leftarrow> visit_all down up ts e;
      if ret \<noteq> 0 then Some (ret, d) else walk s down up (Loop g None) d }" for e
    using Cons.prems by (intro Cons.IH [of "pre @ [t]"]) auto
  ultimately show ?case
    using Cons.prems(1) [of t d] by (auto simp: walk_Loop_Some intro!: Option.bind_cong)
qed simp

lemma walk_visits:
  "represents s par t \<Longrightarrow> distinct (nodes t) \<Longrightarrow>
   walk s down up (Down (root t)) d = do {
     (ret, d) \<leftarrow> visit down up t d;
     if ret \<noteq> 0 then Some (ret, d) else after s down up (root t) d }"
proof (induction t arbitrary: par d)
  case (Node g ts)
  then have d: "distinct (concat (map nodes ts))" by simp
  have sub: "walk s down up (Down (root t)) e = do {
      (ret, d) \<leftarrow> visit down up t e;
      if ret \<noteq> 0 then Some (ret, d) else after s down up (root t) d }" if "t \<in> set ts" for t e
    using Node that d by (intro Node.IH [of t "Some g"]) (auto simp: distinct_concat_iff)
  have parents: "\<forall>t \<in> set ts. parent_of s (root t) = Some g"
  proof
    fix t assume "t \<in> set ts"
    with Node.prems(1) have "represents s (Some g) t" by simp
    then show "parent_of s (root t) = Some g" by (cases t) simp
  qed
  have loop: "walk s down up (Loop g (first_child (map root ts))) e = do {
      (ret, d) \<leftarrow> visit_all down up ts e;
      if ret \<noteq> 0 then Some (ret, d) else walk s down up (Loop g None) d }" for e
    using walk_visits_all [of "[]" ts s down up g e] sub parents Node.prems(1) distinct_roots [OF d]
    by simp
  show ?case
    using Node.prems(1)
    by (auto simp: walk_Down loop walk_Loop_None intro!: Option.bind_cong)
qed

lemma walk_visits_tree:
  assumes "tree_of s t"
  shows "walk_tg_tree s down up d = visit down up t d"
proof -
  have r: "represents s None t" "distinct (nodes t)" "root t = root_group s"
    using assms by (simp_all add: tree_of_def)
  have "parent_of s (root t) = None" using r(1) by (cases t) simp
  then have "after s down up (root t) e = Some (0, e)" for e by (simp add: after_def)
  with walk_visits [OF r(1,2), of down up d] show ?thesis
    by (simp add: walk_tg_tree_def r(3) [symmetric]) (auto split: Option.bind_split)
qed

text \<open>
  C28 (walk_visits_the_tree): on every finite tree of groups, \<open>walk_tg_tree\<close> ends unless a visitor
  faults, and its jumps compute the recursive traversal: \<open>down\<close> for a group, the traversal of each
  child in order, then \<open>up\<close>, stopping with the first result that is not 0.
\<close>

theorem walk_visits_the_tree:
  assumes "tree_of s t"
  shows "walk_tg_tree s down up d = visit down up t d"
  by (rule walk_visits_tree [OF assms])

text \<open>A root with two groups, the first of which has a group of its own.\<close>

definition sample_groups :: "unit groups" where
  "sample_groups = \<lparr>root_group = 0, bw = (\<lambda>g. if g = 0 then \<lparr>rt_period = 1000000000, rt_runtime = 950000000\<rparr>
       else \<lparr>rt_period = 1000000000, rt_runtime = 0\<rparr>), shares = (\<lambda>_. 1024),
     children = (\<lambda>g. if g = 0 then [1, 2] else if g = 1 then [3] else []),
     parent_of = (\<lambda>g. if g = 0 then None else if g = 3 then Some 1 else Some 0),
     cpu_runtime = (\<lambda>g i. if g = 0 then 950000000 else 0), possible_cpus = [0, 1], rt_threads = [0],
     sched_rt_period_us = 1000000, sched_rt_runtime_us = 950000,
     def_bw = \<lparr>rt_period = 1000000000, rt_runtime = 950000000\<rparr>, fair = ()\<rparr>"

definition sample_tree :: gtree where
  "sample_tree = Node 0 [Node 1 [Node 3 []], Node 2 []]"

lemma sample_tree_of: "tree_of sample_groups sample_tree"
  by (simp add: tree_of_def sample_groups_def sample_tree_def)

theorem walk_visits_the_tree_witness:
  "walk_tg_tree sample_groups (\<lambda>g d. Some (0, d @ [g])) (\<lambda>g d. Some (0, d @ [g + 10])) []
    = Some (0, [0, 1, 3, 13, 11, 2, 12, 10])"
  by (simp add: walk_visits_the_tree [OF sample_tree_of]) (simp add: sample_tree_def)

section \<open>Schedulable trees\<close>

definition ratio :: "bandwidth \<Rightarrow> ul" where
  "ratio b = (if rt_runtime b = RUNTIME_INF then push_bit 20 1
     else ucast (push_bit 20 (rt_runtime b) div rt_period b))"

definition global_ratio :: "'f groups \<Rightarrow> ul" where
  "global_ratio s = ratio \<lparr>rt_period = global_rt_period s, rt_runtime = global_rt_runtime s\<rparr>"

definition bandwidth_ok :: "bandwidth \<Rightarrow> bool" where
  "bandwidth_ok b \<longleftrightarrow> rt_period b \<noteq> 0 \<and>
     (rt_runtime b = RUNTIME_INF \<or> rt_runtime b \<le> rt_period b \<and> unat (rt_runtime b) < 2 ^ 44)"

text \<open>The constraints at one group; the sum is that of the exact ratios, not the wrapped one.\<close>

definition group_ok :: "'f groups \<Rightarrow> (nat \<Rightarrow> bandwidth) \<Rightarrow> nat \<Rightarrow> bool" where
  "group_ok s B g \<longleftrightarrow> bandwidth_ok (B g) \<and>
     sum_list (map (\<lambda>c. unat (ratio (B c))) (children s g)) \<le> unat (ratio (B g))"

lemma to_ratio_Some:
  "to_ratio (rt_period b) (rt_runtime b) = Some x \<Longrightarrow> ratio b = x"
  by (auto simp: to_ratio_def ratio_def split: if_splits)

lemma to_ratio_ok: "rt_period b \<noteq> 0 \<Longrightarrow> to_ratio (rt_period b) (rt_runtime b) = Some (ratio b)"
  by (simp add: to_ratio_def ratio_def)

lemma sum_ratios_Some:
  "sum_ratios s dat cs = Some sm \<Longrightarrow> sm = sum_list (map (ratio \<circ> proposed s dat) cs)"
  by (induction cs arbitrary: sm) (auto dest!: to_ratio_Some split: Option.bind_splits)

lemma sum_ratios_ok:
  "\<forall>c \<in> set cs. rt_period (proposed s dat c) \<noteq> 0 \<Longrightarrow>
   sum_ratios s dat cs = Some (sum_list (map (ratio \<circ> proposed s dat) cs))"
  by (induction cs) (simp_all add: to_ratio_ok)

lemma tg_schedulable_0:
  assumes "tg_schedulable s dat g = Some 0"
  shows "rt_runtime (proposed s dat g) = RUNTIME_INF \<or> rt_runtime (proposed s dat g) \<le> rt_period (proposed s dat g)"
    and "ratio (proposed s dat g) \<le> global_ratio s"
    and "sum_list (map (ratio \<circ> proposed s dat) (children s g)) \<le> ratio (proposed s dat g)"
  using assms
  by (auto simp: tg_schedulable_def Let_def global_ratio_def not_less
      dest!: sum_ratios_Some to_ratio_Some [where b = "proposed s dat g"]
        to_ratio_Some [where b = "\<lparr>rt_period = global_rt_period s, rt_runtime = global_rt_runtime s\<rparr>", simplified]
      split: if_splits Option.bind_splits)

text \<open>A visitor without data: the walk returns 0 when it returns 0 for every group of the tree.\<close>

definition stateless :: "(nat \<Rightarrow> int option) \<Rightarrow> unit visitor" where
  "stateless f g d = map_option (\<lambda>ret. (ret, d)) (f g)"

lemma visit_stateless:
  "visit (stateless f) tg_nop t d = Some (0, e) \<longleftrightarrow> (\<forall>g \<in> set (nodes t). f g = Some 0)"
proof (induction t arbitrary: d e)
  case (Node g ts)
  have "visit_all (stateless f) tg_nop ts d = Some (0, e) \<longleftrightarrow>
      (\<forall>g \<in> set (concat (map nodes ts)). f g = Some 0)" for d e
    using Node
  proof (induction ts arbitrary: d e)
    case (Cons t ts)
    have t: "visit (stateless f) tg_nop t d = Some (0, e) \<longleftrightarrow> (\<forall>g \<in> set (nodes t). f g = Some 0)" for d e
      by (rule Cons.prems) simp
    have ts: "visit_all (stateless f) tg_nop ts d = Some (0, e) \<longleftrightarrow>
        (\<forall>g \<in> set (concat (map nodes ts)). f g = Some 0)" for d e
      using Cons.prems by (intro Cons.IH) simp
    show ?case
    proof (cases "visit (stateless f) tg_nop t d")
      case None
      with t [of d "()"] show ?thesis by auto
    next
      case (Some a)
      with t [of d "()"] ts [of "()" e] show ?thesis by (cases a) (auto simp: ball_Un)
    qed
  qed simp
  moreover have "stateless f g d = map_option (\<lambda>ret. (ret, d)) (f g)" "tg_nop g d = Some (0, d)" for d :: unit
    by (simp_all add: stateless_def tg_nop_def)
  ultimately show ?case
    by (auto split: Option.bind_splits if_splits)
qed

lemma rt_schedulable_0:
  assumes "tree_of s t"
  shows "rt_schedulable s tg period runtime = Some 0 \<longleftrightarrow>
    (\<forall>g \<in> set (nodes t). tg_schedulable s \<lparr>data_tg = tg, data_bw = \<lparr>rt_period = period, rt_runtime = runtime\<rparr>\<rparr> g = Some 0)"
proof -
  let ?f = "tg_schedulable s \<lparr>data_tg = tg, data_bw = \<lparr>rt_period = period, rt_runtime = runtime\<rparr>\<rparr>"
  have "rt_schedulable s tg period runtime = map_option fst (visit (stateless ?f) tg_nop t ())"
    using walk_visits [OF assms [unfolded tree_of_def, THEN conjunct1]]
    by (simp add: rt_schedulable_def stateless_def [abs_def] walk_visits_tree [OF assms])
  then show ?thesis using visit_stateless [of ?f t "()" "()"] by auto
qed

lemma visit_total:
  "\<forall>g \<in> set (nodes t). f g \<noteq> None \<Longrightarrow> visit (stateless f) tg_nop t d \<noteq> None"
proof (induction t arbitrary: d)
  case (Node g ts)
  then have "visit_all (stateless f) tg_nop ts d \<noteq> None" for d
  proof (induction ts arbitrary: d)
    case (Cons t ts)
    have "visit (stateless f) tg_nop t d \<noteq> None" using Cons.prems by auto
    moreover have "visit_all (stateless f) tg_nop ts d \<noteq> None" for d
      using Cons.prems by (intro Cons.IH) auto
    ultimately show ?case by (auto split: Option.bind_splits)
  qed simp
  moreover have "stateless f g d = map_option (\<lambda>ret. (ret, d)) (f g)" "tg_nop g d = Some (0, d)" for d :: unit
    by (simp_all add: stateless_def tg_nop_def)
  ultimately show ?case
    using Node.prems by (auto split: Option.bind_splits if_splits)
qed

lemma rt_schedulable_total:
  assumes "tree_of s t"
    and "\<forall>g \<in> set (nodes t). tg_schedulable s \<lparr>data_tg = tg, data_bw = \<lparr>rt_period = period, rt_runtime = runtime\<rparr>\<rparr> g \<noteq> None"
  shows "rt_schedulable s tg period runtime \<noteq> None"
  using visit_total [OF assms(2)]
  by (simp add: rt_schedulable_def stateless_def [abs_def] walk_visits_tree [OF assms(1)])

section \<open>Ratios\<close>

lemma ratio_exact:
  assumes "rt_runtime b \<noteq> RUNTIME_INF" "rt_runtime b \<le> rt_period b" "unat (rt_runtime b) < 2 ^ 44"
  shows "unat (ratio b) = unat (rt_runtime b) * 2 ^ 20 div unat (rt_period b)"
    and "unat (ratio b) \<le> 2 ^ 20"
proof -
  let ?q = "unat (rt_runtime b) * 2 ^ 20 div unat (rt_period b)"
  have "unat (push_bit 20 (rt_runtime b)) = unat (rt_runtime b) * 2 ^ 20"
    using assms(3) by (simp add: push_bit_eq_mult unat_word_ariths)
  then have q: "unat (push_bit 20 (rt_runtime b) div rt_period b) = ?q"
    by (simp add: unat_div_distrib)
  have "unat (rt_runtime b) \<le> unat (rt_period b)" using assms(2) by (simp add: word_le_nat_alt)
  then have "unat (rt_runtime b) * 2 ^ 20 \<le> unat (rt_period b) * 2 ^ 20" by simp
  then have "?q \<le> unat (rt_period b) * 2 ^ 20 div unat (rt_period b)" by (rule div_le_mono)
  also have "\<dots> \<le> 2 ^ 20" by simp
  finally have le: "?q \<le> 2 ^ 20" .
  then have "unat (ucast (push_bit 20 (rt_runtime b) div rt_period b) :: ul) = ?q"
    by (simp add: unsigned_ucast_eq q take_bit_nat_eq_self_iff)
  with assms(1) have r: "unat (ratio b) = ?q" by (simp add: ratio_def)
  show "unat (ratio b) = ?q" by (rule r)
  show "unat (ratio b) \<le> 2 ^ 20" using r le by simp
qed

lemma ratio_le: "bandwidth_ok b \<Longrightarrow> unat (ratio b) \<le> 2 ^ 20"
  using ratio_exact(2) [of b] by (auto simp: bandwidth_ok_def ratio_def)

lemma microseconds:
  assumes "0 \<le> sint us"
  shows "unat (scast (us :: ul) * NSEC_PER_USEC) = nat (sint us) * 1000"
    and "unat (scast us * NSEC_PER_USEC) < 2 ^ 44"
proof -
  have b: "sint us < 2 ^ 31" using sint_lt [of us] by simp
  have "uint (word_of_int (sint us) :: u64) = take_bit 64 (sint us)" by (subst uint_word_of_int_eq) simp
  also have "\<dots> = sint us" using assms b by (intro take_bit_int_eq_self) auto
  finally have "unat (scast us :: u64) = nat (sint us)" by (simp only: unat_eq_nat_uint scast_eq)
  with b show "unat (scast us * NSEC_PER_USEC) = nat (sint us) * 1000"
    by (simp add: NSEC_PER_USEC_def unat_word_ariths)
  with b show "unat (scast us * NSEC_PER_USEC) < 2 ^ 44" by simp
qed

definition global_bw :: "'f groups \<Rightarrow> bandwidth" where
  "global_bw s = \<lparr>rt_period = global_rt_period s, rt_runtime = global_rt_runtime s\<rparr>"

definition limits_ok :: "'f groups \<Rightarrow> bool" where
  "limits_ok s \<longleftrightarrow> sched_rt_period_us s \<noteq> 0 \<and>
     (global_rt_runtime s = RUNTIME_INF \<or> global_rt_runtime s \<le> global_rt_period s)"

lemma global_period_nonzero: "sched_rt_period_us s \<noteq> 0 \<Longrightarrow> global_rt_period s \<noteq> 0"
proof
  assume p: "sched_rt_period_us s \<noteq> 0" "global_rt_period s = 0"
  have "unat (sched_rt_period_us s) < 2 ^ 32" using unsigned_less [of "sched_rt_period_us s", where ?'a = nat] by simp
  moreover from this have "take_bit 64 (unat (sched_rt_period_us s)) = unat (sched_rt_period_us s)"
    by (intro take_bit_nat_eq_self) simp
  ultimately have "unat (global_rt_period s) = unat (sched_rt_period_us s) * 1000"
    by (simp add: global_rt_period_def NSEC_PER_USEC_def unat_word_ariths unsigned_ucast_eq)
  with p show False by (simp add: unat_eq_zero)
qed

lemma global_bw_ok: "limits_ok s \<Longrightarrow> bandwidth_ok (global_bw s)"
  using global_period_nonzero [of s] microseconds(2) [of "sched_rt_runtime_us s"]
  by (auto simp: limits_ok_def bandwidth_ok_def global_bw_def global_rt_runtime_def)

lemma global_ratio_le: "limits_ok s \<Longrightarrow> unat (global_ratio s) \<le> 2 ^ 20"
  using ratio_le [OF global_bw_ok] by (simp add: global_ratio_def global_bw_def)

lemma sum_ratio_unat:
  "\<forall>c \<in> set cs. unat (f c :: ul) \<le> 2 ^ 20 \<Longrightarrow> length cs < 4096 \<Longrightarrow>
   unat (sum_list (map f cs)) = sum_list (map (\<lambda>c. unat (f c)) cs) \<and>
   sum_list (map (\<lambda>c. unat (f c)) cs) \<le> length cs * 2 ^ 20"
  by (induction cs) (auto simp: unat_word_ariths)

end
