(* ===== verification/SchedGroupsInv.thy ===== *)
theory SchedGroupsInv
  imports SchedGroupsProps
begin

text \<open>
  The invariant of the task groups of opcional2/kernel/sched.c: whatever sequence of creations,
  destructions, changes of bandwidth and of the system-wide limits is accepted, the real-time
  bandwidth of the tree stays schedulable.
\<close>

section \<open>Changing the tree\<close>

primrec graft :: "nat \<Rightarrow> nat \<Rightarrow> gtree \<Rightarrow> gtree" where
  "graft p n (Node g ts) = Node g ((if g = p then [Node n []] else []) @ map (graft p n) ts)"

primrec prune :: "nat \<Rightarrow> gtree \<Rightarrow> gtree" where
  "prune n (Node g ts) = Node g (map snd (filter (\<lambda>(t, t'). root t \<noteq> n) (map (\<lambda>t. (t, prune n t)) ts)))"

lemma prune_Node: "prune n (Node g ts) = Node g (map (prune n) (filter (\<lambda>t. root t \<noteq> n) ts))"
  by (simp add: filter_map comp_def)

lemma root_graft [simp]: "root (graft p n t) = root t"
  by (cases t) simp

lemma root_prune [simp]: "root (prune n t) = root t"
  by (cases t) simp

lemma mset_graft:
  "mset (nodes (graft p n t)) = mset (nodes t) + replicate_mset (count (mset (nodes t)) p) n"
proof (induction t)
  case (Node g ts)
  have "mset (concat (map nodes (map (graft p n) ts)))
      = mset (concat (map nodes ts)) + replicate_mset (count (mset (concat (map nodes ts))) p) n"
    using Node by (induction ts) (auto simp: multiset_eq_iff)
  then show ?case by (auto simp: multiset_eq_iff)
qed

lemma graft_nodes:
  assumes "distinct (nodes t)" "p \<in> set (nodes t)" "n \<notin> set (nodes t)"
  shows "set (nodes (graft p n t)) = insert n (set (nodes t))" "distinct (nodes (graft p n t))"
proof -
  have "count (mset (nodes t)) p = 1" using assms by (simp add: distinct_count_atmost_1)
  then have m: "mset (nodes (graft p n t)) = mset (n # nodes t)" by (simp add: mset_graft)
  from mset_eq_setD [OF m] show "set (nodes (graft p n t)) = insert n (set (nodes t))" by simp
  from mset_eq_imp_distinct_iff [OF m] assms show "distinct (nodes (graft p n t))" by simp
qed

lemma mset_prune: "mset (nodes (prune n t)) \<subseteq># mset (nodes t)"
proof (induction t)
  case (Node g ts)
  have "mset (concat (map nodes (map (prune n) (filter (\<lambda>t. root t \<noteq> n) ts)))) \<subseteq># mset (concat (map nodes ts))"
    using Node by (induction ts) (auto intro: subset_mset.add_mono subset_mset.add_increasing)
  then show ?case by (simp add: prune_Node del: prune.simps)
qed

lemma prune_nodes:
  assumes "distinct (nodes t)"
  shows "set (nodes (prune n t)) \<subseteq> set (nodes t)" "distinct (nodes (prune n t))"
proof -
  show "set (nodes (prune n t)) \<subseteq> set (nodes t)"
    using set_mset_mono [OF mset_prune [of n t]] by simp
  obtain C where "mset (nodes t) = mset (nodes (prune n t)) + C"
    using mset_prune [of n t] by (auto simp: mset_subset_eq_exists_conv)
  moreover obtain cs where "C = mset cs" using ex_mset [of C] by metis
  ultimately have "mset (nodes t) = mset (nodes (prune n t) @ cs)" by simp
  from mset_eq_imp_distinct_iff [OF this] assms show "distinct (nodes (prune n t))" by simp
qed

lemma represents_graft:
  assumes "represents s par t" "n \<notin> set (nodes t)"
    and "parent_of s' = (parent_of s)(n := Some p)"
    and "children s' = ((children s)(n := []))(p := n # children s p)"
  shows "represents s' par (graft p n t)"
  using assms(1,2)
proof (induction t arbitrary: par)
  case (Node g ts)
  then have "\<forall>t \<in> set ts. represents s' (Some g) (graft p n t)" by auto
  moreover have "map root (map (graft p n) ts) = map root ts" by simp
  ultimately show ?case using Node.prems assms(3,4) by (auto simp: comp_def)
qed

lemma remove1_filter: "distinct xs \<Longrightarrow> remove1 x xs = filter (\<lambda>y. y \<noteq> x) xs"
  by (simp add: distinct_remove1_removeAll removeAll_filter_not_eq eq_commute)

lemma represents_parent: "represents s par t \<Longrightarrow> parent_of s (root t) = par"
  by (cases t) simp

lemma represents_prune:
  assumes "represents s par t" "distinct (nodes t)" "parent_of s n = Some q"
    and "parent_of s' = parent_of s" "children s' = (children s)(q := remove1 n (children s q))"
  shows "represents s' par (prune n t)"
  using assms(1,2)
proof (induction t arbitrary: par)
  case (Node g ts)
  have d: "distinct (concat (map nodes ts))" using Node.prems(2) by simp
  have sub: "represents s' (Some g) (prune n t)" if "t \<in> set ts" for t
    using Node that d by (intro Node.IH) (auto simp: distinct_concat_iff)
  have "children s' g = map root (filter (\<lambda>t. root t \<noteq> n) ts)"
  proof (cases "g = q")
    case True
    then show ?thesis
      using Node.prems(1) assms(5) distinct_roots [OF d] by (simp add: remove1_filter filter_map comp_def)
  next
    case False
    have "root t \<noteq> n" if "t \<in> set ts" for t
      using represents_parent [of s "Some g" t] that Node.prems(1) assms(3) False by auto
    then have "filter (\<lambda>t. root t \<noteq> n) ts = ts" by (simp add: filter_id_conv)
    with False Node.prems(1) assms(5) show ?thesis by simp
  qed
  with sub Node.prems(1) assms(4) show ?case
    by (simp add: prune_Node comp_def del: prune.simps)
qed

lemma children_in_nodes:
  "represents s par t \<Longrightarrow> g \<in> set (nodes t) \<Longrightarrow> set (children s g) \<subseteq> set (nodes t)"
proof (induction t arbitrary: par)
  case (Node h ts)
  show ?case
  proof (cases "g = h")
    case True
    with Node.prems map_root_nodes [of ts] show ?thesis by auto
  next
    case False
    with Node.prems obtain t where t: "t \<in> set ts" "g \<in> set (nodes t)" by auto
    with Node.IH [OF t(1)] Node.prems(1) show ?thesis by fastforce
  qed
qed

section \<open>The invariant\<close>

text \<open>
  What holds whatever the system-wide limits are; \<open>limited\<close> is the part about the limits.
\<close>

definition groups_ok :: "'f groups \<Rightarrow> gtree \<Rightarrow> bool" where
  "groups_ok s t \<longleftrightarrow> tree_of s t \<and> rt_period (def_bw s) \<noteq> 0 \<and>
     (\<forall>g \<in> set (nodes t). group_ok s (bw s) g \<and> length (children s g) < 4096)"

definition limited :: "bool \<Rightarrow> 'f groups \<Rightarrow> gtree \<Rightarrow> bool" where
  "limited alone s t \<longleftrightarrow> limits_ok s \<and> (alone \<longrightarrow> (\<forall>g \<in> set (nodes t). ratio (bw s g) \<le> global_ratio s))"

definition request_ok :: "rt_request \<Rightarrow> bool" where
  "request_ok q \<longleftrightarrow> (case q of (g, period, runtime) \<Rightarrow> period \<noteq> 0 \<and> (runtime = RUNTIME_INF \<or> unat runtime < 2 ^ 44))"

text \<open>A test that succeeds at every group gives the constraints in exact sums.\<close>

lemma schedulable_groups_ok:
  assumes "tree_of s t" "\<forall>g \<in> set (nodes t). length (children s g) < 4096"
    and "\<forall>g \<in> set (nodes t). tg_schedulable s dat g = Some 0"
    and "\<forall>g \<in> set (nodes t). rt_period (proposed s dat g) \<noteq> 0 \<and>
      (rt_runtime (proposed s dat g) = RUNTIME_INF \<or> unat (rt_runtime (proposed s dat g)) < 2 ^ 44)"
  shows "\<forall>g \<in> set (nodes t). group_ok s (proposed s dat) g"
proof
  fix g assume g: "g \<in> set (nodes t)"
  have own: "bandwidth_ok (proposed s dat c)" if "c \<in> set (nodes t)" for c
    using tg_schedulable_0(1) [of s dat c] assms(3,4) that by (auto simp: bandwidth_ok_def)
  have "set (children s g) \<subseteq> set (nodes t)"
    using children_in_nodes [of s None t g] assms(1) g by (simp add: tree_of_def)
  then have "unat (sum_list (map (\<lambda>c. ratio (proposed s dat c)) (children s g)))
      = sum_list (map (\<lambda>c. unat (ratio (proposed s dat c))) (children s g))"
    using sum_ratio_unat [of "children s g" "\<lambda>c. ratio (proposed s dat c)"] ratio_le [OF own] assms(2) g by blast
  moreover have "sum_list (map (\<lambda>c. ratio (proposed s dat c)) (children s g)) \<le> ratio (proposed s dat g)"
    using tg_schedulable_0(3) [of s dat g] assms(3) g by (simp add: comp_def)
  ultimately show "group_ok s (proposed s dat) g"
    using own [OF g] by (simp add: group_ok_def word_le_nat_alt)
qed

lemma tree_of_cong:
  assumes "tree_of s t" "parent_of s' = parent_of s" "children s' = children s" "root_group s' = root_group s"
  shows "tree_of s' t"
proof -
  have "represents s par t \<Longrightarrow> represents s' par t" for par
    by (induction t arbitrary: par) (auto simp: assms(2,3))
  then show ?thesis using assms(1,4) by (simp add: tree_of_def)
qed

lemma group_ok_cong:
  "children s' g = children s g \<Longrightarrow> B' g = B g \<Longrightarrow> (\<And>c. c \<in> set (children s g) \<Longrightarrow> B' c = B c) \<Longrightarrow>
   group_ok s' B' g = group_ok s B g"
  by (simp add: group_ok_def cong: map_cong)

lemma limits_cong:
  assumes "sched_rt_period_us s' = sched_rt_period_us s" "sched_rt_runtime_us s' = sched_rt_runtime_us s"
  shows "limits_ok s' = limits_ok s" "global_ratio s' = global_ratio s"
  using assms by (simp_all add: limits_ok_def global_ratio_def global_rt_period_def global_rt_runtime_def)

lemma groups_ok_bw:
  assumes "groups_ok s t" "g \<in> set (nodes t)"
  shows "rt_period (bw s g) \<noteq> 0" "rt_runtime (bw s g) = RUNTIME_INF \<or> unat (rt_runtime (bw s g)) < 2 ^ 44"
  using assms unfolding groups_ok_def group_ok_def bandwidth_ok_def by blast+

lemma groups_ok_cong:
  assumes "groups_ok s t" "bw s' = bw s" "children s' = children s" "parent_of s' = parent_of s"
    "root_group s' = root_group s" "rt_period (def_bw s') \<noteq> 0"
  shows "groups_ok s' t"
proof -
  have "group_ok s' (bw s') g = group_ok s (bw s) g" for g
    by (rule group_ok_cong) (simp_all add: assms(2,3))
  moreover have "tree_of s' t" using assms(1,3-5) tree_of_cong by (metis groups_ok_def)
  ultimately show ?thesis using assms(1,6) by (simp add: groups_ok_def assms(3))
qed

lemma limited_cong:
  assumes "limited alone s t" "bw s' = bw s" "sched_rt_period_us s' = sched_rt_period_us s"
    "sched_rt_runtime_us s' = sched_rt_runtime_us s"
  shows "limited alone s' t"
  using assms(1) by (simp add: limited_def assms(2) limits_cong [OF assms(3,4)])

section \<open>The operations\<close>

lemma set_bandwidth_ok:
  assumes "groups_ok s t" "request_ok (g, period, runtime)" "tg_set_bandwidth g period runtime s = Some (s', r)"
  shows "groups_ok s' t" "limits_ok s' = limits_ok s" "limited alone s t \<Longrightarrow> limited alone s' t"
    "sched_rt_period_us s' = sched_rt_period_us s" "sched_rt_runtime_us s' = sched_rt_runtime_us s"
proof -
  define dat where "dat = \<lparr>data_tg = Some g, data_bw = \<lparr>rt_period = period, rt_runtime = runtime\<rparr>\<rparr>"
  obtain err where err: "rt_schedulable s (Some g) period runtime = Some err"
    using assms(3) by (auto simp: tg_set_bandwidth_def split: Option.bind_splits)
  have "groups_ok s' t \<and> limits_ok s' = limits_ok s \<and> (limited alone s t \<longrightarrow> limited alone s' t) \<and>
    sched_rt_period_us s' = sched_rt_period_us s \<and> sched_rt_runtime_us s' = sched_rt_runtime_us s"
  proof (cases "err = 0")
    case True
    have new_bw: "proposed s dat = (bw s)(g := \<lparr>rt_period = period, rt_runtime = runtime\<rparr>)"
      by (auto simp: proposed_def dat_def)
    have s': "bw s' = proposed s dat" "children s' = children s" "parent_of s' = parent_of s"
      "root_group s' = root_group s" "def_bw s' = def_bw s" "sched_rt_period_us s' = sched_rt_period_us s"
      "sched_rt_runtime_us s' = sched_rt_runtime_us s"
      using assms(3) err True unfolding new_bw by (auto simp: tg_set_bandwidth_def)
    have all: "\<forall>g \<in> set (nodes t). tg_schedulable s dat g = Some 0"
      using rt_schedulable_0 [of s t "Some g" period runtime] err True assms(1)
      by (simp add: groups_ok_def dat_def)
    have ok: "\<forall>g \<in> set (nodes t). group_ok s (proposed s dat) g"
    proof (rule schedulable_groups_ok [OF _ _ all])
      show "\<forall>g \<in> set (nodes t). rt_period (proposed s dat g) \<noteq> 0 \<and>
          (rt_runtime (proposed s dat g) = RUNTIME_INF \<or> unat (rt_runtime (proposed s dat g)) < 2 ^ 44)"
        using groups_ok_bw [OF assms(1)] assms(2) by (simp add: new_bw request_ok_def)
    qed (use assms(1) in \<open>simp_all add: groups_ok_def\<close>)
    have "group_ok s' (bw s') h = group_ok s (proposed s dat) h" for h
      by (rule group_ok_cong) (simp_all add: s'(1,2))
    moreover have "tree_of s' t" using assms(1) s'(2-4) tree_of_cong by (metis groups_ok_def)
    moreover have "rt_period (def_bw s') \<noteq> 0" "\<forall>h \<in> set (nodes t). length (children s' h) < 4096"
      using assms(1) by (simp_all add: groups_ok_def s'(2,5))
    ultimately have "groups_ok s' t" using ok unfolding groups_ok_def by blast
    moreover have "\<forall>h \<in> set (nodes t). ratio (bw s' h) \<le> global_ratio s'"
      using tg_schedulable_0(2) [of s dat] all by (simp add: s'(1) limits_cong [OF s'(6,7)])
    ultimately show ?thesis using s'(6,7) by (simp add: limited_def limits_cong [OF s'(6,7)])
  next
    case False
    with assms(3) err have "s' = s" by (simp add: tg_set_bandwidth_def)
    with assms(1) show ?thesis by simp
  qed
  then show "groups_ok s' t" "limits_ok s' = limits_ok s" "limited alone s t \<Longrightarrow> limited alone s' t"
    "sched_rt_period_us s' = sched_rt_period_us s" "sched_rt_runtime_us s' = sched_rt_runtime_us s" by blast+
qed

lemma runtime_request_ok:
  "groups_ok s t \<Longrightarrow> g \<in> set (nodes t) \<Longrightarrow> request_ok (rt_runtime_request g us s)"
  using groups_ok_bw(1) [of s t g] microseconds(2) [of us] by (simp add: rt_runtime_request_def request_ok_def Let_def)

lemma period_request_ok:
  "groups_ok s t \<Longrightarrow> g \<in> set (nodes t) \<Longrightarrow> rt_period_request g us s = Some q \<Longrightarrow> request_ok q"
  using groups_ok_bw(2) [of s t g] by (auto simp: rt_period_request_def request_ok_def Let_def split: if_splits)

definition restored :: "u32 \<Rightarrow> s32 \<Rightarrow> 'f groups \<Rightarrow> 'f groups" where
  "restored p r s = s\<lparr>sched_rt_period_us := p, sched_rt_runtime_us := r\<rparr>"

lemma restored_sel [simp]:
  "bw (restored p r s) = bw s" "children (restored p r s) = children s" "parent_of (restored p r s) = parent_of s"
  "root_group (restored p r s) = root_group s" "def_bw (restored p r s) = def_bw s"
  "sched_rt_period_us (restored p r s) = p" "sched_rt_runtime_us (restored p r s) = r"
  by (simp_all add: restored_def)

text \<open>Values that \<open>sched_rt_global_constraints\<close> accepts are limits the groups keep.\<close>

lemma constraints_limited:
  assumes "tree_of s t" "sched_rt_global_constraints s = Some 0"
  shows "limited alone s t"
proof -
  define dat where "dat = \<lparr>data_tg = None, data_bw = \<lparr>rt_period = 0, rt_runtime = 0\<rparr>\<rparr>"
  have lim: "limits_ok s" and sch: "rt_schedulable s None 0 0 = Some 0"
    using assms(2) by (auto simp: sched_rt_global_constraints_def limits_ok_def Let_def not_less split: if_splits)
  have "proposed s dat = bw s" by (auto simp: proposed_def dat_def)
  moreover have "\<forall>g \<in> set (nodes t). tg_schedulable s dat g = Some 0"
    using rt_schedulable_0 [OF assms(1), of None 0 0] sch by (simp add: dat_def)
  ultimately show ?thesis using tg_schedulable_0(2) [of s dat] lim by (simp add: limited_def)
qed

lemma create_ok:
  assumes "groups_ok s t" "p \<in> set (nodes t)" "n \<notin> set (nodes t)" "length (children s p) < 4095"
    and "sched_create_group (Some n) fg rg load p s = (s', Inr m)"
  shows "groups_ok s' (graft p n t)" "limited alone (restored a b s) t \<Longrightarrow> limited alone (restored a b s') (graft p n t)"
    "limited alone s t \<Longrightarrow> limited alone s' (graft p n t)"
    "sched_rt_period_us s' = sched_rt_period_us s" "sched_rt_runtime_us s' = sched_rt_runtime_us s"
proof -
  have "p \<noteq> n" using assms(2,3) by blast
  then have s': "parent_of s' = (parent_of s)(n := Some p)"
    "children s' = ((children s)(n := []))(p := n # children s p)"
    "bw s' = (bw s)(n := \<lparr>rt_period = rt_period (def_bw s), rt_runtime = 0\<rparr>)"
    "def_bw s' = def_bw s" "root_group s' = root_group s"
    "sched_rt_period_us s' = sched_rt_period_us s" "sched_rt_runtime_us s' = sched_rt_runtime_us s"
    using assms(5)
    by (auto simp: sched_create_group_def alloc_rt_sched_group_def init_rt_bandwidth_def Let_def split: if_splits)
  note ok = assms(1) [unfolded groups_ok_def]
  have t: "represents s None t" "distinct (nodes t)" "root t = root_group s"
    using ok by (simp_all add: tree_of_def)
  have tree: "tree_of s' (graft p n t)"
    using represents_graft [OF t(1) assms(3) s'(1,2)] graft_nodes [OF t(2) assms(2,3)] t(3)
    by (simp add: tree_of_def s'(5))
  have inf: "RUNTIME_INF \<noteq> 0" by (simp add: RUNTIME_INF_def)
  have r0: "ratio (bw s' n) = 0" using inf by (simp add: s' ratio_def)
  have grp: "group_ok s' (bw s') g \<and> length (children s' g) < 4096" if g: "g \<in> set (nodes t)" for g
  proof -
    have "set (children s g) \<subseteq> set (nodes t)" by (rule children_in_nodes [OF t(1) g])
    with assms(3) have same: "bw s' c = bw s c" if "c \<in> set (children s g)" for c
      using that by (auto simp: s')
    have gn: "g \<noteq> n" using g assms(3) by blast
    then have "(\<Sum>c\<leftarrow>children s' g. unat (ratio (bw s' c))) = (\<Sum>c\<leftarrow>children s g. unat (ratio (bw s c)))"
      using same r0 by (auto simp: s'(2) cong: map_cong)
    with gn ok g assms(4) show ?thesis by (simp add: group_ok_def s'(2,3))
  qed
  have "bandwidth_ok (bw s' n)" using ok by (simp add: bandwidth_ok_def s')
  then have "group_ok s' (bw s') n \<and> length (children s' n) < 4096"
    using r0 \<open>p \<noteq> n\<close> by (simp add: group_ok_def s'(2))
  with grp tree ok show "groups_ok s' (graft p n t)"
    by (simp add: groups_ok_def graft_nodes(1) [OF t(2) assms(2,3)] s'(4))
  have old: "bw s' g = bw s g" if "g \<in> set (nodes t)" for g using that assms(3) by (auto simp: s'(3))
  have lim: "limited alone z' (graft p n t)" if "limited alone z t" "bw z = bw s" "bw z' = bw s'"
    "sched_rt_period_us z' = sched_rt_period_us z" "sched_rt_runtime_us z' = sched_rt_runtime_us z" for z z'
    using that(1) old r0
    by (auto simp: limited_def that(2,3) limits_cong [OF that(4,5)] graft_nodes(1) [OF t(2) assms(2,3)])
  show "limited alone (restored a b s) t \<Longrightarrow> limited alone (restored a b s') (graft p n t)"
    by (rule lim [of "restored a b s"]) simp_all
  show "limited alone s t \<Longrightarrow> limited alone s' (graft p n t)" by (rule lim [of s]) (simp_all add: s'(6,7))
  show "sched_rt_period_us s' = sched_rt_period_us s" "sched_rt_runtime_us s' = sched_rt_runtime_us s" by (rule s'(6), rule s'(7))
qed

lemma sum_remove1_le: "sum_list (map f (remove1 x xs)) \<le> sum_list (map f xs :: nat list)"
  by (induction xs) auto

lemma destroy_ok:
  assumes "groups_ok s t" "parent_of s g = Some q"
  shows "groups_ok (sched_destroy_group g s) (prune g t)"
    "limited alone s t \<Longrightarrow> limited alone (sched_destroy_group g s) (prune g t)"
    "limited alone (restored a b s) t \<Longrightarrow> limited alone (restored a b (sched_destroy_group g s)) (prune g t)"
    "sched_rt_period_us (sched_destroy_group g s) = sched_rt_period_us s"
    "sched_rt_runtime_us (sched_destroy_group g s) = sched_rt_runtime_us s"
proof -
  define s' where "s' = sched_destroy_group g s"
  have s': "parent_of s' = parent_of s" "children s' = (children s)(q := remove1 g (children s q))"
    "bw s' = bw s" "def_bw s' = def_bw s" "root_group s' = root_group s"
    "sched_rt_period_us s' = sched_rt_period_us s" "sched_rt_runtime_us s' = sched_rt_runtime_us s"
    using assms(2) by (simp_all add: s'_def sched_destroy_group_def)
  note ok = assms(1) [unfolded groups_ok_def]
  have t: "represents s None t" "distinct (nodes t)" "root t = root_group s"
    using ok by (simp_all add: tree_of_def)
  note sub = prune_nodes(1) [OF t(2), of g]
  have tree: "tree_of s' (prune g t)"
    using represents_prune [OF t(1,2) assms(2) s'(1,2)] prune_nodes [OF t(2)] t(3) by (simp add: tree_of_def s'(5))
  have "group_ok s' (bw s') h \<and> length (children s' h) < 4096" if h: "h \<in> set (nodes t)" for h
  proof -
    have "(\<Sum>c\<leftarrow>children s' h. unat (ratio (bw s' c))) \<le> (\<Sum>c\<leftarrow>children s h. unat (ratio (bw s c)))"
      by (simp add: s'(2,3) sum_remove1_le)
    moreover have "length (children s' h) \<le> length (children s h)" by (simp add: s'(2) length_remove1)
    ultimately show ?thesis
      using ok h by (auto simp: group_ok_def s'(3) intro: order_trans)
  qed
  with sub tree ok have "groups_ok s' (prune g t)" by (auto simp: groups_ok_def s'(4))
  then show "groups_ok (sched_destroy_group g s) (prune g t)" by (simp only: s'_def)
  have lim: "limited alone z' (prune g t)" if "limited alone z t" "bw z' = bw z"
    "sched_rt_period_us z' = sched_rt_period_us z" "sched_rt_runtime_us z' = sched_rt_runtime_us z" for z z' :: "'a groups"
    using that(1) sub by (auto simp: limited_def that(2) limits_cong [OF that(3,4)])
  show "limited alone s t \<Longrightarrow> limited alone (sched_destroy_group g s) (prune g t)"
    unfolding s'_def [symmetric] by (rule lim [of s]) (simp_all add: s'(3,6,7))
  show "limited alone (restored a b s) t \<Longrightarrow> limited alone (restored a b (sched_destroy_group g s)) (prune g t)"
    unfolding s'_def [symmetric] by (rule lim [of "restored a b s"]) (simp_all add: s'(3))
  show "sched_rt_period_us (sched_destroy_group g s) = sched_rt_period_us s"
    "sched_rt_runtime_us (sched_destroy_group g s) = sched_rt_runtime_us s"
    unfolding s'_def [symmetric] by (rule s'(6), rule s'(7))
qed

lemma foldl_fair: "\<exists>e. foldl (\<lambda>s i. s\<lparr>fair := f i s\<rparr>) s xs = s\<lparr>fair := e\<rparr>"
proof (induction xs arbitrary: s)
  case Nil
  show ?case by (intro exI [of _ "fair s"]) simp
next
  case (Cons x xs)
  from Cons [of "s\<lparr>fair := f x s\<rparr>"] show ?case by auto
qed

lemma set_shares_fields [simp]:
  fixes s :: "'f groups" and pr :: "nat \<Rightarrow> nat \<Rightarrow> 'f groups \<Rightarrow> 'f" and g :: nat and sh :: ul
  defines "s' \<equiv> fst (sched_group_set_shares pr g sh s)"
  shows "bw s' = bw s" "children s' = children s" "parent_of s' = parent_of s" "root_group s' = root_group s"
    "def_bw s' = def_bw s" "sched_rt_period_us s' = sched_rt_period_us s" "sched_rt_runtime_us s' = sched_rt_runtime_us s"
proof -
  define h where "h = (if sh < MIN_SHARES then MIN_SHARES else if MAX_SHARES < sh then MAX_SHARES else sh)"
  obtain e where "foldl (\<lambda>s i. s\<lparr>fair := pr g i s\<rparr>) (s\<lparr>shares := (shares s)(g := h)\<rparr>) (possible_cpus s)
      = s\<lparr>shares := (shares s)(g := h), fair := e\<rparr>"
    using foldl_fair [of "pr g" "s\<lparr>shares := (shares s)(g := h)\<rparr>" "possible_cpus s"] by auto
  then have "s' = (if g = root_group s \<or> shares s g = h then s else s\<lparr>shares := (shares s)(g := h), fair := e\<rparr>)"
    unfolding s'_def sched_group_set_shares_def Let_def h_def [symmetric] by simp
  then show "bw s' = bw s" "children s' = children s" "parent_of s' = parent_of s" "root_group s' = root_group s"
    "def_bw s' = def_bw s" "sched_rt_period_us s' = sched_rt_period_us s" "sched_rt_runtime_us s' = sched_rt_runtime_us s"
    by simp_all
qed

section \<open>Every history of the groups\<close>

text \<open>
  The system: the groups, how far \<open>sched_rt_handler\<close> is (its own mutex lets one run at a time; it keeps the
  old values and the result of the check), and the requests of the bandwidth calls that have not
  called \<open>tg_set_bandwidth\<close> yet.
\<close>

datatype rt_handler = Resting | Stored u32 s32 | Checked u32 s32 int

record 'f rt_system =
  tgs :: "'f groups"
  rt_handler :: rt_handler
  requests :: "rt_request list"

text \<open>
  The tree is followed along.  The control file that destroys a group refuses one that has children;
  \<open>proc_dointvec\<close> writes its variable only when it is asked to write and succeeds.  A group takes
  at most 4095 children: with more, the 32-bit sum of their ratios can wrap (\<open>wrapped_sum_is_accepted\<close>).
  The walk over the groups is one step, under \<open>rt_constraints_mutex\<close>.
  \<open>alone\<close>: no call sets the bandwidth of a group while the handler is between its store and its last step.
\<close>

inductive groups_reachable :: "bool \<Rightarrow> 'f rt_system \<Rightarrow> gtree \<Rightarrow> bool" for alone where
  boot: "limits_ok s \<Longrightarrow> children s (root_group s) = [] \<Longrightarrow> parent_of s (root_group s) = None \<Longrightarrow>
    bw s (root_group s) = init_rt_bandwidth (global_rt_period s) (global_rt_runtime s) \<Longrightarrow>
    def_bw s = init_rt_bandwidth (global_rt_period s) (global_rt_runtime s) \<Longrightarrow>
    groups_reachable alone \<lparr>tgs = s, rt_handler = Resting, requests = []\<rparr> (Node (root_group s) [])"
| ask_runtime: "groups_reachable alone S t \<Longrightarrow> g \<in> set (nodes t) \<Longrightarrow> q = rt_runtime_request g us (tgs S) \<Longrightarrow>
    groups_reachable alone (S\<lparr>requests := q # requests S\<rparr>) t"
| ask_period: "groups_reachable alone S t \<Longrightarrow> g \<in> set (nodes t) \<Longrightarrow> rt_period_request g us (tgs S) = Some q \<Longrightarrow>
    groups_reachable alone (S\<lparr>requests := q # requests S\<rparr>) t"
| set_bandwidth: "groups_reachable alone S t \<Longrightarrow> (g, period, runtime) \<in> set (requests S) \<Longrightarrow>
    (alone \<Longrightarrow> rt_handler S = Resting) \<Longrightarrow> tg_set_bandwidth g period runtime (tgs S) = Some (s', r) \<Longrightarrow>
    groups_reachable alone (S\<lparr>tgs := s', requests := remove1 (g, period, runtime) (requests S)\<rparr>) t"
| store_limits: "groups_reachable alone S t \<Longrightarrow> rt_handler S = Resting \<Longrightarrow>
    groups_reachable alone (S\<lparr>tgs := sched_rt_handler_begin p r (tgs S),
      rt_handler := Stored (sched_rt_period_us (tgs S)) (sched_rt_runtime_us (tgs S))\<rparr>) t"
| check_limits: "groups_reachable alone S t \<Longrightarrow> rt_handler S = Stored a b \<Longrightarrow>
    sched_rt_global_constraints (tgs S) = Some e \<Longrightarrow> groups_reachable alone (S\<lparr>rt_handler := Checked a b e\<rparr>) t"
| finish_limits: "groups_reachable alone S t \<Longrightarrow> rt_handler S = Checked a b e \<Longrightarrow>
    groups_reachable alone (S\<lparr>tgs := sched_rt_handler_finish a b e (tgs S), rt_handler := Resting\<rparr>) t"
| create: "groups_reachable alone S t \<Longrightarrow> p \<in> set (nodes t) \<Longrightarrow> n \<notin> set (nodes t) \<Longrightarrow>
    length (children (tgs S) p) < 4095 \<Longrightarrow> sched_create_group (Some n) fg rg load p (tgs S) = (s', Inr m) \<Longrightarrow>
    groups_reachable alone (S\<lparr>tgs := s'\<rparr>) (graft p n t)"
| destroy: "groups_reachable alone S t \<Longrightarrow> g \<in> set (nodes t) \<Longrightarrow> children (tgs S) g = [] \<Longrightarrow>
    parent_of (tgs S) g = Some q \<Longrightarrow> groups_reachable alone (S\<lparr>tgs := sched_destroy_group g (tgs S)\<rparr>) (prune g t)"
| tasks_move: "groups_reachable alone S t \<Longrightarrow> groups_reachable alone (S\<lparr>tgs := (tgs S)\<lparr>rt_threads := xs\<rparr>\<rparr>) t"
| set_shares: "groups_reachable alone S t \<Longrightarrow>
    groups_reachable alone (S\<lparr>tgs := fst (sched_group_set_shares pr g sh (tgs S))\<rparr>) t"

definition handler_ok :: "bool \<Rightarrow> rt_handler \<Rightarrow> 'f groups \<Rightarrow> gtree \<Rightarrow> bool" where
  "handler_ok alone h s t \<longleftrightarrow>
     (case h of
        Resting \<Rightarrow> limited alone s t
      | Stored a b \<Rightarrow> limited alone (restored a b s) t
      | Checked a b e \<Rightarrow> limited alone (restored a b s) t \<and> (if e = 0 then limited alone s t else True))"

lemma handler_ok_step:
  assumes "handler_ok alone h s t" "limited alone s t \<Longrightarrow> limited alone s' t'"
    "\<And>a b. limited alone (restored a b s) t \<Longrightarrow> limited alone (restored a b s') t'"
  shows "handler_ok alone h s' t'"
  using assms by (auto simp: handler_ok_def split: rt_handler.splits if_splits)

definition rt_system_ok :: "bool \<Rightarrow> 'f rt_system \<Rightarrow> gtree \<Rightarrow> bool" where
  "rt_system_ok alone S t \<longleftrightarrow> groups_ok (tgs S) t \<and> handler_ok alone (rt_handler S) (tgs S) t \<and>
     (\<forall>q \<in> set (requests S). request_ok q)"

lemma boot_ok:
  assumes "limits_ok s" "children s (root_group s) = []" "parent_of s (root_group s) = None"
    "bw s (root_group s) = init_rt_bandwidth (global_rt_period s) (global_rt_runtime s)"
    "def_bw s = init_rt_bandwidth (global_rt_period s) (global_rt_runtime s)"
  shows "groups_ok s (Node (root_group s) [])" "limited alone s (Node (root_group s) [])"
  using assms global_bw_ok [OF assms(1)] global_period_nonzero [of s]
  by (simp_all add: groups_ok_def limited_def tree_of_def group_ok_def global_bw_def global_ratio_def
      init_rt_bandwidth_def limits_ok_def)

lemma set_bandwidth_handler_ok:
  assumes "groups_ok s t" "handler_ok alone h s t" "alone \<Longrightarrow> h = Resting" "request_ok (g, period, runtime)"
    "tg_set_bandwidth g period runtime s = Some (s', r)"
  shows "handler_ok alone h s' t"
proof (cases alone)
  case True
  then show ?thesis
    using assms(2,3) set_bandwidth_ok(3) [OF assms(1,4,5), of alone] by (simp add: handler_ok_def)
next
  case False
  have "limits_ok (restored a b s') = limits_ok (restored a b s)" for a b by (rule limits_cong) simp_all
  then show ?thesis
    using assms(2) set_bandwidth_ok(2) [OF assms(1,4,5)] False
    by (auto simp: handler_ok_def limited_def split: rt_handler.splits if_splits)
qed

lemma finish_limits_ok:
  assumes "groups_ok s t" "handler_ok alone (Checked a b e) s t"
  shows "groups_ok (sched_rt_handler_finish a b e s) t \<and> handler_ok alone Resting (sched_rt_handler_finish a b e s) t"
proof (cases "e = 0")
  case True
  let ?s = "sched_rt_handler_finish a b e s"
  have s': "bw ?s = bw s" "children ?s = children s" "parent_of ?s = parent_of s" "root_group ?s = root_group s"
      "sched_rt_period_us ?s = sched_rt_period_us s" "sched_rt_runtime_us ?s = sched_rt_runtime_us s"
      "rt_period (def_bw ?s) = global_rt_period s"
    using True by (simp_all add: sched_rt_handler_finish_def)
  have lim: "limited alone s t" using assms(2) True by (simp add: handler_ok_def)
  then have "global_rt_period s \<noteq> 0" using global_period_nonzero [of s] by (simp add: limited_def limits_ok_def)
  then have "groups_ok ?s t" using groups_ok_cong [OF assms(1) s'(1-4)] s'(7) by simp
  moreover have "limited alone ?s t" by (rule limited_cong [OF lim s'(1,5,6)])
  ultimately show ?thesis by (simp add: handler_ok_def)
next
  case False
  then have e: "sched_rt_handler_finish a b e s = restored a b s" by (simp add: sched_rt_handler_finish_def restored_def)
  have "groups_ok (restored a b s) t"
    by (rule groups_ok_cong [OF assms(1)]) (use assms(1) in \<open>simp_all add: groups_ok_def\<close>)
  then show ?thesis using assms(2) by (simp add: e handler_ok_def)
qed

lemma reachable_ok: "groups_reachable alone S t \<Longrightarrow> rt_system_ok alone S t"
proof (induction rule: groups_reachable.induct)
  case (boot s)
  then show ?case using boot_ok(1) [OF boot] boot_ok(2) [OF boot] by (simp add: rt_system_ok_def handler_ok_def)
next
  case (ask_runtime S t g q us)
  then show ?case using runtime_request_ok [of "tgs S" t g us] by (simp add: rt_system_ok_def)
next
  case (ask_period S t g us q)
  then show ?case using period_request_ok [of "tgs S" t g us q] by (simp add: rt_system_ok_def)
next
  case (set_bandwidth S t g period runtime s' r)
  then have ok: "groups_ok (tgs S) t" "handler_ok alone (rt_handler S) (tgs S) t" "request_ok (g, period, runtime)"
    "\<forall>q \<in> set (requests S). request_ok q" by (auto simp: rt_system_ok_def)
  then show ?case
    using set_bandwidth_ok(1) [OF ok(1,3) set_bandwidth(4)] set_bandwidth_handler_ok [OF ok(1,2) set_bandwidth(3) ok(3) set_bandwidth(4)]
    by (auto simp: rt_system_ok_def dest: notin_set_remove1 in_set_remove1 [THEN iffD1, rotated] set_remove1_subset [THEN subsetD])
next
  case (store_limits S t p r)
  let ?s = "sched_rt_handler_begin p r (tgs S)"
  have "groups_ok ?s t" using store_limits(3) groups_ok_cong [of "tgs S" t ?s]
    by (simp add: rt_system_ok_def sched_rt_handler_begin_def groups_ok_def)
  moreover have "restored (sched_rt_period_us (tgs S)) (sched_rt_runtime_us (tgs S)) ?s = tgs S"
    by (simp add: restored_def sched_rt_handler_begin_def)
  ultimately show ?case using store_limits(2,3) by (simp add: rt_system_ok_def handler_ok_def)
next
  case (check_limits S t a b e)
  then show ?case using constraints_limited [of "tgs S" t alone] by (simp add: rt_system_ok_def handler_ok_def groups_ok_def)
next
  case (finish_limits S t a b e)
  then show ?case using finish_limits_ok [of "tgs S" t alone a b e] by (simp add: rt_system_ok_def)
next
  case (create S t p n fg rg load s' m)
  then have ok: "groups_ok (tgs S) t" "handler_ok alone (rt_handler S) (tgs S) t" by (simp_all add: rt_system_ok_def)
  note new = create_ok [OF ok(1) create(2-5)]
  have "handler_ok alone (rt_handler S) s' (graft p n t)" by (rule handler_ok_step [OF ok(2) new(3,2)])
  then show ?case using new(1) create(6) by (simp add: rt_system_ok_def)
next
  case (destroy S t g q)
  then have ok: "groups_ok (tgs S) t" "handler_ok alone (rt_handler S) (tgs S) t" by (simp_all add: rt_system_ok_def)
  note new = destroy_ok [OF ok(1) destroy(4)]
  have "handler_ok alone (rt_handler S) (sched_destroy_group g (tgs S)) (prune g t)"
    by (rule handler_ok_step [OF ok(2) new(2,3)])
  then show ?case using new(1) destroy(5) by (simp add: rt_system_ok_def)
next
  case (tasks_move S t xs)
  let ?s = "(tgs S)\<lparr>rt_threads := xs\<rparr>"
  have ok: "groups_ok (tgs S) t" "handler_ok alone (rt_handler S) (tgs S) t" using tasks_move(2) by (simp_all add: rt_system_ok_def)
  have "groups_ok ?s t" using groups_ok_cong [OF ok(1), of ?s] ok(1) by (simp add: groups_ok_def)
  moreover have "handler_ok alone (rt_handler S) ?s t" by (rule handler_ok_step [OF ok(2)]) (erule limited_cong, simp_all)+
  ultimately show ?case using tasks_move(2) by (simp add: rt_system_ok_def)
next
  case (set_shares S t pr g sh)
  let ?s = "fst (sched_group_set_shares pr g sh (tgs S))"
  have ok: "groups_ok (tgs S) t" "handler_ok alone (rt_handler S) (tgs S) t" using set_shares(2) by (simp_all add: rt_system_ok_def)
  have "groups_ok ?s t" using groups_ok_cong [OF ok(1), of ?s] ok(1) by (simp add: groups_ok_def)
  moreover have "handler_ok alone (rt_handler S) ?s t" by (rule handler_ok_step [OF ok(2)]) (erule limited_cong, simp_all)+
  ultimately show ?case using set_shares(2) by (simp add: rt_system_ok_def)
qed

fun demand :: "(nat \<Rightarrow> bandwidth) \<Rightarrow> gtree \<Rightarrow> nat" where
  "demand B (Node g ts) = (if ts = [] then unat (ratio (B g)) else sum_list (map (demand B) ts))"

lemma demand_le:
  "represents s par t \<Longrightarrow> \<forall>g \<in> set (nodes t). group_ok s B g \<Longrightarrow> demand B t \<le> unat (ratio (B (root t)))"
proof (induction t arbitrary: par)
  case (Node g ts)
  show ?case
  proof (cases "ts = []")
    case False
    have "demand B t \<le> unat (ratio (B (root t)))" if "t \<in> set ts" for t
      using Node that by (intro Node.IH [of t "Some g"]) auto
    then have "sum_list (map (demand B) ts) \<le> (\<Sum>t\<leftarrow>ts. unat (ratio (B (root t))))" by (rule sum_list_mono)
    also have "\<dots> = (\<Sum>c\<leftarrow>children s g. unat (ratio (B c)))" using Node.prems(1) by (simp add: comp_def)
    also have "\<dots> \<le> unat (ratio (B g))" using Node.prems(2) by (simp add: group_ok_def)
    finally show ?thesis using False by simp
  qed simp
qed

text \<open>
  C29 (groups_stay_schedulable): in any interleaving of bandwidth calls, the handler of the system-wide
  limits and changes of the tree, every group has a positive period and a runtime within it (or
  unlimited), the shares of its children (ratios computed without overflow) add up to at most its own,
  and so the groups without children together are promised at most the whole processor.  When the handler
  is at rest its limits are consistent; if moreover no bandwidth of a group was set while the handler ran
  (\<open>alone\<close>), no group has more than they allow, nor have the groups without children together.  Without
  that the last part fails: \<open>refused_limits_stay\<close>.
\<close>

theorem groups_stay_schedulable:
  assumes "groups_reachable alone S t"
  shows "let s = tgs S in tree_of s t \<and>
    (\<forall>g \<in> set (nodes t). rt_period (bw s g) \<noteq> 0 \<and>
      (rt_runtime (bw s g) = RUNTIME_INF \<or>
        rt_runtime (bw s g) \<le> rt_period (bw s g) \<and>
        unat (ratio (bw s g)) = unat (rt_runtime (bw s g)) * 2 ^ 20 div unat (rt_period (bw s g))) \<and>
      (\<Sum>c\<leftarrow>children s g. unat (ratio (bw s c))) \<le> unat (ratio (bw s g))) \<and>
    demand (bw s) t \<le> 2 ^ 20 \<and>
    (rt_handler S = Resting \<longrightarrow> limits_ok s \<and>
      (alone \<longrightarrow> (\<forall>g \<in> set (nodes t). ratio (bw s g) \<le> global_ratio s) \<and> demand (bw s) t \<le> unat (global_ratio s)))"
proof -
  let ?s = "tgs S"
  have ok: "groups_ok ?s t" "handler_ok alone (rt_handler S) ?s t"
    using reachable_ok [OF assms] by (simp_all add: rt_system_ok_def)
  then have t: "tree_of ?s t" and grp: "\<forall>g \<in> set (nodes t). group_ok ?s (bw ?s) g" by (simp_all add: groups_ok_def)
  have each: "rt_period (bw ?s g) \<noteq> 0 \<and>
      (rt_runtime (bw ?s g) = RUNTIME_INF \<or>
        rt_runtime (bw ?s g) \<le> rt_period (bw ?s g) \<and>
        unat (ratio (bw ?s g)) = unat (rt_runtime (bw ?s g)) * 2 ^ 20 div unat (rt_period (bw ?s g))) \<and>
      (\<Sum>c\<leftarrow>children ?s g. unat (ratio (bw ?s c))) \<le> unat (ratio (bw ?s g))" if "g \<in> set (nodes t)" for g
    using bspec [OF grp that] ratio_exact(1) [of "bw ?s g"] unfolding group_ok_def bandwidth_ok_def by blast
  have dem: "demand (bw ?s) t \<le> unat (ratio (bw ?s (root t)))"
    using demand_le [of ?s None t "bw ?s"] t grp by (simp add: tree_of_def)
  also have "\<dots> \<le> 2 ^ 20"
    using bspec [OF grp root_in_nodes] ratio_le by (simp add: group_ok_def)
  finally have whole: "demand (bw ?s) t \<le> 2 ^ 20" .
  have "limited alone ?s t" if "rt_handler S = Resting" using ok(2) that by (simp add: handler_ok_def)
  moreover have "demand (bw ?s) t \<le> unat (global_ratio ?s)" if "\<forall>g \<in> set (nodes t). ratio (bw ?s g) \<le> global_ratio ?s"
    using bspec [OF that root_in_nodes] dem by (simp add: word_le_nat_alt)
  ultimately show ?thesis unfolding Let_def limited_def using t each whole by blast
qed

text \<open>The system at boot, with a group created in it.\<close>

definition boot_groups :: "unit groups" where
  "boot_groups = sample_groups\<lparr>children := (\<lambda>_. []), parent_of := (\<lambda>_. None)\<rparr>"

definition grown_groups :: "unit groups" where
  "grown_groups = fst (sched_create_group (Some 1) True True 1024 0 boot_groups)"

definition grown_system :: "unit rt_system" where
  "grown_system = \<lparr>tgs = grown_groups, rt_handler = Resting, requests = []\<rparr>"

lemma boot_reachable: "groups_reachable alone \<lparr>tgs = boot_groups, rt_handler = Resting, requests = []\<rparr> (Node 0 [])"
  using groups_reachable.boot [of boot_groups]
  by (simp add: boot_groups_def sample_groups_def limits_ok_def global_rt_period_def global_rt_runtime_def
      NSEC_PER_USEC_def init_rt_bandwidth_def)

lemma grown_reachable: "groups_reachable alone grown_system (Node 0 [Node 1 []])"
proof -
  have "groups_reachable alone (\<lparr>tgs = boot_groups, rt_handler = Resting, requests = []\<rparr>\<lparr>tgs := grown_groups\<rparr>)
      (graft 0 1 (Node 0 []))"
    by (rule groups_reachable.create [OF boot_reachable, where fg = True and rg = True and load = 1024 and m = 1])
      (simp_all add: grown_groups_def boot_groups_def sample_groups_def sched_create_group_def Let_def)
  then show ?thesis by (simp add: grown_system_def)
qed

lemma grown_values:
  "bw grown_groups 1 = \<lparr>rt_period = 1000000000, rt_runtime = 0\<rparr>"
  "bw grown_groups 0 = \<lparr>rt_period = 1000000000, rt_runtime = 950000000\<rparr>"
  "sched_rt_period_us grown_groups = 1000000" "sched_rt_runtime_us grown_groups = 950000"
  "children grown_groups 0 = [1]" "children grown_groups 1 = []" "rt_threads grown_groups = [0]"
  by (simp_all add: grown_groups_def boot_groups_def sample_groups_def sched_create_group_def
      alloc_rt_sched_group_def init_rt_bandwidth_def Let_def)

theorem groups_stay_schedulable_witness:
  "demand (bw grown_groups) (Node 0 [Node 1 []]) \<le> unat (global_ratio grown_groups) \<and>
   limits_ok grown_groups \<and> (\<Sum>c\<leftarrow>children grown_groups 0. unat (ratio (bw grown_groups c))) \<le> 996147"
  using groups_stay_schedulable [OF grown_reachable [of True]]
  by (simp add: grown_system_def grown_values Let_def RUNTIME_INF_def)

section \<open>The calls answer\<close>

lemma tg_schedulable_total:
  assumes "to_ratio (global_rt_period s) (global_rt_runtime s) \<noteq> None" "rt_period (proposed s dat g) \<noteq> 0"
    and "\<forall>c \<in> set (children s g). rt_period (proposed s dat c) \<noteq> 0"
  shows "tg_schedulable s dat g \<noteq> None"
  using sum_ratios_ok [OF assms(3)] to_ratio_ok [OF assms(2)] assms(1)
  by (auto simp: tg_schedulable_def Let_def)

lemma global_ratio_defined:
  "sched_rt_period_us s \<noteq> 0 \<or> sint (sched_rt_runtime_us s) < 0 \<Longrightarrow> to_ratio (global_rt_period s) (global_rt_runtime s) \<noteq> None"
  using global_period_nonzero [of s] by (auto simp: to_ratio_def global_rt_runtime_def)

lemma rt_schedulable_answers:
  assumes "groups_ok s t" "to_ratio (global_rt_period s) (global_rt_runtime s) \<noteq> None" "g = None \<or> period \<noteq> 0"
  shows "rt_schedulable s g period runtime \<noteq> None"
proof -
  let ?dat = "\<lparr>data_tg = g, data_bw = \<lparr>rt_period = period, rt_runtime = runtime\<rparr>\<rparr>"
  have t: "tree_of s t" using assms(1) by (simp add: groups_ok_def)
  have per: "rt_period (proposed s ?dat h) \<noteq> 0" if "h \<in> set (nodes t)" for h
    using groups_ok_bw(1) [OF assms(1) that] assms(3) by (auto simp: proposed_def)
  have "tg_schedulable s ?dat h \<noteq> None" if "h \<in> set (nodes t)" for h
    using children_in_nodes [of s None t h] t that per
    by (intro tg_schedulable_total assms(2) per) (auto simp: tree_of_def)
  then show ?thesis using rt_schedulable_total [OF t, of g period runtime] by blast
qed

lemma set_bandwidth_answers:
  assumes "groups_ok s t" "to_ratio (global_rt_period s) (global_rt_runtime s) \<noteq> None" "period \<noteq> 0"
  shows "\<exists>s' e. tg_set_bandwidth g period runtime s = Some (s', e) \<and> (e \<noteq> 0 \<longrightarrow> s' = s)"
  using rt_schedulable_answers [OF assms(1,2), of "Some g" period runtime] assms(3)
  by (auto simp: tg_set_bandwidth_def split: Option.bind_splits)

lemma constraints_answer:
  assumes "groups_ok s t"
  shows "sched_rt_global_constraints s \<noteq> None"
  using rt_schedulable_answers [OF assms global_ratio_defined, of None 0 0]
  by (auto simp: sched_rt_global_constraints_def Let_def)

text \<open>
  C30 (bandwidth_calls_answer): in every state of any interleaving, a request to set the bandwidth of a group
  that has been read before, and the calls as a whole, return, unless \<open>sched_rt_handler\<close> has stored a
  period of 0 (with a runtime that is not unlimited) and not yet taken it back: then the code divides by it
  (\<open>zero_period_window\<close>).  That the period is 0 is possible only while the handler runs, and its own check
  always returns.  A call that is refused leaves the groups as they were, and so does the handler, limits
  included, if nothing runs in between.
\<close>

theorem bandwidth_calls_answer:
  assumes "groups_reachable alone S t" "g \<in> set (nodes t)"
  shows "(sched_rt_period_us (tgs S) \<noteq> 0 \<or> sint (sched_rt_runtime_us (tgs S)) < 0 \<longrightarrow>
      (\<forall>(h, period, runtime) \<in> set (requests S).
        \<exists>s' e. tg_set_bandwidth h period runtime (tgs S) = Some (s', e) \<and> (e \<noteq> 0 \<longrightarrow> s' = tgs S)) \<and>
      (\<exists>s' e. sched_group_set_rt_runtime g us (tgs S) = Some (s', e) \<and> (e \<noteq> 0 \<longrightarrow> s' = tgs S)) \<and>
      (\<exists>s' e. sched_group_set_rt_period g us (tgs S) = Some (s', e) \<and> (e \<noteq> 0 \<longrightarrow> s' = tgs S))) \<and>
    (rt_handler S = Resting \<longrightarrow> sched_rt_period_us (tgs S) \<noteq> 0) \<and>
    (\<exists>e. sched_rt_global_constraints (tgs S) = Some e) \<and>
    (\<exists>s' e. sched_rt_handler 0 True p r (tgs S) = Some (s', e) \<and> (e \<noteq> 0 \<longrightarrow> s' = tgs S))"
proof (intro conjI impI)
  let ?s = "tgs S"
  have ok: "groups_ok ?s t" "handler_ok alone (rt_handler S) ?s t" "\<forall>q \<in> set (requests S). request_ok q"
    using reachable_ok [OF assms(1)] by (simp_all add: rt_system_ok_def)
  { assume "sched_rt_period_us ?s \<noteq> 0 \<or> sint (sched_rt_runtime_us ?s) < 0"
    note answers = set_bandwidth_answers [OF ok(1) global_ratio_defined [OF this]]
    show "\<forall>(h, period, runtime) \<in> set (requests S).
        \<exists>s' e. tg_set_bandwidth h period runtime ?s = Some (s', e) \<and> (e \<noteq> 0 \<longrightarrow> s' = ?s)"
      using answers ok(3) by (auto simp: request_ok_def)
    show "\<exists>s' e. sched_group_set_rt_runtime g us ?s = Some (s', e) \<and> (e \<noteq> 0 \<longrightarrow> s' = ?s)"
      using answers [OF groups_ok_bw(1) [OF ok(1) assms(2)]]
      by (simp add: sched_group_set_rt_runtime_def rt_runtime_request_def Let_def)
    show "\<exists>s' e. sched_group_set_rt_period g us ?s = Some (s', e) \<and> (e \<noteq> 0 \<longrightarrow> s' = ?s)"
      using answers by (simp add: sched_group_set_rt_period_def rt_period_request_def Let_def) }
  show "sched_rt_period_us ?s \<noteq> 0" if "rt_handler S = Resting"
    using ok(2) that by (simp add: handler_ok_def limited_def limits_ok_def)
  show "\<exists>e. sched_rt_global_constraints ?s = Some e" using constraints_answer [OF ok(1)] by blast
  have "groups_ok (sched_rt_handler_begin p r ?s) t"
    using groups_ok_cong [OF ok(1), of "sched_rt_handler_begin p r ?s"] ok(1)
    by (simp add: sched_rt_handler_begin_def groups_ok_def)
  from constraints_answer [OF this]
  show "\<exists>s' e. sched_rt_handler 0 True p r ?s = Some (s', e) \<and> (e \<noteq> 0 \<longrightarrow> s' = ?s)"
    by (auto simp: sched_rt_handler_def sched_rt_handler_end_def sched_rt_handler_finish_def sched_rt_handler_begin_def)
qed

theorem bandwidth_calls_answer_witness:
  "\<exists>s' e. sched_group_set_rt_runtime 1 500000 grown_groups = Some (s', e)"
  using bandwidth_calls_answer [OF grown_reachable, of 1 500000 0 0] by (auto simp: grown_system_def grown_values)

text \<open>What is written is read back.\<close>

lemma runtime_reads_back:
  assumes "sched_group_set_rt_runtime g us s = Some (s', 0)"
  shows "sched_group_rt_runtime s' g = (if sint us < 0 then - 1 else us)"
proof -
  have rt: "rt_runtime (bw s' g) = (if sint us < 0 then RUNTIME_INF else scast us * NSEC_PER_USEC)"
    using assms by (auto simp: sched_group_set_rt_runtime_def rt_runtime_request_def tg_set_bandwidth_def Let_def split: Option.bind_splits if_splits)
  show ?thesis
  proof (cases "sint us < 0")
    case True
    with rt show ?thesis by (simp add: sched_group_rt_runtime_def)
  next
    case False
    then have us: "0 \<le> sint us" by simp
    have "rt_runtime (bw s' g) \<noteq> RUNTIME_INF"
    proof
      assume "rt_runtime (bw s' g) = RUNTIME_INF"
      with rt False microseconds(2) [OF us] have "unat RUNTIME_INF < 2 ^ 44" by simp
      then show False by (simp add: RUNTIME_INF_def unsigned_minus_1_eq_mask mask_eq_exp_minus_1)
    qed
    moreover have "unat (rt_runtime (bw s' g) div NSEC_PER_USEC) = nat (sint us)"
      using rt False microseconds(1) [OF us] by (simp add: unat_div_distrib) (simp add: NSEC_PER_USEC_def)
    moreover have "nat (sint us) = unat us"
    proof -
      have "uint (word_of_int (sint us) :: ul) = take_bit 32 (sint us)" by (subst uint_word_of_int_eq) simp
      also have "\<dots> = sint us" using us sint_lt [of us] by (intro take_bit_int_eq_self) auto
      finally have "uint us = sint us" by simp
      then show ?thesis by (simp only: unat_eq_nat_uint)
    qed
    ultimately have "unat (sched_group_rt_runtime s' g) = unat us"
      using unsigned_less [of us, where ?'a = nat]
      by (simp add: sched_group_rt_runtime_def unsigned_ucast_eq take_bit_nat_eq_self)
    then show ?thesis using False by (simp add: word_unat_eq_iff)
  qed
qed

section \<open>What the checks miss\<close>

lemma grown_tree: "tree_of grown_groups (Node 0 [Node 1 []])"
  using reachable_ok [OF grown_reachable] by (simp add: rt_system_ok_def groups_ok_def grown_system_def)

text \<open>
  \<open>proc_dointvec\<close> stores a period of 0 before it is checked; a change of a group's bandwidth in between
  divides by it.
\<close>

lemma zero_period_window:
  "tg_set_bandwidth 1 1000000000 500000000 (sched_rt_handler_begin 0 950000 grown_groups) = None"
proof -
  define s where "s = sched_rt_handler_begin 0 950000 grown_groups"
  have s: "bw s = bw grown_groups" "children s = children grown_groups" "rt_threads s = rt_threads grown_groups"
    "sched_rt_period_us s = 0" "sched_rt_runtime_us s = 950000"
    by (simp_all add: s_def sched_rt_handler_begin_def)
  have t: "tree_of s (Node 0 [Node 1 []])"
    by (rule tree_of_cong [OF grown_tree]) (simp_all add: s_def sched_rt_handler_begin_def)
  have "tg_schedulable s \<lparr>data_tg = Some 1, data_bw = \<lparr>rt_period = 1000000000, rt_runtime = 500000000\<rparr>\<rparr> 0 = None"
    by (simp add: tg_schedulable_def proposed_def s grown_values to_ratio_def global_rt_period_def
        global_rt_runtime_def NSEC_PER_USEC_def RUNTIME_INF_def)
  then show ?thesis
    by (simp add: tg_set_bandwidth_def rt_schedulable_def walk_visits_tree [OF t] s_def [symmetric])
qed

text \<open>
  New limits that will be refused count while they are stored: here a runtime above the period, with which the
  root group gets the whole processor, and keeps it when the old limits of 95% are back.
\<close>

lemma refused_limits_stay:
  "\<exists>S :: unit rt_system. groups_reachable False S (Node 0 [Node 1 []]) \<and> rt_handler S = Resting \<and>
     sched_rt_runtime_us (tgs S) = 950000 \<and> unat (ratio (bw (tgs S) 0)) = 2 ^ 20 \<and> unat (global_ratio (tgs S)) = 996147"
proof -
  let ?t = "Node 0 [Node 1 []]"
  define s where "s = sched_rt_handler_begin 1000000 1500000 grown_groups"
  have s: "bw s = bw grown_groups" "children s = children grown_groups" "rt_threads s = rt_threads grown_groups"
    "sched_rt_period_us s = 1000000" "sched_rt_runtime_us s = 1500000"
    by (simp_all add: s_def sched_rt_handler_begin_def)
  have t: "tree_of s ?t" by (rule tree_of_cong [OF grown_tree]) (simp_all add: s_def sched_rt_handler_begin_def)
  define q where "q = rt_runtime_request 0 1000000 s"
  have q: "q = (0, 1000000000, 1000000000)"
    by (simp add: q_def rt_runtime_request_def s grown_values NSEC_PER_USEC_def)
  let ?dat = "\<lparr>data_tg = Some 0, data_bw = \<lparr>rt_period = 1000000000, rt_runtime = 1000000000\<rparr>\<rparr>"
  have "tg_schedulable s ?dat 0 = Some 0" "tg_schedulable s ?dat 1 = Some 0"
    by (simp_all add: tg_schedulable_def proposed_def s grown_values grown_values(1,6) [simplified] to_ratio_def
        global_rt_period_def global_rt_runtime_def NSEC_PER_USEC_def RUNTIME_INF_def bandwidth_enabled_def tg_has_rt_tasks_def)
  then have "rt_schedulable s (Some 0) 1000000000 1000000000 = Some 0"
    using rt_schedulable_0 [OF t, of "Some 0" 1000000000 1000000000] by simp
  then obtain s1 where s1: "tg_set_bandwidth 0 1000000000 1000000000 s = Some (s1, 0)"
      "bw s1 0 = \<lparr>rt_period = 1000000000, rt_runtime = 1000000000\<rparr>"
      "sched_rt_period_us s1 = 1000000" "sched_rt_runtime_us s1 = 1500000"
    using s(4,5) by (simp add: tg_set_bandwidth_def)
  have bad: "sched_rt_global_constraints s1 = Some (- EINVAL)"
    by (simp add: sched_rt_global_constraints_def s1 global_rt_period_def global_rt_runtime_def NSEC_PER_USEC_def RUNTIME_INF_def)
  let ?S1 = "\<lparr>tgs = s, rt_handler = Stored 1000000 950000, requests = []\<rparr>"
  have r1: "groups_reachable False ?S1 ?t"
    using groups_reachable.store_limits [OF grown_reachable, of False 1000000 1500000]
    by (simp add: grown_system_def s_def grown_values)
  have r2: "groups_reachable False \<lparr>tgs = s, rt_handler = Stored 1000000 950000, requests = [q]\<rparr> ?t"
    using groups_reachable.ask_runtime [OF r1, of 0 q 1000000] by (simp add: q_def)
  have r3: "groups_reachable False \<lparr>tgs = s1, rt_handler = Stored 1000000 950000, requests = []\<rparr> ?t"
    using groups_reachable.set_bandwidth [OF r2, of 0 1000000000 1000000000 s1 0] s1(1) by (simp add: q)
  have r4: "groups_reachable False \<lparr>tgs = s1, rt_handler = Checked 1000000 950000 (- EINVAL), requests = []\<rparr> ?t"
    using groups_reachable.check_limits [OF r3, of 1000000 950000 "- EINVAL"] bad by simp
  have "groups_reachable False \<lparr>tgs = sched_rt_handler_finish 1000000 950000 (- EINVAL) s1, rt_handler = Resting, requests = []\<rparr> ?t"
    using groups_reachable.finish_limits [OF r4, of 1000000 950000 "- EINVAL"] by simp
  moreover have "sched_rt_handler_finish 1000000 950000 (- EINVAL) s1 =
      s1\<lparr>sched_rt_period_us := 1000000, sched_rt_runtime_us := 950000\<rparr>"
    by (simp add: sched_rt_handler_finish_def)
  ultimately have "groups_reachable False
      \<lparr>tgs = s1\<lparr>sched_rt_period_us := 1000000, sched_rt_runtime_us := 950000\<rparr>, rt_handler = Resting, requests = []\<rparr> ?t"
    by simp
  moreover have "unat (ratio (bw s1 0)) = 2 ^ 20" by (simp add: s1 ratio_def RUNTIME_INF_def)
  moreover have "unat (global_ratio (s1\<lparr>sched_rt_period_us := 1000000, sched_rt_runtime_us := 950000\<rparr>)) = 996147"
    by (simp add: global_ratio_def ratio_def global_rt_period_def global_rt_runtime_def NSEC_PER_USEC_def RUNTIME_INF_def)
  ultimately show ?thesis
    by (intro exI [of _ "\<lparr>tgs = s1\<lparr>sched_rt_period_us := 1000000, sched_rt_runtime_us := 950000\<rparr>,
      rt_handler = Resting, requests = []\<rparr>"] conjI) simp_all
qed

text \<open>4096 children of unlimited runtime under one of unlimited runtime: the sum wraps to 0.\<close>

lemma sum_ratios_unlimited:
  "\<forall>c \<in> set cs. rt_runtime (proposed s dat c) = RUNTIME_INF \<Longrightarrow>
   sum_ratios s dat cs = Some (of_nat (length cs) * push_bit 20 1)"
  by (induction cs) (simp_all add: to_ratio_def algebra_simps)

lemma wrapped_sum_is_accepted:
  assumes "length (children s g) = 4096" "\<forall>c \<in> set (children s g). rt_runtime (bw s c) = RUNTIME_INF"
    and "rt_runtime (bw s g) = RUNTIME_INF" "sint (sched_rt_runtime_us s) < 0"
  shows "tg_schedulable s \<lparr>data_tg = None, data_bw = b\<rparr> g = Some 0"
proof -
  have "sum_ratios s \<lparr>data_tg = None, data_bw = b\<rparr> (children s g) = Some 0"
    using assms(1,2) by (subst sum_ratios_unlimited) (auto simp: proposed_def)
  with assms(3,4) show ?thesis
    by (simp add: tg_schedulable_def proposed_def to_ratio_def global_rt_runtime_def bandwidth_enabled_def)
qed

text \<open>A negative period becomes a huge one, which is accepted.\<close>

lemma negative_period_is_accepted:
  "\<exists>s'. sched_group_set_rt_period 1 (- 1) grown_groups = Some (s', 0) \<and> rt_period (bw s' 1) = - 1000"
proof -
  have p: "scast (- 1 :: ul) * NSEC_PER_USEC = - 1000" by (simp add: NSEC_PER_USEC_def)
  let ?dat = "\<lparr>data_tg = Some 1, data_bw = \<lparr>rt_period = - 1000, rt_runtime = 0\<rparr>\<rparr>"
  have "tg_schedulable grown_groups ?dat 0 = Some 0" "tg_schedulable grown_groups ?dat 1 = Some 0"
    by (simp_all add: tg_schedulable_def proposed_def grown_values grown_values(6) [simplified] to_ratio_def global_rt_period_def
        global_rt_runtime_def NSEC_PER_USEC_def RUNTIME_INF_def bandwidth_enabled_def tg_has_rt_tasks_def)
  then have "rt_schedulable grown_groups (Some 1) (- 1000) 0 = Some 0"
    using rt_schedulable_0 [OF grown_tree, of "Some 1" "- 1000" 0] by simp
  then show ?thesis
    unfolding sched_group_set_rt_period_def rt_period_request_def Let_def p
    by (simp add: tg_set_bandwidth_def grown_values(1) [simplified])
qed

end
