(* ===== verification/SchedWait.thy ===== *)
theory SchedWait
  imports SchedAcct
begin

text \<open>
  Wait queues and completions of opcional2/kernel/sched.c.  A wait queue is the list of its entries,
  first to last; a completion is its counter and its wait queue, whose lock covers every piece below.
  A waiting thread releases the lock to sleep, so a wait is split there.

  A wait queue calls the function of each entry; the entries made in this file have
  \<open>default_wake_function\<close>, which is \<open>try_to_wake_up\<close>.
\<close>

section \<open>Waking the threads of a queue\<close>

record wait_entry =
  private_thread :: nat
  exclusive :: bool

text \<open>The function of an entry: the thread, the mode, the flags, and whether it woke the thread.\<close>

type_synonym 's wake_function = "nat \<Rightarrow> u32 \<Rightarrow> u32 \<Rightarrow> 's \<Rightarrow> 's \<times> bool"

definition default_wake_function :: "kconsts \<Rightarrow> 'c hooks \<Rightarrow> nat \<Rightarrow> ('c sys) wake_function" where
  "default_wake_function K H this_cpu p mode wake_flags s = try_to_wake_up K H this_cpu p mode wake_flags s"

text \<open>\<open>nr_exclusive\<close> is an \<open>int\<close>: 0 never reaches 0 again within a queue, so everyone is woken.\<close>

fun wake_up_common :: "'s wake_function \<Rightarrow> u32 \<Rightarrow> s32 \<Rightarrow> u32 \<Rightarrow> wait_entry list \<Rightarrow> 's \<Rightarrow> 's" where
  "wake_up_common f mode nr_exclusive wake_flags [] s = s"
| "wake_up_common f mode nr_exclusive wake_flags (e # es) s =
     (case f (private_thread e) mode wake_flags s of (s, woken) \<Rightarrow>
        if woken \<and> exclusive e
        then if nr_exclusive - 1 = 0 then s
             else wake_up_common f mode (nr_exclusive - 1) wake_flags es s
        else wake_up_common f mode nr_exclusive wake_flags es s)"

definition wake_up :: "'s wake_function \<Rightarrow> wait_entry list \<Rightarrow> u32 \<Rightarrow> s32 \<Rightarrow> 's \<Rightarrow> 's" where
  "wake_up f q mode nr_exclusive s = wake_up_common f mode nr_exclusive 0 q s"

definition wake_up_locked :: "'s wake_function \<Rightarrow> wait_entry list \<Rightarrow> u32 \<Rightarrow> 's \<Rightarrow> 's" where
  "wake_up_locked f q mode s = wake_up_common f mode 1 0 q s"

text \<open>\<open>q\<close> is \<^const>\<open>None\<close> for a null pointer; \<open>sync\<close> is the flag \<open>WF_SYNC\<close>.\<close>

definition wake_up_sync_key :: "'s wake_function \<Rightarrow> u32 \<Rightarrow> wait_entry list option \<Rightarrow> u32 \<Rightarrow> s32 \<Rightarrow> 's \<Rightarrow> 's" where
  "wake_up_sync_key f sync q mode nr_exclusive s =
     (case q of None \<Rightarrow> s
      | Some es \<Rightarrow> wake_up_common f mode nr_exclusive (if nr_exclusive = 0 then 0 else sync) es s)"

section \<open>Completions\<close>

record completion =
  x_done :: u32
  x_wait :: "wait_entry list"

definition UINT_MAX :: u32 where "UINT_MAX = NOT 0"

text \<open>The error of an interrupted wait, from include/linux/errno.h.\<close>

definition ERESTARTSYS :: ul where "ERESTARTSYS = 512"

definition complete :: "kconsts \<Rightarrow> 's wake_function \<Rightarrow> completion \<Rightarrow> 's \<Rightarrow> completion \<times> 's" where
  "complete K f x s =
     (let x = x\<lparr>x_done := x_done x + 1\<rparr> in (x, wake_up_common f (TASK_NORMAL K) 1 0 (x_wait x) s))"

definition complete_all :: "kconsts \<Rightarrow> 's wake_function \<Rightarrow> completion \<Rightarrow> 's \<Rightarrow> completion \<times> 's" where
  "complete_all K f x s =
     (let x = x\<lparr>x_done := x_done x + UINT_MAX div 2\<rparr>
      in (x, wake_up_common f (TASK_NORMAL K) 0 0 (x_wait x) s))"

text \<open>A piece of a wait ends with the return value, or with the thread asleep for a time.\<close>

datatype wait_result = Wait_return ul | Wait_sleep ul

text \<open>\<open>__remove_wait_queue\<close> and what follows the loop.\<close>

definition wait_finish :: "nat \<Rightarrow> ul \<Rightarrow> completion \<Rightarrow> completion \<times> wait_result" where
  "wait_finish p timeout x =
     (let x = x\<lparr>x_wait := filter (\<lambda>e. private_thread e \<noteq> p) (x_wait x)\<rparr>
      in if x_done x = 0 then (x, Wait_return timeout)
         else (x\<lparr>x_done := x_done x - 1\<rparr>, Wait_return (if timeout = 0 then 1 else timeout)))"

text \<open>The body of the loop up to the place where it sleeps.\<close>

definition wait_loop_head ::
  "'c hooks \<Rightarrow> nat \<Rightarrow> ul \<Rightarrow> u32 \<Rightarrow> completion \<Rightarrow> 'c sys \<Rightarrow> completion \<times> 'c sys \<times> wait_result" where
  "wait_loop_head H p timeout st x s =
     (if signal_pending_state H st p (ext s)
      then let (x, r) = wait_finish p (- ERESTARTSYS) x in (x, s, r)
      else (x, set_task p (\<lambda>t. t\<lparr>state := st\<rparr>) s, Wait_sleep timeout))"

definition do_wait_begin ::
  "'c hooks \<Rightarrow> nat \<Rightarrow> ul \<Rightarrow> u32 \<Rightarrow> completion \<Rightarrow> 'c sys \<Rightarrow> completion \<times> 'c sys \<times> wait_result" where
  "do_wait_begin H p timeout st x s =
     (if x_done x = 0
      then wait_loop_head H p timeout st
             (x\<lparr>x_wait := x_wait x @ [\<lparr>private_thread = p, exclusive = True\<rparr>]\<rparr>) s
      else (x\<lparr>x_done := x_done x - 1\<rparr>, s, Wait_return (if timeout = 0 then 1 else timeout)))"

text \<open>\<open>schedule_timeout\<close> has returned \<open>timeout\<close>.\<close>

definition do_wait_resume ::
  "'c hooks \<Rightarrow> nat \<Rightarrow> ul \<Rightarrow> u32 \<Rightarrow> completion \<Rightarrow> 'c sys \<Rightarrow> completion \<times> 'c sys \<times> wait_result" where
  "do_wait_resume H p timeout st x s =
     (if x_done x = 0 \<and> timeout \<noteq> 0 then wait_loop_head H p timeout st x s
      else let (x, r) = wait_finish p timeout x in (x, s, r))"

definition interruptible_result :: "ul \<Rightarrow> ul" where
  "interruptible_result t = (if t = - ERESTARTSYS then t else 0)"

definition try_wait_for_completion :: "completion \<Rightarrow> completion \<times> bool" where
  "try_wait_for_completion x = (if x_done x = 0 then (x, False) else (x\<lparr>x_done := x_done x - 1\<rparr>, True))"

definition completion_done :: "completion \<Rightarrow> bool" where
  "completion_done x = (if x_done x = 0 then False else True)"

section \<open>Sleeping on a queue\<close>

text \<open>\<open>sleep_on_common\<close> up to \<open>schedule_timeout\<close>, and after it.\<close>

definition sleep_on_begin :: "nat \<Rightarrow> u32 \<Rightarrow> wait_entry list \<Rightarrow> 'c sys \<Rightarrow> wait_entry list \<times> 'c sys" where
  "sleep_on_begin p st q s =
     (\<lparr>private_thread = p, exclusive = False\<rparr> # q, set_task p (\<lambda>t. t\<lparr>state := st\<rparr>) s)"

definition sleep_on_end :: "nat \<Rightarrow> wait_entry list \<Rightarrow> wait_entry list" where
  "sleep_on_end p q = filter (\<lambda>e. private_thread e \<noteq> p) q"

section \<open>What a wake function promises\<close>

text \<open>
  The laws of a wake function: it reports a thread that was off the queues in a state of the mode, it
  makes every thread in such a state runnable and queued, and it leaves all other threads alone.
\<close>

locale waker =
  fixes wake :: "'s wake_function" and st :: "'s \<Rightarrow> nat \<Rightarrow> u32" and queued :: "'s \<Rightarrow> nat \<Rightarrow> bool"
    and running :: u32
  assumes wake_result: "snd (wake p mode fl s) \<longleftrightarrow> st s p AND mode \<noteq> 0 \<and> \<not> queued s p"
    and wake_state: "st (fst (wake p mode fl s)) q = (if q = p \<and> st s p AND mode \<noteq> 0 then running else st s q)"
    and wake_queued: "queued (fst (wake p mode fl s)) q = (q = p \<and> st s p AND mode \<noteq> 0 \<or> queued s q)"
begin

lemma wake_unmatched: "st s p AND mode = 0 \<Longrightarrow> \<not> snd (wake p mode fl s)"
  by (simp add: wake_result)

text \<open>Waking for one exclusive thread reaches the first that is asleep in the mode, if there is one.\<close>

lemma common_state:
  "running AND mode = 0 \<Longrightarrow> st (wake_up_common wake mode nr fl es s) q \<in> {st s q, running} \<and>
   (st s q AND mode = 0 \<longrightarrow> st (wake_up_common wake mode nr fl es s) q = st s q)"
proof (induction es arbitrary: nr s)
  case (Cons e es)
  let ?s = "fst (wake (private_thread e) mode fl s)"
  have one: "st ?s q \<in> {st s q, running}" "st s q AND mode = 0 \<longrightarrow> st ?s q = st s q" by (auto simp: wake_state)
  have rest: "st (wake_up_common wake mode n fl es ?s) q \<in> {st ?s q, running} \<and>
      (st ?s q AND mode = 0 \<longrightarrow> st (wake_up_common wake mode n fl es ?s) q = st ?s q)" for n
    by (rule Cons.IH [OF Cons.prems])
  show ?case
    using one rest [of nr] rest [of "nr - 1"] by (auto simp: case_prod_beta)
qed simp

end

end
