(* ===== verification/SchedWaitProps.thy ===== *)
theory SchedWaitProps
  imports SchedWait SchedMachine
begin

text \<open>
  Completions as counting semaphores that lose no wake-up: the laws of \<open>try_to_wake_up\<close>, the
  effect of one wake-up on a queue of exclusive waiters, and the runs of a completion.
\<close>

section \<open>\<open>try_to_wake_up\<close> as a wake function\<close>

lemma try_to_wake_up_task:
  "state (tasks (fst (try_to_wake_up K H c p mode fl s)) q) =
     (if q = p \<and> state (tasks s p) AND mode \<noteq> 0 then TASK_RUNNING K else state (tasks s q))"
  "on_rq (tasks (fst (try_to_wake_up K H c p mode fl s)) q) =
     (q = p \<and> state (tasks s p) AND mode \<noteq> 0 \<or> on_rq (tasks s q))"
  "snd (try_to_wake_up K H c p mode fl s) \<longleftrightarrow> state (tasks s p) AND mode \<noteq> 0 \<and> \<not> on_rq (tasks s p)"
  by (auto simp: try_to_wake_up_def try_to_wake_up_begin_def try_to_wake_up_end_def ttwu_activate_def
      place_def Let_def split: option.splits prod.splits if_splits)

section \<open>One wake-up of a queue\<close>

context waker
begin

definition awake :: "u32 \<Rightarrow> wait_entry list \<Rightarrow> 's \<Rightarrow> nat" where
  "awake mode es s = count_if (\<lambda>e. st s (private_thread e) AND mode = 0) es"

lemma awake_mono:
  "(\<And>e. e \<in> set es \<Longrightarrow> st s (private_thread e) AND mode = 0 \<Longrightarrow> st s' (private_thread e) AND mode = 0) \<Longrightarrow>
   awake mode es s \<le> awake mode es s'"
  unfolding awake_def by (rule count_if_mono) auto

lemma awake_le: "awake mode es s \<le> length es"
  by (simp add: awake_def count_if_le_length)

lemma wake_awake:
  "running AND mode = 0 \<Longrightarrow> st (fst (wake p mode fl s)) p AND mode = 0"
  by (simp add: wake_state)

text \<open>\<open>complete\<close>: one more waiter is awake than before, or all of them are.\<close>

lemma wake_one:
  assumes "running AND mode = 0" "distinct (map private_thread es)" "\<forall>e \<in> set es. exclusive e"
  shows "min (awake mode es s + 1) (length es) \<le> awake mode es (wake_up_common wake mode 1 fl es s)"
  using assms(2,3)
proof (induction es arbitrary: s)
  case (Cons e es)
  define s1 where "s1 = fst (wake (private_thread e) mode fl s)"
  have e1: "st s1 (private_thread e) AND mode = 0" by (simp add: s1_def wake_awake assms(1))
  have "private_thread x \<noteq> private_thread e" if "x \<in> set es" for x
    using Cons.prems(1) that by (simp add: image_iff) metis
  then have others: "awake mode es s = awake mode es s1"
    unfolding awake_def s1_def by (intro count_if_cong) (simp add: wake_state)
  show ?case
  proof (cases "snd (wake (private_thread e) mode fl s)")
    case True
    then have "wake_up_common wake mode 1 fl (e # es) s = s1"
      using Cons.prems(2) by (simp add: s1_def case_prod_beta)
    moreover have "st s (private_thread e) AND mode \<noteq> 0" using True by (simp add: wake_result)
    ultimately show ?thesis using e1 others by (simp add: awake_def)
  next
    case False
    define s2 where "s2 = wake_up_common wake mode 1 fl es s1"
    have "wake_up_common wake mode 1 fl (e # es) s = s2"
      using False by (simp add: s1_def s2_def case_prod_beta)
    moreover have "st s2 (private_thread e) AND mode = 0"
      using common_state [OF assms(1), of 1 fl es s1 "private_thread e"] e1 by (simp add: s2_def)
    moreover have "min (awake mode es s1 + 1) (length es) \<le> awake mode es s2"
      using Cons.IH [of s1] Cons.prems by (simp add: s2_def)
    ultimately show ?thesis using others by (auto simp: awake_def)
  qed
qed (simp add: awake_def)

text \<open>\<open>complete_all\<close>: everyone is awake.\<close>

lemma wake_all:
  assumes "running AND mode = 0" "distinct (map private_thread es)"
    and "k + length es < 2 ^ 32"
  shows "awake mode es (wake_up_common wake mode (- of_nat k) fl es s) = length es"
  using assms(2,3)
proof (induction es arbitrary: s k)
  case (Cons e es)
  define s1 where "s1 = fst (wake (private_thread e) mode fl s)"
  have e1: "st s1 (private_thread e) AND mode = 0" by (simp add: s1_def wake_awake assms(1))
  obtain j where j: "j + length es < 2 ^ 32"
    "wake_up_common wake mode (- of_nat k) fl (e # es) s = wake_up_common wake mode (- of_nat j) fl es s1"
  proof (cases "snd (wake (private_thread e) mode fl s) \<and> exclusive e")
    case True
    have "(of_nat (k + 1) :: s32) \<noteq> 0" using Cons.prems(2) by (intro of_nat_neq_0) auto
    then have nz: "- of_nat k - 1 \<noteq> (0 :: s32)" by (simp add: neg_eq_iff_add_eq_0 add.commute)
    have eq: "- of_nat k - 1 = (- of_nat (k + 1) :: s32)" by simp
    have "wake_up_common wake mode (- of_nat k) fl (e # es) s = wake_up_common wake mode (- of_nat k - 1) fl es s1"
      using True nz by (simp add: s1_def case_prod_beta)
    then show ?thesis unfolding eq using Cons.prems(2) by (intro that [of "k + 1"]) simp_all
  next
    case False
    then show ?thesis using Cons.prems(2) by (intro that [of k]) (auto simp: s1_def case_prod_beta)
  qed
  define s2 where "s2 = wake_up_common wake mode (- of_nat j) fl es s1"
  have "st s2 (private_thread e) AND mode = 0"
    using common_state [OF assms(1), of "- of_nat j" fl es s1 "private_thread e"] e1 by (simp add: s2_def)
  moreover have "awake mode es s2 = length es"
    using Cons.IH [of j s1] Cons.prems j(1) by (simp add: s2_def)
  ultimately show ?case unfolding j(2) s2_def [symmetric] by (simp add: awake_def)
qed (simp add: awake_def)

end

interpretation ttwu: waker "default_wake_function K H c" "\<lambda>s p. state (tasks s p)" "\<lambda>s p. on_rq (tasks s p)"
    "TASK_RUNNING K"
  for K :: kconsts and H :: "'c hooks" and c :: nat
  by unfold_locales (simp_all add: default_wake_function_def try_to_wake_up_task)

section \<open>Runs of a completion\<close>

text \<open>
  A completion, the state in which each waiting thread sleeps, and the system.  The events of a run
  are the amounts posted, the waits that took one with their return values, and those that gave up.
  Between the calls the system moves: a waiting thread may be woken by a signal or the end of its
  time, and is taken off its runqueue by \<open>schedule\<close>; nothing else puts it to sleep.
\<close>

record 'c wait_run =
  cx :: completion
  waiting :: "nat \<Rightarrow> u32 option"
  wsys :: "'c sys"

datatype completion_event = Posted u32 | Took nat ul | Gave_up nat ul | Silent

definition outside_step :: "kconsts \<Rightarrow> (nat \<Rightarrow> u32 option) \<Rightarrow> 'c sys \<Rightarrow> 'c sys \<Rightarrow> bool" where
  "outside_step K w s s' \<longleftrightarrow>
     (\<forall>p. w p \<noteq> None \<longrightarrow> state (tasks s' p) \<in> {state (tasks s p), TASK_RUNNING K})"

text \<open>What a piece of a wait that had \<open>n\<close> posted before it did.\<close>

definition wait_event :: "nat \<Rightarrow> u32 \<Rightarrow> completion \<Rightarrow> wait_result \<Rightarrow> completion_event" where
  "wait_event p n x r =
     (case r of Wait_sleep _ \<Rightarrow> Silent | Wait_return t \<Rightarrow> if x_done x \<noteq> n then Took p t else Gave_up p t)"

definition after_piece :: "nat \<Rightarrow> u32 \<Rightarrow> wait_result \<Rightarrow> (nat \<Rightarrow> u32 option) \<Rightarrow> nat \<Rightarrow> u32 option" where
  "after_piece p st r w = w(p := (case r of Wait_sleep _ \<Rightarrow> Some st | Wait_return _ \<Rightarrow> None))"

inductive completion_step :: "kconsts \<Rightarrow> 'c hooks \<Rightarrow> 'c wait_run \<Rightarrow> completion_event \<Rightarrow> 'c wait_run \<Rightarrow> bool"
  for K :: kconsts and H :: "'c hooks" where
  wait_begins: "waiting M p = None \<Longrightarrow> st AND TASK_NORMAL K \<noteq> 0 \<Longrightarrow>
    do_wait_begin H p timeout st (cx M) (wsys M) = (x, s, r) \<Longrightarrow>
    completion_step K H M (wait_event p (x_done (cx M)) x r)
      \<lparr>cx = x, waiting = after_piece p st r (waiting M), wsys = s\<rparr>"
| wait_resumes: "waiting M p = Some st \<Longrightarrow> state (tasks (wsys M) p) = TASK_RUNNING K \<Longrightarrow>
    do_wait_resume H p timeout st (cx M) (wsys M) = (x, s, r) \<Longrightarrow>
    completion_step K H M (wait_event p (x_done (cx M)) x r)
      \<lparr>cx = x, waiting = after_piece p st r (waiting M), wsys = s\<rparr>"
| completes: "complete K (default_wake_function K H c) (cx M) (wsys M) = (x, s) \<Longrightarrow>
    completion_step K H M (Posted 1) (M\<lparr>cx := x, wsys := s\<rparr>)"
| completes_all: "complete_all K (default_wake_function K H c) (cx M) (wsys M) = (x, s) \<Longrightarrow>
    length (x_wait (cx M)) < 2 ^ 32 \<Longrightarrow>
    completion_step K H M (Posted (UINT_MAX div 2)) (M\<lparr>cx := x, wsys := s\<rparr>)"
| tries: "try_wait_for_completion (cx M) = (x, b) \<Longrightarrow>
    completion_step K H M (if b then Took p 1 else Gave_up p 0) (M\<lparr>cx := x\<rparr>)"
| outside: "outside_step K (waiting M) (wsys M) s \<Longrightarrow> completion_step K H M Silent (M\<lparr>wsys := s\<rparr>)"

inductive completion_run :: "kconsts \<Rightarrow> 'c hooks \<Rightarrow> 'c wait_run \<Rightarrow> completion_event list \<Rightarrow> 'c wait_run \<Rightarrow> bool"
  for K :: kconsts and H :: "'c hooks" where
  run_none: "completion_run K H M [] M"
| run_more: "completion_run K H M es M' \<Longrightarrow> completion_step K H M' e M'' \<Longrightarrow>
    completion_run K H M (es @ [e]) M''"

fun posted :: "completion_event \<Rightarrow> u32" where
  "posted (Posted n) = n"
| "posted e = 0"

fun taken :: "completion_event \<Rightarrow> u32" where
  "taken (Took p r) = 1"
| "taken e = 0"

fun return_ok :: "completion_event \<Rightarrow> bool" where
  "return_ok (Took p r) = (r \<noteq> 0)"
| "return_ok (Gave_up p r) = (r = 0 \<or> r = - ERESTARTSYS)"
| "return_ok e = True"

definition awake_waiters :: "kconsts \<Rightarrow> 'c wait_run \<Rightarrow> nat" where
  "awake_waiters K M =
     count_if (\<lambda>e. state (tasks (wsys M) (private_thread e)) = TASK_RUNNING K) (x_wait (cx M))"

definition waiters_ok :: "kconsts \<Rightarrow> 'c wait_run \<Rightarrow> bool" where
  "waiters_ok K M \<longleftrightarrow>
     distinct (map private_thread (x_wait (cx M))) \<and> (\<forall>e \<in> set (x_wait (cx M)). exclusive e) \<and>
     (\<forall>p. waiting M p \<noteq> None \<longleftrightarrow> p \<in> private_thread ` set (x_wait (cx M))) \<and>
     (\<forall>p st. waiting M p = Some st \<longrightarrow> st AND TASK_NORMAL K \<noteq> 0 \<and>
        state (tasks (wsys M) p) \<in> {st, TASK_RUNNING K}) \<and>
     min (unat (x_done (cx M))) (length (x_wait (cx M))) \<le> awake_waiters K M"

section \<open>Every piece keeps the queue in order\<close>

lemma count_without:
  "distinct (map private_thread xs) \<Longrightarrow> p \<in> private_thread ` set xs \<Longrightarrow> (\<And>e. private_thread e = p \<Longrightarrow> P e) \<Longrightarrow>
   count_if P (filter (\<lambda>e. private_thread e \<noteq> p) xs) + 1 = count_if P xs"
proof (induction xs)
  case (Cons x xs)
  show ?case
  proof (cases "private_thread x = p")
    case True
    then have "filter (\<lambda>e. private_thread e \<noteq> p) xs = xs" using Cons.prems(1)
      by (auto simp: filter_id_conv) (metis imageI)
    then show ?thesis using True Cons.prems(3) by simp
  next
    case False
    then have "p \<in> private_thread ` set xs" using Cons.prems(2) by auto
    then show ?thesis using Cons.IH Cons.prems False by simp
  qed
qed simp

lemma length_without:
  "distinct (map private_thread xs) \<Longrightarrow> p \<in> private_thread ` set xs \<Longrightarrow>
   length (filter (\<lambda>e. private_thread e \<noteq> p) xs) + 1 = length xs"
  using count_without [of xs p "\<lambda>_. True"] by (simp add: count_if_def)

lemma unat_less_one: "x \<noteq> 0 \<Longrightarrow> unat (x - 1 :: u32) + 1 = unat x"
  by (metis Suc_eq_plus1 unat_minus_one Suc_diff_1 unat_gt_0)

lemma awake_eq:
  assumes "waiters_ok K M" "TASK_RUNNING K = 0"
    "\<And>p. waiting M p \<noteq> None \<Longrightarrow> state (tasks s p) \<in> {state (tasks (wsys M) p), TASK_RUNNING K}"
  shows "ttwu.awake (TASK_NORMAL K) (x_wait (cx M)) s = awake_waiters K (M\<lparr>wsys := s\<rparr>)"
  unfolding ttwu.awake_def awake_waiters_def
proof (simp, intro count_if_cong)
  fix e assume "e \<in> set (x_wait (cx M))"
  then have "waiting M (private_thread e) \<noteq> None" using assms(1) by (auto simp: waiters_ok_def)
  then show "(state (tasks s (private_thread e)) AND TASK_NORMAL K = 0) =
      (state (tasks s (private_thread e)) = TASK_RUNNING K)"
    using assms(1,2) assms(3) [of "private_thread e"] unfolding waiters_ok_def by fastforce
qed

text \<open>Nobody joins or leaves, threads are only woken, and enough of them are.\<close>

lemma kept_ok:
  assumes "waiters_ok K M" "x_wait x = x_wait (cx M)"
    "\<And>p. waiting M p \<noteq> None \<Longrightarrow> state (tasks s p) \<in> {state (tasks (wsys M) p), TASK_RUNNING K}"
    "min (unat (x_done x)) (length (x_wait x)) \<le> awake_waiters K (M\<lparr>cx := x, wsys := s\<rparr>)"
  shows "waiters_ok K (M\<lparr>cx := x, wsys := s\<rparr>)"
  using assms unfolding waiters_ok_def by (simp, metis insert_iff empty_iff option.distinct(1))

lemma awake_kept:
  assumes "waiters_ok K M"
    "\<And>p. waiting M p \<noteq> None \<Longrightarrow> state (tasks s p) \<in> {state (tasks (wsys M) p), TASK_RUNNING K}"
  shows "awake_waiters K M \<le> awake_waiters K (M\<lparr>wsys := s\<rparr>)"
  unfolding awake_waiters_def
proof (simp, intro count_if_mono)
  fix e assume "e \<in> set (x_wait (cx M))" "state (tasks (wsys M) (private_thread e)) = TASK_RUNNING K"
  moreover from this have "waiting M (private_thread e) \<noteq> None" using assms(1) by (auto simp: waiters_ok_def)
  ultimately show "state (tasks s (private_thread e)) = TASK_RUNNING K"
    using assms(2) [of "private_thread e"] by auto
qed

lemma left_ok:
  assumes "waiters_ok K M" "waiting M p = Some st" "state (tasks (wsys M) p) = TASK_RUNNING K"
    "x_wait x = filter (\<lambda>e. private_thread e \<noteq> p) (x_wait (cx M))"
    "x_done x = (if x_done (cx M) = 0 then 0 else x_done (cx M) - 1)"
  shows "waiters_ok K (M\<lparr>cx := x, waiting := (waiting M)(p := None)\<rparr>)"
proof -
  note ok = assms(1) [unfolded waiters_ok_def]
  have p: "p \<in> private_thread ` set (x_wait (cx M))" using ok assms(2) by blast
  have "awake_waiters K (M\<lparr>cx := x, waiting := (waiting M)(p := None)\<rparr>) + 1 = awake_waiters K M"
    using ok p assms(3) unfolding awake_waiters_def
    using count_without [of "x_wait (cx M)" p "\<lambda>e. state (tasks (wsys M) (private_thread e)) = TASK_RUNNING K"]
    by (simp add: assms(4))
  moreover have "length (x_wait x) + 1 = length (x_wait (cx M))"
    using ok p assms(4) length_without [of "x_wait (cx M)" p] by simp
  moreover have "unat (x_done x) = unat (x_done (cx M)) - 1"
    using assms(5) unat_less_one [of "x_done (cx M)"] by (auto split: if_splits)
  ultimately have "min (unat (x_done x)) (length (x_wait x)) \<le> awake_waiters K (M\<lparr>cx := x, waiting := (waiting M)(p := None)\<rparr>)"
    using ok by linarith
  moreover have "distinct (map private_thread (x_wait x))" using ok assms(4) by (simp add: distinct_map_filter)
  ultimately show ?thesis using ok assms(4) unfolding waiters_ok_def by (auto simp: image_iff)
qed

lemma joined_ok:
  assumes "waiters_ok K M" "waiting M p = None" "st AND TASK_NORMAL K \<noteq> 0" "x_done (cx M) = 0"
  shows "waiters_ok K \<lparr>cx = (cx M)\<lparr>x_wait := x_wait (cx M) @ [\<lparr>private_thread = p, exclusive = True\<rparr>]\<rparr>,
    waiting = (waiting M)(p \<mapsto> st), wsys = set_task p (\<lambda>t. t\<lparr>state := st\<rparr>) (wsys M)\<rparr>"
proof -
  have "p \<notin> private_thread ` set (x_wait (cx M))" using assms(1,2) unfolding waiters_ok_def by metis
  then show ?thesis using assms unfolding waiters_ok_def by (auto simp: image_iff)
qed

lemma slept_ok:
  assumes "waiters_ok K M" "waiting M p = Some st" "x_done (cx M) = 0"
  shows "waiters_ok K \<lparr>cx = cx M, waiting = waiting M, wsys = set_task p (\<lambda>t. t\<lparr>state := st\<rparr>) (wsys M)\<rparr>"
  using assms unfolding waiters_ok_def by auto

section \<open>Every step\<close>

lemma complete_ok:
  assumes "waiters_ok K M" "consts_ok K" "complete K (default_wake_function K H c) (cx M) (wsys M) = (x, s)"
  shows "waiters_ok K (M\<lparr>cx := x, wsys := s\<rparr>)"
proof -
  note r = assms(2) [unfolded consts_ok_def]
  have x: "x = (cx M)\<lparr>x_done := x_done (cx M) + 1\<rparr>"
    and s: "s = wake_up_common (default_wake_function K H c) (TASK_NORMAL K) 1 0 (x_wait (cx M)) (wsys M)"
    using assms(3) by (auto simp: complete_def Let_def)
  have st: "state (tasks s p) \<in> {state (tasks (wsys M) p), TASK_RUNNING K}" for p
    using ttwu.common_state [of K "TASK_NORMAL K" H c 1 0 "x_wait (cx M)" "wsys M" p] r by (simp add: s)
  have "min (awake_waiters K M + 1) (length (x_wait (cx M))) \<le> awake_waiters K (M\<lparr>wsys := s\<rparr>)"
    using ttwu.wake_one [of K "TASK_NORMAL K" "x_wait (cx M)" "wsys M" H c 0] r assms(1)
      awake_eq [OF assms(1) _ st] awake_eq [OF assms(1), of "wsys M"]
    by (simp add: s waiters_ok_def)
  moreover have "unat (x_done x) \<le> unat (x_done (cx M)) + 1"
    by (simp add: x unat_word_ariths)
  moreover have "min (unat (x_done (cx M))) (length (x_wait (cx M))) \<le> awake_waiters K M"
    using assms(1) by (simp add: waiters_ok_def)
  ultimately have "min (unat (x_done x)) (length (x_wait x)) \<le> awake_waiters K (M\<lparr>wsys := s\<rparr>)"
    by (simp add: x)
  then show ?thesis using kept_ok [OF assms(1) _ st] by (simp add: x awake_waiters_def)
qed

lemma complete_all_ok:
  assumes "waiters_ok K M" "consts_ok K" "complete_all K (default_wake_function K H c) (cx M) (wsys M) = (x, s)"
    "length (x_wait (cx M)) < 2 ^ 32"
  shows "waiters_ok K (M\<lparr>cx := x, wsys := s\<rparr>)"
proof -
  note r = assms(2) [unfolded consts_ok_def]
  have x: "x = (cx M)\<lparr>x_done := x_done (cx M) + UINT_MAX div 2\<rparr>"
    and s: "s = wake_up_common (default_wake_function K H c) (TASK_NORMAL K) 0 0 (x_wait (cx M)) (wsys M)"
    using assms(3) by (auto simp: complete_all_def Let_def)
  have st: "state (tasks s p) \<in> {state (tasks (wsys M) p), TASK_RUNNING K}" for p
    using ttwu.common_state [of K "TASK_NORMAL K" H c 0 0 "x_wait (cx M)" "wsys M" p] r by (simp add: s)
  have "awake_waiters K (M\<lparr>wsys := s\<rparr>) = length (x_wait (cx M))"
    using ttwu.wake_all [of K "TASK_NORMAL K" "x_wait (cx M)" 0 H c 0 "wsys M"] r assms(1,4)
      awake_eq [OF assms(1) _ st] by (simp add: s waiters_ok_def)
  then show ?thesis using kept_ok [OF assms(1) _ st, of x] by (simp add: x awake_waiters_def)
qed

lemma rebuilt: "M\<lparr>cx := x, waiting := w\<rparr> = \<lparr>cx = x, waiting = w, wsys = wsys M\<rparr>"
  by simp

lemma finish_ok:
  assumes "waiters_ok K M" "waiting M p = Some st" "state (tasks (wsys M) p) = TASK_RUNNING K"
    "wait_finish p timeout (cx M) = (x, r)"
  shows "waiters_ok K \<lparr>cx = x, waiting = after_piece p st r (waiting M), wsys = wsys M\<rparr>"
  using left_ok [OF assms(1,2,3), of x] assms(4)
  by (auto simp: rebuilt wait_finish_def after_piece_def Let_def split: if_splits)

lemma head_ok:
  assumes "waiters_ok K M" "waiting M p = Some st" "state (tasks (wsys M) p) = TASK_RUNNING K"
    "x_done (cx M) = 0" "wait_loop_head H p timeout st (cx M) (wsys M) = (x, s, r)"
  shows "waiters_ok K \<lparr>cx = x, waiting = after_piece p st r (waiting M), wsys = s\<rparr>"
proof (cases "signal_pending_state H st p (ext (wsys M))")
  case True
  then show ?thesis using assms(5) finish_ok [OF assms(1-3), of "- ERESTARTSYS"]
    by (auto simp: wait_loop_head_def split: prod.splits)
next
  case False
  have "(waiting M)(p \<mapsto> st) = waiting M" using assms(2) by auto
  then show ?thesis using False assms(5) slept_ok [OF assms(1,2,4)]
    by (auto simp: wait_loop_head_def after_piece_def)
qed

lemma begin_ok:
  assumes "waiters_ok K M" "waiting M p = None" "st AND TASK_NORMAL K \<noteq> 0"
    "do_wait_begin H p timeout st (cx M) (wsys M) = (x, s, r)"
  shows "waiters_ok K \<lparr>cx = x, waiting = after_piece p st r (waiting M), wsys = s\<rparr>"
proof (cases "x_done (cx M) = 0")
  case True
  have p: "p \<notin> private_thread ` set (x_wait (cx M))" using assms(1,2) unfolding waiters_ok_def by metis
  then have "filter (\<lambda>e. private_thread e \<noteq> p) (x_wait (cx M)) = x_wait (cx M)"
    by (auto simp: filter_id_conv image_iff)
  moreover have "(waiting M)(p := None) = waiting M" using assms(2) by auto
  ultimately show ?thesis
    using True assms(1,4) joined_ok [OF assms(1-3) True]
    by (cases M) (auto simp: do_wait_begin_def wait_loop_head_def wait_finish_def after_piece_def Let_def split: if_splits)
next
  case False
  have "(waiting M)(p := None) = waiting M" using assms(2) by auto
  moreover have "min (unat (x_done (cx M) - 1)) (length (x_wait (cx M))) \<le> awake_waiters K M"
    using assms(1) unat_less_one [OF False] by (auto simp: waiters_ok_def)
  ultimately show ?thesis
    using False assms(4) kept_ok [OF assms(1), of x s]
    by (cases M) (auto simp: do_wait_begin_def after_piece_def awake_waiters_def split: if_splits)
qed

lemma completion_step_ok:
  assumes "completion_step K H M e M'" "waiters_ok K M" "consts_ok K"
  shows "waiters_ok K M'"
  using assms
proof cases
  case (wait_begins p st timeout x s r)
  then show ?thesis using begin_ok assms(2) by metis
next
  case (wait_resumes p st timeout x s r)
  show ?thesis
  proof (cases "x_done (cx M) = 0 \<and> timeout \<noteq> 0")
    case True
    then show ?thesis using wait_resumes head_ok [OF assms(2) wait_resumes(3,4)]
      by (simp add: do_wait_resume_def)
  next
    case False
    then show ?thesis using wait_resumes finish_ok [OF assms(2) wait_resumes(3,4)]
      by (auto simp: do_wait_resume_def split: prod.splits)
  qed
next
  case (completes c x s)
  then show ?thesis using complete_ok [OF assms(2,3)] by simp
next
  case (completes_all c x s)
  then show ?thesis using complete_all_ok [OF assms(2,3)] by simp
next
  case (tries x b p)
  have "min (unat (x_done x)) (length (x_wait x)) \<le> awake_waiters K M"
    using assms(2) tries(3) unat_less_one [of "x_done (cx M)"]
    by (auto simp: try_wait_for_completion_def waiters_ok_def split: if_splits)
  then show ?thesis using tries kept_ok [OF assms(2), of x "wsys M"]
    by (auto simp: try_wait_for_completion_def awake_waiters_def split: if_splits)
next
  case (outside s)
  have st: "\<And>p. waiting M p \<noteq> None \<Longrightarrow> state (tasks s p) \<in> {state (tasks (wsys M) p), TASK_RUNNING K}"
    using outside(3) by (simp add: outside_step_def)
  have "min (unat (x_done (cx M))) (length (x_wait (cx M))) \<le> awake_waiters K (M\<lparr>wsys := s\<rparr>)"
    using awake_kept [OF assms(2) st] assms(2) by (simp add: waiters_ok_def)
  then show ?thesis using outside kept_ok [OF assms(2), of "cx M" s] st by simp
qed

text \<open>What a step posts and takes is the change of the counter; a wait answers as it must.\<close>

lemma step_counts:
  "completion_step K H M e M' \<Longrightarrow> x_done (cx M') + taken e = x_done (cx M) + posted e \<and> return_ok e"
  by (cases rule: completion_step.cases, assumption)
    (auto simp: do_wait_begin_def do_wait_resume_def wait_loop_head_def wait_finish_def wait_event_def
      complete_def complete_all_def try_wait_for_completion_def Let_def split: if_splits)

section \<open>The property\<close>

lemma run_keeps:
  assumes "completion_run K H M es M'" "waiters_ok K M" "consts_ok K"
  shows "waiters_ok K M' \<and> (\<forall>e \<in> set es. return_ok e) \<and>
    x_done (cx M') + sum_list (map taken es) = x_done (cx M) + sum_list (map posted es)"
  using assms(1,2)
proof induction
  case (run_more M es M' e M'')
  have ok: "waiters_ok K M''" by (rule completion_step_ok [OF run_more.hyps(2) _ assms(3)]) (simp add: run_more)
  have new: "x_done (cx M'') + taken e = x_done (cx M') + posted e" "return_ok e"
    using step_counts [OF run_more.hyps(2)] by simp_all
  have old: "x_done (cx M') + sum_list (map taken es) = x_done (cx M) + sum_list (map posted es)"
    "\<forall>e \<in> set es. return_ok e" using run_more by simp_all
  have "x_done (cx M'') + (sum_list (map taken es) + taken e) = x_done (cx M'') + taken e + sum_list (map taken es)"
    by (simp only: ac_simps)
  also have "\<dots> = x_done (cx M') + sum_list (map taken es) + posted e"
    unfolding new(1) by (simp only: ac_simps)
  finally show ?case using ok old new(2) by (simp add: add.assoc)
qed simp

text \<open>C36 (completions_lose_no_wakeup): in every run of a completion, with waits, timeouts, signals,
  \<open>complete\<close> and \<open>complete_all\<close> in any order, what was posted is what was taken plus what is
  left in the counter; a wait that took one returns nonzero, and one that did not returns 0 or
  \<open>-ERESTARTSYS\<close>; and as many waiting threads are awake as there are posts left for them, so that
  no thread sleeps on a post that nobody else is about to take.\<close>

theorem completions_lose_no_wakeup:
  assumes "completion_run K H M es M'" "waiters_ok K M" "consts_ok K"
  shows "x_done (cx M') + sum_list (map taken es) = x_done (cx M) + sum_list (map posted es) \<and>
    (\<forall>e \<in> set es. return_ok e) \<and>
    min (unat (x_done (cx M'))) (length (x_wait (cx M'))) \<le> awake_waiters K M'"
  using run_keeps [OF assms] by (simp_all add: waiters_ok_def)

text \<open>Thread 3 of the sample waits, is posted one, and takes it.\<close>

definition sample_run :: "unit wait_run" where
  "sample_run = \<lparr>cx = \<lparr>x_done = 0, x_wait = []\<rparr>, waiting = (\<lambda>_. None), wsys = sample_sys\<rparr>"

definition sample_woken :: "unit sys" where
  "sample_woken = snd (complete linux_consts (default_wake_function linux_consts sample_hooks 0)
     \<lparr>x_done = 0, x_wait = [\<lparr>private_thread = 3, exclusive = True\<rparr>]\<rparr>
     (set_task 3 (\<lambda>t. t\<lparr>state := 2\<rparr>) sample_sys))"

lemma sample_run_runs:
  "completion_run linux_consts sample_hooks sample_run [Silent, Posted 1, Took 3 90]
     \<lparr>cx = \<lparr>x_done = 0, x_wait = []\<rparr>, waiting = (\<lambda>_. None), wsys = sample_woken\<rparr>"
proof -
  define asleep :: "unit wait_run" where
    "asleep = \<lparr>cx = \<lparr>x_done = 0, x_wait = [\<lparr>private_thread = 3, exclusive = True\<rparr>]\<rparr>,
       waiting = [3 \<mapsto> 2], wsys = set_task 3 (\<lambda>t. t\<lparr>state := 2\<rparr>) sample_sys\<rparr>"
  define woken :: "unit wait_run" where
    "woken = \<lparr>cx = \<lparr>x_done = 1, x_wait = [\<lparr>private_thread = 3, exclusive = True\<rparr>]\<rparr>,
       waiting = [3 \<mapsto> 2], wsys = sample_woken\<rparr>"
  have 1: "completion_step linux_consts sample_hooks sample_run Silent asleep"
    using completion_step.wait_begins [of sample_run 3 2 linux_consts sample_hooks 100]
    by (simp add: sample_run_def do_wait_begin_def wait_loop_head_def sample_hooks_def wait_event_def
        after_piece_def asleep_def linux_consts_def)
  have 2: "completion_step linux_consts sample_hooks asleep (Posted 1) woken"
    using completion_step.completes [of linux_consts sample_hooks 0 asleep]
    by (simp add: asleep_def woken_def sample_woken_def complete_def Let_def)
  have st: "state (tasks sample_woken 3) = TASK_RUNNING linux_consts"
    by (simp add: sample_woken_def complete_def Let_def default_wake_function_def try_to_wake_up_task
        case_prod_beta linux_consts_def)
  have 3: "completion_step linux_consts sample_hooks woken (Took 3 90)
      \<lparr>cx = \<lparr>x_done = 0, x_wait = []\<rparr>, waiting = (\<lambda>_. None), wsys = sample_woken\<rparr>"
    using completion_step.wait_resumes [of woken 3 2 linux_consts sample_hooks 90] st
    by (simp add: woken_def do_wait_resume_def wait_finish_def wait_event_def after_piece_def)
  show ?thesis
    using run_more [OF run_more [OF run_more [OF run_none 1] 2] 3] by simp
qed

theorem completions_lose_no_wakeup_witness:
  "x_done (cx sample_run) + sum_list (map posted [Silent, Posted 1, Took 3 90]) = 1 \<and>
   (0 :: u32) + sum_list (map taken [Silent, Posted 1, Took 3 90]) = 1"
proof -
  have "waiters_ok linux_consts sample_run" by (simp add: waiters_ok_def sample_run_def)
  from completions_lose_no_wakeup [OF sample_run_runs this linux_consts_ok]
  show ?thesis by (simp add: sample_run_def)
qed

end
