(* ===== verification/SchedEvacuate.thy ===== *)
theory SchedEvacuate
  imports SchedMachine
begin

text \<open>
  A processor goes down: \<open>migrate_tasks\<close> ends, and leaves nothing but the stop thread behind.
\<close>

section \<open>What the classes and the masks promise\<close>

text \<open>
  What is documented of the classes on a processor that is going down, where \<open>rq_offline\<close> has lifted
  the throttling of real-time tasks: the stop class picks the task of \<open>rq->stop\<close>, the idle class the
  idle task, the two others a task of theirs that is queued on the processor, if there is one.
\<close>

definition picks_ok :: "'c hooks \<Rightarrow> bool" where
  "picks_ok H \<longleftrightarrow> class_order H = [stop_sched_class, rt_sched_class, fair_sched_class, idle_sched_class] \<and>
     (\<forall>c s. fst (pick_next_method H stop_sched_class c s) =
        (case stop (rqs s c) of Some p \<Rightarrow> if on_rq (tasks s p) then Some p else None | None \<Rightarrow> None)) \<and>
     (\<forall>c s. \<forall>k \<in> {rt_sched_class, fair_sched_class}.
        case fst (pick_next_method H k c s) of
          Some p \<Rightarrow> p \<in> set (threads s) \<and> on_rq (tasks s p) \<and> task_cpu (tasks s p) = c \<and> sclass (tasks s p) = k
        | None \<Rightarrow> \<forall>p \<in> set (threads s). on_rq (tasks s p) \<and> task_cpu (tasks s p) = c \<longrightarrow> sclass (tasks s p) \<noteq> k)"

text \<open>The last resort of a task is an active processor, which its new mask contains.\<close>

definition fallback_ok :: "'c hooks \<Rightarrow> nat list \<Rightarrow> bool" where
  "fallback_ok H act \<longleftrightarrow>
     (\<forall>a b d. cpumask_any_and H a b = Some d \<longrightarrow> d \<in> set a \<and> d \<in> set b) \<and>
     (\<forall>e p. snd (cpuset_fallback H e p) \<in> set (fst (cpuset_fallback H e p)) \<and>
        snd (cpuset_fallback H e p) \<in> set act)"

lemma fallback_active:
  assumes "fallback_ok H (active s)" "select_fallback_rq H s c p = (d, m)"
  shows "d \<in> set (active s) \<and> d \<in> set m"
proof (cases "find (\<lambda>d. d \<in> set (active s) \<and> d \<in> set (cpus_allowed (tasks s p))) (cpumask_of_node H c)")
  case (Some e)
  then have "e \<in> set (active s)" "e \<in> set (cpus_allowed (tasks s p))" by (auto simp: find_Some_iff)
  then show ?thesis using assms(2) Some by (auto simp: select_fallback_rq_def Let_def)
next
  case None
  then show ?thesis
    using assms unfolding fallback_ok_def select_fallback_rq_def
    by (cases "cpumask_any_and H (cpus_allowed (tasks s p)) (active s)") (auto simp: Let_def split_beta)
qed

section \<open>The dying processor\<close>

text \<open>The stop thread \<open>stp\<close> runs there; everything else queued there is a normal or a real-time task.\<close>

definition dying :: "kconsts \<Rightarrow> 'c hooks \<Rightarrow> nat \<Rightarrow> nat \<Rightarrow> 'c sys \<Rightarrow> bool" where
  "dying K H dead stp s \<longleftrightarrow> acct K s \<and> dead \<in> set (cpus s) \<and> dead \<notin> set (active s) \<and>
     set (active s) \<subseteq> set (cpus s) \<and> fallback_ok H (active s) \<and> length (threads s) < 2 ^ 32 \<and>
     stp \<in> set (threads s) \<and> on_rq (tasks s stp) \<and> task_cpu (tasks s stp) = dead \<and>
     sclass (tasks s stp) = stop_sched_class \<and>
     (\<forall>p \<in> set (threads s). on_rq (tasks s p) \<and> task_cpu (tasks s p) = dead \<and> p \<noteq> stp \<longrightarrow>
        sclass (tasks s p) \<in> {rt_sched_class, fair_sched_class})"

definition to_move :: "nat \<Rightarrow> nat \<Rightarrow> 'c sys \<Rightarrow> nat \<Rightarrow> bool" where
  "to_move dead stp s p \<longleftrightarrow> p \<in> set (threads s) \<and> on_rq (tasks s p) \<and> task_cpu (tasks s p) = dead \<and> p \<noteq> stp"

text \<open>Nobody has left a queue, and who was to move has moved, to a processor that is active and allowed.\<close>

definition evacuated :: "nat \<Rightarrow> nat \<Rightarrow> 'c sys \<Rightarrow> 'c sys \<Rightarrow> bool" where
  "evacuated dead stp s s' \<longleftrightarrow> threads s' = threads s \<and> cpus s' = cpus s \<and> active s' = active s \<and>
     (\<forall>p. on_rq (tasks s' p) = on_rq (tasks s p) \<and> state (tasks s' p) = state (tasks s p)) \<and>
     (\<forall>p. if to_move dead stp s p
          then task_cpu (tasks s' p) \<in> set (active s) \<and> task_cpu (tasks s' p) \<in> set (cpus_allowed (tasks s' p))
          else tasks s' p = tasks s p)"

lemma call_pick_class:
  assumes "picks_ok H" "call_pick H k c s = (s1, o1)"
  shows "same_view s s1"
    "k = stop_sched_class \<Longrightarrow> stop (rqs s c) = None \<Longrightarrow> o1 = None"
    "k \<in> {rt_sched_class, fair_sched_class} \<Longrightarrow> o1 = Some p \<Longrightarrow>
       p \<in> set (threads s) \<and> on_rq (tasks s p) \<and> task_cpu (tasks s p) = c \<and> sclass (tasks s p) = k"
    "k \<in> {rt_sched_class, fair_sched_class} \<Longrightarrow> o1 = None \<Longrightarrow> q \<in> set (threads s) \<Longrightarrow> on_rq (tasks s q) \<Longrightarrow>
       task_cpu (tasks s q) = c \<Longrightarrow> sclass (tasks s q) \<noteq> k"
proof -
  have s1: "s1 = call (\<lambda>s. snd (pick_next_method H k c s)) s" and o1: "o1 = fst (pick_next_method H k c s)"
    using assms(2) by (simp_all add: call_pick_def)
  show "same_view s s1" unfolding s1 by (rule silent)
  show "k = stop_sched_class \<Longrightarrow> stop (rqs s c) = None \<Longrightarrow> o1 = None"
    using assms(1) by (simp add: picks_ok_def o1)
  have k: "case o1 of Some p \<Rightarrow> p \<in> set (threads s) \<and> on_rq (tasks s p) \<and> task_cpu (tasks s p) = c \<and> sclass (tasks s p) = k
      | None \<Rightarrow> \<forall>p \<in> set (threads s). on_rq (tasks s p) \<and> task_cpu (tasks s p) = c \<longrightarrow> sclass (tasks s p) \<noteq> k"
    if "k \<in> {rt_sched_class, fair_sched_class}"
    using assms(1) that unfolding picks_ok_def o1 by blast
  show "k \<in> {rt_sched_class, fair_sched_class} \<Longrightarrow> o1 = Some p \<Longrightarrow>
       p \<in> set (threads s) \<and> on_rq (tasks s p) \<and> task_cpu (tasks s p) = c \<and> sclass (tasks s p) = k"
    using k by simp
  show "k \<in> {rt_sched_class, fair_sched_class} \<Longrightarrow> o1 = None \<Longrightarrow> q \<in> set (threads s) \<Longrightarrow> on_rq (tasks s q) \<Longrightarrow>
       task_cpu (tasks s q) = c \<Longrightarrow> sclass (tasks s q) \<noteq> k"
    using k by simp
qed

lemma to_move_view: "same_view s s' \<Longrightarrow> to_move dead stp s' p = to_move dead stp s p"
  by (simp add: to_move_def same_view_def)

lemma dying_view: "same_view s s' \<Longrightarrow> dying K H dead stp s \<Longrightarrow> dying K H dead stp s'"
  using acct_view [of s s' K] by (simp add: dying_def same_view_def)

text \<open>While there is a task to move, one is picked.\<close>

lemma pick_in_order_moves:
  assumes P: "picks_ok H" and s: "dying K H dead stp s" "stop (rqs s dead) = None" "to_move dead stp s q"
  shows "\<exists>s1 p. pick_in_order H (class_order H) dead s = Some (s1, p) \<and> same_view s s1 \<and> to_move dead stp s p"
proof -
  obtain s1 o1 where 1: "call_pick H stop_sched_class dead s = (s1, o1)" by fastforce
  then have o1: "o1 = None" and v1: "same_view s s1" using call_pick_class(1,2) [OF P 1] s(2) by simp_all
  obtain s2 o2 where 2: "call_pick H rt_sched_class dead s1 = (s2, o2)" by fastforce
  note rt = call_pick_class [OF P 2]
  obtain s3 o3 where 3: "call_pick H fair_sched_class dead s2 = (s3, o3)" by fastforce
  note fair = call_pick_class [OF P 3]
  have order: "class_order H = [stop_sched_class, rt_sched_class, fair_sched_class, idle_sched_class]"
    using P by (simp add: picks_ok_def)
  have v2: "same_view s s2" and v3: "same_view s s3"
    using same_view_trans v1 rt(1) fair(1) by blast+
  have cls: "sclass (tasks s q) \<in> {rt_sched_class, fair_sched_class}"
    using s(1,3) by (auto simp: dying_def to_move_def)
  have moves: "to_move dead stp s p" if "p \<in> set (threads s)" "on_rq (tasks s p)" "task_cpu (tasks s p) = dead"
    "sclass (tasks s p) \<noteq> stop_sched_class" for p
    using that s(1) by (auto simp: to_move_def dying_def)
  show ?thesis
  proof (cases o2)
    case (Some p)
    then have "to_move dead stp s p" using rt(3) [of p] same_viewD [OF v1] by (intro moves) auto
    then show ?thesis using 1 2 o1 Some v2 by (simp add: order)
  next
    case None
    have q: "q \<in> set (threads s)" "on_rq (tasks s q)" "task_cpu (tasks s q) = dead"
      using s(3) by (simp_all add: to_move_def)
    then have "sclass (tasks s q) = fair_sched_class"
      using rt(4) [of q] None cls same_viewD [OF v1] by auto
    then obtain p where p: "o3 = Some p" using fair(4) [of q] q same_viewD [OF v2] by (cases o3) auto
    then have "to_move dead stp s p" using fair(3) [of p] same_viewD [OF v2] by (intro moves) auto
    then show ?thesis using 1 2 3 o1 None p v3 by (simp add: order)
  qed
qed

lemma pick_moves:
  assumes P: "picks_ok H" and s: "dying K H dead stp s" "stop (rqs s dead) = None" "to_move dead stp s q"
  shows "\<exists>s1 p. pick_next_task H dead s = Some (s1, p) \<and> same_view s s1 \<and> to_move dead stp s p"
proof (cases "nr_running (rqs s dead) = cfs_nr_running H (ext s) dead")
  case False
  then show ?thesis using pick_in_order_moves [OF assms] by (simp add: pick_next_task_def)
next
  case True
  obtain s1 o1 where 1: "call_pick H fair_sched_class dead s = (s1, o1)" by fastforce
  note fair = call_pick_class [OF P 1]
  show ?thesis
  proof (cases o1)
    case (Some p)
    then have "to_move dead stp s p" using fair(3) [of p] s(1) by (auto simp: to_move_def dying_def)
    then show ?thesis using True 1 Some fair(1) by (simp add: pick_next_task_def)
  next
    case None
    have "stop (rqs s1 dead) = None" "to_move dead stp s1 q" "dying K H dead stp s1"
      using s to_move_view [OF fair(1)] dying_view [OF fair(1)] fair(1) by (auto simp: same_view_def rq_view_def)
    then obtain s2 p where "pick_in_order H (class_order H) dead s1 = Some (s2, p)" "same_view s1 s2"
      "to_move dead stp s1 p" using pick_in_order_moves [OF P] by blast
    then show ?thesis using True 1 None fair(1) to_move_view [OF fair(1)] same_view_trans
      by (auto simp: pick_next_task_def)
  qed
qed

text \<open>The counter of the runqueue says whether there is one.\<close>

lemma last_one:
  assumes "dying K H dead stp s"
  shows "nr_running (rqs s dead) = 1 \<longleftrightarrow> (\<forall>p. \<not> to_move dead stp s p)"
proof -
  note d = assms [unfolded dying_def]
  let ?Q = "\<lambda>p. on_rq (tasks s p) \<and> task_cpu (tasks s p) = dead"
  have n: "nr_running (rqs s dead) = of_nat (queued_on s dead)" using d by (simp add: acct_def)
  have "queued_on s dead < 2 ^ 32"
    using d count_if_le_length [of ?Q "threads s"] by (simp add: queued_on_def)
  then have "unat (of_nat (queued_on s dead) :: ul) = queued_on s dead"
    by (simp add: unsigned_of_nat take_bit_nat_eq_self)
  then have "nr_running (rqs s dead) = 1 \<longleftrightarrow> queued_on s dead = 1"
    unfolding n by (metis of_nat_1 unsigned_1)
  also have "\<dots> \<longleftrightarrow> (\<forall>p. \<not> to_move dead stp s p)"
  proof -
    have "queued_on s dead = card {p \<in> set (threads s). ?Q p}"
      using d distinct_length_filter [of "threads s" ?Q]
      by (simp add: queued_on_def count_if_def acct_def Int_def conj_commute)
    moreover have "{p \<in> set (threads s). ?Q p} = insert stp {p. to_move dead stp s p}"
      using d by (auto simp: to_move_def)
    moreover have "finite {p. to_move dead stp s p}"
      by (rule finite_subset [of _ "set (threads s)"]) (auto simp: to_move_def)
    moreover have "stp \<notin> {p. to_move dead stp s p}" by (simp add: to_move_def)
    ultimately show ?thesis by simp
  qed
  finally show ?thesis .
qed

section \<open>One turn of the loop\<close>

definition one_turn :: "kconsts \<Rightarrow> 'c hooks \<Rightarrow> nat \<Rightarrow> nat \<Rightarrow> 'c sys \<Rightarrow> 'c sys" where
  "one_turn K H dead nxt s =
     (let s = call (put_prev_method H (sclass (tasks s nxt)) dead nxt) s;
          (dest, msk) = select_fallback_rq H s dead nxt
      in fst (do_migrate_task K H nxt dead dest (set_task nxt (\<lambda>t. t\<lparr>cpus_allowed := msk\<rparr>) s)))"

lemma migrate_loop_turn:
  "migrate_loop K H dead s =
     (if nr_running (rqs s dead) = 1 then Some s
      else Option.bind (pick_next_task H dead s) (\<lambda>(s, nxt). migrate_loop K H dead (one_turn K H dead nxt s)))"
  by (subst migrate_loop.simps) (simp add: one_turn_def Let_def split_beta)

lemma one_turn_moves:
  assumes s: "dying K H dead stp s" "stop (rqs s dead) = None" "to_move dead stp s p"
  defines "s' \<equiv> one_turn K H dead p s"
  shows "dying K H dead stp s'" "stop (rqs s' dead) = None"
    "threads s' = threads s" "cpus s' = cpus s" "active s' = active s"
    "\<And>q. q \<noteq> p \<Longrightarrow> tasks s' q = tasks s q"
    "on_rq (tasks s' p)" "state (tasks s' p) = state (tasks s p)"
    "task_cpu (tasks s' p) \<in> set (active s)" "task_cpu (tasks s' p) \<in> set (cpus_allowed (tasks s' p))"
proof -
  note d = s(1) [unfolded dying_def] and m = s(3) [unfolded to_move_def]
  define s2 where "s2 = call (put_prev_method H (sclass (tasks s p)) dead p) s"
  obtain dest msk where f: "select_fallback_rq H s2 dead p = (dest, msk)" by fastforce
  define s3 where "s3 = set_task p (\<lambda>t. t\<lparr>cpus_allowed := msk\<rparr>) s2"
  have dest: "dest \<in> set (active s)" "dest \<in> set msk"
    using fallback_active [OF _ f] d by (simp_all add: s2_def)
  have s': "s' = check_preempt_curr H dest p 0
      (activate_task K H dest p 0 (set_task_cpu p dest (deactivate_task K H dead p 0 s3)))"
    unfolding s'_def one_turn_def using dest m f
    by (simp add: do_migrate_task_def Let_def s3_def s2_def)
  show views: "stop (rqs s' dead) = None" "threads s' = threads s" "cpus s' = cpus s" "active s' = active s"
    "\<And>q. q \<noteq> p \<Longrightarrow> tasks s' q = tasks s q" "on_rq (tasks s' p)" "state (tasks s' p) = state (tasks s p)"
    "task_cpu (tasks s' p) \<in> set (active s)" "task_cpu (tasks s' p) \<in> set (cpus_allowed (tasks s' p))"
    using s(2) dest by (simp_all add: s' s3_def s2_def)
  have "acct K s3"
    by (rule same_acct_cong [of K s]) (use d in \<open>auto simp: s3_def s2_def same_acct_def\<close>)
  then have "acct K (activate_task K H dest p 0 (set_task_cpu p dest (deactivate_task K H dead p 0 s3)))"
    using d m dest by (intro acct_move) (auto simp: s3_def s2_def)
  then have "acct K s'" unfolding s' by (rule acct_view [OF same_view_preempt])
  moreover have "dest \<noteq> dead" using d dest by auto
  ultimately show "dying K H dead stp s'"
    unfolding dying_def views using d m by (auto simp: s' s3_def s2_def)
qed

lemma dying_stop:
  assumes "dying K H dead stp s"
  shows "dying K H dead stp (set_rq c (\<lambda>r. r\<lparr>stop := x\<rparr>) s)"
proof -
  have "acct K (set_rq c (\<lambda>r. r\<lparr>stop := x\<rparr>) s)"
    by (rule same_acct_cong [of K s]) (use assms in \<open>auto simp: dying_def same_acct_def\<close>)
  then show ?thesis using assms by (simp add: dying_def)
qed

text \<open>Each turn leaves one task less to move.\<close>

lemma loop_ends:
  assumes "picks_ok H" "dying K H dead stp s" "stop (rqs s dead) = None"
  shows "\<exists>s'. migrate_loop K H dead s = Some s' \<and> evacuated dead stp s s' \<and> dying K H dead stp s' \<and>
    nr_running (rqs s' dead) = 1"
  using assms(2,3)
proof (induction "card {p. to_move dead stp s p}" arbitrary: s)
  case 0
  then have none: "\<not> to_move dead stp s p" for p
    using finite_subset [of "{p. to_move dead stp s p}" "set (threads s)"] by (auto simp: to_move_def)
  then show ?case using 0 last_one [of K H dead stp s]
    by (subst migrate_loop_turn) (simp add: evacuated_def)
next
  case (Suc n)
  obtain q where q: "to_move dead stp s q"
    using Suc.hyps(2) by (metis (no_types, lifting) card.empty empty_Collect_eq nat.distinct(1))
  obtain s1 p where pk: "pick_next_task H dead s = Some (s1, p)" and v: "same_view s s1" and p: "to_move dead stp s p"
    using pick_moves [OF assms(1) Suc.prems q] by blast
  have s1: "dying K H dead stp s1" "stop (rqs s1 dead) = None" "to_move dead stp s1 p"
    using Suc.prems p dying_view [OF v] to_move_view [OF v] v by (auto simp: same_view_def rq_view_def)
  define s2 where "s2 = one_turn K H dead p s1"
  note turn = one_turn_moves [OF s1, folded s2_def]
  note same = same_viewD [OF v]
  have dead: "dead \<notin> set (active s)" using Suc.prems(1) by (simp add: dying_def)
  have rest: "to_move dead stp s2 r \<longleftrightarrow> to_move dead stp s r \<and> r \<noteq> p" for r
  proof (cases "r = p")
    case True
    have "task_cpu (tasks s2 p) \<noteq> dead" using turn(9) dead same by auto
    then show ?thesis using True by (simp add: to_move_def)
  next
    case False
    then show ?thesis using turn(3,6) same by (simp add: to_move_def)
  qed
  have "n = card {r. to_move dead stp s2 r}"
  proof -
    have "{r. to_move dead stp s2 r} = {r. to_move dead stp s r} - {p}" using rest by auto
    then show ?thesis using Suc.hyps(2) p by (simp add: card_Diff_singleton)
  qed
  from Suc.hyps(1) [OF this turn(1,2)] obtain s' where
    s': "migrate_loop K H dead s2 = Some s'" "evacuated dead stp s2 s'" "dying K H dead stp s'"
      "nr_running (rqs s' dead) = 1"
    by blast
  have "nr_running (rqs s dead) \<noteq> 1" using last_one [OF Suc.prems(1)] q by blast
  then have "migrate_loop K H dead s = Some s'"
    using pk s'(1) by (subst migrate_loop_turn) (simp add: s2_def)
  moreover have "evacuated dead stp s s'"
  proof -
    note e = s'(2) [unfolded evacuated_def]
    have old: "tasks s' r = tasks s2 r" if "\<not> to_move dead stp s2 r" for r using e that by simp
    have "if to_move dead stp s r
        then task_cpu (tasks s' r) \<in> set (active s) \<and> task_cpu (tasks s' r) \<in> set (cpus_allowed (tasks s' r))
        else tasks s' r = tasks s r" for r
    proof (cases "r = p")
      case True
      then show ?thesis using p old [of p] rest [of p] turn(9,10) same by simp
    next
      case False
      then have "tasks s2 r = tasks s r" using turn(6) [of r] same by simp
      moreover have "if to_move dead stp s r
          then task_cpu (tasks s' r) \<in> set (active s2) \<and> task_cpu (tasks s' r) \<in> set (cpus_allowed (tasks s' r))
          else tasks s' r = tasks s2 r" using e rest [of r] False by simp
      ultimately show ?thesis using turn(5) same by (auto split: if_splits)
    qed
    moreover have "on_rq (tasks s' r) = on_rq (tasks s r) \<and> state (tasks s' r) = state (tasks s r)" for r
      using e turn(6) [of r] turn(7,8) p same by (cases "r = p") (simp_all add: to_move_def)
    ultimately show ?thesis using e turn(3-5) same by (simp add: evacuated_def)
  qed
  ultimately show ?case using s'(3,4) by blast
qed

section \<open>The property\<close>

text \<open>
  C37 (processor_is_evacuated): on a processor that is no longer active and where every queued task
  but the stop thread is a normal or a real-time task, \<open>migrate_tasks\<close> ends without a \<open>BUG\<close>: only the
  stop thread is left on the runqueue, every other task is queued on an active processor that its
  mask allows, no other task has changed, the counters of all runqueues are exact, and the stop
  thread of the runqueue is back in its place.
\<close>

theorem processor_is_evacuated:
  assumes "picks_ok H" "dying K H dead stp s"
  shows "\<exists>s'. migrate_tasks K H dead s = Some s' \<and> evacuated dead stp s s' \<and> acct K s' \<and>
    nr_running (rqs s' dead) = 1 \<and> stop (rqs s' dead) = stop (rqs s dead)"
proof -
  define s0 where "s0 = set_rq dead (\<lambda>r. r\<lparr>stop := None\<rparr>) s"
  have "dying K H dead stp s0" unfolding s0_def by (rule dying_stop [OF assms(2)])
  then obtain s' where s': "migrate_loop K H dead s0 = Some s'" "evacuated dead stp s0 s'" "dying K H dead stp s'"
      "nr_running (rqs s' dead) = 1"
    using loop_ends [OF assms(1)] by (fastforce simp: s0_def)
  define t where "t = set_rq dead (\<lambda>r. r\<lparr>stop := stop (rqs s dead)\<rparr>) s'"
  have "migrate_tasks K H dead s = Some t" using s'(1) by (simp add: migrate_tasks_def s0_def t_def)
  moreover have "dying K H dead stp t" unfolding t_def by (rule dying_stop [OF s'(3)])
  moreover have "evacuated dead stp s t"
    using s'(2) by (auto simp: evacuated_def to_move_def s0_def t_def split: if_splits)
  ultimately show ?thesis using s'(4) by (auto simp: t_def dying_def)
qed

text \<open>Processor 1 goes down with the stop thread 4 and the normal task 3 on it.\<close>

definition down_hooks :: "unit hooks" where
  "down_hooks = sample_hooks\<lparr>pick_next_method := (\<lambda>k c s.
     (case k of
        stop_sched_class \<Rightarrow> (case stop (rqs s c) of Some p \<Rightarrow> if on_rq (tasks s p) then Some p else None | None \<Rightarrow> None)
      | idle_sched_class \<Rightarrow> Some (idle (rqs s c))
      | _ \<Rightarrow> find (\<lambda>p. on_rq (tasks s p) \<and> task_cpu (tasks s p) = c \<and> sclass (tasks s p) = k) (threads s),
      (), need_resched s))\<rparr>"

definition down_sys :: "unit sys" where
  "down_sys = \<lparr>threads = [0, 1, 3, 4], cpus = [0, 1], online = (\<lambda>c. c = 0), active = [0],
     tasks = (\<lambda>p. if p = 0 then thread_of 0 False 0 else if p = 1 then thread_of 1 False 0
               else if p = 3 then thread_of 1 True 0 else (thread_of 1 True 0)\<lparr>sclass := stop_sched_class\<rparr>),
     rqs = (\<lambda>c. if c = 0 then rq_of 0 0 0 0 else (rq_of 1 4 2 0)\<lparr>stop := Some 4\<rparr>),
     need_resched = (\<lambda>_. False), ext = ()\<rparr>"

lemma down_hooks_ok: "picks_ok down_hooks"
  by (auto simp: picks_ok_def down_hooks_def sample_hooks_def find_Some_iff find_None_iff
      split: option.splits sched_class.splits)

lemma down_sys_dying: "dying linux_consts down_hooks 1 4 down_sys"
  by (auto simp: dying_def fallback_ok_def acct_def queued_on_def sleeping_tasks_def uninterruptible_sum_def
      down_sys_def down_hooks_def sample_hooks_def thread_of_def rq_of_def linux_consts_def
      task_contributes_to_load_def find_Some_iff)

theorem processor_is_evacuated_witness:
  "\<exists>s'. migrate_tasks linux_consts down_hooks 1 down_sys = Some s' \<and> nr_running (rqs s' 1) = 1 \<and>
     on_rq (tasks s' 3) \<and> task_cpu (tasks s' 3) = 0 \<and> stop (rqs s' 1) = Some 4"
proof -
  obtain s' where s': "migrate_tasks linux_consts down_hooks 1 down_sys = Some s'" "evacuated 1 4 down_sys s'"
    "nr_running (rqs s' 1) = 1" "stop (rqs s' 1) = stop (rqs down_sys 1)"
    using processor_is_evacuated [OF down_hooks_ok down_sys_dying] by blast
  have "to_move 1 4 down_sys 3" by (simp add: to_move_def down_sys_def thread_of_def)
  then have "task_cpu (tasks s' 3) \<in> set (active down_sys)" "on_rq (tasks s' 3)"
    using s'(2) by (auto simp: evacuated_def to_move_def)
  then show ?thesis using s' by (auto simp: down_sys_def rq_of_def)
qed

end
