(* ===== verification/SchedDomains.thy ===== *)
theory SchedDomains
  imports SchedBase
begin

text \<open>
  The scheduling domains of opcional2/kernel/sched.c: which domains of a processor are kept, the
  groups of a domain, the nodes it spans, the root domains with their reference counts, the
  allocations behind a set of domains, and the change from one partition of the processors to
  another.  A mask is the list of its processors; pointers to the parent give a list, from the lowest
  domain of a processor up, whose order backwards are the pointers to the child.
\<close>

section \<open>Masks\<close>

definition cpumask_weight :: "nat list \<Rightarrow> nat" where
  "cpumask_weight m = length (remdups m)"

definition cpumask_equal :: "nat list \<Rightarrow> nat list \<Rightarrow> bool" where
  "cpumask_equal a b \<longleftrightarrow> set a = set b"

section \<open>Domains that do not contribute\<close>

text \<open>The flags of include/linux/sched.h, and what its initialisers say.\<close>

record sd_consts =
  SD_LOAD_BALANCE :: u32
  SD_BALANCE_NEWIDLE :: u32
  SD_BALANCE_FORK :: u32
  SD_BALANCE_EXEC :: u32
  SD_BALANCE_WAKE_FLAG :: u32
  SD_WAKE_AFFINE :: u32
  SD_SHARE_CPUPOWER :: u32
  SD_SHARE_PKG_RESOURCES :: u32
  SD_SERIALIZE :: u32
  SCHED_LOAD_SCALE :: u32
  SCHED_LOAD_SHIFT :: nat
  SD_LV_MAX :: ul
  SD_ATTR_INIT :: int

text \<open>\<open>sd_groups\<close> is the ring of groups from \<open>sd->groups\<close> on, by the numbers of the groups; it is never empty.\<close>

record sched_domain =
  sd_span :: "nat list"
  sd_flags :: u32
  sd_groups :: "nat list"
  sd_level :: int
  smt_gain :: u32
  span_weight :: nat

definition group_flags :: "sd_consts \<Rightarrow> u32" where
  "group_flags D = SD_LOAD_BALANCE D OR SD_BALANCE_NEWIDLE D OR SD_BALANCE_FORK D OR SD_BALANCE_EXEC D OR
     SD_SHARE_CPUPOWER D OR SD_SHARE_PKG_RESOURCES D"

definition sd_degenerate :: "sd_consts \<Rightarrow> sched_domain \<Rightarrow> bool" where
  "sd_degenerate D sd =
     (if cpumask_weight (sd_span sd) = 1 then True
      else if sd_flags sd AND group_flags D \<noteq> 0 \<and> length (sd_groups sd) \<noteq> 1 then False
      else if sd_flags sd AND SD_WAKE_AFFINE D \<noteq> 0 then False
      else True)"

definition sd_parent_degenerate :: "sd_consts \<Rightarrow> nat \<Rightarrow> sched_domain \<Rightarrow> sched_domain \<Rightarrow> bool" where
  "sd_parent_degenerate D nr_node_ids sd parent =
     (let cflags = sd_flags sd; pflags = sd_flags parent in
      if sd_degenerate D parent then True
      else if \<not> cpumask_equal (sd_span sd) (sd_span parent) then False
      else
        let pflags = (if length (sd_groups parent) = 1
                      then let pflags = pflags AND NOT (group_flags D)
                           in if nr_node_ids = 1 then pflags AND NOT (SD_SERIALIZE D) else pflags
                      else pflags)
        in if NOT cflags AND pflags \<noteq> 0 then False else True)"

text \<open>The loop of \<open>cpu_attach_domain\<close>, from \<open>tmp\<close> on.\<close>

fun remove_parents :: "sd_consts \<Rightarrow> nat \<Rightarrow> sched_domain list \<Rightarrow> sched_domain list" where
  "remove_parents D n (tmp # parent # ds) =
     (if sd_parent_degenerate D n tmp parent then remove_parents D n (tmp # ds)
      else tmp # remove_parents D n (parent # ds))"
| "remove_parents D n ds = ds"

definition attached_chain :: "sd_consts \<Rightarrow> nat \<Rightarrow> sched_domain list \<Rightarrow> sched_domain list" where
  "attached_chain D n sds =
     (let sds = map (\<lambda>tmp. tmp\<lparr>span_weight := cpumask_weight (sd_span tmp)\<rparr>) sds;
          sds = remove_parents D n sds
      in case sds of
           [] \<Rightarrow> []
         | sd # ds \<Rightarrow> if sd_degenerate D sd then ds else sds)"

section \<open>Root domains\<close>

text \<open>\<^const>\<open>None\<close> for a root domain that is not allocated; \<open>rq_sd\<close> is the chain of a runqueue.\<close>

record root_domain =
  refcount :: s32
  root_span :: "nat list"
  root_online :: "nat list"

record root_sys =
  roots :: "nat \<Rightarrow> root_domain option"
  rq_rd :: "nat \<Rightarrow> nat option"
  rq_online :: "nat \<Rightarrow> bool"
  rq_sd :: "nat \<Rightarrow> sched_domain list"

definition set_root :: "nat \<Rightarrow> root_domain \<Rightarrow> root_sys \<Rightarrow> root_sys" where
  "set_root r d s = s\<lparr>roots := (roots s)(r \<mapsto> d)\<rparr>"

text \<open>
  \<^const>\<open>None\<close> is an access to a root domain that has been freed, or through a null pointer.  The
  methods of the classes that are called here only touch what the classes keep.
\<close>

definition set_rq_online :: "nat \<Rightarrow> root_sys \<Rightarrow> root_sys option" where
  "set_rq_online cpu s =
     (if \<not> rq_online s cpu
      then do {
        r \<leftarrow> rq_rd s cpu; d \<leftarrow> roots s r;
        let s = set_root r (d\<lparr>root_online := List.insert cpu (root_online d)\<rparr>) s;
        Some (s\<lparr>rq_online := (rq_online s)(cpu := True)\<rparr>) }
      else Some s)"

definition set_rq_offline :: "nat \<Rightarrow> root_sys \<Rightarrow> root_sys option" where
  "set_rq_offline cpu s =
     (if rq_online s cpu
      then do {
        r \<leftarrow> rq_rd s cpu; d \<leftarrow> roots s r;
        let s = set_root r (d\<lparr>root_online := removeAll cpu (root_online d)\<rparr>) s;
        Some (s\<lparr>rq_online := (rq_online s)(cpu := False)\<rparr>) }
      else Some s)"

definition free_rootdomain :: "nat \<Rightarrow> root_sys \<Rightarrow> root_sys" where
  "free_rootdomain r s = s\<lparr>roots := (roots s)(r := None)\<rparr>"

text \<open>The first part leaves the old root domain; its result says whether it has to be freed at the end.\<close>

definition leave_root :: "nat \<Rightarrow> root_sys \<Rightarrow> (root_sys \<times> nat option) option" where
  "leave_root cpu s =
     (case rq_rd s cpu of
        None \<Rightarrow> Some (s, None)
      | Some old_rd \<Rightarrow> do {
          d \<leftarrow> roots s old_rd;
          s \<leftarrow> (if cpu \<in> set (root_online d) then set_rq_offline cpu s else Some s);
          d \<leftarrow> roots s old_rd;
          let s = set_root old_rd (d\<lparr>root_span := removeAll cpu (root_span d), refcount := refcount d - 1\<rparr>) s;
          Some (s, if refcount d - 1 = 0 then Some old_rd else None) })"

definition rq_attach_root :: "nat list \<Rightarrow> nat \<Rightarrow> nat \<Rightarrow> root_sys \<Rightarrow> root_sys option" where
  "rq_attach_root act cpu rd s = do {
     (s, old_rd) \<leftarrow> leave_root cpu s;
     d \<leftarrow> roots s rd;
     let s = set_root rd (d\<lparr>refcount := refcount d + 1, root_span := List.insert cpu (root_span d)\<rparr>) s;
     let s = s\<lparr>rq_rd := (rq_rd s)(cpu \<mapsto> rd)\<rparr>;
     s \<leftarrow> (if cpu \<in> set act then set_rq_online cpu s else Some s);
     Some (case old_rd of Some r \<Rightarrow> free_rootdomain r s | None \<Rightarrow> s) }"

text \<open>Which of the four allocations succeed; the result is the return value and what stays allocated.\<close>

datatype rd_block = Rd_span | Rd_online | Rd_rto_mask | Rd_cpupri

definition init_rootdomain :: "(rd_block \<Rightarrow> bool) \<Rightarrow> int \<times> rd_block list" where
  "init_rootdomain ok =
     (if \<not> ok Rd_span then (- ENOMEM, [])
      else if \<not> ok Rd_online then (- ENOMEM, removeAll Rd_span [Rd_span])
      else if \<not> ok Rd_rto_mask then (- ENOMEM, removeAll Rd_span (removeAll Rd_online [Rd_span, Rd_online]))
      else if \<not> ok Rd_cpupri
      then (- ENOMEM, removeAll Rd_span (removeAll Rd_online (removeAll Rd_rto_mask [Rd_span, Rd_online, Rd_rto_mask])))
      else (0, [Rd_span, Rd_online, Rd_rto_mask, Rd_cpupri]))"

text \<open>\<open>r\<close> is the address that \<open>kmalloc\<close> returns, if it does.\<close>

definition alloc_rootdomain :: "nat option \<Rightarrow> (rd_block \<Rightarrow> bool) \<Rightarrow> root_sys \<Rightarrow> root_sys \<times> nat option" where
  "alloc_rootdomain r ok s =
     (case r of
        None \<Rightarrow> (s, None)
      | Some r \<Rightarrow> if fst (init_rootdomain ok) \<noteq> 0 then (s, None)
                  else (set_root r \<lparr>refcount = 0, root_span = [], root_online = []\<rparr> s, Some r))"

definition cpu_attach_domain ::
  "sd_consts \<Rightarrow> nat \<Rightarrow> nat list \<Rightarrow> sched_domain list \<Rightarrow> nat \<Rightarrow> nat \<Rightarrow> root_sys \<Rightarrow> root_sys option" where
  "cpu_attach_domain D nr_node_ids act sds rd cpu s = do {
     s \<leftarrow> rq_attach_root act cpu rd s;
     Some (s\<lparr>rq_sd := (rq_sd s)(cpu := attached_chain D nr_node_ids sds)\<rparr>) }"

end
