(* ===== verification/SchedTopology.thy ===== *)
theory SchedTopology
  imports SchedDomains
begin

text \<open>
  How opcional2/kernel/sched.c builds the scheduling domains of a set of processors: the span and the
  groups of a domain at each level of the topology, the rings of the groups and their power, and
  the groups of the memory nodes.

  The options of the configuration are fields, so that every branch of the preprocessor is there.
  The topology (which processors share a core, a package, a book, a node) comes from the
  architecture and is a parameter, and so are the initialisers of include/linux/topology.h.
\<close>

section \<open>The topology\<close>

datatype sd_lv = LV_SIBLING | LV_MC | LV_BOOK | LV_CPU | LV_NODE | LV_ALLNODES

record topology =
  CONFIG_NUMA :: bool
  CONFIG_SCHED_SMT :: bool
  CONFIG_SCHED_MC :: bool
  CONFIG_SCHED_BOOK :: bool
  nr_cpu_ids :: nat
  nr_node_ids :: nat
  thread_mask :: "nat \<Rightarrow> nat list"
  core_mask :: "nat \<Rightarrow> nat list"
  book_mask :: "nat \<Rightarrow> nat list"
  node_mask :: "nat \<Rightarrow> nat list"
  node_of :: "nat \<Rightarrow> nat"
  node_distance :: "nat \<Rightarrow> nat \<Rightarrow> int"
  sd_template :: "sd_lv \<Rightarrow> sched_domain"
  sd_lv_number :: "sd_lv \<Rightarrow> int"
  consts_of :: sd_consts

definition each_cpu :: "nat list \<Rightarrow> nat list" where
  "each_cpu m = sort (remdups m)"

definition cpumask_and :: "nat list \<Rightarrow> nat list \<Rightarrow> nat list" where
  "cpumask_and a b = filter (\<lambda>c. c \<in> set b) a"

definition cpumask_first :: "topology \<Rightarrow> nat list \<Rightarrow> nat" where
  "cpumask_first T m = (case each_cpu m of [] \<Rightarrow> nr_cpu_ids T | c # _ \<Rightarrow> c)"

section \<open>The group of a processor\<close>

text \<open>
  Each of these gives the number of the group, which is also the processor whose entry of the
  level's table the group is.
\<close>

definition cpu_to_cpu_group :: "topology \<Rightarrow> nat list \<Rightarrow> nat \<Rightarrow> nat" where
  "cpu_to_cpu_group T cpu_map cpu = cpu"

definition cpu_to_core_group :: "topology \<Rightarrow> nat list \<Rightarrow> nat \<Rightarrow> nat" where
  "cpu_to_core_group T cpu_map cpu =
     (if CONFIG_SCHED_SMT T then cpumask_first T (cpumask_and (thread_mask T cpu) cpu_map) else cpu)"

definition cpu_to_book_group :: "topology \<Rightarrow> nat list \<Rightarrow> nat \<Rightarrow> nat" where
  "cpu_to_book_group T cpu_map cpu =
     (if CONFIG_SCHED_MC T then cpumask_first T (cpumask_and (core_mask T cpu) cpu_map)
      else if CONFIG_SCHED_SMT T then cpumask_first T (cpumask_and (thread_mask T cpu) cpu_map)
      else cpu)"

definition cpu_to_phys_group :: "topology \<Rightarrow> nat list \<Rightarrow> nat \<Rightarrow> nat" where
  "cpu_to_phys_group T cpu_map cpu =
     (if CONFIG_SCHED_BOOK T then cpumask_first T (cpumask_and (book_mask T cpu) cpu_map)
      else if CONFIG_SCHED_MC T then cpumask_first T (cpumask_and (core_mask T cpu) cpu_map)
      else if CONFIG_SCHED_SMT T then cpumask_first T (cpumask_and (thread_mask T cpu) cpu_map)
      else cpu)"

definition cpu_to_allnodes_group :: "topology \<Rightarrow> nat list \<Rightarrow> nat \<Rightarrow> nat" where
  "cpu_to_allnodes_group T cpu_map cpu =
     cpumask_first T (cpumask_and (node_mask T (node_of T cpu)) cpu_map)"

section \<open>Rings of groups\<close>

text \<open>
  The groups of a level, by their number; \<open>sg_next\<close> is \<^const>\<open>None\<close> for the null pointer.
\<close>

record group_table =
  sg_cpus :: "nat \<Rightarrow> nat list"
  sg_power :: "nat \<Rightarrow> u32"
  sg_weight :: "nat \<Rightarrow> u32"
  sg_next :: "nat \<Rightarrow> nat option"

record ring_state =
  ring_tab :: group_table
  covered :: "nat list"
  ring_first :: "nat option"
  ring_last :: "nat option"

text \<open>One round of the outer loop; the inner loop is the filter of the span.\<close>

definition ring_round :: "(nat \<Rightarrow> nat) \<Rightarrow> nat list \<Rightarrow> nat \<Rightarrow> ring_state \<Rightarrow> ring_state" where
  "ring_round group_fn span i s =
     (let g = group_fn i in
      if i \<in> set (covered s) then s
      else
        let members = filter (\<lambda>j. group_fn j = g) (each_cpu span);
            t = ring_tab s;
            t = t\<lparr>sg_cpus := (sg_cpus t)(g := members), sg_power := (sg_power t)(g := 0)\<rparr>;
            t = (case ring_last s of Some l \<Rightarrow> t\<lparr>sg_next := (sg_next t)(l := Some g)\<rparr> | None \<Rightarrow> t)
        in \<lparr>ring_tab = t, covered = covered s @ members,
            ring_first = (case ring_first s of None \<Rightarrow> Some g | Some f \<Rightarrow> Some f), ring_last = Some g\<rparr>)"

text \<open>\<^const>\<open>None\<close> is the access through \<open>last\<close> when the span is empty.\<close>

definition init_sched_build_groups :: "(nat \<Rightarrow> nat) \<Rightarrow> nat list \<Rightarrow> group_table \<Rightarrow> group_table option" where
  "init_sched_build_groups group_fn span t =
     (let s = fold (ring_round group_fn span) (each_cpu span)
                \<lparr>ring_tab = t, covered = [], ring_first = None, ring_last = None\<rparr>;
          t = ring_tab s
      in case ring_last s of
           None \<Rightarrow> None
         | Some l \<Rightarrow> Some (t\<lparr>sg_next := (sg_next t)(l := ring_first s)\<rparr>))"

text \<open>
  A \<open>do ... while (group != first)\<close> loop over a ring: the groups it visits, or \<^const>\<open>None\<close> when it runs
  into a null pointer or has not come back after so many steps.
\<close>

fun ring_walk :: "group_table \<Rightarrow> nat \<Rightarrow> nat \<Rightarrow> nat \<Rightarrow> nat list option" where
  "ring_walk t 0 g first = None"
| "ring_walk t (Suc n) g first =
     (case sg_next t g of
        None \<Rightarrow> None
      | Some h \<Rightarrow> if h = first then Some [g]
                  else (case ring_walk t n h first of None \<Rightarrow> None | Some gs \<Rightarrow> Some (g # gs)))"

section \<open>The nodes near a node\<close>

definition SD_NODES_PER_DOMAIN :: nat where
  "SD_NODES_PER_DOMAIN = 16"

definition INT_MAX :: int where
  "INT_MAX = 2 ^ 31 - 1"

text \<open>The loop over \<open>i\<close>, with the shortest distance and the best node so far.\<close>

definition best_round :: "topology \<Rightarrow> nat \<Rightarrow> nat list \<Rightarrow> nat \<Rightarrow> int \<times> nat \<Rightarrow> int \<times> nat" where
  "best_round T node used i acc =
     (let n = (node + i) mod nr_node_ids T; (min_val, best_node) = acc in
      if cpumask_weight (node_mask T n) = 0 then acc
      else if n \<in> set used then acc
      else let val = node_distance T node n in if val < min_val then (val, n) else acc)"

definition find_next_best_node :: "topology \<Rightarrow> nat \<Rightarrow> nat list \<Rightarrow> nat \<times> nat list" where
  "find_next_best_node T node used =
     (let best_node = snd (fold (best_round T node used) [0..<nr_node_ids T] (INT_MAX, 0))
      in (best_node, List.insert best_node used))"

fun span_loop :: "topology \<Rightarrow> nat \<Rightarrow> nat \<Rightarrow> nat list \<Rightarrow> nat list \<Rightarrow> nat list" where
  "span_loop T node 0 used span = span"
| "span_loop T node (Suc n) used span =
     (let (next_node, used) = find_next_best_node T node used
      in span_loop T node n used (span @ node_mask T next_node))"

definition sched_domain_node_span :: "topology \<Rightarrow> nat \<Rightarrow> nat list" where
  "sched_domain_node_span T node =
     span_loop T node (SD_NODES_PER_DOMAIN - 1) [node] (node_mask T node)"

section \<open>The domains of a processor\<close>

text \<open>The static tables of the domains and of the groups, and what \<open>struct s_data\<close> has of them.\<close>

record built_domain = sched_domain +
  sd_group :: nat
  sd_parent :: "sd_lv option"
  sd_child :: "sd_lv option"

text \<open>A group of a node, allocated by \<open>kmalloc_node\<close>; the ring of a node is the list of its groups, the empty one for a null pointer.\<close>

record node_group =
  ng_cpus :: "nat list"
  ng_power :: u32

record topo_sys =
  sdom :: "sd_lv \<Rightarrow> nat \<Rightarrow> built_domain"
  grp :: "sd_lv \<Rightarrow> group_table"
  sd_allnodes :: bool
  node_rings :: "nat \<Rightarrow> node_group list"

definition put_dom :: "sd_lv \<Rightarrow> nat \<Rightarrow> built_domain \<Rightarrow> topo_sys \<Rightarrow> topo_sys" where
  "put_dom l i d s = s\<lparr>sdom := (sdom s)(l := (sdom s l)(i := d))\<rparr>"

definition put_grp :: "sd_lv \<Rightarrow> group_table \<Rightarrow> topo_sys \<Rightarrow> topo_sys" where
  "put_grp l t s = s\<lparr>grp := (grp s)(l := t)\<rparr>"

definition sd_init :: "topology \<Rightarrow> sd_lv \<Rightarrow> built_domain" where
  "sd_init T l =
     (let sd = sched_domain.extend (sd_template T l) \<lparr>sd_group = 0, sd_parent = None, sd_child = None\<rparr>
      in sd\<lparr>sd_level := sd_lv_number T l\<rparr>)"

text \<open>\<open>val\<close> is what \<open>simple_strtoul\<close> reads.\<close>

definition setup_relax_domain_level :: "sd_consts \<Rightarrow> ul \<Rightarrow> int \<Rightarrow> int \<times> int" where
  "setup_relax_domain_level D val dflt = (if val < SD_LV_MAX D then sint val else dflt, 1)"

definition set_domain_attribute :: "sd_consts \<Rightarrow> int \<Rightarrow> int option \<Rightarrow> 'a sched_domain_scheme \<Rightarrow> 'a sched_domain_scheme" where
  "set_domain_attribute D default_relax_domain_level attr sd =
     (let relax = (\<lambda>request.
            if request < sd_level sd
            then sd\<lparr>sd_flags := sd_flags sd AND NOT (SD_BALANCE_WAKE_FLAG D OR SD_BALANCE_NEWIDLE D)\<rparr>
            else sd\<lparr>sd_flags := sd_flags sd OR (SD_BALANCE_WAKE_FLAG D OR SD_BALANCE_NEWIDLE D)\<rparr>)
      in case attr of
           Some level \<Rightarrow> if level < 0
                         then (if default_relax_domain_level < 0 then sd else relax default_relax_domain_level)
                         else relax level
         | None \<Rightarrow> if default_relax_domain_level < 0 then sd else relax default_relax_domain_level)"

text \<open>What the construction of one set of domains is given: the processors, the attribute, the default level.\<close>

record build_args =
  topo :: topology
  cpu_map :: "nat list"
  dattr :: "int option"
  relax_default :: int

definition fresh_domain :: "build_args \<Rightarrow> sd_lv \<Rightarrow> built_domain" where
  "fresh_domain A l = set_domain_attribute (consts_of (topo A)) (relax_default A) (dattr A) (sd_init (topo A) l)"

text \<open>\<open>parent->child = sd\<close>.\<close>

definition set_child :: "sd_lv option \<Rightarrow> nat \<Rightarrow> sd_lv \<Rightarrow> topo_sys \<Rightarrow> topo_sys" where
  "set_child parent i l s =
     (case parent of None \<Rightarrow> s | Some p \<Rightarrow> put_dom p i ((sdom s p i)\<lparr>sd_child := Some l\<rparr>) s)"

definition build_numa_sched_domains :: "build_args \<Rightarrow> nat list \<Rightarrow> nat \<Rightarrow> topo_sys \<Rightarrow> topo_sys \<times> sd_lv option" where
  "build_numa_sched_domains A nodemask i s =
     (let T = topo A in
      if CONFIG_NUMA T then
        let s = s\<lparr>sd_allnodes := False\<rparr>;
            (s, parent) =
              (if SD_NODES_PER_DOMAIN * cpumask_weight nodemask < cpumask_weight (cpu_map A)
               then (put_dom LV_ALLNODES i ((fresh_domain A LV_ALLNODES)
                        \<lparr>sd_span := cpu_map A, sd_group := cpu_to_allnodes_group T (cpu_map A) i\<rparr>) s
                        \<lparr>sd_allnodes := True\<rparr>, Some LV_ALLNODES)
               else (s, None));
            sd = (fresh_domain A LV_NODE)
                   \<lparr>sd_span := cpumask_and (sched_domain_node_span T (node_of T i)) (cpu_map A), sd_parent := parent\<rparr>;
            s = set_child parent i LV_NODE (put_dom LV_NODE i sd s)
        in (s, Some LV_NODE)
      else (s, None))"

definition build_cpu_sched_domain ::
  "build_args \<Rightarrow> nat list \<Rightarrow> sd_lv option \<Rightarrow> nat \<Rightarrow> topo_sys \<Rightarrow> topo_sys \<times> sd_lv" where
  "build_cpu_sched_domain A nodemask parent i s =
     (let sd = (fresh_domain A LV_CPU)\<lparr>sd_span := nodemask, sd_parent := parent\<rparr>;
          s = set_child parent i LV_CPU (put_dom LV_CPU i sd s)
      in (put_dom LV_CPU i (sd\<lparr>sd_group := cpu_to_phys_group (topo A) (cpu_map A) i\<rparr>) s, LV_CPU))"

definition build_book_sched_domain :: "build_args \<Rightarrow> sd_lv \<Rightarrow> nat \<Rightarrow> topo_sys \<Rightarrow> topo_sys \<times> sd_lv" where
  "build_book_sched_domain A parent i s =
     (if CONFIG_SCHED_BOOK (topo A)
      then let sd = (fresh_domain A LV_BOOK)\<lparr>sd_span := cpumask_and (cpu_map A) (book_mask (topo A) i), sd_parent := Some parent\<rparr>;
               s = set_child (Some parent) i LV_BOOK (put_dom LV_BOOK i sd s)
           in (put_dom LV_BOOK i (sd\<lparr>sd_group := cpu_to_book_group (topo A) (cpu_map A) i\<rparr>) s, LV_BOOK)
      else (s, parent))"

definition build_mc_sched_domain :: "build_args \<Rightarrow> sd_lv \<Rightarrow> nat \<Rightarrow> topo_sys \<Rightarrow> topo_sys \<times> sd_lv" where
  "build_mc_sched_domain A parent i s =
     (if CONFIG_SCHED_MC (topo A)
      then let sd = (fresh_domain A LV_MC)\<lparr>sd_span := cpumask_and (cpu_map A) (core_mask (topo A) i), sd_parent := Some parent\<rparr>;
               s = set_child (Some parent) i LV_MC (put_dom LV_MC i sd s)
           in (put_dom LV_MC i (sd\<lparr>sd_group := cpu_to_core_group (topo A) (cpu_map A) i\<rparr>) s, LV_MC)
      else (s, parent))"

definition build_smt_sched_domain :: "build_args \<Rightarrow> sd_lv \<Rightarrow> nat \<Rightarrow> topo_sys \<Rightarrow> topo_sys \<times> sd_lv" where
  "build_smt_sched_domain A parent i s =
     (if CONFIG_SCHED_SMT (topo A)
      then let sd = (fresh_domain A LV_SIBLING)\<lparr>sd_span := cpumask_and (cpu_map A) (thread_mask (topo A) i), sd_parent := Some parent\<rparr>;
               s = set_child (Some parent) i LV_SIBLING (put_dom LV_SIBLING i sd s)
           in (put_dom LV_SIBLING i (sd\<lparr>sd_group := cpu_to_cpu_group (topo A) (cpu_map A) i\<rparr>) s, LV_SIBLING)
      else (s, parent))"

text \<open>The body of the first loop of \<open>__build_sched_domains\<close>.\<close>

definition build_domains_of :: "build_args \<Rightarrow> nat \<Rightarrow> topo_sys \<Rightarrow> topo_sys" where
  "build_domains_of A i s =
     (let nodemask = cpumask_and (node_mask (topo A) (node_of (topo A) i)) (cpu_map A);
          (s, parent) = build_numa_sched_domains A nodemask i s;
          (s, sd) = build_cpu_sched_domain A nodemask parent i s;
          (s, sd) = build_book_sched_domain A sd i s;
          (s, sd) = build_mc_sched_domain A sd i s;
          (s, sd) = build_smt_sched_domain A sd i s
      in s)"

section \<open>The groups of a level\<close>

definition groups_at :: "(nat \<Rightarrow> nat) \<Rightarrow> nat list \<Rightarrow> sd_lv \<Rightarrow> topo_sys \<Rightarrow> topo_sys option" where
  "groups_at group_fn span l s =
     map_option (\<lambda>t. put_grp l t s) (init_sched_build_groups group_fn span (grp s l))"

definition build_sched_groups :: "build_args \<Rightarrow> sd_lv \<Rightarrow> nat \<Rightarrow> topo_sys \<Rightarrow> topo_sys option" where
  "build_sched_groups A l cpu s =
     (let T = topo A; cm = cpu_map A in
      case l of
        LV_SIBLING \<Rightarrow>
          if CONFIG_SCHED_SMT T
          then let this_sibling_map = cpumask_and cm (thread_mask T cpu)
               in if cpu = cpumask_first T this_sibling_map
                  then groups_at (cpu_to_cpu_group T cm) this_sibling_map LV_SIBLING s else Some s
          else Some s
      | LV_MC \<Rightarrow>
          if CONFIG_SCHED_MC T
          then let this_core_map = cpumask_and cm (core_mask T cpu)
               in if cpu = cpumask_first T this_core_map
                  then groups_at (cpu_to_core_group T cm) this_core_map LV_MC s else Some s
          else Some s
      | LV_BOOK \<Rightarrow>
          if CONFIG_SCHED_BOOK T
          then let this_book_map = cpumask_and cm (book_mask T cpu)
               in if cpu = cpumask_first T this_book_map
                  then groups_at (cpu_to_book_group T cm) this_book_map LV_BOOK s else Some s
          else Some s
      | LV_CPU \<Rightarrow>
          let nodemask = cpumask_and (node_mask T cpu) cm
          in if nodemask \<noteq> [] then groups_at (cpu_to_phys_group T cm) nodemask LV_CPU s else Some s
      | LV_ALLNODES \<Rightarrow>
          if CONFIG_NUMA T then groups_at (cpu_to_allnodes_group T cm) cm LV_ALLNODES s else Some s
      | LV_NODE \<Rightarrow> Some s)"

section \<open>The groups of the memory nodes\<close>

text \<open>
  The loop of \<open>build_numa_sched_groups\<close> over the other nodes.  \<open>k\<close> counts the calls of
  \<open>kmalloc_node\<close>, of which those with \<open>ok k\<close> succeed; the result is whether all of them did, and the
  ring so far.
\<close>

fun node_loop ::
  "build_args \<Rightarrow> nat \<Rightarrow> nat list \<Rightarrow> (nat \<Rightarrow> bool) \<Rightarrow> nat list \<Rightarrow> nat \<Rightarrow> nat list \<Rightarrow> node_group list \<Rightarrow>
   bool \<times> node_group list" where
  "node_loop A num domainspan ok [] k cov ring = (True, ring)"
| "node_loop A num domainspan ok (j # js) k cov ring =
     (let n = (num + j) mod nr_node_ids (topo A);
          tmpmask = cpumask_and (filter (\<lambda>c. c \<notin> set cov) (cpu_map A)) domainspan in
      if tmpmask = [] then (True, ring)
      else
        let tmpmask = cpumask_and tmpmask (node_mask (topo A) n) in
        if tmpmask = [] then node_loop A num domainspan ok js k cov ring
        else if \<not> ok k then (False, ring)
        else node_loop A num domainspan ok js (Suc k) (cov @ tmpmask)
               (ring @ [\<lparr>ng_cpus = tmpmask, ng_power = 0\<rparr>]))"

text \<open>The result is 0 or \<open>- ENOMEM\<close>.\<close>

definition build_numa_sched_groups :: "build_args \<Rightarrow> (nat \<Rightarrow> bool) \<Rightarrow> nat \<Rightarrow> topo_sys \<Rightarrow> int \<times> topo_sys" where
  "build_numa_sched_groups A ok num s =
     (let nodemask = cpumask_and (node_mask (topo A) num) (cpu_map A) in
      if nodemask = [] then (0, s\<lparr>node_rings := (node_rings s)(num := [])\<rparr>)
      else
        let domainspan = cpumask_and (sched_domain_node_span (topo A) num) (cpu_map A) in
        if \<not> ok 0 then (- ENOMEM, s)
        else
          let s = s\<lparr>sdom := (sdom s)(LV_NODE := (\<lambda>j. if j \<in> set nodemask
                                                   then (sdom s LV_NODE j)\<lparr>sd_group := num\<rparr> else sdom s LV_NODE j))\<rparr>;
              (fine, ring) = node_loop A num domainspan ok [0..<nr_node_ids (topo A)] 1 nodemask
                               [\<lparr>ng_cpus = nodemask, ng_power = 0\<rparr>];
              s = s\<lparr>node_rings := (node_rings s)(num := ring)\<rparr>
          in (if fine then 0 else - ENOMEM, s))"

section \<open>The power of the groups\<close>

text \<open>The share of one of the \<open>weight\<close> siblings of a core; the division and the shift are those of a signed \<open>long\<close>.\<close>

definition shared_power :: "sd_consts \<Rightarrow> u32 \<Rightarrow> nat \<Rightarrow> u32" where
  "shared_power D gain weight =
     (let pw = sint (SCHED_LOAD_SCALE D * gain);
          pw = (if pw < 0 then - (- pw div int weight) else pw div int weight)
      in of_int (pw div 2 ^ SCHED_LOAD_SHIFT D))"

definition init_sched_groups_power :: "topology \<Rightarrow> sd_lv \<Rightarrow> nat \<Rightarrow> topo_sys \<Rightarrow> topo_sys option" where
  "init_sched_groups_power T l cpu s =
     (let sd = sdom s l cpu; g = sd_group sd; t = grp s l; D = consts_of T in
      if cpu \<noteq> cpumask_first T (sg_cpus t g) then Some s
      else
        let t = t\<lparr>sg_weight := (sg_weight t)(g := of_nat (cpumask_weight (sg_cpus t g))),
                  sg_power := (sg_power t)(g := 0)\<rparr> in
        case sd_child sd of
          None \<Rightarrow>
            let weight = cpumask_weight (sd_span sd);
                pw = (if sd_flags sd AND SD_SHARE_CPUPOWER D \<noteq> 0 \<and> 1 < weight
                         then shared_power D (smt_gain sd) weight else SCHED_LOAD_SCALE D)
            in Some (put_grp l (t\<lparr>sg_power := (sg_power t)(g := sg_power t g + pw)\<rparr>) s)
        | Some c \<Rightarrow>
            let cg = sd_group (sdom s c cpu) in
            map_option (\<lambda>gs. put_grp l (t\<lparr>sg_power := (sg_power t)(g := sg_power t g + sum_list (map (sg_power (grp s c)) gs))\<rparr>) s)
              (ring_walk (grp s c) (nr_cpu_ids T) cg cg))"

text \<open>The loop over the processors of one group of a node, and the ones over the rings.\<close>

definition physical_power :: "topology \<Rightarrow> topo_sys \<Rightarrow> nat list \<Rightarrow> u32 \<Rightarrow> u32" where
  "physical_power T s js pw =
     fold (\<lambda>j p. let g = sd_group (sdom s LV_CPU j); t = grp s LV_CPU in
                 if j \<noteq> cpumask_first T (sg_cpus t g) then p else p + sg_power t g)
       (each_cpu js) pw"

definition init_numa_node_power :: "topology \<Rightarrow> nat \<Rightarrow> topo_sys \<Rightarrow> topo_sys" where
  "init_numa_node_power T i s =
     s\<lparr>node_rings := (node_rings s)(i := map (\<lambda>sg. sg\<lparr>ng_power := physical_power T s (ng_cpus sg) (ng_power sg)\<rparr>)
                                            (node_rings s i))\<rparr>"

definition init_allnodes_power :: "topology \<Rightarrow> nat \<Rightarrow> topo_sys \<Rightarrow> topo_sys option" where
  "init_allnodes_power T head s =
     (let t = grp s LV_ALLNODES in
      case ring_walk t (nr_cpu_ids T) head head of
        None \<Rightarrow> None
      | Some gs \<Rightarrow>
          Some (put_grp LV_ALLNODES
            (t\<lparr>sg_power := (\<lambda>g. if g \<in> set gs then physical_power T s (sg_cpus t g) (sg_power t g) else sg_power t g)\<rparr>) s))"

section \<open>The construction, between its allocations\<close>

fun each_step :: "('a \<Rightarrow> 's \<Rightarrow> 's option) \<Rightarrow> 'a list \<Rightarrow> 's \<Rightarrow> 's option" where
  "each_step f [] s = Some s"
| "each_step f (x # xs) s = (case f x s of None \<Rightarrow> None | Some s \<Rightarrow> each_step f xs s)"

definition build_levels :: "build_args \<Rightarrow> topo_sys \<Rightarrow> topo_sys option" where
  "build_levels A s = do {
     let T = topo A; let cs = each_cpu (cpu_map A);
     let s = fold (build_domains_of A) cs s;
     s \<leftarrow> each_step (\<lambda>i s. do { s \<leftarrow> build_sched_groups A LV_SIBLING i s; s \<leftarrow> build_sched_groups A LV_BOOK i s;
                               build_sched_groups A LV_MC i s }) cs s;
     s \<leftarrow> each_step (build_sched_groups A LV_CPU) [0..<nr_node_ids T] s;
     if CONFIG_NUMA T \<and> sd_allnodes s then build_sched_groups A LV_ALLNODES 0 s else Some s }"

text \<open>The node groups, up to the first failure; without NUMA there are none.\<close>

fun numa_groups :: "build_args \<Rightarrow> (nat \<Rightarrow> nat \<Rightarrow> bool) \<Rightarrow> nat list \<Rightarrow> topo_sys \<Rightarrow> int \<times> topo_sys" where
  "numa_groups A ok [] s = (0, s)"
| "numa_groups A ok (i # js) s =
     (let (err, s) = build_numa_sched_groups A (ok i) i s in if err \<noteq> 0 then (err, s) else numa_groups A ok js s)"

definition build_powers :: "build_args \<Rightarrow> topo_sys \<Rightarrow> topo_sys option" where
  "build_powers A s = do {
     let T = topo A; let cs = each_cpu (cpu_map A);
     s \<leftarrow> (if CONFIG_SCHED_SMT T then each_step (init_sched_groups_power T LV_SIBLING) cs s else Some s);
     s \<leftarrow> (if CONFIG_SCHED_MC T then each_step (init_sched_groups_power T LV_MC) cs s else Some s);
     s \<leftarrow> (if CONFIG_SCHED_BOOK T then each_step (init_sched_groups_power T LV_BOOK) cs s else Some s);
     s \<leftarrow> each_step (init_sched_groups_power T LV_CPU) cs s;
     let s = (if CONFIG_NUMA T then fold (init_numa_node_power T) [0..<nr_node_ids T] s else s);
     if CONFIG_NUMA T \<and> sd_allnodes s
     then init_allnodes_power T (cpu_to_allnodes_group T (cpu_map A) (cpumask_first T (cpu_map A))) s
     else Some s }"

text \<open>The lowest level of a processor, and its domains from there up, with their rings.\<close>

definition base_level :: "topology \<Rightarrow> sd_lv" where
  "base_level T = (if CONFIG_SCHED_SMT T then LV_SIBLING else if CONFIG_SCHED_MC T then LV_MC
                   else if CONFIG_SCHED_BOOK T then LV_BOOK else LV_CPU)"

text \<open>
  The numbers of the groups of a domain; the list is empty for a ring that does not close.  A group
  of a node has the number of its place in the ring.
\<close>

definition ring_of :: "topology \<Rightarrow> topo_sys \<Rightarrow> sd_lv \<Rightarrow> nat \<Rightarrow> nat list" where
  "ring_of T s l i =
     (let g = sd_group (sdom s l i) in
      case l of
        LV_NODE \<Rightarrow> [0..<length (node_rings s g)]
      | _ \<Rightarrow> (case ring_walk (grp s l) (nr_cpu_ids T) g g of Some gs \<Rightarrow> gs | None \<Rightarrow> []))"

fun chain_from :: "topology \<Rightarrow> topo_sys \<Rightarrow> nat \<Rightarrow> nat \<Rightarrow> sd_lv option \<Rightarrow> sched_domain list" where
  "chain_from T s i (Suc n) (Some l) =
     (sched_domain.truncate (sdom s l i))\<lparr>sd_groups := ring_of T s l i\<rparr> # chain_from T s i n (sd_parent (sdom s l i))"
| "chain_from T s i n p = []"

text \<open>There are six levels, so that six steps are enough.\<close>

definition domains_of :: "topology \<Rightarrow> topo_sys \<Rightarrow> nat \<Rightarrow> sched_domain list" where
  "domains_of T s i = chain_from T s i 6 (Some (base_level T))"

end
