(* ===== verification/SchedPartition.thy ===== *)
theory SchedPartition
  imports SchedTopology
begin

text \<open>
  The memory behind a set of scheduling domains in opcional2/kernel/sched.c, the whole of
  \<open>__build_sched_domains\<close>, and the change from one partition of the processors to another.

  Addresses come from a counter, so that a block that is freed is never confused with a later one.
  \<^const>\<open>None\<close> is an access to memory that has been freed, through a null pointer or out of bounds.
\<close>

section \<open>The allocations of a construction\<close>

datatype build_block = Domainspan | Covered | Notcovered | Group_nodes | Nodemask | Sibling_map | Core_map
  | Book_map | Send_covered | Tmpmask | Rootdomain

datatype s_alloc = Sa_sched_groups | Sa_rootdomain | Sa_tmpmask | Sa_send_covered | Sa_this_book_map
  | Sa_this_core_map | Sa_this_sibling_map | Sa_nodemask | Sa_sched_group_nodes | Sa_notcovered
  | Sa_covered | Sa_domainspan | Sa_none

text \<open>
  The allocations in the order of \<open>__visit_domain_allocation_hell\<close>, each with what the function
  returns when it fails.
\<close>

definition alloc_order :: "bool \<Rightarrow> (build_block \<times> s_alloc) list" where
  "alloc_order numa =
     (if numa then [(Domainspan, Sa_none), (Covered, Sa_domainspan), (Notcovered, Sa_covered), (Group_nodes, Sa_notcovered)]
      else []) @
     [(Nodemask, Sa_sched_group_nodes), (Sibling_map, Sa_nodemask), (Core_map, Sa_this_sibling_map),
      (Book_map, Sa_this_core_map), (Send_covered, Sa_this_book_map), (Tmpmask, Sa_send_covered), (Rootdomain, Sa_tmpmask)]"

fun alloc_in_order :: "(build_block \<Rightarrow> bool) \<Rightarrow> (build_block \<times> s_alloc) list \<Rightarrow> s_alloc \<times> build_block list" where
  "alloc_in_order ok [] = (Sa_rootdomain, [])"
| "alloc_in_order ok ((b, what) # bs) =
     (if ok b then (let (w, got) = alloc_in_order ok bs in (w, b # got)) else (what, []))"

definition visit_domain_allocation_hell :: "bool \<Rightarrow> (build_block \<Rightarrow> bool) \<Rightarrow> s_alloc \<times> build_block list" where
  "visit_domain_allocation_hell numa ok = alloc_in_order ok (alloc_order numa)"

text \<open>
  The cases of \<open>__free_domain_allocs\<close> in their order, each with what it frees before it falls through to
  the next.  \<open>nodes\<close>: \<open>sched_group_nodes\<close> is not null, so that \<open>kfree\<close> frees it; the first case clears
  the pointer.
\<close>

definition free_order :: "bool \<Rightarrow> bool \<Rightarrow> (s_alloc \<times> build_block list) list" where
  "free_order numa nodes =
     [(Sa_sched_groups, []), (Sa_rootdomain, [Rootdomain]), (Sa_tmpmask, [Tmpmask]), (Sa_send_covered, [Send_covered]),
      (Sa_this_book_map, [Book_map]), (Sa_this_core_map, [Core_map]), (Sa_this_sibling_map, [Sibling_map]),
      (Sa_nodemask, [Nodemask]), (Sa_sched_group_nodes, if numa \<and> nodes then [Group_nodes] else [])] @
     (if numa then [(Sa_notcovered, [Notcovered]), (Sa_covered, [Covered]), (Sa_domainspan, [Domainspan])] else []) @
     [(Sa_none, [])]"

definition freed_blocks :: "bool \<Rightarrow> bool \<Rightarrow> s_alloc \<Rightarrow> build_block list" where
  "freed_blocks numa nodes what =
     (let nodes = (nodes \<and> what \<noteq> Sa_sched_groups)
      in concat (map snd (dropWhile (\<lambda>c. fst c \<noteq> what) (free_order numa nodes))))"

section \<open>The state\<close>

text \<open>
  \<open>node_arrays\<close>: the arrays \<open>sched_group_nodes\<close>, by address, with the rings they point to;
  \<open>bycpu\<close> is \<open>sched_group_nodes_bycpu\<close>.  \<open>doms_block\<close> is the address of the array \<open>doms_cur\<close>, \<^const>\<open>None\<close> for
  \<open>&fallback_doms\<close>; \<open>live_masks\<close> are the masks allocated in such arrays.
\<close>

record part_sys =
  rts :: root_sys
  topo_state :: topo_sys
  node_arrays :: "nat \<Rightarrow> (nat \<Rightarrow> node_group list) option"
  bycpu :: "nat \<Rightarrow> nat option"
  next_addr :: nat
  doms_cur :: "nat list list"
  dattr_cur :: "int list option"
  doms_block :: "nat option"
  live_masks :: "(nat \<times> nat) list"

text \<open>What does not change: the topology, the default root domain, the masks of active and isolated processors.\<close>

record part_env =
  ptopo :: topology
  def_root :: nat
  relax_level :: int
  cpu_active :: "nat list"
  cpu_isolated :: "nat list"

text \<open>Which allocations of a construction succeed.\<close>

record alloc_oracle =
  block_ok :: "build_block \<Rightarrow> bool"
  rd_ok :: "rd_block \<Rightarrow> bool"
  group_ok :: "nat \<Rightarrow> nat \<Rightarrow> bool"

text \<open>\<open>alloc_rootdomain\<close> fails when its own allocation or one of its four masks does.\<close>

definition build_ok :: "alloc_oracle \<Rightarrow> build_block \<Rightarrow> bool" where
  "build_ok al b \<longleftrightarrow> block_ok al b \<and> (b = Rootdomain \<longrightarrow> fst (init_rootdomain (rd_ok al)) = 0)"

section \<open>Freeing the groups of the nodes\<close>

definition free_cpu_groups :: "nat \<Rightarrow> part_sys \<Rightarrow> part_sys option" where
  "free_cpu_groups cpu s =
     (case bycpu s cpu of
        None \<Rightarrow> Some s
      | Some a \<Rightarrow>
          (case node_arrays s a of
             None \<Rightarrow> None
           | Some rings \<Rightarrow> Some (s\<lparr>node_arrays := (node_arrays s)(a := None), bycpu := (bycpu s)(cpu := None)\<rparr>)))"

definition free_sched_groups :: "bool \<Rightarrow> nat list \<Rightarrow> part_sys \<Rightarrow> part_sys option" where
  "free_sched_groups numa cm s = (if numa then each_step free_cpu_groups (each_cpu cm) s else Some s)"

section \<open>Building the domains of one mask\<close>

definition attach_one :: "part_env \<Rightarrow> (nat \<Rightarrow> sched_domain list) \<Rightarrow> nat \<Rightarrow> nat \<Rightarrow> part_sys \<Rightarrow> part_sys option" where
  "attach_one E ch rd i s =
     map_option (\<lambda>r. s\<lparr>rts := r\<rparr>)
       (cpu_attach_domain (consts_of (ptopo E)) (nr_node_ids (ptopo E)) (cpu_active E) (ch i) rd i (rts s))"

text \<open>The allocations: the arrays and root domain that exist afterwards, with their addresses.\<close>

definition take_blocks :: "part_env \<Rightarrow> nat list \<Rightarrow> alloc_oracle \<Rightarrow> part_sys \<Rightarrow> (s_alloc \<times> nat \<times> nat \<times> part_sys) option" where
  "take_blocks E cm al s =
     (let T = ptopo E;
          (what, got) = visit_domain_allocation_hell (CONFIG_NUMA T) (build_ok al);
          a = next_addr s; rd = next_addr s + 1;
          s = s\<lparr>next_addr := next_addr s + 2\<rparr>;
          first = cpumask_first T cm in
      if Group_nodes \<in> set got \<and> nr_cpu_ids T \<le> first then None
      else
        let s = (if Group_nodes \<in> set got
                 then s\<lparr>node_arrays := (node_arrays s)(a \<mapsto> (\<lambda>_. [])), bycpu := (bycpu s)(first \<mapsto> a)\<rparr> else s);
            s = (if Rootdomain \<in> set got then s\<lparr>rts := fst (alloc_rootdomain (Some rd) (rd_ok al) (rts s))\<rparr> else s)
        in Some (what, a, rd, s))"

text \<open>The part of \<open>__free_domain_allocs\<close> that the state shows: the array of node groups and the root domain.\<close>

definition free_domain_allocs :: "part_env \<Rightarrow> bool \<Rightarrow> nat list \<Rightarrow> s_alloc \<Rightarrow> nat \<Rightarrow> nat \<Rightarrow> part_sys \<Rightarrow> part_sys option" where
  "free_domain_allocs E nodes cm what a rd s =
     (let numa = CONFIG_NUMA (ptopo E); freed = freed_blocks numa nodes what in
      case (if what = Sa_sched_groups then free_sched_groups numa cm s else Some s) of
        None \<Rightarrow> None
      | Some s \<Rightarrow>
          let s = (if Rootdomain \<in> set freed then s\<lparr>rts := free_rootdomain rd (rts s)\<rparr> else s)
          in if Group_nodes \<in> set freed
             then (if node_arrays s a = None then None else Some (s\<lparr>node_arrays := (node_arrays s)(a := None)\<rparr>))
             else Some s)"

text \<open>The result is the return value of \<open>__build_sched_domains\<close> and the new state.\<close>

definition build_sched_domains_with ::
  "part_env \<Rightarrow> nat list \<Rightarrow> int option \<Rightarrow> alloc_oracle \<Rightarrow> part_sys \<Rightarrow> (int \<times> part_sys) option" where
  "build_sched_domains_with E cm attr al s = do {
     let T = ptopo E; let numa = CONFIG_NUMA T;
     let A = \<lparr>topo = T, cpu_map = cm, dattr = attr, relax_default = relax_level E\<rparr>;
     (what, a, rd, s) \<leftarrow> take_blocks E cm al s;
     if what \<noteq> Sa_rootdomain
     then map_option (Pair (- ENOMEM)) (free_domain_allocs E True cm what a rd s)
     else do {
       t \<leftarrow> build_levels A ((topo_state s)\<lparr>sd_allnodes := False, node_rings := (\<lambda>_. [])\<rparr>);
       let (err, t) = (if numa then numa_groups A (group_ok al) [0..<nr_node_ids T] t else (0, t));
       let s = (\<lambda>t. s\<lparr>topo_state := t, node_arrays := (if numa then (node_arrays s)(a \<mapsto> node_rings t) else node_arrays s)\<rparr>);
       if err \<noteq> 0
       then map_option (Pair (- ENOMEM)) (free_domain_allocs E True cm Sa_sched_groups a rd (s t))
       else do {
         t \<leftarrow> build_powers A t;
         s \<leftarrow> each_step (attach_one E (domains_of T t) rd) (each_cpu cm) (s t);
         map_option (Pair 0) (free_domain_allocs E False cm Sa_tmpmask a rd s) } } }"

section \<open>Partitions\<close>

definition free_sched_domains :: "nat \<Rightarrow> nat \<Rightarrow> part_sys \<Rightarrow> part_sys" where
  "free_sched_domains d ndoms s = s\<lparr>live_masks := filter (\<lambda>(e, i). e \<noteq> d \<or> ndoms \<le> i) (live_masks s)\<rparr>"

fun alloc_masks :: "(nat \<Rightarrow> bool) \<Rightarrow> nat \<Rightarrow> nat list \<Rightarrow> part_sys \<Rightarrow> bool \<times> part_sys" where
  "alloc_masks ok d [] s = (True, s)"
| "alloc_masks ok d (i # js) s =
     (if ok i then alloc_masks ok d js (s\<lparr>live_masks := live_masks s @ [(d, i)]\<rparr>)
      else (False, free_sched_domains d i s))"

text \<open>The address of the array, if it could be allocated with all its masks.\<close>

definition alloc_sched_domains :: "bool \<Rightarrow> (nat \<Rightarrow> bool) \<Rightarrow> nat \<Rightarrow> part_sys \<Rightarrow> nat option \<times> part_sys" where
  "alloc_sched_domains array_ok ok ndoms s =
     (if \<not> array_ok then (None, s)
      else let d = next_addr s; (fine, s) = alloc_masks ok d [0..<ndoms] (s\<lparr>next_addr := next_addr s + 1\<rparr>)
           in (if fine then Some d else None, s))"

definition cpumask_andnot :: "nat list \<Rightarrow> nat list \<Rightarrow> nat list" where
  "cpumask_andnot a b = filter (\<lambda>c. c \<notin> set b) a"

definition detach_destroy_domains :: "part_env \<Rightarrow> nat list \<Rightarrow> part_sys \<Rightarrow> part_sys option" where
  "detach_destroy_domains E cm s =
     (case each_step (attach_one E (\<lambda>_. []) (def_root E)) (each_cpu cm) s of
        None \<Rightarrow> None
      | Some s \<Rightarrow> free_sched_groups (CONFIG_NUMA (ptopo E)) cm s)"

text \<open>\<open>struct sched_domain_attr\<close> has one field, \<open>relax_domain_level\<close>.\<close>

definition dattrs_equal :: "int \<Rightarrow> int list option \<Rightarrow> nat \<Rightarrow> int list option \<Rightarrow> nat \<Rightarrow> bool" where
  "dattrs_equal init cur idx_cur new idx_new =
     (case (cur, new) of
        (None, None) \<Rightarrow> True
      | _ \<Rightarrow> (case cur of Some c \<Rightarrow> c ! idx_cur | None \<Rightarrow> init) = (case new of Some c \<Rightarrow> c ! idx_new | None \<Rightarrow> init))"

text \<open>The inner loops: some \<open>j < n\<close> has the same mask and attribute, and the topology is the old one.\<close>

definition doms_match :: "int \<Rightarrow> bool \<Rightarrow> nat list list \<Rightarrow> int list option \<Rightarrow> nat \<Rightarrow> nat list list \<Rightarrow> int list option \<Rightarrow> nat \<Rightarrow> bool" where
  "doms_match init new_topology ds da i es ea n \<longleftrightarrow>
     (\<exists>j \<in> set [0..<n]. \<not> new_topology \<and> cpumask_equal (ds ! i) (es ! j) \<and> dattrs_equal init da i ea j)"

text \<open>
  \<open>doms_new\<close> is the array with its masks, \<^const>\<open>None\<close> for a null pointer; \<open>al j\<close> says which allocations
  succeed for the mask \<open>j\<close>.
\<close>

definition partition_sched_domains ::
  "part_env \<Rightarrow> bool \<Rightarrow> (nat \<Rightarrow> alloc_oracle) \<Rightarrow> nat \<Rightarrow> (nat \<times> nat list list) option \<Rightarrow> int list option \<Rightarrow>
   part_sys \<Rightarrow> part_sys option" where
  "partition_sched_domains E new_topology al ndoms_new doms_new dattr_new s = do {
     let init = SD_ATTR_INIT (consts_of (ptopo E));
     let n = (case doms_new of None \<Rightarrow> 0 | Some _ \<Rightarrow> ndoms_new);
     let cur = doms_cur s; let ndoms_cur = length cur; let attrs = dattr_cur s;
     let masks = (case doms_new of None \<Rightarrow> [cpumask_andnot (cpu_active E) (cpu_isolated E)] | Some (_, ms) \<Rightarrow> ms);
     s \<leftarrow> each_step (\<lambda>i s. if doms_match init new_topology cur attrs i masks dattr_new n then Some s
                             else detach_destroy_domains E (cur ! i) s) [0..<ndoms_cur] s;
     let ndoms_cur = (case doms_new of None \<Rightarrow> 0 | Some _ \<Rightarrow> ndoms_cur);
     if length masks < ndoms_new then None
     else do {
       s \<leftarrow> each_step (\<lambda>i s. if doms_match init new_topology masks dattr_new i cur attrs ndoms_cur then Some s
                               else map_option snd (build_sched_domains_with E (masks ! i) (map_option (\<lambda>ds. ds ! i) dattr_new) (al i) s))
               [0..<ndoms_new] s;
       let s = (case doms_block s of None \<Rightarrow> s | Some d \<Rightarrow> free_sched_domains d ndoms_cur s);
       Some (s\<lparr>doms_cur := take ndoms_new masks, dattr_cur := dattr_new, doms_block := map_option fst doms_new\<rparr>) } }"

text \<open>At boot; the result is that of the construction.\<close>

definition arch_init_sched_domains ::
  "part_env \<Rightarrow> bool \<Rightarrow> (nat \<Rightarrow> bool) \<Rightarrow> alloc_oracle \<Rightarrow> nat list \<Rightarrow> part_sys \<Rightarrow> (int \<times> part_sys) option" where
  "arch_init_sched_domains E array_ok masks_ok al cm s =
     (let (block, s) = alloc_sched_domains array_ok masks_ok 1 s;
          mask = cpumask_andnot cm (cpu_isolated E);
          s = s\<lparr>doms_block := block, doms_cur := [mask], dattr_cur := None\<rparr>
      in build_sched_domains_with E mask None al s)"

end
