(* ===== verification/SchedDomainsProps.thy ===== *)
theory SchedDomainsProps
  imports SchedDomains "HOL-Library.Sublist"
begin

text \<open>
  Facts about the scheduling domains of opcional2/kernel/sched.c: the domains a processor keeps, and
  the reference counts of the root domains over any history of attachments.
\<close>

section \<open>The domains that are kept\<close>

text \<open>No domain of the result is superfluous above the one before it.\<close>

definition links_ok :: "sd_consts \<Rightarrow> nat \<Rightarrow> sched_domain list \<Rightarrow> bool" where
  "links_ok D n ds \<longleftrightarrow> (\<forall>i. Suc i < length ds \<longrightarrow> \<not> sd_parent_degenerate D n (ds ! i) (ds ! Suc i))"

lemma links_ok_Cons: "links_ok D n (x # y # ds) \<longleftrightarrow> \<not> sd_parent_degenerate D n x y \<and> links_ok D n (y # ds)"
  unfolding links_ok_def by (auto simp: nth_Cons split: nat.splits)

lemma remove_parents_head: "remove_parents D n (x # ds) = x # tl (remove_parents D n (x # ds))"
  by (induction D n "x # ds" arbitrary: x ds rule: remove_parents.induct) auto

lemma remove_parents_links: "links_ok D n (remove_parents D n ds)"
proof (induction D n ds rule: remove_parents.induct)
  case (1 D n tmp parent ds)
  show ?case
  proof (cases "sd_parent_degenerate D n tmp parent")
    case False
    obtain ds' where "remove_parents D n (parent # ds) = parent # ds'"
      using remove_parents_head by blast
    then show ?thesis using 1 False by (simp add: links_ok_Cons)
  qed (use 1 in simp)
qed (simp_all add: links_ok_def)

text \<open>
  The chain falls into runs: a domain that is kept and those that are superfluous above it.
\<close>

definition joined :: "(sched_domain \<times> sched_domain list) list \<Rightarrow> sched_domain list" where
  "joined runs = concat (map (\<lambda>(d, gone). d # gone) runs)"

lemma joined_simps [simp]:
  "joined [] = []" "joined ((d, gone) # runs) = d # gone @ joined runs"
  by (simp_all add: joined_def)

definition runs_ok :: "sd_consts \<Rightarrow> nat \<Rightarrow> (sched_domain \<times> sched_domain list) list \<Rightarrow> bool" where
  "runs_ok D n runs \<longleftrightarrow> (\<forall>(d, gone) \<in> set runs. \<forall>g \<in> set gone. sd_parent_degenerate D n d g)"

lemma runs_ok_Cons [simp]:
  "runs_ok D n ((d, gone) # runs) \<longleftrightarrow> (\<forall>g \<in> set gone. sd_parent_degenerate D n d g) \<and> runs_ok D n runs"
  by (simp add: runs_ok_def)

lemma one_run: "\<exists>runs. joined runs = [d] \<and> map fst runs = remove_parents D n [d] \<and> runs_ok D n runs"
  by (intro exI [of _ "[(d, [])]"]) (simp add: runs_ok_def)

lemma remove_parents_runs:
  "\<exists>runs. joined runs = ds \<and> map fst runs = remove_parents D n ds \<and> runs_ok D n runs"
proof (induction D n ds rule: remove_parents.induct)
  case (1 D n tmp parent ds)
  show ?case
  proof (cases "sd_parent_degenerate D n tmp parent")
    case True
    then obtain runs where runs: "joined runs = tmp # ds" "map fst runs = remove_parents D n (tmp # ds)" "runs_ok D n runs"
      using 1 by blast
    then obtain d gone rest where cut: "runs = (d, gone) # rest" by (cases runs) auto
    then show ?thesis using runs True by (intro exI [of _ "(tmp, parent # gone) # rest"]) simp
  next
    case False
    then obtain runs where "joined runs = parent # ds" "map fst runs = remove_parents D n (parent # ds)" "runs_ok D n runs"
      using 1 by blast
    then show ?thesis using False by (intro exI [of _ "(tmp, []) # runs"]) simp
  qed
next
  case "2_1"
  show ?case by (intro exI [of _ "[]"]) (simp add: runs_ok_def)
next
  case "2_2"
  show ?case by (rule one_run)
qed

lemma degenerate_parent: "sd_degenerate D p \<Longrightarrow> sd_parent_degenerate D n d p"
  by (simp add: sd_parent_degenerate_def)

lemma kept_parents:
  assumes "links_ok D n (d # ds)" "e \<in> set ds"
  shows "\<not> sd_degenerate D e"
proof -
  obtain i where i: "i < length ds" "ds ! i = e" using assms(2) by (auto simp: in_set_conv_nth)
  have "\<not> sd_parent_degenerate D n ((d # ds) ! i) (ds ! i)"
    using assms(1) i(1) by (simp add: links_ok_def)
  then show ?thesis using i(2) degenerate_parent by auto
qed

text \<open>The domains with the weight of their span filled in.\<close>

definition weighed :: "sched_domain list \<Rightarrow> sched_domain list" where
  "weighed sds = map (\<lambda>d. d\<lparr>span_weight := cpumask_weight (sd_span d)\<rparr>) sds"

text \<open>
  C21 (kept_domains_contribute): the chain that \<open>cpu_attach_domain\<close> is given, weights filled in, falls into
  runs of a first domain and domains that are superfluous above it, such that no first domain is
  superfluous above the first one of the run before.  The domains it installs are exactly the first ones
  of the runs, without the lowest one if that is degenerate; no installed domain is degenerate.
\<close>

theorem kept_domains_contribute:
  "\<exists>runs. weighed sds = concat (map (\<lambda>(d, gone). d # gone) runs) \<and>
     (\<forall>(d, gone) \<in> set runs. \<forall>g \<in> set gone. sd_parent_degenerate D n d g) \<and>
     (\<forall>i. Suc i < length runs \<longrightarrow> \<not> sd_parent_degenerate D n (fst (runs ! i)) (fst (runs ! Suc i))) \<and>
     attached_chain D n sds =
       (if runs \<noteq> [] \<and> sd_degenerate D (fst (hd runs)) then tl (map fst runs) else map fst runs) \<and>
     (\<forall>d \<in> set (attached_chain D n sds). \<not> sd_degenerate D d)"
proof -
  obtain runs where runs: "joined runs = weighed sds" "map fst runs = remove_parents D n (weighed sds)" "runs_ok D n runs"
    using remove_parents_runs by blast
  have chain: "attached_chain D n sds =
      (if runs \<noteq> [] \<and> sd_degenerate D (fst (hd runs)) then tl (map fst runs) else map fst runs)"
    unfolding attached_chain_def Let_def weighed_def [symmetric] runs(2) [symmetric] by (cases runs) simp_all
  have links: "links_ok D n (map fst runs)" unfolding runs(2) by (rule remove_parents_links)
  have good: "\<forall>d \<in> set (attached_chain D n sds). \<not> sd_degenerate D d"
    unfolding chain
  proof (cases runs)
    case (Cons r rs)
    have "\<not> sd_degenerate D e" if "e \<in> set (map fst rs)" for e
      using kept_parents [of D n "fst r" "map fst rs" e] links that Cons by simp
    then show "\<forall>d \<in> set (if runs \<noteq> [] \<and> sd_degenerate D (fst (hd runs)) then tl (map fst runs) else map fst runs). \<not> sd_degenerate D d"
      using Cons by simp
  qed simp
  have "\<forall>i. Suc i < length runs \<longrightarrow> \<not> sd_parent_degenerate D n (fst (runs ! i)) (fst (runs ! Suc i))"
    using links by (simp add: links_ok_def)
  then show ?thesis
    using runs(1) [symmetric, unfolded joined_def] runs(3) [unfolded runs_ok_def] chain good by blast
qed

text \<open>Three levels over two processors: the lowest has one of them, the highest repeats the middle one.\<close>

definition sample_flags :: sd_consts where
  "sample_flags = \<lparr>SD_LOAD_BALANCE = 1, SD_BALANCE_NEWIDLE = 2, SD_BALANCE_FORK = 8, SD_BALANCE_EXEC = 4,
     SD_BALANCE_WAKE_FLAG = 16, SD_WAKE_AFFINE = 32, SD_SHARE_CPUPOWER = 128, SD_SHARE_PKG_RESOURCES = 512,
     SD_SERIALIZE = 1024, SCHED_LOAD_SCALE = 1024, SCHED_LOAD_SHIFT = 10, SD_LV_MAX = 5, SD_ATTR_INIT = - 1\<rparr>"

definition domain_of :: "nat list \<Rightarrow> nat list \<Rightarrow> sched_domain" where
  "domain_of span gs = \<lparr>sd_span = span, sd_flags = 1, sd_groups = gs, sd_level = 0, smt_gain = 0, span_weight = 0\<rparr>"

theorem kept_domains_contribute_witness:
  "attached_chain sample_flags 1 [domain_of [0] [0], domain_of [0, 1] [0, 1], domain_of [0, 1] [0]] =
     [(domain_of [0, 1] [0, 1])\<lparr>span_weight := 2\<rparr>] \<and>
   \<not> sd_degenerate sample_flags ((domain_of [0, 1] [0, 1])\<lparr>span_weight := 2\<rparr>)"
proof -
  let ?sds = "[domain_of [0] [0], domain_of [0, 1] [0, 1], domain_of [0, 1] [0]]"
  have "attached_chain sample_flags 1 ?sds = [(domain_of [0, 1] [0, 1])\<lparr>span_weight := 2\<rparr>]"
    by (simp add: attached_chain_def sd_parent_degenerate_def sd_degenerate_def domain_of_def sample_flags_def
        group_flags_def cpumask_weight_def cpumask_equal_def Let_def)
  moreover have "\<forall>d \<in> set (attached_chain sample_flags 1 ?sds). \<not> sd_degenerate sample_flags d"
    using kept_domains_contribute [of ?sds sample_flags 1] by blast
  ultimately show ?thesis by simp
qed

section \<open>Root domains\<close>

definition users :: "nat list \<Rightarrow> root_sys \<Rightarrow> nat \<Rightarrow> nat set" where
  "users cs s r = {c \<in> set cs. rq_rd s c = Some r}"

text \<open>
  The default root domain \<open>dflt\<close> has one reference more than runqueues.  A runqueue that is online is in
  the mask of its root domain, and no other is.
\<close>

definition root_ok :: "nat list \<Rightarrow> nat \<Rightarrow> root_sys \<Rightarrow> nat \<Rightarrow> root_domain \<Rightarrow> bool" where
  "root_ok cs dflt s r d \<longleftrightarrow> refcount d = of_nat (card (users cs s r) + of_bool (r = dflt)) \<and>
     set (root_span d) = users cs s r \<and> set (root_online d) = {c \<in> users cs s r. rq_online s c}"

definition roots_ok :: "nat list \<Rightarrow> nat \<Rightarrow> root_sys \<Rightarrow> bool" where
  "roots_ok cs dflt s \<longleftrightarrow> (\<forall>r d. roots s r = Some d \<longrightarrow> root_ok cs dflt s r d) \<and>
     (\<forall>c r. rq_rd s c = Some r \<longrightarrow> c \<in> set cs \<and> roots s r \<noteq> None) \<and>
     (\<forall>c. rq_online s c \<longrightarrow> rq_rd s c \<noteq> None) \<and> roots s dflt \<noteq> None"

lemma users_le: "card (users cs s r) \<le> length cs"
  using card_length [of cs] card_mono [of "set cs" "users cs s r"] by (force simp: users_def)

lemma finite_users [simp]: "finite (users cs s r)"
  by (simp add: users_def)

lemma set_root_simps [simp]:
  "roots (set_root r d s) = (roots s)(r \<mapsto> d)" "rq_rd (set_root r d s) = rq_rd s"
  "rq_online (set_root r d s) = rq_online s" "rq_sd (set_root r d s) = rq_sd s"
  by (simp_all add: set_root_def)

lemma set_rq_online_ok:
  assumes "roots_ok cs dflt s" "rq_rd s c \<noteq> None"
  shows "\<exists>s'. set_rq_online c s = Some s' \<and> roots_ok cs dflt s' \<and> rq_rd s' = rq_rd s \<and>
    (\<forall>r. roots s' r = None \<longleftrightarrow> roots s r = None)"
proof (cases "rq_online s c")
  case False
  obtain r d where r: "rq_rd s c = Some r" "roots s r = Some d"
    using assms by (fastforce simp: roots_ok_def)
  define s' where "s' = set_root r (d\<lparr>root_online := List.insert c (root_online d)\<rparr>) s\<lparr>rq_online := (rq_online s)(c := True)\<rparr>"
  have "root_ok cs dflt s r d" using assms(1) r(2) by (simp add: roots_ok_def)
  moreover have "c \<in> users cs s r" using assms(1) r(1) by (simp add: roots_ok_def users_def)
  ultimately have "root_ok cs dflt s' r (d\<lparr>root_online := List.insert c (root_online d)\<rparr>)"
    by (auto simp: root_ok_def s'_def users_def)
  moreover have "root_ok cs dflt s' q e" if "roots s q = Some e" "q \<noteq> r" for q e
  proof -
    have "root_ok cs dflt s q e" using assms(1) that(1) by (simp add: roots_ok_def)
    then show ?thesis using that(2) r(1) by (auto simp: root_ok_def s'_def users_def)
  qed
  ultimately have "roots_ok cs dflt s'"
    using assms(1) r unfolding roots_ok_def by (auto simp: s'_def split: if_splits)
  then show ?thesis using False r by (intro exI [of _ s']) (auto simp: set_rq_online_def s'_def)
qed (use assms in \<open>auto simp: set_rq_online_def\<close>)

lemma set_rq_offline_ok:
  assumes "roots_ok cs dflt s"
  shows "\<exists>s'. set_rq_offline c s = Some s' \<and> roots_ok cs dflt s' \<and> rq_rd s' = rq_rd s \<and> \<not> rq_online s' c \<and>
    (\<forall>r. roots s' r = None \<longleftrightarrow> roots s r = None)"
proof (cases "rq_online s c")
  case True
  obtain r d where r: "rq_rd s c = Some r" "roots s r = Some d"
    using assms True by (fastforce simp: roots_ok_def)
  define s' where "s' = set_root r (d\<lparr>root_online := removeAll c (root_online d)\<rparr>) s\<lparr>rq_online := (rq_online s)(c := False)\<rparr>"
  have "root_ok cs dflt s r d" using assms r(2) by (simp add: roots_ok_def)
  then have "root_ok cs dflt s' r (d\<lparr>root_online := removeAll c (root_online d)\<rparr>)"
    by (auto simp: root_ok_def s'_def users_def)
  moreover have "root_ok cs dflt s' q e" if "roots s q = Some e" "q \<noteq> r" for q e
  proof -
    have "root_ok cs dflt s q e" using assms that(1) by (simp add: roots_ok_def)
    then show ?thesis using that(2) r(1) by (auto simp: root_ok_def s'_def users_def)
  qed
  ultimately have "roots_ok cs dflt s'"
    using assms r unfolding roots_ok_def by (auto simp: s'_def split: if_splits)
  then show ?thesis using True r by (intro exI [of _ s']) (auto simp: set_rq_offline_def s'_def)
qed (use assms in \<open>auto simp: set_rq_offline_def\<close>)

section \<open>Attaching a runqueue\<close>

lemma users_removed: "users cs (s\<lparr>rq_rd := (rq_rd s)(c := None)\<rparr>) r = users cs s r - {c}"
  by (auto simp: users_def)

text \<open>
  Leaving: the runqueue is taken out of its root domain.  The state in between, with \<open>rq->rd\<close> still
  set, is the one of a runqueue without a root domain.
\<close>

definition detached :: "nat \<Rightarrow> root_sys \<Rightarrow> root_sys" where
  "detached c s = s\<lparr>rq_rd := (rq_rd s)(c := None)\<rparr>"

lemma detached_simps [simp]:
  "roots (detached c s) = roots s" "rq_online (detached c s) = rq_online s" "rq_sd (detached c s) = rq_sd s"
  "rq_rd (detached c s) = (rq_rd s)(c := None)"
  by (simp_all add: detached_def)

lemma users_detached [simp]: "users cs (detached c s) r = users cs s r - {c}"
  by (auto simp: users_def)

lemma users_others: "rq_rd s c \<noteq> Some r \<Longrightarrow> users cs s r - {c} = users cs s r"
  by (auto simp: users_def)

text \<open>The root domain whose last runqueue is \<open>c\<close>; the default root domain has a reference of its own.\<close>

definition last_of :: "nat list \<Rightarrow> nat \<Rightarrow> root_sys \<Rightarrow> nat \<Rightarrow> nat option" where
  "last_of cs dflt s c =
     (case rq_rd s c of Some r \<Rightarrow> if users cs s r = {c} \<and> r \<noteq> dflt then Some r else None | None \<Rightarrow> None)"

lemma small_word_zero: "n < 2 ^ 32 \<Longrightarrow> (of_nat n :: s32) = 0 \<longleftrightarrow> n = 0"
  by (simp add: word_of_nat_eq_0_iff nat_dvd_not_less) (auto dest: nat_dvd_not_less)

lemma refcount_zero:
  assumes "length cs < 2 ^ 32 - 1"
  shows "(of_nat (card (users cs s r - {c}) + of_bool (r = dflt)) :: s32) = 0 \<longleftrightarrow> users cs s r - {c} = {} \<and> r \<noteq> dflt"
proof -
  have "card (users cs s r - {c}) \<le> length cs"
    using users_le [of cs s r] card_mono [OF finite_users Diff_subset, of cs s r "{c}"] by linarith
  then have "card (users cs s r - {c}) + of_bool (r = dflt) \<le> length cs + 1"
    by (cases "r = dflt") simp_all
  then have "card (users cs s r - {c}) + of_bool (r = dflt) < 2 ^ 32"
    using assms by linarith
  then have "(of_nat (card (users cs s r - {c}) + of_bool (r = dflt)) :: s32) = 0 \<longleftrightarrow>
      card (users cs s r - {c}) + of_bool (r = dflt) = 0"
    by (rule small_word_zero)
  then show ?thesis by simp
qed

lemma users_set_root [simp]: "users cs (set_root q d s) r = users cs s r"
  by (simp add: users_def)

lemma online_users: "roots_ok cs dflt s \<Longrightarrow> rq_rd s c = Some r \<Longrightarrow> roots s r = Some d \<Longrightarrow> c \<in> set (root_online d) \<longleftrightarrow> rq_online s c"
  by (auto simp: roots_ok_def root_ok_def users_def)

lemma leave_root_ok:
  assumes "roots_ok cs dflt s" "length cs < 2 ^ 32 - 1"
  shows "\<exists>s' old. leave_root c s = Some (s', old) \<and> roots_ok cs dflt (detached c s') \<and> rq_rd s' = rq_rd s \<and>
    \<not> rq_online s' c \<and> (\<forall>r. roots s' r = None \<longleftrightarrow> roots s r = None) \<and> old = last_of cs dflt s c"
proof (cases "rq_rd s c")
  case None
  then have "detached c s = s" by (simp add: detached_def fun_upd_idem)
  moreover have "\<not> rq_online s c" using assms None by (auto simp: roots_ok_def)
  ultimately show ?thesis using assms None by (simp add: leave_root_def last_of_def)
next
  case (Some r)
  obtain d where d: "roots s r = Some d" using assms Some by (fastforce simp: roots_ok_def)
  obtain s1 where s1: "(if c \<in> set (root_online d) then set_rq_offline c s else Some s) = Some s1"
      "roots_ok cs dflt s1" "rq_rd s1 = rq_rd s" "\<not> rq_online s1 c" "\<forall>q. roots s1 q = None \<longleftrightarrow> roots s q = None"
    using set_rq_offline_ok [OF assms(1), of c] assms(1) online_users [OF assms(1) Some d] by (cases "rq_online s c") auto
  obtain e where e: "roots s1 r = Some e" using s1(5) d by (metis not_None_eq)
  define s' where "s' = set_root r (e\<lparr>root_span := removeAll c (root_span e), refcount := refcount e - 1\<rparr>) s1"
  have ok: "root_ok cs dflt s1 q f" if "roots s1 q = Some f" for q f
    using s1(2) that by (simp add: roots_ok_def)
  have c: "c \<in> users cs s1 r" using s1(2,3) Some by (auto simp: roots_ok_def users_def)
  then have "card (users cs s1 r) = Suc (card (users cs s1 r - {c}))" by (rule card.remove [OF finite_users])
  then have count: "refcount e - 1 = of_nat (card (users cs s1 r - {c}) + of_bool (r = dflt))"
    using ok [OF e] by (simp add: root_ok_def)
  then have "root_ok cs dflt (detached c s') r (e\<lparr>root_span := removeAll c (root_span e), refcount := refcount e - 1\<rparr>)"
    using ok [OF e] s1(4) users_detached [of cs c s' r] by (auto simp: root_ok_def s'_def users_set_root)
  moreover have "root_ok cs dflt (detached c s') q f" if "roots s1 q = Some f" "q \<noteq> r" for q f
    using ok [OF that(1)] users_others [of s1 c q cs] that(2) s1(3) Some
    by (simp only: root_ok_def users_detached users_set_root s'_def) auto
  ultimately have "roots_ok cs dflt (detached c s')"
    using s1(2,4) e unfolding roots_ok_def by (auto simp: s'_def split: if_splits)
  moreover have "users cs s1 r = users cs s r" using s1(3) by (simp add: users_def)
  then have "refcount e - 1 = 0 \<longleftrightarrow> users cs s r = {c} \<and> r \<noteq> dflt"
    using c unfolding count refcount_zero [OF assms(2)] by auto
  ultimately show ?thesis
    using Some d s1 e by (intro exI [of _ s'] exI [of _ "last_of cs dflt s c"]) (auto simp: leave_root_def last_of_def s'_def)
qed

text \<open>Joining: the runqueue has no root domain yet.\<close>

definition root_joined :: "nat \<Rightarrow> nat \<Rightarrow> root_domain \<Rightarrow> root_sys \<Rightarrow> root_sys" where
  "root_joined c rd d s = (set_root rd (d\<lparr>refcount := refcount d + 1, root_span := List.insert c (root_span d)\<rparr>) s)
     \<lparr>rq_rd := (rq_rd s)(c \<mapsto> rd)\<rparr>"

lemma root_joined_detached: "root_joined c rd d (detached c s) = root_joined c rd d s"
  by (cases s) (simp add: root_joined_def detached_def set_root_def)

lemma users_root_joined: "c \<in> set cs \<Longrightarrow> rq_rd s c = None \<Longrightarrow>
   users cs (root_joined c rd d s) r = (if r = rd then insert c (users cs s r) else users cs s r)"
  by (auto simp: users_def root_joined_def)

lemma root_joined_ok:
  assumes "roots_ok cs dflt s" "rq_rd s c = None" "c \<in> set cs" "roots s rd = Some d"
  shows "roots_ok cs dflt (root_joined c rd d s)"
proof -
  have "c \<notin> users cs s rd" using assms(2) by (simp add: users_def)
  then have "card (users cs (root_joined c rd d s) rd) = Suc (card (users cs s rd))"
    by (simp add: users_root_joined assms)
  moreover have "\<not> rq_online s c" using assms(1,2) by (auto simp: roots_ok_def)
  moreover have ok: "root_ok cs dflt s q e" if "roots s q = Some e" for q e
    using assms(1) that by (simp add: roots_ok_def)
  ultimately have "root_ok cs dflt (root_joined c rd d s) rd
      (d\<lparr>refcount := refcount d + 1, root_span := List.insert c (root_span d)\<rparr>)"
    using ok [OF assms(4)] unfolding root_ok_def users_root_joined [OF assms(3,2)] by (auto simp: root_joined_def)
  moreover have "root_ok cs dflt (root_joined c rd d s) q e" if "roots s q = Some e" "q \<noteq> rd" for q e
    using ok [OF that(1)] that(2) unfolding root_ok_def users_root_joined [OF assms(3,2)] by (simp add: root_joined_def)
  ultimately show ?thesis
    using assms unfolding roots_ok_def by (auto simp: root_joined_def split: if_splits)
qed

lemma no_user: "roots_ok cs dflt s \<Longrightarrow> users cs s r = {} \<Longrightarrow> rq_rd s c \<noteq> Some r"
  unfolding roots_ok_def users_def by blast

lemma free_rootdomain_ok:
  assumes "roots_ok cs dflt s" "users cs s r = {}" "r \<noteq> dflt"
  shows "roots_ok cs dflt (free_rootdomain r s)"
  using assms no_user [OF assms(1,2)] by (auto simp: roots_ok_def root_ok_def free_rootdomain_def users_def)

text \<open>An attachment that the callers make: the target is another root domain than before, or the default one.\<close>

definition attachable :: "nat list \<Rightarrow> nat \<Rightarrow> nat \<Rightarrow> nat \<Rightarrow> root_sys \<Rightarrow> bool" where
  "attachable cs dflt c rd s \<longleftrightarrow> c \<in> set cs \<and> roots s rd \<noteq> None \<and> (rd = dflt \<or> rq_rd s c \<noteq> Some rd)"

lemma rq_attach_root_ok:
  assumes "roots_ok cs dflt s" "length cs < 2 ^ 32 - 1" "attachable cs dflt c rd s"
  shows "\<exists>s'. rq_attach_root act c rd s = Some s' \<and> roots_ok cs dflt s' \<and> rq_rd s' = (rq_rd s)(c \<mapsto> rd) \<and>
    (\<forall>r. roots s' r = None \<longleftrightarrow> roots s r = None \<or> last_of cs dflt s c = Some r)"
proof -
  obtain s1 where s1: "leave_root c s = Some (s1, last_of cs dflt s c)" "roots_ok cs dflt (detached c s1)"
      "rq_rd s1 = rq_rd s" "\<not> rq_online s1 c" "\<And>r. roots s1 r = None \<longleftrightarrow> roots s r = None"
    using leave_root_ok [OF assms(1,2), of c] by metis
  obtain d where d: "roots s1 rd = Some d" using s1(5) [of rd] assms(3) by (cases "roots s1 rd") (simp_all add: attachable_def)
  have ok: "roots_ok cs dflt (root_joined c rd d s1)"
    using root_joined_ok [OF s1(2), of c rd d] assms(3) d by (simp add: root_joined_detached attachable_def)
  moreover have rd: "rq_rd (root_joined c rd d s1) = (rq_rd s)(c \<mapsto> rd)" using s1(3) by (simp add: root_joined_def)
  ultimately obtain s2 where s2: "(if c \<in> set act then set_rq_online c (root_joined c rd d s1) else Some (root_joined c rd d s1)) = Some s2"
      "roots_ok cs dflt s2" "rq_rd s2 = (rq_rd s)(c \<mapsto> rd)" "\<And>r. roots s2 r = None \<longleftrightarrow> roots (root_joined c rd d s1) r = None"
    using set_rq_online_ok [OF ok, of c] by (cases "c \<in> set act") auto
  have alloc: "roots s2 r = None \<longleftrightarrow> roots s r = None" for r
    using s2(4) [of r] s1(5) [of r] d by (cases "r = rd") (auto simp: root_joined_def)
  have attach: "rq_attach_root act c rd s =
      Some (case last_of cs dflt s c of Some r \<Rightarrow> free_rootdomain r s2 | None \<Rightarrow> s2)"
    using s1(1) d s2(1) [unfolded root_joined_def]
    by (cases "c \<in> set act") (auto simp: rq_attach_root_def Let_def split: option.split)
  show ?thesis
  proof (cases "last_of cs dflt s c")
    case None
    then show ?thesis using attach s2 alloc by simp
  next
    case (Some r)
    then have r: "rq_rd s c = Some r" "users cs s r = {c}" "r \<noteq> dflt"
      by (auto simp: last_of_def split: option.splits if_splits)
    then have "users cs s2 r = {}" using s2(3) assms(3) by (auto simp: users_def attachable_def split: if_splits)
    then have "roots_ok cs dflt (free_rootdomain r s2)" by (rule free_rootdomain_ok [OF s2(2) _ r(3)])
    then show ?thesis using attach Some s2(3) alloc by (auto simp: free_rootdomain_def)
  qed
qed

lemma alloc_rootdomain_ok:
  assumes "roots_ok cs dflt s" "\<And>q. r = Some q \<Longrightarrow> roots s q = None"
  shows "roots_ok cs dflt (fst (alloc_rootdomain r ok s))"
proof (cases "r = None \<or> fst (init_rootdomain ok) \<noteq> 0")
  case False
  then obtain q where q: "r = Some q" "roots s q = None" using assms(2) by auto
  then have no: "rq_rd s c \<noteq> Some q" for c using assms(1) unfolding roots_ok_def by blast
  moreover have "q \<noteq> dflt" using assms(1) q(2) by (auto simp: roots_ok_def)
  ultimately have "q \<noteq> dflt" "users cs s q = {}" by (auto simp: users_def)
  then have "root_ok cs dflt s q \<lparr>refcount = 0, root_span = [], root_online = []\<rparr>" by (simp add: root_ok_def)
  then show ?thesis
    using assms(1) False q no unfolding roots_ok_def
    by (auto simp: alloc_rootdomain_def root_ok_def split: if_splits)
qed (use assms(1) in \<open>auto simp: alloc_rootdomain_def split: option.split\<close>)

section \<open>Histories\<close>

text \<open>
  What changes the root domains: an allocation (\<open>kmalloc\<close> gives an address that is free), an attachment,
  a processor that comes up and one that goes down.  \<open>init_defrootdomain\<close> makes the first state.
\<close>

definition roots_init :: "nat \<Rightarrow> root_sys" where
  "roots_init dflt = \<lparr>roots = [dflt \<mapsto> \<lparr>refcount = 1, root_span = [], root_online = []\<rparr>],
     rq_rd = (\<lambda>_. None), rq_online = (\<lambda>_. False), rq_sd = (\<lambda>_. [])\<rparr>"

inductive roots_reach :: "sd_consts \<Rightarrow> nat \<Rightarrow> nat list \<Rightarrow> nat \<Rightarrow> root_sys \<Rightarrow> bool" for D nodes cs dflt where
  Init: "roots_reach D nodes cs dflt (roots_init dflt)"
| Alloc: "roots_reach D nodes cs dflt s \<Longrightarrow> (\<And>q. r = Some q \<Longrightarrow> roots s q = None) \<Longrightarrow>
    roots_reach D nodes cs dflt (fst (alloc_rootdomain r ok s))"
| Attach: "roots_reach D nodes cs dflt s \<Longrightarrow> attachable cs dflt c rd s \<Longrightarrow>
    cpu_attach_domain D nodes act sds rd c s = Some s' \<Longrightarrow> roots_reach D nodes cs dflt s'"
| Up: "roots_reach D nodes cs dflt s \<Longrightarrow> rq_rd s c \<noteq> None \<Longrightarrow> set_rq_online c s = Some s' \<Longrightarrow>
    roots_reach D nodes cs dflt s'"
| Down: "roots_reach D nodes cs dflt s \<Longrightarrow> set_rq_offline c s = Some s' \<Longrightarrow> roots_reach D nodes cs dflt s'"

lemma roots_ok_chain: "roots_ok cs dflt (s\<lparr>rq_sd := f\<rparr>) \<longleftrightarrow> roots_ok cs dflt s"
  by (simp add: roots_ok_def root_ok_def users_def)

lemma roots_reach_ok: "roots_reach D nodes cs dflt s \<Longrightarrow> length cs < 2 ^ 32 - 1 \<Longrightarrow> roots_ok cs dflt s"
proof (induction rule: roots_reach.induct)
  case Init
  show ?case by (auto simp: roots_init_def roots_ok_def root_ok_def users_def split: if_splits)
next
  case (Alloc s r ok)
  then show ?case by (intro alloc_rootdomain_ok) auto
next
  case (Attach s c rd act sds s')
  then show ?case
    using rq_attach_root_ok [of cs dflt s c rd act] by (auto simp: cpu_attach_domain_def roots_ok_chain)
next
  case (Up s c s')
  then show ?case using set_rq_online_ok [of cs dflt s c] by auto
next
  case (Down s c s')
  then show ?case using set_rq_offline_ok [of cs dflt s c] by auto
qed

text \<open>
  C20 (root_domains_are_counted): in every history of allocations, attachments and processors coming
  up and going down, the reference count of an allocated root domain is the number of its runqueues,
  one more for the default one, and its masks are those runqueues and the online ones among them; no
  runqueue points to a root domain that has been freed.  An attachment touches no freed root domain,
  and frees the one that was left exactly when the runqueue was its last.
\<close>

theorem root_domains_are_counted:
  assumes "roots_reach D nodes cs dflt s" "length cs < 2 ^ 32 - 1"
  shows "(\<forall>r d. roots s r = Some d \<longrightarrow> refcount d = of_nat (card (users cs s r) + of_bool (r = dflt)) \<and>
      set (root_span d) = users cs s r \<and> set (root_online d) = {c \<in> users cs s r. rq_online s c}) \<and>
    (\<forall>c r. rq_rd s c = Some r \<longrightarrow> roots s r \<noteq> None) \<and>
    (\<forall>c rd act sds. attachable cs dflt c rd s \<longrightarrow> (\<exists>s'. cpu_attach_domain D nodes act sds rd c s = Some s' \<and>
       rq_rd s' = (rq_rd s)(c \<mapsto> rd) \<and> rq_sd s' c = attached_chain D nodes sds \<and>
       (\<forall>r. roots s' r = None \<longleftrightarrow> roots s r = None \<or> last_of cs dflt s c = Some r)))"
proof -
  have ok: "roots_ok cs dflt s" using roots_reach_ok [OF assms] .
  have "\<exists>s'. cpu_attach_domain D nodes act sds rd c s = Some s' \<and>
       rq_rd s' = (rq_rd s)(c \<mapsto> rd) \<and> rq_sd s' c = attached_chain D nodes sds \<and>
       (\<forall>r. roots s' r = None \<longleftrightarrow> roots s r = None \<or> last_of cs dflt s c = Some r)"
    if "attachable cs dflt c rd s" for c rd act sds
    using rq_attach_root_ok [OF ok assms(2) that, of act] by (auto simp: cpu_attach_domain_def)
  moreover have "\<forall>r d. roots s r = Some d \<longrightarrow> root_ok cs dflt s r d" "\<forall>c r. rq_rd s c = Some r \<longrightarrow> roots s r \<noteq> None"
    using ok by (simp_all add: roots_ok_def)
  ultimately show ?thesis unfolding root_ok_def by blast
qed

text \<open>Processor 0 joins the default root domain 9 and then a new one, 5, which is freed when it goes back.\<close>

theorem root_domains_are_counted_witness:
  "\<exists>s. roots_reach sample_flags 1 [0, 1] 9 s \<and> rq_rd s 0 = Some 5 \<and> roots s 5 \<noteq> None \<and>
    (\<exists>s'. cpu_attach_domain sample_flags 1 [0] [] 9 0 s = Some s' \<and> roots s' 5 = None)"
proof -
  let ?a = "\<lambda>rd s. the (cpu_attach_domain sample_flags 1 [0] [] rd 0 s)"
  let ?s1 = "?a 9 (roots_init 9)"
  let ?s2 = "fst (alloc_rootdomain (Some 5) (\<lambda>_. True) ?s1)"
  let ?s3 = "?a 5 ?s2"
  note defs = cpu_attach_domain_def rq_attach_root_def leave_root_def set_rq_online_def set_rq_offline_def
    roots_init_def attachable_def alloc_rootdomain_def init_rootdomain_def set_root_def
  have 1: "roots_reach sample_flags 1 [0, 1] 9 ?s1"
    by (rule roots_reach.Attach [OF roots_reach.Init, where act = "[0]" and c = 0 and rd = 9 and sds = "[]"]) (simp_all add: defs)
  have 2: "roots_reach sample_flags 1 [0, 1] 9 ?s2"
    by (rule roots_reach.Alloc [OF 1]) (simp add: defs)
  have 3: "roots_reach sample_flags 1 [0, 1] 9 ?s3"
    by (rule roots_reach.Attach [OF 2, where act = "[0]" and c = 0 and rd = 5 and sds = "[]"]) (simp_all add: defs)
  have at: "rq_rd ?s3 0 = Some 5" "attachable [0, 1] 9 0 9 ?s3" "last_of [0, 1] 9 ?s3 0 = Some 5"
    by (auto simp: defs last_of_def users_def)
  then show ?thesis
    using root_domains_are_counted [OF 3] 3 by (intro exI [of _ ?s3]) fastforce
qed

end
