(* ===== verification/SchedTopologyProps.thy ===== *)
theory SchedTopologyProps
  imports SchedTopology SchedDomainsProps
begin

text \<open>
  The groups of the scheduling domains of opcional2/kernel/sched.c: the rings that
  \<open>init_sched_build_groups\<close> links, and the domains and groups of all levels after the construction.
\<close>

section \<open>Masks\<close>

lemma set_each_cpu [simp]: "set (each_cpu m) = set m"
  by (simp add: each_cpu_def)

lemma distinct_each_cpu [simp]: "distinct (each_cpu m)"
  by (simp add: each_cpu_def)

lemma set_cpumask_and [simp]: "set (cpumask_and a b) = set a \<inter> set b"
  by (auto simp: cpumask_and_def)

lemma each_cpu_cong: "set a = set b \<Longrightarrow> each_cpu a = each_cpu b"
  by (simp add: each_cpu_def flip: sorted_list_of_set_sort_remdups)

lemma cpumask_first_cong: "set a = set b \<Longrightarrow> cpumask_first T a = cpumask_first T b"
  using each_cpu_cong [of a b] by (simp add: cpumask_first_def)

lemma each_cpu_Nil_iff [simp]: "each_cpu m = [] \<longleftrightarrow> m = []"
  by (metis set_each_cpu set_empty)

lemma cpumask_first_in: "m \<noteq> [] \<Longrightarrow> cpumask_first T m \<in> set m"
  by (metis cpumask_first_def each_cpu_Nil_iff list.set_intros(1) list.simps(5) neq_Nil_conv set_each_cpu)

section \<open>Rings\<close>

abbreviation followed :: "group_table \<Rightarrow> nat list \<Rightarrow> bool" where
  "followed t \<equiv> successively (\<lambda>a b. sg_next t a = Some b)"

text \<open>A ring of distinct groups, each pointing to the next and the last to the first.\<close>

definition is_ring :: "group_table \<Rightarrow> nat list \<Rightarrow> bool" where
  "is_ring t gs \<longleftrightarrow> gs \<noteq> [] \<and> distinct gs \<and> followed t gs \<and> sg_next t (last gs) = Some (hd gs)"

lemma ring_walk_path:
  "followed t (g # gs) \<Longrightarrow> sg_next t (last (g # gs)) = Some h \<Longrightarrow> h \<notin> set gs \<Longrightarrow> length gs < n \<Longrightarrow>
   ring_walk t n g h = Some (g # gs)"
proof (induction gs arbitrary: g n)
  case Nil
  then show ?case by (cases n) auto
next
  case (Cons g' gs)
  then show ?case by (cases n) (auto simp: successively_Cons)
qed

lemma ring_walk_ring: "is_ring t gs \<Longrightarrow> length gs \<le> n \<Longrightarrow> ring_walk t n (hd gs) (hd gs) = Some gs"
  using ring_walk_path [of t "hd gs" "tl gs" "hd gs" n] by (cases gs) (auto simp: is_ring_def)

lemma is_ring_rotate1: "is_ring t gs \<Longrightarrow> is_ring t (rotate1 gs)"
  by (cases gs; cases "tl gs") (auto simp: is_ring_def successively_append_iff successively_Cons hd_append split: if_splits)

text \<open>A ring can be entered at any of its groups.\<close>

lemma is_ring_from:
  assumes "is_ring t gs" "g \<in> set gs"
  obtains hs where "is_ring t hs" "set hs = set gs" "hd hs = g"
proof -
  obtain xs ys where gs: "gs = xs @ g # ys" using assms(2) by (meson split_list)
  have ring: "is_ring t (rotate n gs)" for n
    using assms(1) by (induction n) (simp_all add: is_ring_rotate1)
  have "rotate (length xs) gs = g # ys @ xs" by (simp add: gs rotate_append)
  then show thesis using that [OF ring, of "length xs"] by (simp add: gs insert_commute Un_commute)
qed

section \<open>One call of \<open>init_sched_build_groups\<close>\<close>

text \<open>The groups found so far, in the order of the ring.\<close>

definition ring_inv :: "(nat \<Rightarrow> nat) \<Rightarrow> nat list \<Rightarrow> group_table \<Rightarrow> nat list \<Rightarrow> ring_state \<Rightarrow> bool" where
  "ring_inv f span t xs s \<longleftrightarrow> (\<exists>gs. distinct gs \<and> set gs = f ` set xs \<and> followed (ring_tab s) gs \<and>
     set (covered s) = {j \<in> set span. f j \<in> set gs} \<and>
     ring_first s = (if gs = [] then None else Some (hd gs)) \<and> ring_last s = (if gs = [] then None else Some (last gs)) \<and>
     (\<forall>g \<in> set gs. sg_cpus (ring_tab s) g = filter (\<lambda>j. f j = g) (each_cpu span) \<and> sg_power (ring_tab s) g = 0) \<and>
     (\<forall>g. g \<notin> set gs \<longrightarrow> sg_cpus (ring_tab s) g = sg_cpus t g \<and> sg_power (ring_tab s) g = sg_power t g \<and>
                       sg_next (ring_tab s) g = sg_next t g))"

lemma ring_invI:
  assumes "distinct gs" "set gs = f ` set xs" "followed (ring_tab s) gs"
    "set (covered s) = {j \<in> set span. f j \<in> set gs}"
    "ring_first s = (if gs = [] then None else Some (hd gs))" "ring_last s = (if gs = [] then None else Some (last gs))"
    "\<forall>g \<in> set gs. sg_cpus (ring_tab s) g = filter (\<lambda>j. f j = g) (each_cpu span) \<and> sg_power (ring_tab s) g = 0"
    "\<forall>g. g \<notin> set gs \<longrightarrow> sg_cpus (ring_tab s) g = sg_cpus t g \<and> sg_power (ring_tab s) g = sg_power t g \<and>
                       sg_next (ring_tab s) g = sg_next t g"
  shows "ring_inv f span t xs s"
  unfolding ring_inv_def using assms by (intro exI [of _ gs] conjI)

lemma followed_cong: "(\<And>a. a \<in> set (butlast gs) \<Longrightarrow> sg_next t a = sg_next t' a) \<Longrightarrow> followed t gs = followed t' gs"
  by (induction gs rule: induct_list012) auto

lemma last_notin_butlast: "distinct gs \<Longrightarrow> gs \<noteq> [] \<Longrightarrow> last gs \<notin> set (butlast gs)"
  by (metis append_butlast_last_id distinct_append disjoint_iff list.set_intros(1))

lemma ring_round_inv:
  assumes "ring_inv f span t xs s" "i \<in> set span"
  shows "ring_inv f span t (xs @ [i]) (ring_round f span i s)"
proof -
  obtain gs where gs: "distinct gs" "set gs = f ` set xs" "followed (ring_tab s) gs"
      "set (covered s) = {j \<in> set span. f j \<in> set gs}"
      "ring_first s = (if gs = [] then None else Some (hd gs))" "ring_last s = (if gs = [] then None else Some (last gs))"
      "\<forall>g \<in> set gs. sg_cpus (ring_tab s) g = filter (\<lambda>j. f j = g) (each_cpu span) \<and> sg_power (ring_tab s) g = 0"
      "\<forall>g. g \<notin> set gs \<longrightarrow> sg_cpus (ring_tab s) g = sg_cpus t g \<and> sg_power (ring_tab s) g = sg_power t g \<and>
                       sg_next (ring_tab s) g = sg_next t g"
    using assms(1) unfolding ring_inv_def by blast
  show ?thesis
  proof (cases "f i \<in> set gs")
    case True
    then have "ring_round f span i s = s" using gs(4) assms(2) by (simp add: ring_round_def Let_def)
    moreover have "set gs = f ` set (xs @ [i])" using True gs(2) by auto
    ultimately show ?thesis using gs by (simp only: ring_invI [of gs])
  next
    case False
    define s' where "s' = ring_round f span i s"
    have "i \<notin> set (covered s)" using False gs(4) by simp
    then have s': "sg_cpus (ring_tab s') = (sg_cpus (ring_tab s))(f i := filter (\<lambda>j. f j = f i) (each_cpu span))"
        "sg_power (ring_tab s') = (sg_power (ring_tab s))(f i := 0)"
        "sg_next (ring_tab s') = (if gs = [] then sg_next (ring_tab s) else (sg_next (ring_tab s))(last gs := Some (f i)))"
        "set (covered s') = {j \<in> set span. f j \<in> set (gs @ [f i])}"
        "ring_first s' = Some (hd (gs @ [f i]))" "ring_last s' = Some (last (gs @ [f i]))"
      using gs(4-6) by (auto simp: s'_def ring_round_def Let_def)
    have "followed (ring_tab s') gs"
      using gs(3) last_notin_butlast [OF gs(1)]
      by (subst followed_cong [of _ _ "ring_tab s"]) (auto simp: s'(3))
    then have "followed (ring_tab s') (gs @ [f i])"
      using s'(3) by (cases "gs = []") (simp_all add: successively_append_iff)
    moreover have "\<forall>g \<in> set (gs @ [f i]). sg_cpus (ring_tab s') g = filter (\<lambda>j. f j = g) (each_cpu span) \<and> sg_power (ring_tab s') g = 0"
      using gs(7) by (simp add: s'(1,2))
    moreover have "\<forall>g. g \<notin> set (gs @ [f i]) \<longrightarrow> sg_cpus (ring_tab s') g = sg_cpus t g \<and>
        sg_power (ring_tab s') g = sg_power t g \<and> sg_next (ring_tab s') g = sg_next t g"
      using gs(8) by (auto simp: s'(1,2,3))
    moreover have "distinct (gs @ [f i])" "set (gs @ [f i]) = f ` set (xs @ [i])" using gs(1,2) False by auto
    ultimately show ?thesis
      unfolding s'_def [symmetric] by (intro ring_invI [of "gs @ [f i]"] s'(4)) (simp_all only: s'(5,6) append_is_Nil_conv list.simps simp_thms if_False)
  qed
qed

lemma ring_fold_inv:
  "ring_inv f span t xs s \<Longrightarrow> set ys \<subseteq> set span \<Longrightarrow> ring_inv f span t (xs @ ys) (fold (ring_round f span) ys s)"
proof (induction ys arbitrary: xs s)
  case (Cons y ys)
  then show ?case using ring_round_inv [of f span t xs s y] Cons.IH [of "xs @ [y]"] by simp
qed simp

text \<open>What a call leaves: a ring of the groups of the span, each with its processors, and the rest of the table as it was.\<close>

definition ring_built :: "(nat \<Rightarrow> nat) \<Rightarrow> nat list \<Rightarrow> group_table \<Rightarrow> bool" where
  "ring_built f span t \<longleftrightarrow> (\<exists>gs. is_ring t gs \<and> set gs = f ` set span \<and>
     (\<forall>g \<in> set gs. sg_cpus t g = filter (\<lambda>j. f j = g) (each_cpu span)))"

lemma build_groups_ok:
  assumes "span \<noteq> []"
  shows "\<exists>t'. init_sched_build_groups f span t = Some t' \<and> ring_built f span t' \<and>
    (\<forall>g \<in> f ` set span. sg_power t' g = 0) \<and>
    (\<forall>g. g \<notin> f ` set span \<longrightarrow> sg_cpus t' g = sg_cpus t g \<and> sg_power t' g = sg_power t g \<and> sg_next t' g = sg_next t g)"
proof -
  define s0 where "s0 = \<lparr>ring_tab = t, covered = [], ring_first = None, ring_last = None\<rparr>"
  define s where "s = fold (ring_round f span) (each_cpu span) s0"
  have "ring_inv f span t [] s0" by (simp add: ring_inv_def s0_def)
  then have "ring_inv f span t (each_cpu span) s"
    using ring_fold_inv [of f span t "[]" s0 "each_cpu span"] by (simp add: s_def)
  then obtain gs where gs: "distinct gs" "set gs = f ` set span" "followed (ring_tab s) gs"
      "ring_first s = (if gs = [] then None else Some (hd gs))" "ring_last s = (if gs = [] then None else Some (last gs))"
      "\<forall>g \<in> set gs. sg_cpus (ring_tab s) g = filter (\<lambda>j. f j = g) (each_cpu span) \<and> sg_power (ring_tab s) g = 0"
      "\<forall>g. g \<notin> set gs \<longrightarrow> sg_cpus (ring_tab s) g = sg_cpus t g \<and> sg_power (ring_tab s) g = sg_power t g \<and>
                       sg_next (ring_tab s) g = sg_next t g"
    unfolding ring_inv_def by auto
  have ne: "gs \<noteq> []" using gs(2) assms by auto
  define t' where "t' = (ring_tab s)\<lparr>sg_next := (sg_next (ring_tab s))(last gs := Some (hd gs))\<rparr>"
  have "followed t' gs"
    using gs(3) last_notin_butlast [OF gs(1) ne] by (subst followed_cong [of _ _ "ring_tab s"]) (auto simp: t'_def)
  then have "is_ring t' gs" using ne gs(1) by (simp add: is_ring_def t'_def)
  moreover have "init_sched_build_groups f span t = Some t'"
    using ne gs(4,5) by (simp add: init_sched_build_groups_def Let_def t'_def s_def s0_def)
  moreover have "last gs \<in> f ` set span" using ne gs(2) last_in_set by blast
  moreover have "ring_built f span t'"
    using calculation(1) gs(2,6) unfolding ring_built_def by (intro exI [of _ gs]) (auto simp: t'_def)
  ultimately show ?thesis
    using gs(2,6,7) by (intro exI [of _ t']) (auto simp: t'_def)
qed

section \<open>The levels\<close>

text \<open>The levels up to a node, and all of them; a processor need not have a domain over all nodes.\<close>

definition cpu_levels :: "topology \<Rightarrow> sd_lv list" where
  "cpu_levels T = (if CONFIG_SCHED_SMT T then [LV_SIBLING] else []) @ (if CONFIG_SCHED_MC T then [LV_MC] else []) @
     (if CONFIG_SCHED_BOOK T then [LV_BOOK] else []) @ [LV_CPU]"

definition all_levels :: "topology \<Rightarrow> sd_lv list" where
  "all_levels T = cpu_levels T @ (if CONFIG_NUMA T then [LV_NODE, LV_ALLNODES] else [])"

text \<open>The level below, \<^const>\<open>None\<close> for the lowest.\<close>

definition lower :: "topology \<Rightarrow> sd_lv \<Rightarrow> sd_lv option" where
  "lower T l =
     (let below_mc = (if CONFIG_SCHED_SMT T then Some LV_SIBLING else None);
          below_book = (if CONFIG_SCHED_MC T then Some LV_MC else below_mc);
          below_cpu = (if CONFIG_SCHED_BOOK T then Some LV_BOOK else below_book)
      in case l of LV_SIBLING \<Rightarrow> None | LV_MC \<Rightarrow> below_mc | LV_BOOK \<Rightarrow> below_book | LV_CPU \<Rightarrow> below_cpu
                 | _ \<Rightarrow> Some LV_CPU)"

definition mask_at :: "topology \<Rightarrow> sd_lv \<Rightarrow> nat \<Rightarrow> nat list" where
  "mask_at T l i = (case l of LV_SIBLING \<Rightarrow> thread_mask T i | LV_MC \<Rightarrow> core_mask T i | LV_BOOK \<Rightarrow> book_mask T i
                            | _ \<Rightarrow> node_mask T (node_of T i))"

definition group_at :: "topology \<Rightarrow> nat list \<Rightarrow> sd_lv \<Rightarrow> nat \<Rightarrow> nat" where
  "group_at T cm l = (case l of LV_SIBLING \<Rightarrow> cpu_to_cpu_group T cm | LV_MC \<Rightarrow> cpu_to_core_group T cm
                              | LV_BOOK \<Rightarrow> cpu_to_book_group T cm | _ \<Rightarrow> cpu_to_phys_group T cm)"

lemma levels_cases:
  "l \<in> set (cpu_levels T) \<Longrightarrow> (l = LV_SIBLING \<Longrightarrow> CONFIG_SCHED_SMT T \<Longrightarrow> P) \<Longrightarrow> (l = LV_MC \<Longrightarrow> CONFIG_SCHED_MC T \<Longrightarrow> P) \<Longrightarrow>
   (l = LV_BOOK \<Longrightarrow> CONFIG_SCHED_BOOK T \<Longrightarrow> P) \<Longrightarrow> (l = LV_CPU \<Longrightarrow> P) \<Longrightarrow> P"
  by (auto simp: cpu_levels_def split: if_splits)

lemma lower_in_levels: "l \<in> set (cpu_levels T) \<Longrightarrow> lower T l = Some c \<Longrightarrow> c \<in> set (cpu_levels T)"
  by (cases l) (auto simp: cpu_levels_def lower_def Let_def split: if_splits)

lemma group_at_lower:
  "l \<in> set (cpu_levels T) \<Longrightarrow>
   group_at T cm l i = (case lower T l of None \<Rightarrow> i | Some c \<Rightarrow> cpumask_first T (cpumask_and (mask_at T c i) cm))"
  by (erule levels_cases)
     (simp_all add: group_at_def mask_at_def lower_def Let_def cpu_to_cpu_group_def cpu_to_core_group_def cpu_to_book_group_def cpu_to_phys_group_def)

text \<open>
  What the architecture promises of the topology of the processors \<open>cm\<close>: at each level that is
  configured they fall into classes, those of a level within those of the next, and the masks of the
  nodes agree with \<open>cpu_to_node\<close>.
\<close>

definition topo_ok :: "topology \<Rightarrow> nat list \<Rightarrow> bool" where
  "topo_ok T cm \<longleftrightarrow> cm \<noteq> [] \<and> (\<forall>i \<in> set cm. i < nr_cpu_ids T \<and> node_of T i < nr_node_ids T) \<and>
     (\<forall>n < nr_node_ids T. \<forall>i \<in> set cm. i \<in> set (node_mask T n) \<longleftrightarrow> node_of T i = n) \<and>
     (\<forall>l \<in> set (cpu_levels T). \<forall>i \<in> set cm. i \<in> set (mask_at T l i) \<and>
        (\<forall>j \<in> set cm. j \<in> set (mask_at T l i) \<longrightarrow> set cm \<inter> set (mask_at T l j) = set cm \<inter> set (mask_at T l i)) \<and>
        (case lower T l of None \<Rightarrow> True | Some c \<Rightarrow> set cm \<inter> set (mask_at T c i) \<subseteq> set (mask_at T l i)))"

definition class_of :: "topology \<Rightarrow> nat list \<Rightarrow> sd_lv \<Rightarrow> nat \<Rightarrow> nat set" where
  "class_of T cm l i = set cm \<inter> set (mask_at T l i)"

text \<open>The class of the level below; at the lowest level a processor is a class of its own.\<close>

definition subclass_of :: "topology \<Rightarrow> nat list \<Rightarrow> sd_lv \<Rightarrow> nat \<Rightarrow> nat set" where
  "subclass_of T cm l i = (case lower T l of None \<Rightarrow> {i} | Some c \<Rightarrow> class_of T cm c i)"

lemma topo_cpu: "topo_ok T cm \<Longrightarrow> i \<in> set cm \<Longrightarrow> i < nr_cpu_ids T \<and> node_of T i < nr_node_ids T"
  unfolding topo_ok_def by blast

lemma topo_level:
  assumes "topo_ok T cm" "l \<in> set (cpu_levels T)" "i \<in> set cm"
  shows "i \<in> set (mask_at T l i)"
    "\<forall>j \<in> set cm. j \<in> set (mask_at T l i) \<longrightarrow> set cm \<inter> set (mask_at T l j) = set cm \<inter> set (mask_at T l i)"
    "case lower T l of None \<Rightarrow> True | Some c \<Rightarrow> set cm \<inter> set (mask_at T c i) \<subseteq> set (mask_at T l i)"
  using assms unfolding topo_ok_def by blast+

lemma class_of_self: "topo_ok T cm \<Longrightarrow> l \<in> set (cpu_levels T) \<Longrightarrow> i \<in> set cm \<Longrightarrow> i \<in> class_of T cm l i"
  using topo_level(1) by (simp add: class_of_def)

lemma class_of_same:
  "topo_ok T cm \<Longrightarrow> l \<in> set (cpu_levels T) \<Longrightarrow> i \<in> set cm \<Longrightarrow> j \<in> class_of T cm l i \<Longrightarrow> class_of T cm l j = class_of T cm l i"
  unfolding class_of_def using topo_level(2) by blast

lemma class_of_disjoint:
  assumes "topo_ok T cm" "l \<in> set (cpu_levels T)" "i \<in> set cm" "j \<in> set cm" "class_of T cm l i \<noteq> class_of T cm l j"
  shows "class_of T cm l i \<inter> class_of T cm l j = {}"
proof (rule ccontr)
  assume "class_of T cm l i \<inter> class_of T cm l j \<noteq> {}"
  then obtain k where k: "k \<in> class_of T cm l i" "k \<in> class_of T cm l j" by (meson disjoint_iff)
  have "class_of T cm l i = class_of T cm l j"
    using class_of_same [OF assms(1,2,3) k(1)] class_of_same [OF assms(1,2,4) k(2)] by (rule subst)
  then show False using assms(5) by (rule notE [rotated])
qed

lemma class_of_sub: "class_of T cm l i \<subseteq> set cm"
  by (simp add: class_of_def)

lemma subclass_of_sub: "topo_ok T cm \<Longrightarrow> l \<in> set (cpu_levels T) \<Longrightarrow> i \<in> set cm \<Longrightarrow> subclass_of T cm l i \<subseteq> class_of T cm l i"
  using topo_level(1,3) [of T cm l i] by (cases "lower T l") (auto simp: subclass_of_def class_of_def)

lemma subclass_of_self: "topo_ok T cm \<Longrightarrow> l \<in> set (cpu_levels T) \<Longrightarrow> i \<in> set cm \<Longrightarrow> i \<in> subclass_of T cm l i"
  using class_of_self [of T cm _ i] lower_in_levels [of l T] by (cases "lower T l") (simp_all add: subclass_of_def)

lemma subclass_of_same:
  "topo_ok T cm \<Longrightarrow> l \<in> set (cpu_levels T) \<Longrightarrow> i \<in> set cm \<Longrightarrow> j \<in> subclass_of T cm l i \<Longrightarrow>
   subclass_of T cm l j = subclass_of T cm l i"
  using class_of_same [of T cm _ i j] lower_in_levels [of l T] by (cases "lower T l") (simp_all add: subclass_of_def)

lemma group_at_first:
  "l \<in> set (cpu_levels T) \<Longrightarrow> lower T l = Some c \<Longrightarrow>
   group_at T cm l i = cpumask_first T (cpumask_and (mask_at T c i) cm) \<and> set (cpumask_and (mask_at T c i) cm) = subclass_of T cm l i"
  by (auto simp: group_at_lower subclass_of_def class_of_def)

lemma group_at_in: 
  assumes "topo_ok T cm" "l \<in> set (cpu_levels T)" "i \<in> set cm"
  shows "group_at T cm l i \<in> subclass_of T cm l i"
proof (cases "lower T l")
  case None
  then show ?thesis using assms(2) by (simp add: group_at_lower subclass_of_def)
next
  case (Some c)
  note first = group_at_first [OF assms(2) Some, of cm i]
  then have "cpumask_and (mask_at T c i) cm \<noteq> []"
    using subclass_of_self [OF assms] by (metis empty_iff set_empty)
  then show ?thesis using cpumask_first_in [of "cpumask_and (mask_at T c i) cm" T] first by (simp del: set_cpumask_and)
qed

text \<open>Two processors are in the same group exactly when they are in the same class of the level below.\<close>

lemma group_at_eq:
  assumes "topo_ok T cm" "l \<in> set (cpu_levels T)" "i \<in> set cm" "j \<in> set cm"
  shows "group_at T cm l i = group_at T cm l j \<longleftrightarrow> j \<in> subclass_of T cm l i"
proof
  assume "group_at T cm l i = group_at T cm l j"
  then have "subclass_of T cm l i = subclass_of T cm l j"
    using subclass_of_same [OF assms(1,2,3) group_at_in [OF assms(1,2,3)]]
      subclass_of_same [OF assms(1,2,4) group_at_in [OF assms(1,2,4)]] by simp
  then show "j \<in> subclass_of T cm l i" using subclass_of_self [OF assms(1,2,4)] by simp
next
  assume j: "j \<in> subclass_of T cm l i"
  then have same: "subclass_of T cm l j = subclass_of T cm l i" by (rule subclass_of_same [OF assms(1,2,3)])
  show "group_at T cm l i = group_at T cm l j"
  proof (cases "lower T l")
    case None
    then show ?thesis using j by (simp add: subclass_of_def)
  next
    case (Some c)
    then show ?thesis
      using group_at_first [OF assms(2) Some, of cm i] group_at_first [OF assms(2) Some, of cm j] same
        cpumask_first_cong [of "cpumask_and (mask_at T c i) cm" "cpumask_and (mask_at T c j) cm" T] by simp
  qed
qed

section \<open>The groups of a level\<close>

text \<open>The ring of the class of \<open>i\<close> is there.\<close>

definition built :: "topology \<Rightarrow> nat list \<Rightarrow> sd_lv \<Rightarrow> nat \<Rightarrow> group_table \<Rightarrow> bool" where
  "built T cm l i t \<longleftrightarrow> ring_built (group_at T cm l) (cpumask_and cm (mask_at T l i)) t"

lemma set_class [simp]: "set (cpumask_and cm (mask_at T l i)) = class_of T cm l i"
  by (simp add: class_of_def)

lemma ring_built_span: "set a = set b \<Longrightarrow> ring_built f a t = ring_built f b t"
  by (simp add: ring_built_def each_cpu_cong [of a b])

lemma built_same: "topo_ok T cm \<Longrightarrow> l \<in> set (cpu_levels T) \<Longrightarrow> i \<in> set cm \<Longrightarrow> j \<in> class_of T cm l i \<Longrightarrow> built T cm l j t = built T cm l i t"
  unfolding built_def by (rule ring_built_span) (simp del: set_cpumask_and add: class_of_same)

lemma ring_built_other:
  assumes "ring_built f span t" "\<And>g. g \<in> f ` set span \<Longrightarrow> sg_cpus t' g = sg_cpus t g \<and> sg_next t' g = sg_next t g"
  shows "ring_built f span t'"
proof -
  obtain gs where gs: "is_ring t gs" "set gs = f ` set span"
      "\<forall>g \<in> set gs. sg_cpus t g = filter (\<lambda>j. f j = g) (each_cpu span)"
    using assms(1) unfolding ring_built_def by blast
  have same: "sg_cpus t' g = sg_cpus t g" "sg_next t' g = sg_next t g" if "g \<in> set gs" for g
    using assms(2) gs(2) that by blast+
  have "followed t' gs"
    using gs(1) same(2) by (subst followed_cong [of _ _ t]) (auto simp: is_ring_def dest: in_set_butlastD)
  then have "is_ring t' gs" using gs(1) same(2) [of "last gs"] by (auto simp: is_ring_def)
  then show ?thesis using gs(2,3) same(1) unfolding ring_built_def by (intro exI [of _ gs]) auto
qed

lemma group_at_class:
  assumes "topo_ok T cm" "l \<in> set (cpu_levels T)" "i \<in> set cm"
  shows "group_at T cm l ` class_of T cm l i \<subseteq> class_of T cm l i"
proof (rule image_subsetI)
  fix j assume j: "j \<in> class_of T cm l i"
  then have cm: "j \<in> set cm" using class_of_sub by (rule subsetD [rotated])
  have "group_at T cm l j \<in> class_of T cm l j"
    using subclass_of_sub [OF assms(1,2) cm] group_at_in [OF assms(1,2) cm] by (rule subsetD)
  then show "group_at T cm l j \<in> class_of T cm l i" using class_of_same [OF assms j] by simp
qed

lemma groups_at_ok:
  assumes "topo_ok T cm" "l \<in> set (cpu_levels T)" "i \<in> set cm" "set span = class_of T cm l i"
  shows "\<exists>t. groups_at (group_at T cm l) span l s = Some (put_grp l t s) \<and> built T cm l i t \<and>
    (\<forall>j \<in> set cm. built T cm l j (grp s l) \<longrightarrow> built T cm l j t)"
proof -
  let ?f = "group_at T cm l"
  have ne: "span \<noteq> []" using class_of_self [OF assms(1-3)] assms(4) by auto
  obtain t where t: "init_sched_build_groups ?f span (grp s l) = Some t" "ring_built ?f span t"
      "\<forall>g. g \<notin> ?f ` set span \<longrightarrow> sg_cpus t g = sg_cpus (grp s l) g \<and> sg_next t g = sg_next (grp s l) g"
    using build_groups_ok [OF ne, of ?f "grp s l"] by (elim exE conjE) (rule that, assumption, assumption, meson)
  have i: "built T cm l i t"
    using t(2) ring_built_span [of span "cpumask_and cm (mask_at T l i)" ?f t] assms(4) by (simp add: built_def del: set_cpumask_and)
  have "built T cm l j t" if j: "j \<in> set cm" "built T cm l j (grp s l)" for j
  proof (cases "class_of T cm l i = class_of T cm l j")
    case True
    then have "j \<in> class_of T cm l i" using class_of_self [OF assms(1,2) j(1)] by simp
    then show ?thesis using i built_same [OF assms(1,2,3)] by simp
  next
    case False
    then have "class_of T cm l i \<inter> class_of T cm l j = {}" by (rule class_of_disjoint [OF assms(1-3) j(1)])
    then have "?f ` class_of T cm l j \<inter> ?f ` class_of T cm l i = {}"
      using group_at_class [OF assms(1,2,3)] group_at_class [OF assms(1,2) j(1)] by blast
    then have "g \<notin> ?f ` set span" if "g \<in> ?f ` class_of T cm l j" for g
      using that unfolding assms(4) by (rule disjoint_iff [THEN iffD1, rule_format])
    then have "sg_cpus t g = sg_cpus (grp s l) g \<and> sg_next t g = sg_next (grp s l) g" if "g \<in> ?f ` class_of T cm l j" for g
      using t(3) that by simp
    then show ?thesis
      using j(2) unfolding built_def by (elim ring_built_other) (simp only: set_class)
  qed
  then show ?thesis using t(1) i by (intro exI [of _ t]) (simp add: groups_at_def)
qed

text \<open>The steps of the construction keep the domains and the rings that are there.\<close>

definition grows :: "topology \<Rightarrow> nat list \<Rightarrow> topo_sys \<Rightarrow> topo_sys \<Rightarrow> bool" where
  "grows T cm s s' \<longleftrightarrow> sdom s' = sdom s \<and> sd_allnodes s' = sd_allnodes s \<and> node_rings s' = node_rings s \<and>
     (\<forall>l \<in> set (cpu_levels T). \<forall>j \<in> set cm. built T cm l j (grp s l) \<longrightarrow> built T cm l j (grp s' l))"

lemma growsD: "grows T cm s s' \<Longrightarrow> l \<in> set (cpu_levels T) \<Longrightarrow> j \<in> set cm \<Longrightarrow> built T cm l j (grp s l) \<Longrightarrow> built T cm l j (grp s' l)"
  by (simp add: grows_def)

lemma grows_refl [simp]: "grows T cm s s"
  by (simp add: grows_def)

lemma grows_trans: "grows T cm s s' \<Longrightarrow> grows T cm s' s'' \<Longrightarrow> grows T cm s s''"
  by (simp add: grows_def)

lemma each_step_grows:
  assumes "\<And>x s. x \<in> set xs \<Longrightarrow> \<exists>s'. f x s = Some s' \<and> grows T cm s s' \<and> Q x s'"
    "\<And>x s s'. Q x s \<Longrightarrow> grows T cm s s' \<Longrightarrow> Q x s'"
  shows "\<exists>s'. each_step f xs s = Some s' \<and> grows T cm s s' \<and> (\<forall>x \<in> set xs. Q x s')"
  using assms(1)
proof (induction xs arbitrary: s)
  case (Cons x xs)
  obtain s1 where s1: "f x s = Some s1" "grows T cm s s1" "Q x s1" using Cons.prems by force
  obtain s2 where "each_step f xs s1 = Some s2" "grows T cm s1 s2" "\<forall>x \<in> set xs. Q x s2"
    using Cons.IH [of s1] Cons.prems by auto
  then show ?case using s1 assms(2) grows_trans by (intro exI [of _ s2]) auto
qed simp

lemma grows_put:
  "(\<And>j. l \<in> set (cpu_levels T) \<Longrightarrow> j \<in> set cm \<Longrightarrow> built T cm l j (grp s l) \<Longrightarrow> built T cm l j t) \<Longrightarrow> grows T cm s (put_grp l t s)"
  by (auto simp: grows_def put_grp_def)

lemma groups_at_grows:
  assumes "topo_ok T cm" "l \<in> set (cpu_levels T)" "i \<in> set cm" "set span = class_of T cm l i"
  shows "\<exists>s'. groups_at (group_at T cm l) span l s = Some s' \<and> grows T cm s s' \<and> built T cm l i (grp s' l)"
proof -
  obtain t where "groups_at (group_at T cm l) span l s = Some (put_grp l t s)" "built T cm l i t"
      "\<forall>j \<in> set cm. built T cm l j (grp s l) \<longrightarrow> built T cm l j t"
    using groups_at_ok [OF assms] by blast
  then show ?thesis using grows_put [of l T cm s t] by (intro exI [of _ "put_grp l t s"]) (simp add: put_grp_def)
qed

text \<open>The three levels whose groups the first processor of a class builds.\<close>

lemma build_class_groups:
  assumes "topo_ok T cm" "i \<in> set cm" "T = topo A" "cm = cpu_map A" "l \<in> {LV_SIBLING, LV_MC, LV_BOOK}"
  shows "\<exists>s'. build_sched_groups A l i s = Some s' \<and> grows T cm s s' \<and>
    (l \<in> set (cpu_levels T) \<longrightarrow> i = cpumask_first T (cpumask_and cm (mask_at T l i)) \<longrightarrow> built T cm l i (grp s' l))"
proof (cases "l \<in> set (cpu_levels T) \<and> i = cpumask_first T (cpumask_and cm (mask_at T l i))")
  case True
  obtain s' where s': "groups_at (group_at T cm l) (cpumask_and cm (mask_at T l i)) l s = Some s'"
      "grows T cm s s'" "built T cm l i (grp s' l)"
    using groups_at_grows [OF assms(1) _ assms(2) set_class, of l s] True by blast
  moreover have "build_sched_groups A l i s = groups_at (group_at T cm l) (cpumask_and cm (mask_at T l i)) l s"
    using True assms(3-5)
    by (elim conjE levels_cases [of l T]) (simp_all add: build_sched_groups_def group_at_def mask_at_def Let_def del: set_cpumask_and)
  ultimately show ?thesis by auto
next
  case False
  then have "build_sched_groups A l i s = Some s"
    using assms(3-5) by (auto simp: build_sched_groups_def cpu_levels_def mask_at_def Let_def)
  then show ?thesis using False by auto
qed

lemma build_class_levels:
  assumes "topo_ok T cm" "i \<in> set cm" "T = topo A" "cm = cpu_map A"
  shows "\<exists>s'. do { s \<leftarrow> build_sched_groups A LV_SIBLING i s; s \<leftarrow> build_sched_groups A LV_BOOK i s;
                    build_sched_groups A LV_MC i s } = Some s' \<and> grows T cm s s' \<and>
    (\<forall>l \<in> set (cpu_levels T) - {LV_CPU}. i = cpumask_first T (cpumask_and cm (mask_at T l i)) \<longrightarrow> built T cm l i (grp s' l))"
proof -
  note step = build_class_groups [OF assms]
  obtain s1 where s1: "build_sched_groups A LV_SIBLING i s = Some s1" "grows T cm s s1"
      "LV_SIBLING \<in> set (cpu_levels T) \<Longrightarrow> i = cpumask_first T (cpumask_and cm (mask_at T LV_SIBLING i)) \<Longrightarrow> built T cm LV_SIBLING i (grp s1 LV_SIBLING)"
    using step [of LV_SIBLING s] by auto
  obtain s2 where s2: "build_sched_groups A LV_BOOK i s1 = Some s2" "grows T cm s1 s2"
      "LV_BOOK \<in> set (cpu_levels T) \<Longrightarrow> i = cpumask_first T (cpumask_and cm (mask_at T LV_BOOK i)) \<Longrightarrow> built T cm LV_BOOK i (grp s2 LV_BOOK)"
    using step [of LV_BOOK s1] by auto
  obtain s3 where s3: "build_sched_groups A LV_MC i s2 = Some s3" "grows T cm s2 s3"
      "LV_MC \<in> set (cpu_levels T) \<Longrightarrow> i = cpumask_first T (cpumask_and cm (mask_at T LV_MC i)) \<Longrightarrow> built T cm LV_MC i (grp s3 LV_MC)"
    using step [of LV_MC s2] by auto
  have all: "built T cm l i (grp s3 l)"
    if "l \<in> set (cpu_levels T) - {LV_CPU}" "i = cpumask_first T (cpumask_and cm (mask_at T l i))" for l
  proof -
    have l: "l \<in> set (cpu_levels T)" "l = LV_SIBLING \<or> l = LV_MC \<or> l = LV_BOOK"
      using that(1) by (auto elim: levels_cases)
    then show ?thesis
      using that(2) s1(3) s2(3) s3(3) growsD [OF s2(2) l(1) assms(2)] growsD [OF s3(2) l(1) assms(2)] by (elim disjE) simp_all
  qed
  show ?thesis
    using grows_trans [OF grows_trans [OF s1(2) s2(2)] s3(2)] all
    by (intro exI [of _ s3]) (simp add: s1(1) s2(1) s3(1))
qed

lemma build_node_groups:
  assumes "topo_ok T cm" "n < nr_node_ids T" "T = topo A" "cm = cpu_map A"
  shows "\<exists>s'. build_sched_groups A LV_CPU n s = Some s' \<and> grows T cm s s' \<and>
    (\<forall>i \<in> set cm. node_of T i = n \<longrightarrow> built T cm LV_CPU i (grp s' LV_CPU))"
proof -
  have step: "build_sched_groups A LV_CPU n s =
      (let nodemask = cpumask_and (node_mask T n) cm
       in if nodemask \<noteq> [] then groups_at (group_at T cm LV_CPU) nodemask LV_CPU s else Some s)"
    using assms(3,4) by (simp add: build_sched_groups_def group_at_def Let_def)
  have mask: "i \<in> set (node_mask T n) \<longleftrightarrow> node_of T i = n" if "i \<in> set cm" for i
    using assms(1,2) that unfolding topo_ok_def by blast
  have cpu: "LV_CPU \<in> set (cpu_levels T)" by (simp add: cpu_levels_def)
  show ?thesis
  proof (cases "cpumask_and (node_mask T n) cm = []")
    case True
    then have "set (node_mask T n) \<inter> set cm = {}" by (metis set_cpumask_and set_empty)
    then show ?thesis using True step mask by auto
  next
    case False
    then obtain i where "i \<in> set (cpumask_and (node_mask T n) cm)" using hd_in_set by blast
    then have i: "i \<in> set cm" "node_of T i = n" using mask by auto
    then have span: "set (cpumask_and (node_mask T n) cm) = class_of T cm LV_CPU i"
      by (auto simp: class_of_def mask_at_def)
    obtain s' where s': "groups_at (group_at T cm LV_CPU) (cpumask_and (node_mask T n) cm) LV_CPU s = Some s'"
        "grows T cm s s'" "built T cm LV_CPU i (grp s' LV_CPU)"
      using groups_at_grows [OF assms(1) cpu i(1) span, of s] by blast
    have "built T cm LV_CPU j (grp s' LV_CPU)" if j: "j \<in> set cm" "node_of T j = n" for j
    proof -
      have "j \<in> class_of T cm LV_CPU i" using j mask i(2) by (simp add: class_of_def mask_at_def)
      then show ?thesis using built_same [OF assms(1) cpu i(1)] s'(3) by simp
    qed
    then show ?thesis using s' step False by (simp add: Let_def)
  qed
qed

section \<open>The domains of a processor\<close>

definition upper :: "topology \<Rightarrow> sd_lv \<Rightarrow> sd_lv option" where
  "upper T l =
     (let above_cpu = (if CONFIG_NUMA T then Some LV_NODE else None);
          above_mc = (if CONFIG_SCHED_BOOK T then Some LV_BOOK else Some LV_CPU);
          above_sibling = (if CONFIG_SCHED_MC T then Some LV_MC else above_mc)
      in case l of LV_SIBLING \<Rightarrow> above_sibling | LV_MC \<Rightarrow> above_mc | LV_BOOK \<Rightarrow> Some LV_CPU | LV_CPU \<Rightarrow> above_cpu
                 | _ \<Rightarrow> None)"

text \<open>The domains of \<open>i\<close> at the levels with tables of groups are set up.\<close>

definition domains_ok :: "topology \<Rightarrow> nat list \<Rightarrow> (sd_lv \<Rightarrow> nat \<Rightarrow> built_domain) \<Rightarrow> nat \<Rightarrow> bool" where
  "domains_ok T cm D i \<longleftrightarrow> (\<forall>l \<in> set (cpu_levels T). set (sd_span (D l i)) = class_of T cm l i \<and>
     sd_group (D l i) = group_at T cm l i \<and> sd_child (D l i) = lower T l \<and> sd_parent (D l i) = upper T l)"

text \<open>What all the builders of one domain do.\<close>

definition layer :: "build_args \<Rightarrow> sd_lv \<Rightarrow> nat list \<Rightarrow> nat \<Rightarrow> sd_lv option \<Rightarrow> nat \<Rightarrow> topo_sys \<Rightarrow> topo_sys" where
  "layer A l span g parent i s =
     (let sd = (fresh_domain A l)\<lparr>sd_span := span, sd_parent := parent\<rparr>
      in put_dom l i (sd\<lparr>sd_group := g\<rparr>) (set_child parent i l (put_dom l i sd s)))"

lemma set_domain_attribute_fields [simp]:
  "sd_span (set_domain_attribute D r a sd) = sd_span sd" "sd_level (set_domain_attribute D r a sd) = sd_level sd"
  "sd_groups (set_domain_attribute D r a sd) = sd_groups sd"
  by (simp_all add: set_domain_attribute_def Let_def split: option.split)

lemma fresh_domain_child [simp]: "sd_child (fresh_domain A l) = None"
  by (simp add: fresh_domain_def set_domain_attribute_def sd_init_def Let_def sched_domain.extend_def split: option.split)

lemma layer_sdom:
  "parent \<noteq> Some l \<Longrightarrow> sdom (layer A l span g parent i s) l' j =
     (if j \<noteq> i then sdom s l' j
      else if l' = l then (fresh_domain A l)\<lparr>sd_span := span, sd_parent := parent, sd_group := g\<rparr>
      else if Some l' = parent then (sdom s l' i)\<lparr>sd_child := Some l\<rparr> else sdom s l' i)"
  by (cases parent) (auto simp: layer_def set_child_def put_dom_def Let_def)

lemma layer_others [simp]: "grp (layer A l span g parent i s) = grp s" "node_rings (layer A l span g parent i s) = node_rings s"
  by (cases parent; simp add: layer_def set_child_def put_dom_def Let_def)+

lemma builder_layers:
  "build_cpu_sched_domain A m parent i s = (layer A LV_CPU m (group_at (topo A) (cpu_map A) LV_CPU i) parent i s, LV_CPU)"
  "build_book_sched_domain A p i s = (if CONFIG_SCHED_BOOK (topo A)
     then (layer A LV_BOOK (cpumask_and (cpu_map A) (mask_at (topo A) LV_BOOK i)) (group_at (topo A) (cpu_map A) LV_BOOK i) (Some p) i s, LV_BOOK)
     else (s, p))"
  "build_mc_sched_domain A p i s = (if CONFIG_SCHED_MC (topo A)
     then (layer A LV_MC (cpumask_and (cpu_map A) (mask_at (topo A) LV_MC i)) (group_at (topo A) (cpu_map A) LV_MC i) (Some p) i s, LV_MC)
     else (s, p))"
  "build_smt_sched_domain A p i s = (if CONFIG_SCHED_SMT (topo A)
     then (layer A LV_SIBLING (cpumask_and (cpu_map A) (mask_at (topo A) LV_SIBLING i)) (group_at (topo A) (cpu_map A) LV_SIBLING i) (Some p) i s, LV_SIBLING)
     else (s, p))"
  by (simp_all add: build_cpu_sched_domain_def build_book_sched_domain_def build_mc_sched_domain_def build_smt_sched_domain_def
      layer_def Let_def group_at_def mask_at_def)

lemma build_numa_parent: "snd (build_numa_sched_domains A m i s) = (if CONFIG_NUMA (topo A) then Some LV_NODE else None)"
  by (simp add: build_numa_sched_domains_def Let_def split: prod.split)

lemma build_numa_others: "j \<noteq> i \<Longrightarrow> sdom (fst (build_numa_sched_domains A m i s)) l j = sdom s l j"
  by (simp add: build_numa_sched_domains_def Let_def put_dom_def set_child_def split: prod.split)

lemma build_domains_others: "j \<noteq> i \<Longrightarrow> sdom (build_domains_of A i s) l j = sdom s l j"
  by (simp add: build_domains_of_def builder_layers build_numa_parent build_numa_others layer_sdom Let_def split_beta)

lemma class_span [simp]: "set (cpumask_and (node_mask T (node_of T i)) cm) = class_of T cm LV_CPU i"
  by (auto simp: class_of_def mask_at_def)

lemma build_domains_ok: "domains_ok (topo A) (cpu_map A) (sdom (build_domains_of A i s)) i"
  unfolding domains_ok_def
proof
  fix l assume "l \<in> set (cpu_levels (topo A))"
  then show "set (sd_span (sdom (build_domains_of A i s) l i)) = class_of (topo A) (cpu_map A) l i \<and>
     sd_group (sdom (build_domains_of A i s) l i) = group_at (topo A) (cpu_map A) l i \<and>
     sd_child (sdom (build_domains_of A i s) l i) = lower (topo A) l \<and> sd_parent (sdom (build_domains_of A i s) l i) = upper (topo A) l"
    by (elim levels_cases)
       (simp_all add: build_domains_of_def builder_layers build_numa_parent layer_sdom Let_def split_beta lower_def upper_def
         del: set_cpumask_and)
qed

lemma build_all_domains_ok:
  "i \<in> set xs \<Longrightarrow> domains_ok (topo A) (cpu_map A) (sdom (fold (build_domains_of A) xs s)) i"
proof (induction xs rule: rev_induct)
  case (snoc x xs)
  show ?case
  proof (cases "i = x")
    case False
    then show ?thesis using snoc by (simp add: domains_ok_def build_domains_others)
  qed (simp add: build_domains_ok)
qed simp

section \<open>The whole construction\<close>

lemma first_of_class:
  assumes "topo_ok T cm" "l \<in> set (cpu_levels T)" "i \<in> set cm"
  obtains c where "c \<in> class_of T cm l i" "c \<in> set cm" "c = cpumask_first T (cpumask_and cm (mask_at T l c))"
proof -
  define c where "c = cpumask_first T (cpumask_and cm (mask_at T l i))"
  have "cpumask_and cm (mask_at T l i) \<noteq> []"
    using class_of_self [OF assms] by (metis set_class empty_iff set_empty)
  then have "c \<in> set (cpumask_and cm (mask_at T l i))" unfolding c_def by (rule cpumask_first_in)
  then have c: "c \<in> class_of T cm l i" by (simp only: set_class)
  have "set (cpumask_and cm (mask_at T l c)) = set (cpumask_and cm (mask_at T l i))"
    using class_of_same [OF assms c] by (simp only: set_class)
  then show thesis using that [of c] c class_of_sub [of T cm l i] cpumask_first_cong unfolding c_def by (metis subsetD)
qed

lemma grows_domains: "grows T cm s s' \<Longrightarrow> sdom s' = sdom s \<and> sd_allnodes s' = sd_allnodes s"
  by (simp add: grows_def)

lemma build_levels_full:
  assumes "topo_ok T cm" "T = topo A" "cm = cpu_map A"
  shows "\<exists>s'. build_levels A s = Some s' \<and>
    (\<forall>i \<in> set cm. domains_ok T cm (sdom s') i \<and> (\<forall>l \<in> set (cpu_levels T). built T cm l i (grp s' l))) \<and>
    (CONFIG_NUMA T \<and> sd_allnodes s' \<longrightarrow> ring_built (cpu_to_allnodes_group T cm) cm (grp s' LV_ALLNODES)) \<and>
    sdom s' = sdom (fold (build_domains_of A) (each_cpu cm) s)"
proof -
  define s0 where "s0 = fold (build_domains_of A) (each_cpu cm) s"
  let ?lv = "\<lambda>i s. do { s \<leftarrow> build_sched_groups A LV_SIBLING i s; s \<leftarrow> build_sched_groups A LV_BOOK i s;
                    build_sched_groups A LV_MC i s }"
  let ?Q = "\<lambda>i s. \<forall>l \<in> set (cpu_levels T) - {LV_CPU}. i = cpumask_first T (cpumask_and cm (mask_at T l i)) \<longrightarrow>
                    i \<in> set cm \<longrightarrow> built T cm l i (grp s l)"
  let ?N = "\<lambda>n s. \<forall>i \<in> set cm. node_of T i = n \<longrightarrow> built T cm LV_CPU i (grp s LV_CPU)"
  have cpu: "LV_CPU \<in> set (cpu_levels T)" by (simp add: cpu_levels_def)
  have "\<exists>s1. each_step ?lv (each_cpu cm) s0 = Some s1 \<and> grows T cm s0 s1 \<and> (\<forall>i \<in> set (each_cpu cm). ?Q i s1)"
  proof (rule each_step_grows)
    fix i s assume "i \<in> set (each_cpu cm)"
    then show "\<exists>s'. ?lv i s = Some s' \<and> grows T cm s s' \<and> ?Q i s'"
      using build_class_levels [OF assms(1) _ assms(2,3), of i s] by auto
  next
    fix i s s' assume "?Q i s" "grows T cm s s'"
    then show "?Q i s'" using growsD [of T cm s s'] by blast
  qed
  then obtain s1 where s1: "each_step ?lv (each_cpu cm) s0 = Some s1" "grows T cm s0 s1" "\<forall>i \<in> set (each_cpu cm). ?Q i s1"
    by blast
  have "\<exists>s2. each_step (build_sched_groups A LV_CPU) [0..<nr_node_ids T] s1 = Some s2 \<and> grows T cm s1 s2 \<and>
      (\<forall>n \<in> set [0..<nr_node_ids T]. ?N n s2)"
  proof (rule each_step_grows)
    fix n s assume "n \<in> set [0..<nr_node_ids T]"
    then show "\<exists>s'. build_sched_groups A LV_CPU n s = Some s' \<and> grows T cm s s' \<and> ?N n s'"
      using build_node_groups [OF assms(1) _ assms(2,3), of n s] by simp
  next
    fix n s s' assume "?N n s" "grows T cm s s'"
    then show "?N n s'" using growsD [of T cm s s' LV_CPU] cpu by blast
  qed
  then obtain s2 where s2: "each_step (build_sched_groups A LV_CPU) [0..<nr_node_ids T] s1 = Some s2" "grows T cm s1 s2"
      "\<forall>n \<in> set [0..<nr_node_ids T]. ?N n s2" by blast
  have "LV_ALLNODES \<notin> set (cpu_levels T)" by (simp add: cpu_levels_def)
  then have nodes: "grows T cm s2 (put_grp LV_ALLNODES t s2)" for t by (intro grows_put) simp
  have "cm \<noteq> []" using assms(1) by (simp add: topo_ok_def)
  then obtain s3 where s3: "(if CONFIG_NUMA T \<and> sd_allnodes s2 then build_sched_groups A LV_ALLNODES 0 s2 else Some s2) = Some s3"
      "grows T cm s2 s3" "CONFIG_NUMA T \<and> sd_allnodes s3 \<longrightarrow> ring_built (cpu_to_allnodes_group T cm) cm (grp s3 LV_ALLNODES)"
    using build_groups_ok [of cm "cpu_to_allnodes_group T cm" "grp s2 LV_ALLNODES"] assms(2,3)
      nodes by (cases "CONFIG_NUMA T \<and> sd_allnodes s2") (auto simp: build_sched_groups_def groups_at_def put_grp_def)
  have "build_levels A s = Some s3"
    using s1(1) s2(1) s3(1) by (simp add: build_levels_def Let_def s0_def assms(2,3))
  moreover have "domains_ok T cm (sdom s3) i" if "i \<in> set cm" for i
    using build_all_domains_ok [of i "each_cpu cm" A s] that grows_domains [OF s1(2)] grows_domains [OF s2(2)] grows_domains [OF s3(2)]
    by (simp add: s0_def assms(2,3))
  moreover have "built T cm l i (grp s3 l)" if in_cm: "i \<in> set cm" "l \<in> set (cpu_levels T)" for i l
  proof (cases "l = LV_CPU")
    case True
    have "node_of T i < nr_node_ids T" using topo_cpu [OF assms(1) in_cm(1)] by simp
    then have "built T cm LV_CPU i (grp s2 LV_CPU)" using s2(3) in_cm(1) by simp
    then show ?thesis using growsD [OF s3(2) cpu in_cm(1)] True by simp
  next
    case False
    obtain c where c: "c \<in> class_of T cm l i" "c \<in> set cm" "c = cpumask_first T (cpumask_and cm (mask_at T l c))"
      using first_of_class [OF assms(1) in_cm(2,1)] .
    then have "built T cm l c (grp s1 l)" using s1(3) in_cm(2) False by simp
    then have "built T cm l c (grp s3 l)"
      using growsD [OF grows_trans [OF s2(2) s3(2)] in_cm(2) c(2)] by blast
    then show ?thesis using built_same [OF assms(1) in_cm(2,1) c(1)] by simp
  qed
  moreover have "sdom s3 = sdom (fold (build_domains_of A) (each_cpu cm) s)"
    using grows_domains [OF s1(2)] grows_domains [OF s2(2)] grows_domains [OF s3(2)] by (simp add: s0_def)
  ultimately show ?thesis using s3(3) by blast
qed

lemma build_levels_ok:
  assumes "topo_ok T cm" "T = topo A" "cm = cpu_map A"
  shows "\<exists>s'. build_levels A s = Some s' \<and>
    (\<forall>i \<in> set cm. domains_ok T cm (sdom s') i \<and> (\<forall>l \<in> set (cpu_levels T). built T cm l i (grp s' l))) \<and>
    (CONFIG_NUMA T \<and> sd_allnodes s' \<longrightarrow> ring_built (cpu_to_allnodes_group T cm) cm (grp s' LV_ALLNODES))"
  using build_levels_full [OF assms, of s] by blast

text \<open>What a ring that is there gives, seen from the group of a processor.\<close>

lemma built_groups:
  assumes "topo_ok T cm" "l \<in> set (cpu_levels T)" "i \<in> set cm" "built T cm l i t"
  shows "\<exists>gs. ring_walk t (nr_cpu_ids T) (group_at T cm l i) (group_at T cm l i) = Some gs \<and> distinct gs \<and>
    set gs = group_at T cm l ` class_of T cm l i \<and>
    (\<forall>j \<in> class_of T cm l i. set (sg_cpus t (group_at T cm l j)) = subclass_of T cm l j)"
proof -
  let ?f = "group_at T cm l"
  obtain gs where gs: "is_ring t gs" "set gs = ?f ` class_of T cm l i"
      "\<forall>g \<in> set gs. sg_cpus t g = filter (\<lambda>j. ?f j = g) (each_cpu (cpumask_and cm (mask_at T l i)))"
    using assms(4) unfolding built_def ring_built_def set_class by blast
  have "?f i \<in> set gs" unfolding gs(2) using class_of_self [OF assms(1-3)] by (rule imageI)
  then obtain hs where hs: "is_ring t hs" "set hs = set gs" "hd hs = ?f i" using is_ring_from [OF gs(1)] by metis
  have "set hs \<subseteq> {..<nr_cpu_ids T}"
    using subset_trans [OF group_at_class [OF assms(1-3)] class_of_sub] topo_cpu [OF assms(1)]
    unfolding hs(2) gs(2) by (meson lessThan_iff subsetD subsetI)
  moreover have "distinct hs" using hs(1) by (simp add: is_ring_def)
  ultimately have "length hs \<le> nr_cpu_ids T"
    using card_mono [of "{..<nr_cpu_ids T}" "set hs"] distinct_card [of hs] by simp
  then have "ring_walk t (nr_cpu_ids T) (?f i) (?f i) = Some hs" using ring_walk_ring [OF hs(1)] hs(3) by simp
  moreover have "set (sg_cpus t (?f j)) = subclass_of T cm l j" if j: "j \<in> class_of T cm l i" for j
  proof -
    have cm: "j \<in> set cm" using j class_of_sub by (rule subsetD [rotated])
    have "?f j \<in> set gs" unfolding gs(2) using j by (rule imageI)
    then have "set (sg_cpus t (?f j)) = {k \<in> class_of T cm l i. ?f k = ?f j}"
      using gs(3) by (simp only: set_filter set_each_cpu set_class)
    also have "\<dots> = {k \<in> class_of T cm l i. k \<in> subclass_of T cm l j}"
    proof (rule Collect_cong, rule conj_cong [OF refl])
      fix k assume "k \<in> class_of T cm l i"
      then have "k \<in> set cm" using class_of_sub by (rule subsetD [rotated])
      then show "?f k = ?f j \<longleftrightarrow> k \<in> subclass_of T cm l j"
        by (subst eq_commute) (rule group_at_eq [OF assms(1,2) cm])
    qed
    also have "\<dots> = subclass_of T cm l j"
      using subset_trans [OF subclass_of_sub [OF assms(1,2) cm] equalityD1 [OF class_of_same [OF assms(1-3) j]]] by blast
    finally show ?thesis .
  qed
  ultimately show ?thesis using hs(1,2) gs(2) by (intro exI [of _ hs]) (simp add: is_ring_def)
qed

section \<open>The levels of the nodes\<close>

definition wants_allnodes :: "build_args \<Rightarrow> nat \<Rightarrow> bool" where
  "wants_allnodes A i \<longleftrightarrow> SD_NODES_PER_DOMAIN *
     cpumask_weight (cpumask_and (node_mask (topo A) (node_of (topo A) i)) (cpu_map A)) < cpumask_weight (cpu_map A)"

lemma layer_allnodes [simp]: "sd_allnodes (layer A l span g parent i s) = sd_allnodes s"
  by (cases parent) (simp_all add: layer_def set_child_def put_dom_def Let_def)

lemma build_domains_allnodes:
  assumes "CONFIG_NUMA (topo A)"
  shows "sd_allnodes (build_domains_of A i s) = wants_allnodes A i"
    "sd_parent (sdom (build_domains_of A i s) LV_NODE i) = (if wants_allnodes A i then Some LV_ALLNODES else None)"
proof -
  have numa: "sd_allnodes (fst (build_numa_sched_domains A (cpumask_and (node_mask (topo A) (node_of (topo A) i)) (cpu_map A)) i s))
        = wants_allnodes A i"
      "sd_parent (sdom (fst (build_numa_sched_domains A (cpumask_and (node_mask (topo A) (node_of (topo A) i)) (cpu_map A)) i s)) LV_NODE i)
        = (if wants_allnodes A i then Some LV_ALLNODES else None)"
    using assms by (simp_all add: build_numa_sched_domains_def wants_allnodes_def Let_def put_dom_def set_child_def)
  show "sd_allnodes (build_domains_of A i s) = wants_allnodes A i"
    "sd_parent (sdom (build_domains_of A i s) LV_NODE i) = (if wants_allnodes A i then Some LV_ALLNODES else None)"
    using numa by (simp_all add: build_domains_of_def builder_layers build_numa_parent layer_sdom Let_def split_beta)
qed

text \<open>The domains of \<open>i\<close> at the levels of the nodes, before the groups of the nodes are built.\<close>

definition node_domains_ok :: "build_args \<Rightarrow> (sd_lv \<Rightarrow> nat \<Rightarrow> built_domain) \<Rightarrow> nat \<Rightarrow> bool" where
  "node_domains_ok A D i \<longleftrightarrow>
     set (sd_span (D LV_NODE i)) = set (sched_domain_node_span (topo A) (node_of (topo A) i)) \<inter> set (cpu_map A) \<and>
     sd_child (D LV_NODE i) = Some LV_CPU \<and>
     (sd_parent (D LV_NODE i) = Some LV_ALLNODES \<longrightarrow>
       sd_span (D LV_ALLNODES i) = cpu_map A \<and> sd_group (D LV_ALLNODES i) = cpu_to_allnodes_group (topo A) (cpu_map A) i)"

lemma build_numa_domains:
  assumes "CONFIG_NUMA (topo A)" and s'_def: "s' = fst (build_numa_sched_domains A m i s)"
  shows "set (sd_span (sdom s' LV_NODE i)) = set (sched_domain_node_span (topo A) (node_of (topo A) i)) \<inter> set (cpu_map A)"
    "sd_parent (sdom s' LV_NODE i) = Some LV_ALLNODES \<Longrightarrow>
       sd_span (sdom s' LV_ALLNODES i) = cpu_map A \<and> sd_group (sdom s' LV_ALLNODES i) = cpu_to_allnodes_group (topo A) (cpu_map A) i"
  using assms(1) unfolding s'_def by (auto simp: build_numa_sched_domains_def Let_def put_dom_def set_child_def)

lemma build_node_domains_ok:
  assumes "CONFIG_NUMA (topo A)"
  shows "node_domains_ok A (sdom (build_domains_of A i s)) i"
proof -
  define m where "m = cpumask_and (node_mask (topo A) (node_of (topo A) i)) (cpu_map A)"
  define s1 where "s1 = fst (build_numa_sched_domains A m i s)"
  define s' where "s' = build_domains_of A i s"
  have node: "sdom s' LV_NODE i = (sdom s1 LV_NODE i)\<lparr>sd_child := Some LV_CPU\<rparr>" "sdom s' LV_ALLNODES i = sdom s1 LV_ALLNODES i"
    using assms
    by (simp_all add: s'_def build_domains_of_def builder_layers build_numa_parent layer_sdom Let_def split_beta s1_def m_def)
  show ?thesis
    using build_numa_domains [OF assms s1_def] unfolding s'_def [symmetric] node_domains_ok_def node by simp
qed

lemma build_all_node_domains_ok:
  "CONFIG_NUMA (topo A) \<Longrightarrow> i \<in> set xs \<Longrightarrow> node_domains_ok A (sdom (fold (build_domains_of A) xs s)) i"
proof (induction xs rule: rev_induct)
  case (snoc x xs)
  show ?case
  proof (cases "i = x")
    case False
    then show ?thesis using snoc by (simp add: node_domains_ok_def build_domains_others)
  qed (simp add: build_node_domains_ok snoc.prems)
qed simp

section \<open>The groups of a node\<close>

lemma span_loop_start: "set span \<subseteq> set (span_loop T node n used span)"
proof (induction T node n used span rule: span_loop.induct)
  case (2 T node n used span)
  then show ?case by (auto simp: split_beta)
qed simp

lemma node_span_self: "set (node_mask T node) \<subseteq> set (sched_domain_node_span T node)"
  unfolding sched_domain_node_span_def by (rule span_loop_start)

definition ring_cpus :: "node_group list \<Rightarrow> nat set" where
  "ring_cpus ring = (\<Union>sg \<in> set ring. set (ng_cpus sg))"

lemma ring_cpus_simps [simp]: "ring_cpus [] = {}" "ring_cpus (a @ b) = ring_cpus a \<union> ring_cpus b"
  "ring_cpus (sg # b) = set (ng_cpus sg) \<union> ring_cpus b"
  by (simp_all add: ring_cpus_def)

abbreviation apart :: "node_group list \<Rightarrow> bool" where
  "apart \<equiv> sorted_wrt (\<lambda>a b. set (ng_cpus a) \<inter> set (ng_cpus b) = {})"

lemma node_loop_ring:
  assumes "node_loop A num ds ok js k cov ring = (True, ring')" "ring \<noteq> []" "apart ring" "ring_cpus ring = set cov"
    "set cov \<subseteq> set (cpu_map A) \<inter> set ds"
  shows "hd ring' = hd ring \<and> ring' \<noteq> [] \<and> apart ring' \<and> ring_cpus ring' \<subseteq> set (cpu_map A) \<inter> set ds \<and> set cov \<subseteq> ring_cpus ring' \<and>
    (\<forall>j \<in> set js. set (cpu_map A) \<inter> set ds \<inter> set (node_mask (topo A) ((num + j) mod nr_node_ids (topo A))) \<subseteq> ring_cpus ring')"
  using assms
proof (induction js arbitrary: k cov ring)
  case (Cons j js)
  define tmp where "tmp = cpumask_and (filter (\<lambda>c. c \<notin> set cov) (cpu_map A)) ds"
  define mine where "mine = cpumask_and tmp (node_mask (topo A) ((num + j) mod nr_node_ids (topo A)))"
  have tmp: "set tmp = set (cpu_map A) \<inter> set ds - set cov" by (auto simp: tmp_def)
  have mine: "set mine = set tmp \<inter> set (node_mask (topo A) ((num + j) mod nr_node_ids (topo A)))" by (simp add: mine_def)
  note run = Cons.prems
  show ?case
  proof (cases "tmp = []")
    case True
    then have "ring' = ring" using run(1) by (simp add: tmp_def [symmetric] Let_def)
    moreover have "set (cpu_map A) \<inter> set ds \<subseteq> set cov" using tmp True by auto
    ultimately show ?thesis using run(2-5) by auto
  next
    case ne: False
    show ?thesis
    proof (cases "mine = []")
      case True
      then have "node_loop A num ds ok js k cov ring = (True, ring')"
        using run(1) ne by (simp add: tmp_def [symmetric] mine_def [symmetric] Let_def)
      note IH = Cons.IH [OF this run(2-5)]
      have "set (cpu_map A) \<inter> set ds \<inter> set (node_mask (topo A) ((num + j) mod nr_node_ids (topo A))) \<subseteq> set cov"
        using mine tmp True by auto
      then show ?thesis using IH by auto
    next
      case False
      let ?ring = "ring @ [\<lparr>ng_cpus = mine, ng_power = 0\<rparr>]"
      have step: "node_loop A num ds ok js (Suc k) (cov @ mine) ?ring = (True, ring')"
        using run(1) ne False by (auto simp: tmp_def [symmetric] mine_def [symmetric] Let_def split: if_splits)
      have new: "?ring \<noteq> []" "apart ?ring" "ring_cpus ?ring = set (cov @ mine)" "set (cov @ mine) \<subseteq> set (cpu_map A) \<inter> set ds"
        using run(2-5) mine tmp by (auto simp: sorted_wrt_append ring_cpus_def)
      note IH = Cons.IH [OF step new]
      have "set (cpu_map A) \<inter> set ds \<inter> set (node_mask (topo A) ((num + j) mod nr_node_ids (topo A))) \<subseteq> set (cov @ mine)"
        using mine tmp by auto
      then show ?thesis using IH run(2) by auto
    qed
  qed
qed simp

text \<open>The loop meets every node.\<close>

lemma node_offset: "num < N \<Longrightarrow> n < N \<Longrightarrow> \<exists>j \<in> set [0..<N]. (num + j) mod N = (n :: nat)"
proof (cases "num \<le> n")
  case True
  then show "n < N \<Longrightarrow> ?thesis" by (intro bexI [of _ "n - num"]) auto
next
  case False
  then show "num < N \<Longrightarrow> n < N \<Longrightarrow> ?thesis" by (intro bexI [of _ "N + n - num"]) auto
qed

text \<open>The ring of a node: its own processors first, then the rest of the span of its processors' domains.\<close>

definition node_ring_ok :: "build_args \<Rightarrow> topo_sys \<Rightarrow> nat \<Rightarrow> bool" where
  "node_ring_ok A s i \<longleftrightarrow> (let ring = node_rings s (sd_group (sdom s LV_NODE i)) in
     sd_group (sdom s LV_NODE i) = node_of (topo A) i \<and> ring \<noteq> [] \<and> apart ring \<and>
     set (ng_cpus (hd ring)) = class_of (topo A) (cpu_map A) LV_CPU i \<and>
     ring_cpus ring = set (sched_domain_node_span (topo A) (node_of (topo A) i)) \<inter> set (cpu_map A))"

text \<open>What the construction of the node groups leaves alone.\<close>

definition node_frame :: "topo_sys \<Rightarrow> topo_sys \<Rightarrow> bool" where
  "node_frame s s' \<longleftrightarrow> grp s' = grp s \<and> sd_allnodes s' = sd_allnodes s \<and> (\<forall>l. l \<noteq> LV_NODE \<longrightarrow> sdom s' l = sdom s l) \<and>
     (\<forall>i. \<exists>g. sdom s' LV_NODE i = (sdom s LV_NODE i)\<lparr>sd_group := g\<rparr>)"

lemma node_frame_refl: "node_frame s s"
proof -
  have "sdom s LV_NODE i = (sdom s LV_NODE i)\<lparr>sd_group := sd_group (sdom s LV_NODE i)\<rparr>" for i by simp
  then show ?thesis unfolding node_frame_def by blast
qed

lemma node_frame_trans: "node_frame s s' \<Longrightarrow> node_frame s' s'' \<Longrightarrow> node_frame s s''"
proof -
  assume a: "node_frame s s'" "node_frame s' s''"
  have "\<exists>g. sdom s'' LV_NODE i = (sdom s LV_NODE i)\<lparr>sd_group := g\<rparr>" for i
  proof -
    obtain g h where "sdom s' LV_NODE i = (sdom s LV_NODE i)\<lparr>sd_group := g\<rparr>" "sdom s'' LV_NODE i = (sdom s' LV_NODE i)\<lparr>sd_group := h\<rparr>"
      using a unfolding node_frame_def by blast
    then show ?thesis by auto
  qed
  then show ?thesis using a by (simp add: node_frame_def)
qed

lemma node_frame_node:
  "(\<And>i. D i = sdom s LV_NODE i \<or> (\<exists>g. D i = (sdom s LV_NODE i)\<lparr>sd_group := g\<rparr>)) \<Longrightarrow>
   node_frame s (s\<lparr>sdom := (sdom s)(LV_NODE := D), node_rings := r\<rparr>)"
proof -
  assume D: "\<And>i. D i = sdom s LV_NODE i \<or> (\<exists>g. D i = (sdom s LV_NODE i)\<lparr>sd_group := g\<rparr>)"
  have "\<exists>g. D i = (sdom s LV_NODE i)\<lparr>sd_group := g\<rparr>" for i
    using D [of i] by (elim disjE) (auto intro: exI [of _ "sd_group (sdom s LV_NODE i)"])
  then show ?thesis by (simp add: node_frame_def)
qed

lemma build_numa_groups_ring:
  assumes "topo_ok (topo A) (cpu_map A)" "num < nr_node_ids (topo A)" "build_numa_sched_groups A ok num s = (err, s')"
  shows "node_frame s s'"
    "err = 0 \<Longrightarrow> i \<in> set (cpu_map A) \<Longrightarrow> node_of (topo A) i = num \<or> node_ring_ok A s i \<Longrightarrow> node_ring_ok A s' i"
proof -
  let ?T = "topo A" and ?cm = "cpu_map A"
  define m where "m = cpumask_and (node_mask ?T num) ?cm"
  define ds where "ds = cpumask_and (sched_domain_node_span ?T num) ?cm"
  define D where "D = (\<lambda>j. if j \<in> set m then (sdom s LV_NODE j)\<lparr>sd_group := num\<rparr> else sdom s LV_NODE j)"
  obtain fine ring where loop: "node_loop A num ds ok [0..<nr_node_ids ?T] 1 m [\<lparr>ng_cpus = m, ng_power = 0\<rparr>] = (fine, ring)"
    by fastforce
  have run: "build_numa_sched_groups A ok num s =
      (if m = [] then (0, s\<lparr>node_rings := (node_rings s)(num := [])\<rparr>)
       else if \<not> ok 0 then (- ENOMEM, s)
       else (if fine then 0 else - ENOMEM, s\<lparr>sdom := (sdom s)(LV_NODE := D), node_rings := (node_rings s)(num := ring)\<rparr>))"
    using loop by (simp add: build_numa_sched_groups_def m_def [symmetric] ds_def [symmetric] D_def [symmetric] Let_def)
  have frame: "node_frame s (s\<lparr>node_rings := r\<rparr>)" for r
    using node_frame_refl [of s] by (simp add: node_frame_def)
  have "node_frame s (s\<lparr>sdom := (sdom s)(LV_NODE := D), node_rings := r\<rparr>)" for r
    by (rule node_frame_node) (auto simp: D_def)
  then show "node_frame s s'"
    using run assms(3) frame node_frame_refl by (auto split: if_splits)
  have mask: "c \<in> set m \<longleftrightarrow> node_of ?T c = num" if "c \<in> set ?cm" for c
    using assms(1,2) that by (auto simp: topo_ok_def m_def)
  assume err: "err = 0" and i: "i \<in> set ?cm" and ring_i: "node_of ?T i = num \<or> node_ring_ok A s i"
  show "node_ring_ok A s' i"
  proof (cases "node_of ?T i = num")
    case False
    then have "node_rings s' (node_of ?T i) = node_rings s (node_of ?T i)" "sdom s' LV_NODE i = sdom s LV_NODE i"
      using run assms(3) mask [OF i] by (auto simp: D_def split: if_splits)
    moreover have old: "node_ring_ok A s i" using ring_i False by blast
    moreover have "sd_group (sdom s LV_NODE i) = node_of ?T i" using old by (simp only: node_ring_ok_def Let_def)
    ultimately show ?thesis unfolding node_ring_ok_def Let_def by (simp only: simp_thms)
  next
    case True
    then have im: "i \<in> set m" using mask [OF i] by simp
    then have s': "fine" "s' = s\<lparr>sdom := (sdom s)(LV_NODE := D), node_rings := (node_rings s)(num := ring)\<rparr>"
      using run assms(3) err by (auto split: if_splits)
    have ds: "set ds = set (sched_domain_node_span ?T num) \<inter> set ?cm" by (simp add: ds_def)
    have "set m \<subseteq> set ?cm \<inter> set ds" using node_span_self [of ?T num] by (auto simp: m_def ds_def)
    then have loop_ok: "hd ring = \<lparr>ng_cpus = m, ng_power = 0\<rparr> \<and> ring \<noteq> [] \<and> apart ring \<and> ring_cpus ring \<subseteq> set ?cm \<inter> set ds \<and>
        set m \<subseteq> ring_cpus ring \<and>
        (\<forall>j \<in> set [0..<nr_node_ids ?T]. set ?cm \<inter> set ds \<inter> set (node_mask ?T ((num + j) mod nr_node_ids ?T)) \<subseteq> ring_cpus ring)"
      using node_loop_ring [OF loop [unfolded s'(1) [THEN eqTrueI]]] s'(1) by simp
    have "c \<in> ring_cpus ring" if c: "c \<in> set ds" for c
    proof -
      have cm: "c \<in> set ?cm" using c ds by blast
      then have n: "node_of ?T c < nr_node_ids ?T" using topo_cpu [OF assms(1)] by simp
      obtain j where j: "j \<in> set [0..<nr_node_ids ?T]" "(num + j) mod nr_node_ids ?T = node_of ?T c"
        using node_offset [OF assms(2) n] by (elim bexE)
      have "c \<in> set (node_mask ?T (node_of ?T c))" using assms(1) cm n unfolding topo_ok_def by simp
      then have "c \<in> set ?cm \<inter> set ds \<inter> set (node_mask ?T ((num + j) mod nr_node_ids ?T))" using c cm j(2) by simp
      moreover have "set ?cm \<inter> set ds \<inter> set (node_mask ?T ((num + j) mod nr_node_ids ?T)) \<subseteq> ring_cpus ring"
        using loop_ok j(1) by (elim conjE) (rule bspec)
      ultimately show ?thesis by (rule subsetD [rotated])
    qed
    then have "set ds \<subseteq> ring_cpus ring" by (rule subsetI)
    moreover have "ring_cpus ring \<subseteq> set ds" using loop_ok by (elim conjE) (erule subset_trans, simp)
    ultimately have all: "ring_cpus ring = set ds" by (rule equalityI [rotated])
    have "set m = class_of ?T ?cm LV_CPU i" using True by (auto simp: m_def class_of_def mask_at_def)
    moreover have "sd_group (sdom s' LV_NODE i) = num" "node_rings s' num = ring" using im by (simp_all add: s'(2) D_def)
    moreover have "ring_cpus ring = set (sched_domain_node_span ?T num) \<inter> set ?cm" using all ds by (rule trans)
    ultimately show ?thesis using loop_ok unfolding node_ring_ok_def Let_def True by simp
  qed
qed

lemma numa_groups_ring:
  assumes "topo_ok (topo A) (cpu_map A)" "set js \<subseteq> {..<nr_node_ids (topo A)}" "numa_groups A ok js s = (err, s')"
  shows "node_frame s s' \<and> (err = 0 \<longrightarrow> (\<forall>i \<in> set (cpu_map A). node_of (topo A) i \<in> set js \<or> node_ring_ok A s i \<longrightarrow> node_ring_ok A s' i))"
  using assms(2,3)
proof (induction js arbitrary: s)
  case (Cons j js)
  obtain e s1 where s1: "build_numa_sched_groups A (ok j) j s = (e, s1)" by fastforce
  have j: "j < nr_node_ids (topo A)" using Cons.prems(1) by simp
  note step = build_numa_groups_ring [OF assms(1) j s1]
  show ?case
  proof (cases "e = 0")
    case True
    then have rest: "numa_groups A ok js s1 = (err, s')" using Cons.prems(2) s1 by simp
    have IH: "node_frame s1 s'" "err = 0 \<Longrightarrow> i \<in> set (cpu_map A) \<Longrightarrow> node_of (topo A) i \<in> set js \<or> node_ring_ok A s1 i \<Longrightarrow> node_ring_ok A s' i" for i
      using Cons.IH [OF _ rest] Cons.prems(1) by auto
    have "node_frame s s'" using step(1) IH(1) by (rule node_frame_trans)
    moreover have "node_ring_ok A s' i" if i: "err = 0" "i \<in> set (cpu_map A)" "node_of (topo A) i \<in> set (j # js) \<or> node_ring_ok A s i" for i
      using IH(2) [OF i(1,2)] step(2) [OF True i(2)] i(3) by auto
    ultimately show ?thesis by blast
  next
    case False
    then have "err = e" "s' = s1" using Cons.prems(2) s1 by simp_all
    then show ?thesis using step(1) False by simp
  qed
qed (simp add: node_frame_refl)

section \<open>The groups of every level\<close>

text \<open>
  The processors of the groups of a domain, in the order of the walk from its first group;
  \<^const>\<open>None\<close> when the walk does not come back.
\<close>

definition group_spans :: "topology \<Rightarrow> topo_sys \<Rightarrow> sd_lv \<Rightarrow> nat \<Rightarrow> nat list list option" where
  "group_spans T s l i =
     (let g = sd_group (sdom s l i) in
      if l = LV_NODE then (if node_rings s g = [] then None else Some (map ng_cpus (node_rings s g)))
      else map_option (map (sg_cpus (grp s l))) (ring_walk (grp s l) (nr_cpu_ids T) g g))"

text \<open>The groups are disjoint, start with \<open>own\<close> and are together \<open>all\<close>.\<close>

definition groups_split :: "nat list list option \<Rightarrow> nat set \<Rightarrow> nat set \<Rightarrow> bool" where
  "groups_split gs own all \<longleftrightarrow> (case gs of None \<Rightarrow> False
     | Some gs \<Rightarrow> gs \<noteq> [] \<and> set (hd gs) = own \<and> (\<Union>g \<in> set gs. set g) = all \<and> sorted_wrt (\<lambda>a b. set a \<inter> set b = {}) gs)"

lemma distinct_sorted_wrt: "distinct xs \<Longrightarrow> (\<And>a b. a \<in> set xs \<Longrightarrow> b \<in> set xs \<Longrightarrow> a \<noteq> b \<Longrightarrow> P a b) \<Longrightarrow> sorted_wrt P xs"
  by (induction xs) auto

lemma ring_groups_split:
  assumes ring: "ring_built f span t" and i: "i \<in> set span" and f: "f ` set span \<subseteq> set span" "set span \<subseteq> {..<n}"
  shows "groups_split (map_option (map (sg_cpus t)) (ring_walk t n (f i) (f i))) {j \<in> set span. f j = f i} (set span)"
proof -
  obtain gs where gs: "is_ring t gs" "set gs = f ` set span" "\<forall>g \<in> set gs. sg_cpus t g = filter (\<lambda>j. f j = g) (each_cpu span)"
    using ring unfolding ring_built_def by blast
  obtain hs where hs: "is_ring t hs" "set hs = set gs" "hd hs = f i" using is_ring_from [OF gs(1), of "f i"] gs(2) i by auto
  have d: "distinct hs" "hs \<noteq> []" using hs(1) by (simp_all add: is_ring_def)
  have "length hs \<le> n"
    using card_mono [of "{..<n}" "set hs"] distinct_card [OF d(1)] subset_trans [OF f] hs(2) gs(2) by simp
  then have walk: "ring_walk t n (f i) (f i) = Some hs" using ring_walk_ring [OF hs(1)] hs(3) by simp
  have cpus: "set (sg_cpus t g) = {j \<in> set span. f j = g}" if "g \<in> set hs" for g using gs(3) hs(2) that by simp
  have "sorted_wrt (\<lambda>a b. set (sg_cpus t a) \<inter> set (sg_cpus t b) = {}) hs"
    by (rule distinct_sorted_wrt [OF d(1)]) (use cpus in auto)
  moreover have "(\<Union>g \<in> set hs. set (sg_cpus t g)) = set span" using cpus hs(2) gs(2) by auto
  ultimately show ?thesis using cpus hs(3) d(2) walk by (simp add: groups_split_def sorted_wrt_map hd_map) (metis hd_in_set)
qed

lemma cpu_groups_split:
  assumes "topo_ok T cm" "l \<in> set (cpu_levels T)" "i \<in> set cm" "domains_ok T cm (sdom s) i" "built T cm l i (grp s l)"
  shows "groups_split (group_spans T s l i) (case sd_child (sdom s l i) of None \<Rightarrow> {i} | Some c \<Rightarrow> set (sd_span (sdom s c i)))
      (set (sd_span (sdom s l i))) \<and> i \<in> set (sd_span (sdom s l i))"
proof -
  let ?f = "group_at T cm l" and ?E = "class_of T cm l i" and ?span = "cpumask_and cm (mask_at T l i)"
  have d: "set (sd_span (sdom s k i)) = class_of T cm k i" "sd_group (sdom s k i) = group_at T cm k i"
      "sd_child (sdom s k i) = lower T k" if "k \<in> set (cpu_levels T)" for k
    using assms(4) that by (simp_all add: domains_ok_def)
  have "?E \<subseteq> {..<nr_cpu_ids T}" using class_of_sub [of T cm l i] topo_cpu [OF assms(1)] by blast
  then have split: "groups_split (map_option (map (sg_cpus (grp s l))) (ring_walk (grp s l) (nr_cpu_ids T) (?f i) (?f i)))
      {j \<in> ?E. ?f j = ?f i} ?E"
    using ring_groups_split [OF assms(5) [unfolded built_def], of i "nr_cpu_ids T"] class_of_self [OF assms(1-3)]
      group_at_class [OF assms(1-3)] unfolding set_class by blast
  have "{j \<in> ?E. ?f j = ?f i} = subclass_of T cm l i"
  proof (rule set_eqI)
    fix j
    have "j \<in> set cm \<Longrightarrow> ?f j = ?f i \<longleftrightarrow> j \<in> subclass_of T cm l i"
      by (subst eq_commute) (rule group_at_eq [OF assms(1-3)])
    moreover have "subclass_of T cm l i \<subseteq> ?E" "?E \<subseteq> set cm"
      by (rule subclass_of_sub [OF assms(1-3)], rule class_of_sub)
    ultimately show "j \<in> {j \<in> ?E. ?f j = ?f i} \<longleftrightarrow> j \<in> subclass_of T cm l i" by blast
  qed
  moreover have "(case lower T l of None \<Rightarrow> {i} | Some c \<Rightarrow> set (sd_span (sdom s c i))) = subclass_of T cm l i"
    using d(1) lower_in_levels [OF assms(2)] by (simp add: subclass_of_def split: option.split)
  moreover have "l \<noteq> LV_NODE" using assms(2) by (auto simp: cpu_levels_def split: if_splits)
  ultimately show ?thesis
    using split class_of_self [OF assms(1-3)] by (simp add: group_spans_def Let_def d [OF assms(2)])
qed

lemma node_groups_split:
  assumes "topo_ok (topo A) (cpu_map A)" "i \<in> set (cpu_map A)" "domains_ok (topo A) (cpu_map A) (sdom s) i"
    "node_domains_ok A (sdom s) i" "node_ring_ok A s i"
  shows "groups_split (group_spans (topo A) s LV_NODE i) (set (sd_span (sdom s LV_CPU i))) (set (sd_span (sdom s LV_NODE i))) \<and>
    i \<in> set (sd_span (sdom s LV_NODE i))"
proof -
  let ?ring = "node_rings s (sd_group (sdom s LV_NODE i))"
  have "LV_CPU \<in> set (cpu_levels (topo A))" by (simp add: cpu_levels_def)
  then have cpu: "set (sd_span (sdom s LV_CPU i)) = class_of (topo A) (cpu_map A) LV_CPU i"
      "i \<in> class_of (topo A) (cpu_map A) LV_CPU i"
    using assms(3) class_of_self [OF assms(1) _ assms(2)] by (auto simp: domains_ok_def)
  have own: "?ring \<noteq> [] \<and> apart ?ring \<and> set (ng_cpus (hd ?ring)) = class_of (topo A) (cpu_map A) LV_CPU i \<and>
      ring_cpus ?ring = set (sched_domain_node_span (topo A) (node_of (topo A) i)) \<inter> set (cpu_map A)"
    using assms(5) unfolding node_ring_ok_def Let_def by (rule conjunct2)
  have span: "set (sd_span (sdom s LV_NODE i)) = set (sched_domain_node_span (topo A) (node_of (topo A) i)) \<inter> set (cpu_map A)"
    using assms(4) by (auto simp: node_domains_ok_def)
  have ring: "?ring \<noteq> []" "apart ?ring" "set (ng_cpus (hd ?ring)) = set (sd_span (sdom s LV_CPU i))"
      "ring_cpus ?ring = set (sd_span (sdom s LV_NODE i))"
    using own unfolding cpu(1) span by blast+
  have "set (ng_cpus (hd ?ring)) \<subseteq> ring_cpus ?ring" using hd_in_set [OF ring(1)] by (auto simp: ring_cpus_def)
  then have "i \<in> set (sd_span (sdom s LV_NODE i))" using ring(3,4) cpu by blast
  then show ?thesis
    using ring by (simp add: groups_split_def group_spans_def Let_def ring_cpus_def sorted_wrt_map hd_map)
qed

lemma allnodes_groups_split:
  assumes "topo_ok (topo A) (cpu_map A)" "i \<in> set (cpu_map A)" "domains_ok (topo A) (cpu_map A) (sdom s) i"
    "node_domains_ok A (sdom s) i" "sd_parent (sdom s LV_NODE i) = Some LV_ALLNODES"
    "ring_built (cpu_to_allnodes_group (topo A) (cpu_map A)) (cpu_map A) (grp s LV_ALLNODES)"
  shows "groups_split (group_spans (topo A) s LV_ALLNODES i) (set (sd_span (sdom s LV_CPU i))) (set (sd_span (sdom s LV_ALLNODES i))) \<and>
    i \<in> set (sd_span (sdom s LV_ALLNODES i))"
proof -
  let ?T = "topo A" and ?cm = "cpu_map A" and ?f = "cpu_to_allnodes_group (topo A) (cpu_map A)"
  have lv: "LV_CPU \<in> set (cpu_levels ?T)" by (simp add: cpu_levels_def)
  have f: "?f j = cpumask_first ?T (cpumask_and (node_mask ?T (node_of ?T j)) ?cm)" for j
    by (simp add: cpu_to_allnodes_group_def)
  have own: "?f j \<in> class_of ?T ?cm LV_CPU j" if "j \<in> set ?cm" for j
  proof -
    have "j \<in> set (cpumask_and (node_mask ?T (node_of ?T j)) ?cm)"
      unfolding class_span by (rule class_of_self [OF assms(1) lv that])
    then have "cpumask_and (node_mask ?T (node_of ?T j)) ?cm \<noteq> []" using empty_iff list.set(1) by metis
    then show ?thesis unfolding f using cpumask_first_in [of "cpumask_and (node_mask ?T (node_of ?T j)) ?cm" ?T] unfolding class_span by blast
  qed
  have same: "?f j = ?f i \<longleftrightarrow> j \<in> class_of ?T ?cm LV_CPU i" if j: "j \<in> set ?cm" for j
  proof
    assume "?f j = ?f i"
    then have "class_of ?T ?cm LV_CPU j = class_of ?T ?cm LV_CPU i"
      using class_of_same [OF assms(1) lv j own [OF j]] class_of_same [OF assms(1) lv assms(2) own [OF assms(2)]] by simp
    then show "j \<in> class_of ?T ?cm LV_CPU i" using class_of_self [OF assms(1) lv j] by simp
  next
    assume "j \<in> class_of ?T ?cm LV_CPU i"
    then have "class_of ?T ?cm LV_CPU j = class_of ?T ?cm LV_CPU i" by (rule class_of_same [OF assms(1) lv assms(2)])
    then show "?f j = ?f i" unfolding f by (intro cpumask_first_cong) (simp only: class_span)
  qed
  have "?f ` set ?cm \<subseteq> set ?cm" using own class_of_sub [of ?T ?cm LV_CPU] by blast
  moreover have "set ?cm \<subseteq> {..<nr_cpu_ids ?T}" using topo_cpu [OF assms(1)] by blast
  ultimately have split: "groups_split (map_option (map (sg_cpus (grp s LV_ALLNODES))) (ring_walk (grp s LV_ALLNODES) (nr_cpu_ids ?T) (?f i) (?f i)))
      {j \<in> set ?cm. ?f j = ?f i} (set ?cm)"
    by (rule ring_groups_split [OF assms(6,2)])
  have "{j \<in> set ?cm. ?f j = ?f i} = class_of ?T ?cm LV_CPU i" using same class_of_sub [of ?T ?cm LV_CPU i] by blast
  moreover have "set (sd_span (sdom s LV_CPU i)) = class_of ?T ?cm LV_CPU i" using assms(3) lv by (simp add: domains_ok_def)
  moreover have "sd_span (sdom s LV_ALLNODES i) = ?cm" "sd_group (sdom s LV_ALLNODES i) = ?f i"
    using assms(4,5) by (simp_all add: node_domains_ok_def)
  ultimately show ?thesis using split assms(2) by (simp add: group_spans_def Let_def)
qed

lemma node_frame_domains:
  assumes "node_frame s s'"
  shows "domains_ok T cm (sdom s) i \<Longrightarrow> domains_ok T cm (sdom s') i" "node_domains_ok A (sdom s) i \<Longrightarrow> node_domains_ok A (sdom s') i"
    "sd_parent (sdom s' LV_NODE i) = sd_parent (sdom s LV_NODE i)" "sd_child (sdom s' LV_NODE i) = sd_child (sdom s LV_NODE i)"
proof -
  obtain g where g: "sdom s' LV_NODE i = (sdom s LV_NODE i)\<lparr>sd_group := g\<rparr>" using assms by (auto simp: node_frame_def)
  have other: "sdom s' l = sdom s l" if "l \<noteq> LV_NODE" for l using assms that by (simp add: node_frame_def)
  have "l \<noteq> LV_NODE" if "l \<in> set (cpu_levels T)" for l using that by (auto simp: cpu_levels_def split: if_splits)
  then show "domains_ok T cm (sdom s) i \<Longrightarrow> domains_ok T cm (sdom s') i" using other by (simp add: domains_ok_def)
  show "node_domains_ok A (sdom s) i \<Longrightarrow> node_domains_ok A (sdom s') i" by (simp add: node_domains_ok_def g other)
  show "sd_parent (sdom s' LV_NODE i) = sd_parent (sdom s LV_NODE i)" "sd_child (sdom s' LV_NODE i) = sd_child (sdom s LV_NODE i)"
    by (simp_all add: g)
qed

text \<open>The levels together.\<close>

lemma level_groups_split:
  assumes "topo_ok (topo A) (cpu_map A)"
    "(if CONFIG_NUMA (topo A) then numa_groups A ok [0..<nr_node_ids (topo A)] s1 else (0, s1)) = (err, s')"
    "build_levels A s = Some s1" and i: "i \<in> set (cpu_map A)" and l: "l \<in> set (all_levels (topo A))"
    and there: "l = LV_NODE \<longrightarrow> err = 0" "l = LV_ALLNODES \<longrightarrow> sd_parent (sdom s' LV_NODE i) = Some LV_ALLNODES \<and> sd_allnodes s'"
  shows "i \<in> set (sd_span (sdom s' l i)) \<and> groups_split (group_spans (topo A) s' l i)
    (if l = LV_ALLNODES then set (sd_span (sdom s' LV_CPU i))
     else case sd_child (sdom s' l i) of None \<Rightarrow> {i} | Some c \<Rightarrow> set (sd_span (sdom s' c i))) (set (sd_span (sdom s' l i)))"
proof -
  let ?T = "topo A" and ?cm = "cpu_map A"
  have s1: "\<And>i. i \<in> set ?cm \<Longrightarrow> domains_ok ?T ?cm (sdom s1) i"
      "\<And>i l. i \<in> set ?cm \<Longrightarrow> l \<in> set (cpu_levels ?T) \<Longrightarrow> built ?T ?cm l i (grp s1 l)"
      "CONFIG_NUMA ?T \<and> sd_allnodes s1 \<longrightarrow> ring_built (cpu_to_allnodes_group ?T ?cm) ?cm (grp s1 LV_ALLNODES)"
      "sdom s1 = sdom (fold (build_domains_of A) (each_cpu ?cm) s)"
    using build_levels_full [OF assms(1) refl refl, of s] unfolding assms(3) by auto
  have sub: "set [0..<nr_node_ids ?T] \<subseteq> {..<nr_node_ids ?T}" by auto
  have frame: "node_frame s1 s'" and nodes: "\<And>i. CONFIG_NUMA ?T \<Longrightarrow> err = 0 \<Longrightarrow> i \<in> set ?cm \<Longrightarrow> node_ring_ok A s' i"
    using numa_groups_ring [OF assms(1) sub, of ok s1 err s'] assms(2) topo_cpu [OF assms(1)] node_frame_refl [of s1]
    by (auto split: if_splits)
  have d: "domains_ok ?T ?cm (sdom s') i" by (rule node_frame_domains(1) [OF frame s1(1) [OF i]])
  have n: "node_domains_ok A (sdom s') i" if "CONFIG_NUMA ?T"
    using node_frame_domains(2) [OF frame] build_all_node_domains_ok [OF that, of i "each_cpu ?cm" s] i by (simp add: s1(4))
  have grp: "grp s' = grp s1" "sd_allnodes s' = sd_allnodes s1" using frame by (simp_all add: node_frame_def)
  consider "l \<in> set (cpu_levels ?T)" | "l = LV_NODE" "CONFIG_NUMA ?T" | "l = LV_ALLNODES" "CONFIG_NUMA ?T"
    using l by (auto simp: all_levels_def split: if_splits)
  then show ?thesis
  proof cases
    case 1
    then have "l \<noteq> LV_ALLNODES" by (auto simp: cpu_levels_def split: if_splits)
    then show ?thesis using cpu_groups_split [OF assms(1) 1 i d] s1(2) [OF i 1] by (simp add: grp)
  next
    case 2
    then have "sd_child (sdom s' LV_NODE i) = Some LV_CPU" using n by (simp add: node_domains_ok_def)
    then show ?thesis using node_groups_split [OF assms(1) i d n nodes] there 2 i by simp
  next
    case 3
    then show ?thesis using allnodes_groups_split [OF assms(1) i d n] there(2) s1(3) by (simp add: grp)
  qed
qed

text \<open>
  C39 (groups_are_child_spans): for a topology as the architecture promises it, the construction of the
  domains follows no null pointer, and afterwards, at every configured level, the domain of a
  processor contains it and the walk over its groups comes back: the groups are disjoint, together they
  are the span of the domain, and the first is the span of the domain below (the processor alone at
  the lowest level; at the level of all nodes, the processors of its own node).  The groups of the nodes
  are there if no allocation failed; a processor has a domain over all nodes only on a
  large machine, and its groups are there only if the last processor wanted one, too
  (\<open>allnodes_groups_missing\<close> is the other case).
\<close>

theorem groups_are_child_spans:
  assumes "topo_ok (topo A) (cpu_map A)"
  shows "\<exists>s1. build_levels A s = Some s1 \<and>
    (let (err, s') = (if CONFIG_NUMA (topo A) then numa_groups A ok [0..<nr_node_ids (topo A)] s1 else (0, s1)) in
     \<forall>i \<in> set (cpu_map A). \<forall>l \<in> set (all_levels (topo A)).
       (l = LV_NODE \<longrightarrow> err = 0) \<and> (l = LV_ALLNODES \<longrightarrow> sd_parent (sdom s' LV_NODE i) = Some LV_ALLNODES \<and> sd_allnodes s') \<longrightarrow>
       i \<in> set (sd_span (sdom s' l i)) \<and>
       (\<exists>gs. group_spans (topo A) s' l i = Some gs \<and> gs \<noteq> [] \<and>
         set (hd gs) = (if l = LV_ALLNODES then set (sd_span (sdom s' LV_CPU i))
                        else case sd_child (sdom s' l i) of None \<Rightarrow> {i} | Some c \<Rightarrow> set (sd_span (sdom s' c i))) \<and>
         (\<Union>g \<in> set gs. set g) = set (sd_span (sdom s' l i)) \<and> sorted_wrt (\<lambda>a b. set a \<inter> set b = {}) gs))"
proof -
  let ?T = "topo A" and ?cm = "cpu_map A"
  obtain s1 where s1: "build_levels A s = Some s1" using build_levels_full [OF assms refl refl, of s] by blast
  obtain err s' where res: "(if CONFIG_NUMA ?T then numa_groups A ok [0..<nr_node_ids ?T] s1 else (0, s1)) = (err, s')" by fastforce
  show ?thesis
    apply (rule exI [of _ s1])
    unfolding res Let_def prod.case
  proof (intro conjI ballI impI s1)
    fix i l assume il: "i \<in> set ?cm" "l \<in> set (all_levels ?T)"
      and there: "(l = LV_NODE \<longrightarrow> err = 0) \<and> (l = LV_ALLNODES \<longrightarrow> sd_parent (sdom s' LV_NODE i) = Some LV_ALLNODES \<and> sd_allnodes s')"
    note S = level_groups_split [OF assms res s1 il there [THEN conjunct1] there [THEN conjunct2]]
    then show "i \<in> set (sd_span (sdom s' l i))" by blast
    show "\<exists>gs. group_spans ?T s' l i = Some gs \<and> gs \<noteq> [] \<and>
         set (hd gs) = (if l = LV_ALLNODES then set (sd_span (sdom s' LV_CPU i))
                        else case sd_child (sdom s' l i) of None \<Rightarrow> {i} | Some c \<Rightarrow> set (sd_span (sdom s' c i))) \<and>
         (\<Union>g \<in> set gs. set g) = set (sd_span (sdom s' l i)) \<and> sorted_wrt (\<lambda>a b. set a \<inter> set b = {}) gs"
      using S [THEN conjunct2] unfolding groups_split_def by (cases "group_spans ?T s' l i") simp_all
  qed
qed

text \<open>Four processors: two cores with two threads each, in one package and one node.\<close>

definition sample_topology :: topology where
  "sample_topology = \<lparr>CONFIG_NUMA = False, CONFIG_SCHED_SMT = True, CONFIG_SCHED_MC = True, CONFIG_SCHED_BOOK = False,
     nr_cpu_ids = 8, nr_node_ids = 1, thread_mask = (\<lambda>i. if i < 2 then [0, 1] else [2, 3]), core_mask = (\<lambda>_. [0, 1, 2, 3]),
     book_mask = (\<lambda>i. [i]), node_mask = (\<lambda>_. [0, 1, 2, 3]), node_of = (\<lambda>_. 0), node_distance = (\<lambda>_ _. 10),
     sd_template = (\<lambda>_. domain_of [] []), sd_lv_number = (\<lambda>_. 1), consts_of = sample_flags\<rparr>"

definition sample_build :: build_args where
  "sample_build = \<lparr>topo = sample_topology, cpu_map = [0, 1, 2, 3], dattr = None, relax_default = - 1\<rparr>"

lemma sample_topology_ok: "topo_ok sample_topology [0, 1, 2, 3]"
proof -
  have levels: "cpu_levels sample_topology = [LV_SIBLING, LV_MC, LV_CPU]" by (simp add: cpu_levels_def sample_topology_def)
  have masks: "mask_at sample_topology LV_SIBLING i = (if i < 2 then [0, 1] else [2, 3])"
      "mask_at sample_topology LV_MC i = [0, 1, 2, 3]" "mask_at sample_topology LV_CPU i = [0, 1, 2, 3]"
      "lower sample_topology LV_SIBLING = None" "lower sample_topology LV_MC = Some LV_SIBLING"
      "lower sample_topology LV_CPU = Some LV_MC" for i
    by (simp_all add: mask_at_def lower_def sample_topology_def)
  have node: "\<forall>n < nr_node_ids sample_topology. \<forall>i \<in> set [0, 1, 2, 3].
      i \<in> set (node_mask sample_topology n) \<longleftrightarrow> node_of sample_topology i = n"
    by (simp add: sample_topology_def)
  have cpus: "\<forall>i \<in> set [0, 1, 2, 3]. i < nr_cpu_ids sample_topology \<and> node_of sample_topology i < nr_node_ids sample_topology"
    by (simp add: sample_topology_def)
  show ?thesis unfolding topo_ok_def using node cpus by (simp only: levels) (simp add: masks)
qed

definition blank_topo :: topo_sys where
  "blank_topo = \<lparr>sdom = (\<lambda>l _. sd_init sample_topology l), grp = (\<lambda>_. \<lparr>sg_cpus = (\<lambda>_. []), sg_power = (\<lambda>_. 0),
     sg_weight = (\<lambda>_. 0), sg_next = (\<lambda>_. None)\<rparr>), sd_allnodes = False, node_rings = (\<lambda>_. [])\<rparr>"

theorem groups_are_child_spans_witness:
  "\<exists>s1 gs. build_levels sample_build blank_topo = Some s1 \<and> 3 \<in> set (sd_span (sdom s1 LV_MC 3)) \<and>
     group_spans sample_topology s1 LV_MC 3 = Some gs \<and> (\<Union>g \<in> set gs. set g) = set (sd_span (sdom s1 LV_MC 3))"
proof -
  have ok: "topo_ok (topo sample_build) (cpu_map sample_build)" by (simp add: sample_build_def sample_topology_ok del: One_nat_def)
  have top: "topo sample_build = sample_topology" "CONFIG_NUMA sample_topology = False" by (simp_all add: sample_build_def sample_topology_def)
  have mem: "3 \<in> set (cpu_map sample_build)" "LV_MC \<in> set (all_levels sample_topology)"
    by (simp_all add: sample_build_def sample_topology_def all_levels_def cpu_levels_def)
  obtain s1 where s1: "build_levels sample_build blank_topo = Some s1"
      "3 \<in> set (sd_span (sdom s1 LV_MC 3)) \<and> (\<exists>gs. group_spans sample_topology s1 LV_MC 3 = Some gs \<and>
         (\<Union>g \<in> set gs. set g) = set (sd_span (sdom s1 LV_MC 3)))"
    using groups_are_child_spans [OF ok, where s = blank_topo and ok = "\<lambda>_ _. True"] mem unfolding top by fastforce
  then show ?thesis by blast
qed

section \<open>A domain over all nodes without groups\<close>

text \<open>
  Each processor sets the flag anew, so that the last one decides.  When the nodes differ in size, an
  earlier processor can have a domain over all nodes whose groups are never built: here node 0 has
  one processor and node 1 sixteen.
\<close>

definition uneven_build :: build_args where
  "uneven_build = \<lparr>topo = sample_topology\<lparr>CONFIG_NUMA := True, nr_cpu_ids := 17, nr_node_ids := 2,
       node_mask := (\<lambda>n. if n = 0 then [0] else [1..<17]), node_of := (\<lambda>i. if i = 0 then 0 else 1)\<rparr>,
     cpu_map = [0..<17], dattr = None, relax_default = - 1\<rparr>"

lemma each_cpu_upt [simp]: "each_cpu [0..<n] = [0..<n]"
  by (simp add: each_cpu_def sorted_sort_id)

lemma cpumask_and_all: "set a \<subseteq> set b \<Longrightarrow> cpumask_and a b = a"
  by (auto simp: cpumask_and_def intro: filter_True)

theorem allnodes_groups_missing:
  "let s = fold (build_domains_of uneven_build) (each_cpu (cpu_map uneven_build)) blank_topo
   in sd_parent (sdom s LV_NODE 0) = Some LV_ALLNODES \<and> \<not> sd_allnodes s"
proof -
  let ?A = uneven_build
  have numa: "CONFIG_NUMA (topo ?A)" by (simp add: uneven_build_def)
  have "cpumask_and [0] [0..<17] = [0]" "cpumask_and [1..<17] [0..<17] = [1..<17]"
    by (rule cpumask_and_all; simp)+
  then have wants: "wants_allnodes ?A 0" "\<not> wants_allnodes ?A 16"
    by (simp_all add: wants_allnodes_def uneven_build_def SD_NODES_PER_DOMAIN_def cpumask_weight_def distinct_remdups_id)
  have "[0..<17] = [0] @ [1..<16] @ [16 :: nat]" by code_simp
  then have cpus: "each_cpu (cpu_map ?A) = [0] @ [1..<16] @ [16]"
    using each_cpu_upt [of 17] by (simp add: uneven_build_def)
  define s1 where "s1 = build_domains_of ?A 0 blank_topo"
  have "sd_parent (sdom s1 LV_NODE 0) = Some LV_ALLNODES"
    using build_domains_allnodes(2) [OF numa, of 0 blank_topo] wants(1) by (simp add: s1_def)
  moreover have "sdom (fold (build_domains_of ?A) xs s) LV_NODE 0 = sdom s LV_NODE 0" if "0 \<notin> set xs" for xs s
    using that by (induction xs arbitrary: s) (simp_all add: build_domains_others)
  ultimately show ?thesis
    using build_domains_allnodes(1) [OF numa, of 16] wants(2) unfolding cpus Let_def
    by (simp add: build_domains_others s1_def [symmetric])
qed

end
