(* ===== verification/SchedPartitionProps.thy ===== *)
theory SchedPartitionProps
  imports SchedPartition SchedTopologyProps
begin

text \<open>
  The partitions of the processors in opcional2/kernel/sched.c: what a construction allocates it frees,
  after any history of partitions the root domains are those of the current one, and as long as no allocation
  after the array of the node groups fails, no memory is used after it has been freed.
\<close>

section \<open>The allocations\<close>

definition late_blocks :: "build_block set" where
  "late_blocks = {Nodemask, Sibling_map, Core_map, Book_map, Send_covered, Tmpmask, Rootdomain}"

text \<open>A construction that fails frees what it has allocated, in the opposite order.\<close>

lemma visit_balanced:
  "visit_domain_allocation_hell numa ok = (what, got) \<Longrightarrow> what \<noteq> Sa_sched_groups \<and> freed_blocks numa True what = rev got"
  by (cases numa)
     (auto simp: visit_domain_allocation_hell_def alloc_order_def freed_blocks_def free_order_def split: if_splits)

lemma visit_success:
  "visit_domain_allocation_hell numa ok = (Sa_rootdomain, got) \<Longrightarrow>
   Rootdomain \<in> set got \<and> (Group_nodes \<in> set got \<longleftrightarrow> numa)"
  by (cases numa) (auto simp: visit_domain_allocation_hell_def alloc_order_def split: if_splits)

lemma visit_failure:
  "visit_domain_allocation_hell numa ok = (what, got) \<Longrightarrow> what \<noteq> Sa_rootdomain \<Longrightarrow>
   Rootdomain \<notin> set got \<and> \<not> (\<forall>b. ok b) \<and> (Group_nodes \<in> set got \<longrightarrow> numa \<and> (\<exists>b \<in> late_blocks. \<not> ok b))"
  by (cases numa) (auto simp: visit_domain_allocation_hell_def alloc_order_def late_blocks_def split: if_splits)

section \<open>Steps that keep an invariant\<close>

text \<open>
  A step that may meet freed memory: its result, if there is one, satisfies \<open>P\<close>, and when \<open>sure\<close> holds
  there is one.
\<close>

definition gives :: "bool \<Rightarrow> 'a option \<Rightarrow> ('a \<Rightarrow> bool) \<Rightarrow> bool" where
  "gives sure r P \<longleftrightarrow> (case r of None \<Rightarrow> \<not> sure | Some x \<Rightarrow> P x)"

lemma gives_simps [simp]: "gives sure (Some x) P = P x" "gives sure None P = (\<not> sure)"
  by (simp_all add: gives_def)

lemma gives_mono: "gives sure r P \<Longrightarrow> (sure' \<Longrightarrow> sure) \<Longrightarrow> (\<And>x. P x \<Longrightarrow> Q x) \<Longrightarrow> gives sure' r Q"
  by (cases r) auto

lemma gives_map: "gives sure r (\<lambda>x. P (f x)) \<Longrightarrow> gives sure (map_option f r) P"
  by (cases r) simp_all

lemma gives_each_step:
  assumes "\<And>x s. x \<in> set xs \<Longrightarrow> P s \<Longrightarrow> gives sure (f x s) P" "P s"
  shows "gives sure (each_step f xs s) P"
  using assms
proof (induction xs arbitrary: s)
  case (Cons x xs)
  have "gives sure (f x s) P" using Cons.prems by simp
  then show ?case using Cons.IH Cons.prems(1) by (cases "f x s") simp_all
qed simp

lemma each_step_inv:
  assumes "\<And>x s. x \<in> set xs \<Longrightarrow> P s \<Longrightarrow> \<exists>s'. f x s = Some s' \<and> P s'" "P s"
  shows "\<exists>s'. each_step f xs s = Some s' \<and> P s'"
proof -
  have "gives True (each_step f xs s) P" by (rule gives_each_step) (use assms in fastforce)+
  then show ?thesis by (cases "each_step f xs s") simp_all
qed

lemma each_step_cong: "(\<And>x. x \<in> set xs \<Longrightarrow> f x = g x) \<Longrightarrow> each_step f xs s = each_step g xs s"
  by (induction xs arbitrary: s) (auto split: option.split)

lemma gives_upto:
  assumes "\<And>k s. k < n \<Longrightarrow> P k s \<Longrightarrow> gives sure (f k s) (P (Suc k))" "P 0 s"
  shows "gives sure (each_step f [0..<n] s) (P n)"
proof -
  have "gives sure (each_step f [k..<n] s) (P n)" if "P k s" "k \<le> n" for k s
    using that(2,1)
  proof (induction "n - k" arbitrary: k s)
    case (Suc j)
    then have "k < n" by linarith
    then have "gives sure (f k s) (P (Suc k))" using assms(1) Suc.prems by blast
    then show ?case
      using Suc.hyps(1) [of "Suc k"] Suc.hyps(2) \<open>k < n\<close> by (cases "f k s") (simp_all add: upt_rec [of k n])
  qed simp
  then show ?thesis using assms(2) by blast
qed

section \<open>The power of the groups\<close>

definition rings_ok :: "topology \<Rightarrow> nat list \<Rightarrow> topo_sys \<Rightarrow> bool" where
  "rings_ok T cm s \<longleftrightarrow> (\<forall>i \<in> set cm. domains_ok T cm (sdom s) i \<and> (\<forall>l \<in> set (cpu_levels T). built T cm l i (grp s l))) \<and>
     (CONFIG_NUMA T \<and> sd_allnodes s \<longrightarrow> ring_built (cpu_to_allnodes_group T cm) cm (grp s LV_ALLNODES))"

lemma rings_ok_put:
  assumes "rings_ok T cm s" "sg_cpus t = sg_cpus (grp s l)" "sg_next t = sg_next (grp s l)"
  shows "rings_ok T cm (put_grp l t s)"
proof -
  have "ring_built f span (grp (put_grp l t s) k)" if "ring_built f span (grp s k)" for f span k
    using ring_built_other [OF that, of "grp (put_grp l t s) k"] assms(2,3) by (simp add: put_grp_def)
  then show ?thesis using assms(1) unfolding rings_ok_def built_def by (simp add: put_grp_def)
qed

lemma power_ok:
  assumes "topo_ok T cm" "rings_ok T cm s" "l \<in> set (cpu_levels T)" "i \<in> set cm"
  shows "\<exists>s'. init_sched_groups_power T l i s = Some s' \<and> rings_ok T cm s'"
proof -
  have walk: "\<exists>gs. ring_walk (grp s c) (nr_cpu_ids T) (sd_group (sdom s c i)) (sd_group (sdom s c i)) = Some gs"
    if "sd_child (sdom s l i) = Some c" for c
  proof -
    have "lower T l = Some c" using assms(2-4) that by (simp add: rings_ok_def domains_ok_def)
    then have c: "c \<in> set (cpu_levels T)" by (rule lower_in_levels [OF assms(3)])
    then have g: "sd_group (sdom s c i) = group_at T cm c i" and b: "built T cm c i (grp s c)"
      using assms(2,4) by (simp_all add: rings_ok_def domains_ok_def)
    show ?thesis using built_groups [OF assms(1) c assms(4) b] unfolding g by blast
  qed
  show ?thesis
  proof (cases "i = cpumask_first T (sg_cpus (grp s l) (sd_group (sdom s l i)))")
    case True
    show ?thesis
    proof (cases "sd_child (sdom s l i)")
      case None
      then show ?thesis using True assms(2) by (simp add: init_sched_groups_power_def Let_def rings_ok_put)
    next
      case (Some c)
      then show ?thesis
        using True walk [OF Some] assms(2) by (auto simp: init_sched_groups_power_def Let_def rings_ok_put)
    qed
  next
    case False
    then show ?thesis using assms(2) by (simp add: init_sched_groups_power_def Let_def)
  qed
qed

lemma allnodes_group_in: 
  assumes "topo_ok T cm" "i \<in> set cm"
  shows "cpu_to_allnodes_group T cm i \<in> set cm"
proof -
  have "i \<in> set (node_mask T (node_of T i))"
    using assms topo_cpu [OF assms] unfolding topo_ok_def by blast
  then have "cpumask_and (node_mask T (node_of T i)) cm \<noteq> []" using assms(2) by (metis IntI empty_iff set_cpumask_and set_empty)
  then show ?thesis using cpumask_first_in unfolding cpu_to_allnodes_group_def by fastforce
qed

lemma allnodes_power_ok:
  assumes "topo_ok T cm" "rings_ok T cm s" "CONFIG_NUMA T" "sd_allnodes s"
  shows "\<exists>s'. init_allnodes_power T (cpu_to_allnodes_group T cm (cpumask_first T cm)) s = Some s' \<and> rings_ok T cm s'"
proof -
  let ?f = "cpu_to_allnodes_group T cm" and ?t = "grp s LV_ALLNODES"
  obtain gs where gs: "is_ring ?t gs" "set gs = ?f ` set cm"
    using assms(2-4) unfolding rings_ok_def ring_built_def by blast
  have "cm \<noteq> []" using assms(1) by (simp add: topo_ok_def)
  then have "?f (cpumask_first T cm) \<in> set gs" unfolding gs(2) by (intro imageI cpumask_first_in)
  then obtain hs where hs: "is_ring ?t hs" "set hs = set gs" "hd hs = ?f (cpumask_first T cm)"
    using is_ring_from [OF gs(1)] by metis
  have "set hs \<subseteq> {..<nr_cpu_ids T}"
    using hs(2) gs(2) allnodes_group_in [OF assms(1)] topo_cpu [OF assms(1)] by auto
  moreover have "distinct hs" using hs(1) by (simp add: is_ring_def)
  ultimately have "length hs \<le> nr_cpu_ids T"
    using card_mono [of "{..<nr_cpu_ids T}" "set hs"] distinct_card [of hs] by simp
  then show ?thesis
    using ring_walk_ring [OF hs(1)] hs(3) assms(2) by (simp add: init_allnodes_power_def Let_def rings_ok_put)
qed

lemma build_powers_ok:
  assumes "topo_ok T cm" "rings_ok T cm s" "T = topo A" "cm = cpu_map A"
  shows "\<exists>s'. build_powers A s = Some s'"
proof -
  have level: "\<exists>s'. each_step (init_sched_groups_power T l) (each_cpu cm) s = Some s' \<and> rings_ok T cm s'"
    if "rings_ok T cm s" "l \<in> set (cpu_levels T)" for l s
    using each_step_inv [of "each_cpu cm" "rings_ok T cm" "init_sched_groups_power T l" s] power_ok [OF assms(1) _ that(2)] that(1)
    by simp
  have opt: "\<exists>s'. (if b then each_step (init_sched_groups_power T l) (each_cpu cm) s else Some s) = Some s' \<and> rings_ok T cm s'"
    if "rings_ok T cm s" "b \<Longrightarrow> l \<in> set (cpu_levels T)" for b l s
    using level that by simp
  obtain s1 where s1: "(if CONFIG_SCHED_SMT T then each_step (init_sched_groups_power T LV_SIBLING) (each_cpu cm) s else Some s) = Some s1"
      "rings_ok T cm s1" using opt [OF assms(2), of "CONFIG_SCHED_SMT T" LV_SIBLING] by (auto simp: cpu_levels_def)
  obtain s2 where s2: "(if CONFIG_SCHED_MC T then each_step (init_sched_groups_power T LV_MC) (each_cpu cm) s1 else Some s1) = Some s2"
      "rings_ok T cm s2" using opt [OF s1(2), of "CONFIG_SCHED_MC T" LV_MC] by (auto simp: cpu_levels_def)
  obtain s3 where s3: "(if CONFIG_SCHED_BOOK T then each_step (init_sched_groups_power T LV_BOOK) (each_cpu cm) s2 else Some s2) = Some s3"
      "rings_ok T cm s3" using opt [OF s2(2), of "CONFIG_SCHED_BOOK T" LV_BOOK] by (auto simp: cpu_levels_def)
  obtain s4 where s4: "each_step (init_sched_groups_power T LV_CPU) (each_cpu cm) s3 = Some s4" "rings_ok T cm s4"
    using level [OF s3(2), of LV_CPU] by (auto simp: cpu_levels_def)
  define s5 where "s5 = (if CONFIG_NUMA T then fold (init_numa_node_power T) [0..<nr_node_ids T] s4 else s4)"
  have "rings_ok T cm (fold (init_numa_node_power T) xs s)" if "rings_ok T cm s" for xs s
    using that by (induction xs arbitrary: s) (simp_all add: rings_ok_def init_numa_node_power_def)
  then have "rings_ok T cm s5" using s4(2) by (simp add: s5_def)
  then have "\<exists>s'. (if CONFIG_NUMA T \<and> sd_allnodes s5
      then init_allnodes_power T (cpu_to_allnodes_group T cm (cpumask_first T cm)) s5 else Some s5) = Some s'"
    using allnodes_power_ok [OF assms(1)] by auto
  then show ?thesis
    using s1(1) s2(1) s3(1) s4(1) unfolding build_powers_def assms(3,4) Let_def s5_def by simp
qed

section \<open>Attaching and freeing\<close>

definition all_ok :: "alloc_oracle \<Rightarrow> bool" where
  "all_ok al \<longleftrightarrow> (\<forall>b. build_ok al b) \<and> (\<forall>i k. group_ok al i k)"

text \<open>
  On a machine with nodes, no allocation of \<open>__visit_domain_allocation_hell\<close> after that of the array of the
  node groups fails (the earlier ones, and those of the groups themselves, may).
\<close>

definition late_ok :: "part_env \<Rightarrow> alloc_oracle \<Rightarrow> bool" where
  "late_ok E al \<longleftrightarrow> (CONFIG_NUMA (ptopo E) \<longrightarrow> (\<forall>b \<in> late_blocks. build_ok al b))"

definition fresh_roots :: "part_sys \<Rightarrow> bool" where
  "fresh_roots s \<longleftrightarrow> (\<forall>r. roots (rts s) r \<noteq> None \<longrightarrow> r < next_addr s)"

text \<open>Every array that \<open>bycpu\<close> points to is allocated, and no two entries point to the same one.\<close>

definition nodes_ok :: "part_sys \<Rightarrow> bool" where
  "nodes_ok s \<longleftrightarrow> (\<forall>c a. bycpu s c = Some a \<longrightarrow> node_arrays s a \<noteq> None \<and> a < next_addr s \<and> (\<forall>d. bycpu s d = Some a \<longrightarrow> d = c))"

text \<open>Everything but the root domains and the arrays.\<close>

definition same_doms :: "part_sys \<Rightarrow> part_sys \<Rightarrow> bool" where
  "same_doms s s' \<longleftrightarrow> doms_cur s' = doms_cur s \<and> dattr_cur s' = dattr_cur s \<and> doms_block s' = doms_block s \<and> live_masks s' = live_masks s"

lemma same_doms_refl [simp]: "same_doms s s"
  by (simp add: same_doms_def)

lemma same_doms_trans: "same_doms s s' \<Longrightarrow> same_doms s' s'' \<Longrightarrow> same_doms s s''"
  by (simp add: same_doms_def)

lemma attach_one_ok:
  assumes "roots_ok cs (def_root E) (rts s)" "length cs < 2 ^ 32 - 1" "attachable cs (def_root E) c rd (rts s)"
  shows "\<exists>r. attach_one E ch rd c s = Some (s\<lparr>rts := r\<rparr>) \<and> roots_ok cs (def_root E) r \<and> rq_rd r = (rq_rd (rts s))(c \<mapsto> rd) \<and>
    (\<forall>q. roots (rts s) q = None \<longrightarrow> roots r q = None)"
proof -
  obtain r where "rq_attach_root (cpu_active E) c rd (rts s) = Some r" "roots_ok cs (def_root E) r"
      "rq_rd r = (rq_rd (rts s))(c \<mapsto> rd)" "\<forall>q. roots r q = None \<longleftrightarrow> roots (rts s) q = None \<or> last_of cs (def_root E) (rts s) c = Some q"
    using rq_attach_root_ok [OF assms, of "cpu_active E"] by blast
  then show ?thesis by (auto simp: attach_one_def cpu_attach_domain_def roots_ok_chain)
qed

lemma attach_all:
  assumes "roots_ok cs (def_root E) (rts s)" "length cs < 2 ^ 32 - 1" "distinct xs" "set xs \<subseteq> set cs" "roots (rts s) rd \<noteq> None"
    "rd = def_root E \<or> (\<forall>c \<in> set xs. rq_rd (rts s) c \<noteq> Some rd)"
  shows "\<exists>r. each_step (attach_one E ch rd) xs s = Some (s\<lparr>rts := r\<rparr>) \<and> roots_ok cs (def_root E) r \<and>
    rq_rd r = (\<lambda>c. if c \<in> set xs then Some rd else rq_rd (rts s) c) \<and> (\<forall>q. roots (rts s) q = None \<longrightarrow> roots r q = None)"
  using assms
proof (induction xs arbitrary: s)
  case Nil
  then show ?case by (intro exI [of _ "rts s"]) simp
next
  case (Cons x xs)
  have "attachable cs (def_root E) x rd (rts s)" using Cons.prems(4-6) by (auto simp: attachable_def)
  then obtain r where r: "attach_one E ch rd x s = Some (s\<lparr>rts := r\<rparr>)" "roots_ok cs (def_root E) r"
      "rq_rd r = (rq_rd (rts s))(x \<mapsto> rd)" "\<forall>q. roots (rts s) q = None \<longrightarrow> roots r q = None"
    using attach_one_ok [OF Cons.prems(1,2)] by blast
  have nn: "roots r rd \<noteq> None" using r(2,3) unfolding roots_ok_def by (metis fun_upd_same)
  have other: "rd = def_root E \<or> (\<forall>c \<in> set xs. rq_rd r c \<noteq> Some rd)" using Cons.prems(3,6) r(3) by auto
  have rest: "distinct xs" "set xs \<subseteq> set cs" using Cons.prems(3,4) by simp_all
  have rts: "rts (s\<lparr>rts := r\<rparr>) = r" "s\<lparr>rts := r\<rparr>\<lparr>rts := r'\<rparr> = s\<lparr>rts := r'\<rparr>" for r' by simp_all
  obtain r' where "each_step (attach_one E ch rd) xs (s\<lparr>rts := r\<rparr>) = Some (s\<lparr>rts := r'\<rparr>)" "roots_ok cs (def_root E) r'"
      "rq_rd r' = (\<lambda>c. if c \<in> set xs then Some rd else rq_rd r c)" "\<forall>q. roots r q = None \<longrightarrow> roots r' q = None"
    using Cons.IH [of "s\<lparr>rts := r\<rparr>", unfolded rts, OF r(2) Cons.prems(2) rest nn other] by blast
  then show ?case using r Cons.prems(3) by (intro exI [of _ r']) (auto simp: fun_eq_iff)
qed

lemma free_cpu_groups_ok:
  "gives (nodes_ok s) (free_cpu_groups c s)
     (\<lambda>s'. (nodes_ok s \<longrightarrow> nodes_ok s') \<and> rts s' = rts s \<and> next_addr s' = next_addr s \<and> same_doms s s')"
proof (cases "bycpu s c")
  case (Some a)
  then show ?thesis
  proof (cases "node_arrays s a")
    case None
    then have "\<not> nodes_ok s" using Some by (auto simp: nodes_ok_def)
    then show ?thesis using None Some by (simp add: free_cpu_groups_def)
  next
    case (Some rings)
    moreover have "nodes_ok s \<Longrightarrow> nodes_ok (s\<lparr>node_arrays := (node_arrays s)(a := None), bycpu := (bycpu s)(c := None)\<rparr>)"
      using \<open>bycpu s c = Some a\<close> unfolding nodes_ok_def by auto
    ultimately show ?thesis using \<open>bycpu s c = Some a\<close> by (simp add: free_cpu_groups_def same_doms_def)
  qed
qed (simp add: free_cpu_groups_def)

lemma free_sched_groups_ok:
  "gives (nodes_ok s) (free_sched_groups numa cm s)
     (\<lambda>s'. (nodes_ok s \<longrightarrow> nodes_ok s') \<and> rts s' = rts s \<and> next_addr s' = next_addr s \<and> same_doms s s')"
    (is "gives _ _ ?P")
proof -
  have "gives (nodes_ok s) (each_step free_cpu_groups (each_cpu cm) s) ?P"
  proof (rule gives_each_step)
    fix c s1 assume "?P s1"
    then show "gives (nodes_ok s) (free_cpu_groups c s1) ?P"
      using free_cpu_groups_ok [of s1 c] by (elim gives_mono) (auto intro: same_doms_trans)
  qed simp
  then show ?thesis by (simp add: free_sched_groups_def)
qed

section \<open>The partition\<close>

text \<open>
  The processors of a mask share a root domain of their own; where allocations may fail (\<open>own\<close> is
  false) they may also be left in the default one.
\<close>

definition own_root :: "bool \<Rightarrow> nat list \<Rightarrow> nat \<Rightarrow> root_sys \<Rightarrow> nat set \<Rightarrow> bool" where
  "own_root own cs dflt rs m \<longleftrightarrow> (\<exists>r. r \<noteq> dflt \<and> users cs rs r = m) \<or> (\<not> own \<and> (\<forall>c \<in> m. rq_rd rs c = Some dflt))"

definition part_roots :: "bool \<Rightarrow> nat list \<Rightarrow> nat \<Rightarrow> nat set set \<Rightarrow> root_sys \<Rightarrow> bool" where
  "part_roots own cs dflt D rs \<longleftrightarrow> roots_ok cs dflt rs \<and>
     (\<forall>m \<in> D. m \<noteq> {} \<and> m \<subseteq> set cs \<and> own_root own cs dflt rs m \<and> (\<forall>m' \<in> D. m = m' \<or> m \<inter> m' = {})) \<and>
     (\<forall>c \<in> set cs - \<Union>D. rq_rd rs c = Some dflt)"

text \<open>The root domains whatever fails; the arrays of the nodes when the late allocations succeed (\<open>late\<close>).\<close>

definition part_inv :: "bool \<Rightarrow> bool \<Rightarrow> nat list \<Rightarrow> part_env \<Rightarrow> nat set set \<Rightarrow> part_sys \<Rightarrow> bool" where
  "part_inv late own cs E D s \<longleftrightarrow> part_roots own cs (def_root E) D (rts s) \<and> fresh_roots s \<and> (late \<longrightarrow> nodes_ok s)"

lemma part_rootsD:
  assumes "part_roots own cs dflt D rs"
  shows "roots_ok cs dflt rs" "m \<in> D \<Longrightarrow> m \<noteq> {}" "m \<in> D \<Longrightarrow> m \<subseteq> set cs" "m \<in> D \<Longrightarrow> own_root own cs dflt rs m"
    "m \<in> D \<Longrightarrow> k \<in> D \<Longrightarrow> m \<noteq> k \<Longrightarrow> m \<inter> k = {}" "c \<in> set cs \<Longrightarrow> c \<notin> \<Union>D \<Longrightarrow> rq_rd rs c = Some dflt"
  using assms unfolding part_roots_def by (blast, blast, blast, blast, metis, blast)

lemma part_rootsI:
  assumes "roots_ok cs dflt rs" "\<And>m. m \<in> D \<Longrightarrow> m \<noteq> {} \<and> m \<subseteq> set cs \<and> own_root own cs dflt rs m"
    "\<And>m k. m \<in> D \<Longrightarrow> k \<in> D \<Longrightarrow> m \<noteq> k \<Longrightarrow> m \<inter> k = {}" "\<And>c. c \<in> set cs \<Longrightarrow> c \<notin> \<Union>D \<Longrightarrow> rq_rd rs c = Some dflt"
  shows "part_roots own cs dflt D rs"
  unfolding part_roots_def using assms(1) assms(2) assms(3) assms(4) by (intro conjI ballI) (blast | metis DiffE)+

text \<open>A mask outside the partition joins it, with a new root domain or without.\<close>

lemma part_roots_insert:
  assumes "part_roots own cs dflt D rs" "roots_ok cs dflt rs'" "m \<noteq> {}" "m \<subseteq> set cs" "m \<inter> \<Union>D = {}"
    "own_root own cs dflt rs' m" "\<And>k. k \<in> D \<Longrightarrow> own_root own cs dflt rs' k" "\<And>c. c \<notin> m \<Longrightarrow> rq_rd rs' c = rq_rd rs c"
  shows "part_roots own cs dflt (insert m D) rs'"
proof (rule part_rootsI [OF assms(2)])
  fix k assume "k \<in> insert m D"
  then show "k \<noteq> {} \<and> k \<subseteq> set cs \<and> own_root own cs dflt rs' k"
    using assms(3,4,6,7) part_rootsD(2,3) [OF assms(1)] by (elim insertE) simp_all
next
  have other: "k \<inter> m = {}" if "k \<in> D" for k using assms(5) that by blast
  fix j k assume "j \<in> insert m D" "k \<in> insert m D" "j \<noteq> k"
  then show "j \<inter> k = {}"
    using other part_rootsD(5) [OF assms(1)] by (elim insertE) (simp_all add: Int_commute [of m])
next
  fix c assume "c \<in> set cs" "c \<notin> \<Union>(insert m D)"
  then show "rq_rd rs' c = Some dflt" using assms(8) [of c] part_rootsD(6) [OF assms(1), of c] by simp
qed

lemma part_roots_failed:
  assumes "part_roots False cs dflt D rs" "m \<noteq> {}" "m \<subseteq> set cs" "m \<inter> \<Union>D = {}"
  shows "part_roots False cs dflt (insert m D) rs"
proof (rule part_roots_insert [OF assms(1) part_rootsD(1) [OF assms(1)] assms(2-4)])
  have "rq_rd rs c = Some dflt" if "c \<in> m" for c
  proof (rule part_rootsD(6) [OF assms(1)])
    show "c \<in> set cs" using assms(3) that by (rule subsetD)
    show "c \<notin> \<Union>D" using assms(4) that by (rule disjoint_iff [THEN iffD1, rule_format])
  qed
  then show "own_root False cs dflt rs m" by (simp add: own_root_def)
qed (simp_all add: part_rootsD(4) [OF assms(1)])

lemma part_roots_built:
  assumes "part_roots own cs dflt D rs" "m \<noteq> {}" "m \<subseteq> set cs" "m \<inter> \<Union>D = {}" "roots_ok cs dflt rs'" "rd \<noteq> dflt"
    "rq_rd rs' = (\<lambda>c. if c \<in> m then Some rd else rq_rd rs c)" "\<And>c. rq_rd rs c \<noteq> Some rd"
  shows "part_roots own cs dflt (insert m D) rs'"
proof -
  have new: "users cs rs' rd = m" using assms(3,7,8) by (auto simp: users_def)
  have default: "rq_rd rs c = Some dflt" if "c \<in> m" for c
  proof (rule part_rootsD(6) [OF assms(1)])
    show "c \<in> set cs" using assms(3) that by (rule subsetD)
    show "c \<notin> \<Union>D" using assms(4) that by (rule disjoint_iff [THEN iffD1, rule_format])
  qed
  have old: "own_root own cs dflt rs' k" if "k \<in> D" for k
  proof -
    have k: "own_root own cs dflt rs k" "k \<inter> m = {}" using part_rootsD(4) [OF assms(1)] assms(4) that by auto
    then consider r where "r \<noteq> dflt" "users cs rs r = k" | "\<not> own" "\<forall>c \<in> k. rq_rd rs c = Some dflt"
      by (auto simp: own_root_def)
    then show ?thesis
    proof cases
      case (1 r)
      have "k \<noteq> {}" using part_rootsD(2) [OF assms(1) that] .
      then have "r \<noteq> rd" using 1(2) assms(8) by (auto simp: users_def)
      then have "users cs rs' r = k" using 1 default assms(7) by (auto simp: users_def)
      then show ?thesis using 1(1) by (auto simp: own_root_def)
    next
      case 2
      then show ?thesis using k(2) assms(7) by (auto simp: own_root_def)
    qed
  qed
  have "own_root own cs dflt rs' m" using new assms(6) by (auto simp: own_root_def)
  then show ?thesis by (rule part_roots_insert [OF assms(1,5,2-4) _ old]) (simp_all add: assms(7))
qed

text \<open>A mask of the partition leaves it.\<close>

lemma part_roots_detached:
  assumes "part_roots own cs dflt D rs" "m \<in> D" "roots_ok cs dflt rs'"
    "rq_rd rs' = (\<lambda>c. if c \<in> m then Some dflt else rq_rd rs c)"
  shows "part_roots own cs dflt (D - {m}) rs'"
proof -
  have "own_root own cs dflt rs' k" if "k \<in> D - {m}" for k
  proof -
    have k: "own_root own cs dflt rs k" "k \<inter> m = {}" using part_rootsD(4,5) [OF assms(1)] assms(2) that by auto
    then consider r where "r \<noteq> dflt" "users cs rs r = k" | "\<not> own" "\<forall>c \<in> k. rq_rd rs c = Some dflt"
      by (auto simp: own_root_def)
    then show ?thesis
    proof cases
      case (1 r)
      then have "users cs rs' r = k" using k(2) assms(4) by (auto simp: users_def split: if_splits)
      then show ?thesis using 1(1) by (auto simp: own_root_def)
    next
      case 2
      then show ?thesis using k(2) assms(4) by (auto simp: own_root_def)
    qed
  qed
  then show ?thesis
  proof (intro part_rootsI assms(3) conjI)
    fix c assume "c \<in> set cs" "c \<notin> \<Union>(D - {m})"
    then show "rq_rd rs' c = Some dflt" using part_rootsD(6) [OF assms(1), of c] assms(4) by (cases "c \<in> m") auto
  qed (simp_all add: part_rootsD(2,3,5) [OF assms(1)])
qed

lemma detach_ok:
  assumes "part_inv late own cs E D s" "length cs < 2 ^ 32 - 1" "set cm \<in> D"
  shows "gives late (detach_destroy_domains E cm s) (\<lambda>s'. part_inv late own cs E (D - {set cm}) s' \<and> same_doms s s')"
proof -
  have part: "part_roots own cs (def_root E) D (rts s)" using assms(1) by (simp add: part_inv_def)
  note ok = part_rootsD(1) [OF part]
  have sub: "set (each_cpu cm) \<subseteq> set cs" using part_rootsD(3) [OF part assms(3)] by simp
  have root: "roots (rts s) (def_root E) \<noteq> None" using ok by (simp add: roots_ok_def)
  obtain r where r: "each_step (attach_one E (\<lambda>_. []) (def_root E)) (each_cpu cm) s = Some (s\<lparr>rts := r\<rparr>)"
      "roots_ok cs (def_root E) r" "rq_rd r = (\<lambda>c. if c \<in> set cm then Some (def_root E) else rq_rd (rts s) c)"
      "\<forall>q. roots (rts s) q = None \<longrightarrow> roots r q = None"
    using attach_all [OF ok assms(2) distinct_each_cpu sub root disjI1 [OF refl], of "\<lambda>_. []"] unfolding set_each_cpu by blast
  have nodes: "late \<Longrightarrow> nodes_ok (s\<lparr>rts := r\<rparr>)" using assms(1) by (simp add: part_inv_def nodes_ok_def)
  have "gives late (free_sched_groups (CONFIG_NUMA (ptopo E)) cm (s\<lparr>rts := r\<rparr>))
      (\<lambda>s'. part_inv late own cs E (D - {set cm}) s' \<and> same_doms s s')"
  proof (rule gives_mono [OF free_sched_groups_ok nodes])
    fix s' assume s': "(nodes_ok (s\<lparr>rts := r\<rparr>) \<longrightarrow> nodes_ok s') \<and> rts s' = rts (s\<lparr>rts := r\<rparr>) \<and>
        next_addr s' = next_addr (s\<lparr>rts := r\<rparr>) \<and> same_doms (s\<lparr>rts := r\<rparr>) s'"
    have "part_roots own cs (def_root E) (D - {set cm}) (rts s')"
      using part_roots_detached [OF part assms(3) r(2,3)] s' by simp
    moreover have "fresh_roots s'"
      unfolding fresh_roots_def
    proof (intro allI impI)
      fix q assume "roots (rts s') q \<noteq> None"
      then have "roots (rts s) q \<noteq> None" using r(4) s' by auto
      then show "q < next_addr s'" using assms(1) s' by (simp add: part_inv_def fresh_roots_def)
    qed
    ultimately show "part_inv late own cs E (D - {set cm}) s' \<and> same_doms s s'"
      using s' nodes by (simp add: part_inv_def same_doms_def)
  qed
  then show ?thesis using r(1) by (simp add: detach_destroy_domains_def)
qed

section \<open>The construction\<close>

lemma node_loop_fine: "(\<And>k. ok k) \<Longrightarrow> fst (node_loop A num sp ok js k cov ring)"
  by (induction A num sp ok js k cov ring rule: node_loop.induct) (simp_all add: Let_def)

lemma build_numa_ok:
  "rings_ok T cm s \<Longrightarrow> rings_ok T cm (snd (build_numa_sched_groups A ok num s))"
  "(\<And>k. ok k) \<Longrightarrow> fst (build_numa_sched_groups A ok num s) = 0"
  using node_loop_fine [of ok A num] levels_cases [of LV_NODE T False]
  by (auto simp: build_numa_sched_groups_def rings_ok_def domains_ok_def Let_def split_beta)

lemma numa_groups_ok: "rings_ok T cm s \<Longrightarrow> rings_ok T cm (snd (numa_groups A ok js s))"
proof (induction js arbitrary: s)
  case (Cons i js)
  obtain err s1 where b: "build_numa_sched_groups A (ok i) i s = (err, s1)" by fastforce
  then show ?case using Cons build_numa_ok(1) [of T cm s A "ok i" i] by simp
qed simp

lemma numa_groups_fine:
  assumes "\<And>i k. ok i k"
  shows "fst (numa_groups A ok js s) = 0"
proof (induction js arbitrary: s)
  case (Cons i js)
  obtain err s1 where b: "build_numa_sched_groups A (ok i) i s = (err, s1)" by fastforce
  then have "err = 0" using build_numa_ok(2) [of "ok i" A i s, OF assms] by simp
  then show ?case using Cons b by simp
qed simp

text \<open>The allocations: nothing the state shows when they fail, otherwise a new root domain and, with nodes, a new array.\<close>

definition taken :: "bool \<Rightarrow> nat \<Rightarrow> part_sys \<Rightarrow> part_sys" where
  "taken numa first s = (let a = next_addr s in
     s\<lparr>next_addr := a + 2, rts := set_root (a + 1) \<lparr>refcount = 0, root_span = [], root_online = []\<rparr> (rts s),
       node_arrays := (if numa then (node_arrays s)(a \<mapsto> (\<lambda>_. [])) else node_arrays s),
       bycpu := (if numa then (bycpu s)(first \<mapsto> a) else bycpu s)\<rparr>)"

lemma take_blocks_cases:
  assumes "cpumask_first (ptopo E) cm < nr_cpu_ids (ptopo E)"
  obtains what s1 s2 where "what \<noteq> Sa_rootdomain" "\<not> all_ok al"
      "take_blocks E cm al s = Some (what, next_addr s, next_addr s + 1, s1)"
      "free_domain_allocs E True cm what (next_addr s) (next_addr s + 1) s1 = Some s2"
      "rts s2 = rts s" "next_addr s2 = next_addr s + 2" "same_doms s s2"
      "late_ok E al \<Longrightarrow> node_arrays s2 = node_arrays s \<and> bycpu s2 = bycpu s"
  | "take_blocks E cm al s =
       Some (Sa_rootdomain, next_addr s, next_addr s + 1, taken (CONFIG_NUMA (ptopo E)) (cpumask_first (ptopo E) cm) s)"
proof -
  obtain what got where v: "visit_domain_allocation_hell (CONFIG_NUMA (ptopo E)) (build_ok al) = (what, got)" by fastforce
  show thesis
  proof (cases "what = Sa_rootdomain")
    case True
    note got = visit_success [OF v [unfolded True]]
    have "visit_domain_allocation_hell (CONFIG_NUMA (ptopo E)) (build_ok al) = (Sa_rootdomain, got) \<Longrightarrow> build_ok al Rootdomain"
      by (cases "CONFIG_NUMA (ptopo E)") (auto simp: visit_domain_allocation_hell_def alloc_order_def split: if_splits)
    then have "fst (init_rootdomain (rd_ok al)) = 0" using v True by (simp add: build_ok_def)
    then have "fst (alloc_rootdomain (Some rd) (rd_ok al) rs) = set_root rd \<lparr>refcount = 0, root_span = [], root_online = []\<rparr> rs" for rd rs
      by (simp add: alloc_rootdomain_def)
    then show thesis using that(2) v got True assms by (auto simp: take_blocks_def taken_def Let_def)
  next
    case False
    note got = visit_failure [OF v False]
    have early: "late_ok E al \<Longrightarrow> Group_nodes \<notin> set got" using got by (auto simp: late_ok_def)
    have freed: "freed_blocks (CONFIG_NUMA (ptopo E)) True what = rev got" "what \<noteq> Sa_sched_groups"
      using visit_balanced [OF v] by simp_all
    have not_all: "\<not> all_ok al" using got by (auto simp: all_ok_def)
    define s1 where "s1 = (if Group_nodes \<in> set got
      then s\<lparr>next_addr := next_addr s + 2, node_arrays := (node_arrays s)(next_addr s \<mapsto> (\<lambda>_. [])),
             bycpu := (bycpu s)(cpumask_first (ptopo E) cm \<mapsto> next_addr s)\<rparr>
      else s\<lparr>next_addr := next_addr s + 2\<rparr>)"
    define s2 where "s2 = (if Group_nodes \<in> set got then s1\<lparr>node_arrays := (node_arrays s1)(next_addr s := None)\<rparr> else s1)"
    have "take_blocks E cm al s = Some (what, next_addr s, next_addr s + 1, s1)"
      using v got assms by (simp add: take_blocks_def s1_def Let_def)
    moreover have "free_domain_allocs E True cm what (next_addr s) (next_addr s + 1) s1 = Some s2"
      unfolding free_domain_allocs_def freed(1) Let_def using got freed(2) by (simp add: s2_def s1_def)
    moreover have "rts s2 = rts s" "next_addr s2 = next_addr s + 2" "same_doms s s2"
      by (simp_all add: s2_def s1_def same_doms_def)
    moreover have "node_arrays s2 = node_arrays s \<and> bycpu s2 = bycpu s" if "late_ok E al"
      using early [OF that] by (simp add: s2_def s1_def)
    ultimately show thesis using that(1) [OF False not_all] by blast
  qed
qed

lemma taken_ok:
  assumes "part_inv late own cs E D s" "s' = taken numa first s"
  shows "late \<Longrightarrow> nodes_ok s'" "fresh_roots s'" "same_doms s s'" "roots_ok cs (def_root E) (rts s')" "rq_rd (rts s') = rq_rd (rts s)"
    "roots (rts s) (next_addr s + 1) = None" "rq_rd (rts s) c \<noteq> Some (next_addr s + 1)" "next_addr s + 1 \<noteq> def_root E"
proof -
  have fresh: "roots (rts s) q = None" if "next_addr s \<le> q" for q
    using assms(1) that unfolding part_inv_def fresh_roots_def by (meson leD)
  have ok: "roots_ok cs (def_root E) (rts s)" using assms(1) by (simp add: part_inv_def part_roots_def)
  show free: "roots (rts s) (next_addr s + 1) = None" by (rule fresh) simp
  show "rq_rd (rts s) c \<noteq> Some (next_addr s + 1)" using ok free unfolding roots_ok_def by metis
  show "next_addr s + 1 \<noteq> def_root E" using ok free unfolding roots_ok_def by metis
  show "rq_rd (rts s') = rq_rd (rts s)" "same_doms s s'" by (simp_all add: assms(2) taken_def same_doms_def Let_def)
  show "fresh_roots s'"
    using assms(1) by (auto simp: assms(2) taken_def fresh_roots_def part_inv_def Let_def less_Suc_eq)
  have "rts s' = fst (alloc_rootdomain (Some (next_addr s + 1)) (\<lambda>_. True) (rts s))"
    by (simp add: assms(2) taken_def alloc_rootdomain_def init_rootdomain_def Let_def)
  then show "roots_ok cs (def_root E) (rts s')" using alloc_rootdomain_ok [OF ok] free by auto
  show "late \<Longrightarrow> nodes_ok s'"
    using assms(1) unfolding nodes_ok_def part_inv_def
    by (auto simp: assms(2) taken_def Let_def less_Suc_eq split: if_splits)
qed

lemma nodes_ok_rings: "nodes_ok s \<Longrightarrow> nodes_ok (s\<lparr>topo_state := t, node_arrays := (if numa then (node_arrays s)(a \<mapsto> x) else node_arrays s)\<rparr>)"
  by (auto simp: nodes_ok_def)

lemma free_after_groups:
  "gives (nodes_ok s) (free_domain_allocs E True cm Sa_sched_groups a rd s)
     (\<lambda>s'. (nodes_ok s \<longrightarrow> nodes_ok s') \<and> rts s' = free_rootdomain rd (rts s) \<and> next_addr s' = next_addr s \<and> same_doms s s')"
proof -
  have freed: "Rootdomain \<in> set (freed_blocks numa True Sa_sched_groups)" "Group_nodes \<notin> set (freed_blocks numa True Sa_sched_groups)" for numa
    by (auto simp: freed_blocks_def free_order_def)
  have nodes: "nodes_ok (s1\<lparr>rts := r\<rparr>) = nodes_ok s1" for s1 r by (simp add: nodes_ok_def)
  show ?thesis
    using free_sched_groups_ok [of s "CONFIG_NUMA (ptopo E)" cm] freed
    by (cases "free_sched_groups (CONFIG_NUMA (ptopo E)) cm s") (auto simp: free_domain_allocs_def same_doms_def nodes Let_def)
qed

lemma free_at_the_end: "free_domain_allocs E False cm Sa_tmpmask a rd s = Some s"
proof -
  have "Rootdomain \<notin> set (freed_blocks numa False Sa_tmpmask)" "Group_nodes \<notin> set (freed_blocks numa False Sa_tmpmask)" for numa
    by (cases numa; auto simp: freed_blocks_def free_order_def)+
  then show ?thesis by (simp add: free_domain_allocs_def Let_def)
qed

lemma free_new_root: "roots rs rd = None \<Longrightarrow> free_rootdomain rd (set_root rd d rs) = rs"
  by (simp add: free_rootdomain_def set_root_def fun_upd_idem)

lemma build_ok_partition:
  assumes "part_inv late own cs E D s" "length cs < 2 ^ 32 - 1" "topo_ok (ptopo E) cm" "set cm \<subseteq> set cs" "set cm \<inter> \<Union>D = {}"
    "late \<Longrightarrow> late_ok E al" "own \<Longrightarrow> all_ok al"
  shows "gives late (build_sched_domains_with E cm attr al s)
    (\<lambda>(err, s'). part_inv late own cs E (insert (set cm) D) s' \<and> same_doms s s')"
proof -
  let ?T = "ptopo E" and ?numa = "CONFIG_NUMA (ptopo E)" and ?a = "next_addr s" and ?rd = "next_addr s + 1"
  let ?A = "\<lparr>topo = ?T, cpu_map = cm, dattr = attr, relax_default = relax_level E\<rparr>"
  have ne: "cm \<noteq> []" using assms(3) by (simp add: topo_ok_def)
  then have m: "set cm \<noteq> {}" by simp
  have first: "cpumask_first ?T cm < nr_cpu_ids ?T" using topo_cpu [OF assms(3) cpumask_first_in [OF ne]] by simp
  have part: "part_roots own cs (def_root E) D (rts s)" using assms(1) by (simp add: part_inv_def)
  from first show ?thesis
  proof (cases rule: take_blocks_cases [of E cm al s])
    case (1 what s1 s2)
    have "\<not> own" using 1(2) assms(7) by (rule contrapos_nn)
    then have "part_roots own cs (def_root E) (insert (set cm) D) (rts s2)"
      using part_roots_failed [of cs "def_root E" D "rts s" "set cm"] part m assms(4,5) 1(5) by simp
    moreover have "fresh_roots s2" using assms(1) 1(5,6) by (auto simp: part_inv_def fresh_roots_def less_SucI)
    moreover have "late \<Longrightarrow> nodes_ok s2"
      using assms(1) 1(8) [OF assms(6)] 1(6) by (auto simp: part_inv_def nodes_ok_def less_SucI)
    ultimately have "part_inv late own cs E (insert (set cm) D) s2" by (simp add: part_inv_def)
    then show ?thesis using 1(1,3,4,7) by (simp add: build_sched_domains_with_def Let_def)
  next
    case 2
    define s1 where "s1 = taken ?numa (cpumask_first ?T cm) s"
    note s1 = taken_ok [OF assms(1) s1_def]
    obtain t where t: "build_levels ?A ((topo_state s1)\<lparr>sd_allnodes := False, node_rings := (\<lambda>_. [])\<rparr>) = Some t" "rings_ok ?T cm t"
      using build_levels_ok [OF assms(3), of ?A "(topo_state s1)\<lparr>sd_allnodes := False, node_rings := (\<lambda>_. [])\<rparr>"]
      unfolding rings_ok_def by auto
    define res where "res = (if ?numa then numa_groups ?A (group_ok al) [0..<nr_node_ids ?T] t else (0, t))"
    obtain err t1 where res: "res = (err, t1)" by fastforce
    have t1: "rings_ok ?T cm t1"
      using numa_groups_ok [OF t(2), of ?A "group_ok al" "[0..<nr_node_ids ?T]"] t(2) res by (cases ?numa) (simp_all add: res_def)
    define s2 where "s2 = (\<lambda>u. s1\<lparr>topo_state := u, node_arrays := (if ?numa then (node_arrays s1)(?a \<mapsto> node_rings u) else node_arrays s1)\<rparr>)"
    have s2: "late \<Longrightarrow> nodes_ok (s2 u)" "rts (s2 u) = rts s1" "next_addr (s2 u) = next_addr s1" "same_doms s1 (s2 u)" for u
      using nodes_ok_rings [OF s1(1)] by (simp_all add: s2_def same_doms_def)
    have build: "build_sched_domains_with E cm attr al s =
        (if err \<noteq> 0 then map_option (Pair (- ENOMEM)) (free_domain_allocs E True cm Sa_sched_groups ?a ?rd (s2 t1))
         else do { u \<leftarrow> build_powers ?A t1;
                   s \<leftarrow> each_step (attach_one E (domains_of ?T u) ?rd) (each_cpu cm) (s2 u);
                   map_option (Pair 0) (free_domain_allocs E False cm Sa_tmpmask ?a ?rd s) })"
      using res t(1) by (simp add: build_sched_domains_with_def 2 s1_def [symmetric] Let_def res_def s2_def cong del: if_cong)
    show ?thesis
    proof (cases "err = 0")
      case False
      have "\<not> own"
        using False res numa_groups_fine [of "group_ok al" ?A "[0..<nr_node_ids ?T]" t] assms(7)
        by (cases own; cases ?numa) (simp_all add: res_def all_ok_def)
      then have failed: "part_roots own cs (def_root E) (insert (set cm) D) (rts s)"
        using part_roots_failed [of cs "def_root E" D "rts s" "set cm"] part m assms(4,5) by simp
      have "gives late (free_domain_allocs E True cm Sa_sched_groups ?a ?rd (s2 t1))
          (\<lambda>s3. part_inv late own cs E (insert (set cm) D) s3 \<and> same_doms s s3)"
      proof (rule gives_mono [OF free_after_groups s2(1)])
        fix s3 assume s3: "(nodes_ok (s2 t1) \<longrightarrow> nodes_ok s3) \<and> rts s3 = free_rootdomain ?rd (rts (s2 t1)) \<and>
            next_addr s3 = next_addr (s2 t1) \<and> same_doms (s2 t1) s3"
        have rts: "rts s3 = rts s" using s3 s1(6) by (simp add: s2(2) s1_def taken_def Let_def free_new_root)
        have "fresh_roots s3"
          using assms(1) rts s3 by (auto simp: part_inv_def fresh_roots_def s2(3) s1_def taken_def Let_def less_SucI)
        moreover have "same_doms s s3" using s3 same_doms_trans [OF same_doms_trans [OF s1(3) s2(4)]] by blast
        ultimately show "part_inv late own cs E (insert (set cm) D) s3 \<and> same_doms s s3"
          using failed rts s3 s2(1) by (simp add: part_inv_def)
      qed
      then show ?thesis using False build by (simp add: gives_map)
    next
      case True
      obtain u where u: "build_powers ?A t1 = Some u" using build_powers_ok [OF assms(3) t1, of ?A] by auto
      have sub: "set (each_cpu cm) \<subseteq> set cs" using assms(4) by simp
      have new: "roots (rts (s2 u)) ?rd \<noteq> None" by (simp add: s2(2) s1_def taken_def Let_def)
      have unused: "?rd = def_root E \<or> (\<forall>c \<in> set (each_cpu cm). rq_rd (rts (s2 u)) c \<noteq> Some ?rd)"
        using s1(5,7) by (simp add: s2(2))
      have ok: "roots_ok cs (def_root E) (rts (s2 u))" using s1(4) by (simp add: s2(2))
      obtain r where r: "each_step (attach_one E (domains_of ?T u) ?rd) (each_cpu cm) (s2 u) = Some (s2 u\<lparr>rts := r\<rparr>)"
          "roots_ok cs (def_root E) r" "rq_rd r = (\<lambda>c. if c \<in> set cm then Some ?rd else rq_rd (rts (s2 u)) c)"
          "\<forall>q. roots (rts (s2 u)) q = None \<longrightarrow> roots r q = None"
        using attach_all [OF ok assms(2) distinct_each_cpu sub new unused, of "domains_of ?T u"] unfolding set_each_cpu by blast
      let ?s = "s2 u\<lparr>rts := r\<rparr>"
      have "build_sched_domains_with E cm attr al s = Some (0, ?s)"
        using True build u r(1) free_at_the_end by simp
      moreover have "part_roots own cs (def_root E) (insert (set cm) D) r"
        by (rule part_roots_built [OF part m assms(4,5) r(2) s1(8) r(3) [unfolded s2(2) s1(5)] s1(7)])
      moreover have "fresh_roots ?s"
        unfolding fresh_roots_def
      proof (intro allI impI)
        fix q assume "roots (rts ?s) q \<noteq> None"
        then have "roots (rts s1) q \<noteq> None" using r(4) by (auto simp: s2(2))
        then show "q < next_addr ?s" using s1(2) by (simp add: fresh_roots_def s2(3))
      qed
      moreover have "late \<Longrightarrow> nodes_ok ?s" using s2(1) [of u] by (simp add: nodes_ok_def)
      moreover have "same_doms s ?s" using same_doms_trans [OF s1(3) s2(4)] by (simp add: same_doms_def)
      ultimately show ?thesis by (simp add: part_inv_def)
    qed
  qed
qed

section \<open>A change of the partition\<close>

text \<open>Masks of known processors that do not intersect.\<close>

definition masks_ok :: "nat list \<Rightarrow> topology \<Rightarrow> nat list list \<Rightarrow> bool" where
  "masks_ok cs T ms \<longleftrightarrow> (\<forall>m \<in> set ms. topo_ok T m \<and> set m \<subseteq> set cs) \<and>
     (\<forall>i < length ms. \<forall>j < length ms. i \<noteq> j \<longrightarrow> set (ms ! i) \<inter> set (ms ! j) = {})"

definition part_ok :: "bool \<Rightarrow> bool \<Rightarrow> nat list \<Rightarrow> part_env \<Rightarrow> part_sys \<Rightarrow> bool" where
  "part_ok late own cs E s \<longleftrightarrow> part_inv late own cs E (set ` set (doms_cur s)) s \<and> masks_ok cs (ptopo E) (doms_cur s)"

lemma masks_okD:
  assumes "masks_ok cs T ms" "i < length ms"
  shows "topo_ok T (ms ! i)" "set (ms ! i) \<subseteq> set cs" "set (ms ! i) \<noteq> {}"
proof -
  show "topo_ok T (ms ! i)" "set (ms ! i) \<subseteq> set cs" using assms by (simp_all add: masks_ok_def)
  then show "set (ms ! i) \<noteq> {}" by (simp add: topo_ok_def)
qed

lemma masks_ok_disjoint:
  "masks_ok cs T ms \<Longrightarrow> i < length ms \<Longrightarrow> j < length ms \<Longrightarrow> i \<noteq> j \<Longrightarrow> set (ms ! i) \<inter> set (ms ! j) = {}"
  unfolding masks_ok_def by blast

lemma masks_ok_inj:
  assumes "masks_ok cs T ms" "i < length ms" "j < length ms" "set (ms ! i) = set (ms ! j)"
  shows "i = j"
proof (rule ccontr)
  assume "i \<noteq> j"
  then show False using masks_ok_disjoint [OF assms(1-3)] masks_okD(3) [OF assms(1,2)] assms(4) by simp
qed

lemma dattrs_equal_sym: "dattrs_equal init a i b j = dattrs_equal init b j a i"
  by (auto simp: dattrs_equal_def split: option.splits)

lemma part_inv_cong:
  "rts s' = rts s \<Longrightarrow> next_addr s' = next_addr s \<Longrightarrow> node_arrays s' = node_arrays s \<Longrightarrow> bycpu s' = bycpu s \<Longrightarrow>
   part_inv late own cs E D s' = part_inv late own cs E D s"
  by (simp add: part_inv_def fresh_roots_def nodes_ok_def)

text \<open>The loop over the current masks leaves those that have a match.\<close>

lemma destroy_loop:
  assumes "part_inv late own cs E (set ` set cur) s" "masks_ok cs (ptopo E) cur" "length cs < 2 ^ 32 - 1"
  shows "gives late (each_step (\<lambda>i s. if keep i then Some s else detach_destroy_domains E (cur ! i) s) [0..<length cur] s)
    (\<lambda>s'. part_inv late own cs E {set (cur ! i) |i. i < length cur \<and> keep i} s' \<and> same_doms s s')"
proof -
  let ?D = "\<lambda>k. {set (cur ! i) |i. i < length cur \<and> (k \<le> i \<or> keep i)}"
  have start: "?D 0 = set ` set cur" by (auto simp: set_conv_nth)
  have "gives late (each_step (\<lambda>i s. if keep i then Some s else detach_destroy_domains E (cur ! i) s) [0..<length cur] s)
    (\<lambda>s'. part_inv late own cs E (?D (length cur)) s' \<and> same_doms s s')"
  proof (rule gives_upto [where P = "\<lambda>k s'. part_inv late own cs E (?D k) s' \<and> same_doms s s'"])
    fix k s1 assume k: "k < length cur" and s1: "part_inv late own cs E (?D k) s1 \<and> same_doms s s1"
    show "gives late (if keep k then Some s1 else detach_destroy_domains E (cur ! k) s1)
        (\<lambda>s'. part_inv late own cs E (?D (Suc k)) s' \<and> same_doms s s')"
    proof (cases "keep k")
      case True
      then have "k \<le> i \<or> keep i \<longleftrightarrow> Suc k \<le> i \<or> keep i" for i by (cases "i = k") auto
      then show ?thesis using True s1 by simp
    next
      case False
      have mem: "set (cur ! k) \<in> ?D k" using k by auto
      have leave: "?D k - {set (cur ! k)} = ?D (Suc k)"
      proof (intro equalityI subsetI)
        fix m assume "m \<in> ?D k - {set (cur ! k)}"
        then obtain i where i: "m = set (cur ! i)" "i < length cur" "k \<le> i \<or> keep i" "set (cur ! i) \<noteq> set (cur ! k)" by blast
        then have "Suc k \<le> i \<or> keep i" by (cases "i = k") auto
        then show "m \<in> ?D (Suc k)" using i by blast
      next
        fix m assume "m \<in> ?D (Suc k)"
        then obtain i where i: "m = set (cur ! i)" "i < length cur" "Suc k \<le> i \<or> keep i" by blast
        then have "i \<noteq> k" using False by auto
        then have "m \<noteq> set (cur ! k)" using masks_ok_inj [OF assms(2) i(2) k] i(1) by blast
        then show "m \<in> ?D k - {set (cur ! k)}" using i by auto
      qed
      have "gives late (detach_destroy_domains E (cur ! k) s1) (\<lambda>s'. part_inv late own cs E (?D (Suc k)) s' \<and> same_doms s1 s')"
        using detach_ok [OF conjunct1 [OF s1] assms(3) mem] unfolding leave .
      then show ?thesis using False s1 by (auto elim!: gives_mono intro: same_doms_trans)
    qed
  qed (use assms(1) start in simp)
  moreover have "?D (length cur) = {set (cur ! i) |i. i < length cur \<and> keep i}" by auto
  ultimately show ?thesis by simp
qed

text \<open>The loop over the new masks builds those that are not there; the others are among \<open>M\<close>.\<close>

lemma build_loop:
  assumes "part_inv late own cs E M s" "masks_ok cs (ptopo E) new" "length cs < 2 ^ 32 - 1"
    "\<And>j. j < length new \<Longrightarrow> keep j \<Longrightarrow> set (new ! j) \<in> M"
    "\<And>m j. m \<in> M \<Longrightarrow> j < length new \<Longrightarrow> \<not> keep j \<Longrightarrow> m \<inter> set (new ! j) = {}"
    "\<And>j. late \<Longrightarrow> late_ok E (al j)" "\<And>j. own \<Longrightarrow> all_ok (al j)"
  shows "gives late (each_step (\<lambda>i s. if keep i then Some s
      else map_option snd (build_sched_domains_with E (new ! i) (attr i) (al i) s)) [0..<length new] s)
    (\<lambda>s'. part_inv late own cs E (M \<union> {set (new ! j) |j. j < length new}) s' \<and> same_doms s s')"
proof -
  let ?D = "\<lambda>k. M \<union> {set (new ! j) |j. j < k}"
  show ?thesis
  proof (rule gives_upto [where P = "\<lambda>k s'. part_inv late own cs E (?D k) s' \<and> same_doms s s'"])
    fix k s1 assume k: "k < length new" and s1: "part_inv late own cs E (?D k) s1 \<and> same_doms s s1"
    have grow: "?D (Suc k) = insert (set (new ! k)) (?D k)" by (auto simp: less_Suc_eq)
    show "gives late (if keep k then Some s1 else map_option snd (build_sched_domains_with E (new ! k) (attr k) (al k) s1))
        (\<lambda>s'. part_inv late own cs E (?D (Suc k)) s' \<and> same_doms s s')"
    proof (cases "keep k")
      case True
      then have "?D (Suc k) = ?D k" using grow assms(4) [OF k] by auto
      then show ?thesis using True s1 by simp
    next
      case False
      have "set (new ! k) \<inter> m = {}" if "m \<in> ?D k" for m
        using that
      proof
        assume "m \<in> M"
        then show ?thesis using assms(5) [OF _ k False] by (simp add: Int_commute)
      next
        assume "m \<in> {set (new ! j) |j. j < k}"
        then obtain j where "m = set (new ! j)" "j < k" by blast
        then show ?thesis using masks_ok_disjoint [OF assms(2) k, of j] k by simp
      qed
      then have "set (new ! k) \<inter> \<Union>(?D k) = {}" by blast
      then have "gives late (build_sched_domains_with E (new ! k) (attr k) (al k) s1)
          (\<lambda>(err, s'). part_inv late own cs E (?D (Suc k)) s' \<and> same_doms s1 s')"
        using build_ok_partition [OF conjunct1 [OF s1] assms(3) masks_okD(1,2) [OF assms(2) k] _ assms(6,7)] unfolding grow by blast
      then show ?thesis using False s1 by (auto intro!: gives_map elim!: gives_mono intro: same_doms_trans)
    qed
  qed (use assms(1) in simp)
qed

text \<open>What the callers pass: an array of that many masks, or a null pointer for at most the fallback.\<close>

definition new_masks :: "part_env \<Rightarrow> nat \<Rightarrow> (nat \<times> nat list list) option \<Rightarrow> nat list list" where
  "new_masks E n doms = take n (case doms of None \<Rightarrow> [cpumask_andnot (cpu_active E) (cpu_isolated E)] | Some (_, ms) \<Rightarrow> ms)"

definition args_ok :: "bool \<Rightarrow> bool \<Rightarrow> nat list \<Rightarrow> part_env \<Rightarrow> (nat \<Rightarrow> alloc_oracle) \<Rightarrow> nat \<Rightarrow> (nat \<times> nat list list) option \<Rightarrow> bool" where
  "args_ok late own cs E al n doms \<longleftrightarrow> length (new_masks E n doms) = n \<and> masks_ok cs (ptopo E) (new_masks E n doms) \<and>
     (late \<longrightarrow> (\<forall>j. late_ok E (al j))) \<and> (own \<longrightarrow> (\<forall>j. all_ok (al j)))"

lemma doms_match_iff:
  "doms_match init nt ds da i es ea n \<longleftrightarrow> (\<exists>j < n. \<not> nt \<and> set (ds ! i) = set (es ! j) \<and> dattrs_equal init da i ea j)"
  by (auto simp: doms_match_def cpumask_equal_def)

lemma match_back:
  assumes "doms_match init nt ds da i es ea n" "i < m"
  shows "\<exists>j < n. set (ds ! i) = set (es ! j) \<and> doms_match init nt es ea j ds da m"
proof -
  obtain j where j: "j < n" "\<not> nt" "set (ds ! i) = set (es ! j)" "dattrs_equal init da i ea j"
    using assms(1) unfolding doms_match_iff by (elim exE conjE) (rule that)
  have "dattrs_equal init ea j da i" using j(4) by (simp add: dattrs_equal_sym [of init ea j])
  then show ?thesis using j assms(2) unfolding doms_match_iff by (intro exI [of _ j] conjI exI [of _ i]) simp_all
qed

text \<open>A null pointer stands for no new masks in the first loop, and for no current ones in the second.\<close>

lemma match_both:
  assumes "nj = (case doms of None \<Rightarrow> 0 | Some (_ :: nat \<times> nat list list) \<Rightarrow> n)" "ni = (case doms of None \<Rightarrow> 0 | Some _ \<Rightarrow> length cur)"
  shows "i < length cur \<Longrightarrow> doms_match init nt cur da i masks ea nj \<Longrightarrow>
      \<exists>j < n. set (cur ! i) = set (masks ! j) \<and> doms_match init nt masks ea j cur da ni"
    "j < n \<Longrightarrow> doms_match init nt masks ea j cur da ni \<Longrightarrow>
      \<exists>i < length cur. set (masks ! j) = set (cur ! i) \<and> doms_match init nt cur da i masks ea nj"
  using match_back [of init nt cur da i masks ea nj ni] match_back [of init nt masks ea j cur da ni nj] assms
  by (cases doms; simp add: doms_match_iff [of _ _ _ _ _ _ _ 0])+

lemma partition_ok:
  assumes "part_ok late own cs E s" "length cs < 2 ^ 32 - 1" "args_ok late own cs E al n doms"
  shows "gives late (partition_sched_domains E nt al n doms attrs s)
    (\<lambda>s'. part_ok late own cs E s' \<and> doms_cur s' = new_masks E n doms \<and>
      live_masks s' = (case doms_block s of None \<Rightarrow> live_masks s
        | Some d \<Rightarrow> live_masks (free_sched_domains d (case doms of None \<Rightarrow> 0 | Some _ \<Rightarrow> length (doms_cur s)) s)))"
proof -
  let ?init = "SD_ATTR_INIT (consts_of (ptopo E))" and ?cur = "doms_cur s" and ?da = "dattr_cur s"
  define masks where "masks = (case doms of None \<Rightarrow> [cpumask_andnot (cpu_active E) (cpu_isolated E)] | Some (_, ms) \<Rightarrow> ms)"
  define nj where "nj = (case doms of None \<Rightarrow> 0 | Some _ \<Rightarrow> n)"
  define ni where "ni = (case doms of None \<Rightarrow> 0 | Some _ \<Rightarrow> length ?cur)"
  define keep1 where "keep1 = (\<lambda>i. doms_match ?init nt ?cur ?da i masks attrs nj)"
  define keep2 where "keep2 = (\<lambda>i. doms_match ?init nt masks attrs i ?cur ?da ni)"
  define M where "M = {set (?cur ! i) |i. i < length ?cur \<and> keep1 i}"
  define ms where "ms = take n masks"
  have new: "new_masks E n doms = ms" by (simp add: new_masks_def masks_def ms_def)
  have len: "length ms = n" and ok: "masks_ok cs (ptopo E) ms"
    and al: "\<And>j. late \<Longrightarrow> late_ok E (al j)" "\<And>j. own \<Longrightarrow> all_ok (al j)"
    using assms(3) unfolding args_ok_def new by simp_all
  have long: "n \<le> length masks" using len by (simp add: ms_def)
  have nth: "ms ! j = masks ! j" if "j < n" for j using that by (simp add: ms_def)
  have inv: "part_inv late own cs E (set ` set ?cur) s" "masks_ok cs (ptopo E) ?cur" using assms(1) by (simp_all add: part_ok_def)
  have keep: "keep1 i \<longleftrightarrow> doms_match ?init nt ?cur ?da i masks attrs nj" "keep2 i \<longleftrightarrow> doms_match ?init nt masks attrs i ?cur ?da ni" for i
    by (simp_all add: keep1_def keep2_def)
  have both: "i < length ?cur \<Longrightarrow> keep1 i \<Longrightarrow> \<exists>j < n. set (?cur ! i) = set (masks ! j) \<and> keep2 j"
      "j < n \<Longrightarrow> keep2 j \<Longrightarrow> \<exists>i < length ?cur. set (masks ! j) = set (?cur ! i) \<and> keep1 i" for i j
    unfolding keep by (erule (1) match_both [OF nj_def ni_def])+
  let ?detach = "\<lambda>i s. if keep1 i then Some s else detach_destroy_domains E (?cur ! i) s"
  have first: "gives late (each_step ?detach [0..<length ?cur] s) (\<lambda>s1. part_inv late own cs E M s1 \<and> same_doms s s1)"
    using destroy_loop [OF inv assms(2), of keep1] unfolding M_def .
  have kept: "set (ms ! j) \<in> M" if "j < length ms" "keep2 j" for j
    using both(2) [of j] that nth [of j] unfolding M_def len by auto
  have matched: "\<exists>j < n. m = set (ms ! j) \<and> keep2 j" if "m \<in> M" for m
    using both(1) that nth unfolding M_def by fastforce
  have apart: "m \<inter> set (ms ! j) = {}" if m: "m \<in> M" and j: "j < length ms" "\<not> keep2 j" for m j
  proof -
    obtain k where k: "k < n" "m = set (ms ! k)" "keep2 k" using matched [OF m] by blast
    then have "k \<noteq> j" using j(2) by blast
    then show ?thesis using masks_ok_disjoint [OF ok, of k j] k(1,2) j(1) len by simp
  qed
  let ?build = "\<lambda>i s. if keep2 i then Some s
      else map_option snd (build_sched_domains_with E (ms ! i) (map_option (\<lambda>ds. ds ! i) attrs) (al i) s)"
  have second: "gives late (each_step ?build [0..<length ms] s1)
      (\<lambda>s2. part_inv late own cs E (M \<union> {set (ms ! j) |j. j < length ms}) s2 \<and> same_doms s1 s2)"
    if "part_inv late own cs E M s1" for s1
    by (rule build_loop [OF that ok assms(2)]) (erule (1) kept, erule (2) apart, erule al(1), erule al(2))
  have "{set (ms ! j) |j. j < length ms} = set ` set ms" unfolding set_conv_nth [of ms] by auto
  moreover have "M \<subseteq> {set (ms ! j) |j. j < length ms}" using matched len by fastforce
  ultimately have all: "M \<union> {set (ms ! j) |j. j < length ms} = set ` set ms" by (simp add: Un_absorb1)
  let ?build' = "\<lambda>i s. if keep2 i then Some s
      else map_option snd (build_sched_domains_with E (masks ! i) (map_option (\<lambda>ds. ds ! i) attrs) (al i) s)"
  have loop2: "each_step ?build' [0..<n] s1 = each_step ?build [0..<length ms] s1" for s1
    unfolding len by (rule each_step_cong) (auto simp: nth fun_eq_iff)
  define final where "final = (\<lambda>s2. (case doms_block s2 of None \<Rightarrow> s2 | Some d \<Rightarrow> free_sched_domains d ni s2)
      \<lparr>doms_cur := ms, dattr_cur := attrs, doms_block := map_option fst doms\<rparr>)"
  have run: "partition_sched_domains E nt al n doms attrs s =
      (case each_step ?detach [0..<length ?cur] s of None \<Rightarrow> None
       | Some s1 \<Rightarrow> map_option final (each_step ?build' [0..<n] s1))"
    using long unfolding keep masks_def nj_def ni_def
    by (cases doms) (auto simp: partition_sched_domains_def Let_def final_def ni_def ms_def masks_def map_option_case split: option.split)
  have "part_ok late own cs E (final s2) \<and> doms_cur (final s2) = ms \<and>
      live_masks (final s2) = (case doms_block s of None \<Rightarrow> live_masks s | Some d \<Rightarrow> live_masks (free_sched_domains d ni s))"
    if "part_inv late own cs E (set ` set ms) s2" "same_doms s s2" for s2
  proof -
    have "rts (final s2) = rts s2" "next_addr (final s2) = next_addr s2" "node_arrays (final s2) = node_arrays s2" "bycpu (final s2) = bycpu s2"
      by (cases "doms_block s2"; simp add: final_def free_sched_domains_def)+
    from part_inv_cong [OF this] have "part_inv late own cs E (set ` set ms) (final s2)" using that(1) by blast
    moreover have "doms_cur (final s2) = ms" by (simp add: final_def)
    moreover have "live_masks (final s2) = (case doms_block s of None \<Rightarrow> live_masks s | Some d \<Rightarrow> live_masks (free_sched_domains d ni s))"
      using that(2) by (cases "doms_block s") (simp_all add: final_def free_sched_domains_def same_doms_def)
    ultimately show ?thesis using ok by (simp add: part_ok_def)
  qed
  note final_ok = this
  show ?thesis
  proof (cases "each_step ?detach [0..<length ?cur] s")
    case (Some s1)
    then have s1: "part_inv late own cs E M s1" "same_doms s s1" using first by simp_all
    have "gives late (each_step ?build' [0..<n] s1) (\<lambda>s2. part_inv late own cs E (set ` set ms) s2 \<and> same_doms s s2)"
      using second [OF s1(1)] s1(2) unfolding loop2 all by (auto elim!: gives_mono intro: same_doms_trans)
    then show ?thesis unfolding run new Some option.case(2)
      using final_ok unfolding ni_def by (auto intro!: gives_map elim!: gives_mono)
  qed (use first run in simp)
qed

section \<open>Histories of partitions\<close>

text \<open>
  At boot \<open>sched_init\<close> attaches every runqueue to the default root domain; \<open>arch_init_sched_domains\<close> then
  builds the first domains.
\<close>

definition part_start :: "part_env \<Rightarrow> topo_sys \<Rightarrow> part_sys" where
  "part_start E t = \<lparr>rts = roots_init (def_root E), topo_state = t, node_arrays = (\<lambda>_. None), bycpu = (\<lambda>_. None),
     next_addr = def_root E + 1, doms_cur = [], dattr_cur = None, doms_block = None, live_masks = []\<rparr>"

inductive part_reach :: "bool \<Rightarrow> bool \<Rightarrow> nat list \<Rightarrow> part_env \<Rightarrow> part_sys \<Rightarrow> bool" for late own cs E where
  Boot: "each_step (attach_one E (\<lambda>_. []) (def_root E)) (each_cpu cs) (part_start E t) = Some s \<Longrightarrow>
    masks_ok cs (ptopo E) [cpumask_andnot cm (cpu_isolated E)] \<Longrightarrow> (late \<Longrightarrow> late_ok E al) \<Longrightarrow> (own \<Longrightarrow> all_ok al) \<Longrightarrow>
    arch_init_sched_domains E array_ok mask_ok al cm s = Some (err, s') \<Longrightarrow> part_reach late own cs E s'"
| Partition: "part_reach late own cs E s \<Longrightarrow> args_ok late own cs E al n doms \<Longrightarrow>
    partition_sched_domains E nt al n doms attrs s = Some s' \<Longrightarrow> part_reach late own cs E s'"

lemma part_start_ok:
  assumes "each_step (attach_one E (\<lambda>_. []) (def_root E)) (each_cpu cs) (part_start E t) = Some s" "length cs < 2 ^ 32 - 1"
  shows "part_inv late own cs E {} s"
proof -
  let ?s = "part_start E t"
  have ok: "roots_ok cs (def_root E) (rts ?s)"
    by (auto simp: part_start_def roots_init_def roots_ok_def root_ok_def users_def split: if_splits)
  have root: "roots (rts ?s) (def_root E) \<noteq> None" by (simp add: part_start_def roots_init_def)
  have sub: "set (each_cpu cs) \<subseteq> set cs" by simp
  obtain r where r: "s = ?s\<lparr>rts := r\<rparr>" "roots_ok cs (def_root E) r"
      "rq_rd r = (\<lambda>c. if c \<in> set cs then Some (def_root E) else rq_rd (rts ?s) c)" "\<forall>q. roots (rts ?s) q = None \<longrightarrow> roots r q = None"
    using attach_all [OF ok assms(2) distinct_each_cpu sub root disjI1 [OF refl], of "\<lambda>_. []"] assms(1)
    unfolding set_each_cpu by auto
  have "part_roots own cs (def_root E) {} r" using r(2,3) by (intro part_rootsI) auto
  moreover have "fresh_roots s" unfolding fresh_roots_def
  proof (intro allI impI)
    fix q assume "roots (rts s) q \<noteq> None"
    then have "roots (rts ?s) q \<noteq> None" using r(1,4) by auto
    then show "q < next_addr s" by (simp add: r(1) part_start_def roots_init_def split: if_splits)
  qed
  moreover have "nodes_ok s" by (simp add: r(1) part_start_def nodes_ok_def)
  ultimately show ?thesis by (simp add: part_inv_def r(1))
qed

lemma alloc_masks_fields [simp]:
  "rts (snd (alloc_masks ok d js s)) = rts s" "next_addr (snd (alloc_masks ok d js s)) = next_addr s"
  "node_arrays (snd (alloc_masks ok d js s)) = node_arrays s" "bycpu (snd (alloc_masks ok d js s)) = bycpu s"
  by (induction ok d js s rule: alloc_masks.induct) (simp_all add: free_sched_domains_def)

lemma alloc_sched_domains_ok:
  assumes "part_inv late own cs E D s"
  shows "part_inv late own cs E D (snd (alloc_sched_domains array_ok ok n s))"
proof (cases array_ok)
  case True
  let ?s = "snd (alloc_sched_domains array_ok ok n s)"
  have "rts ?s = rts s" "next_addr ?s = next_addr s + 1" "node_arrays ?s = node_arrays s" "bycpu ?s = bycpu s"
    using True by (simp_all add: alloc_sched_domains_def Let_def split_beta)
  then show ?thesis using assms by (auto simp: part_inv_def fresh_roots_def nodes_ok_def less_SucI)
qed (use assms in \<open>simp add: alloc_sched_domains_def\<close>)

lemma arch_init_ok:
  assumes "part_inv late own cs E {} s" "length cs < 2 ^ 32 - 1"
    "masks_ok cs (ptopo E) [cpumask_andnot cm (cpu_isolated E)]" "late \<Longrightarrow> late_ok E al" "own \<Longrightarrow> all_ok al"
  shows "gives late (arch_init_sched_domains E array_ok mask_ok al cm s) (\<lambda>(err, s'). part_ok late own cs E s')"
proof -
  let ?m = "cpumask_andnot cm (cpu_isolated E)" and ?alloc = "alloc_sched_domains array_ok mask_ok 1 s"
  let ?s = "(snd ?alloc)\<lparr>doms_block := fst ?alloc, doms_cur := [?m], dattr_cur := None\<rparr>"
  have m: "topo_ok (ptopo E) ?m" "set ?m \<subseteq> set cs" using assms(3) by (simp_all add: masks_ok_def)
  have "part_inv late own cs E {} (snd ?alloc)" using alloc_sched_domains_ok assms(1) by blast
  then have "part_inv late own cs E {} ?s" by (subst part_inv_cong [of _ "snd ?alloc"]) simp_all
  then have "gives late (build_sched_domains_with E ?m None al ?s) (\<lambda>(err, s1). part_inv late own cs E {set ?m} s1 \<and> same_doms ?s s1)"
    using build_ok_partition [of late own cs E "{}" ?s ?m al None] assms(2,4,5) m by auto
  then have "gives late (build_sched_domains_with E ?m None al ?s) (\<lambda>(err, s'). part_ok late own cs E s')"
    by (rule gives_mono) (use assms(3) in \<open>auto simp: part_ok_def same_doms_def\<close>)
  then show ?thesis by (simp add: arch_init_sched_domains_def Let_def split_beta)
qed

lemma part_reach_ok: "part_reach late own cs E s \<Longrightarrow> length cs < 2 ^ 32 - 1 \<Longrightarrow> part_ok late own cs E s"
proof (induction rule: part_reach.induct)
  case (Boot t s cm al array_ok mask_ok err s')
  then show ?case using arch_init_ok [OF part_start_ok [OF Boot(1,6)] Boot(6,2,3,4), where array_ok = array_ok and mask_ok = mask_ok] by auto
next
  case (Partition s al n doms nt attrs s')
  then show ?case using partition_ok [of late own cs E s al n doms nt attrs] by auto
qed

text \<open>The boot succeeds.\<close>

lemma part_boot:
  fixes t :: topo_sys
  assumes "length cs < 2 ^ 32 - 1" "masks_ok cs (ptopo E) [cpumask_andnot cm (cpu_isolated E)]" "late_ok E al" "own \<Longrightarrow> all_ok al"
  shows "\<exists>s. part_reach late own cs E s"
proof -
  let ?s = "part_start E t"
  have ok: "roots_ok cs (def_root E) (rts ?s)"
    by (auto simp: part_start_def roots_init_def roots_ok_def root_ok_def users_def split: if_splits)
  have root: "roots (rts ?s) (def_root E) \<noteq> None" by (simp add: part_start_def roots_init_def)
  have sub: "set (each_cpu cs) \<subseteq> set cs" by simp
  obtain s where s: "each_step (attach_one E (\<lambda>_. []) (def_root E)) (each_cpu cs) ?s = Some s"
    using attach_all [OF ok assms(1) distinct_each_cpu sub root disjI1 [OF refl], of "\<lambda>_. []"] by blast
  have "gives True (arch_init_sched_domains E True (\<lambda>_. True) al cm s) (\<lambda>(err, s'). part_ok True own cs E s')"
    using arch_init_ok [OF part_start_ok [OF s assms(1)] assms] by blast
  then obtain err s' where "arch_init_sched_domains E True (\<lambda>_. True) al cm s = Some (err, s')"
    by (cases "arch_init_sched_domains E True (\<lambda>_. True) al cm s") auto
  from part_reach.Boot [OF s assms(2,3,4) this] show ?thesis by blast
qed

text \<open>
  C40 (partitions_are_isolated): In every state that boot and partitions lead to, whatever allocations
  failed on the way, a further \<open>partition_sched_domains\<close> that returns has established the new masks.  Each of
  them has a root domain whose runqueues are exactly its processors; only if an allocation may fail
  (\<open>own\<close> is false) it can be left in the default root domain as a whole.  The processors in no mask are in the
  default root domain, and every root domain counts its runqueues, spans them and knows which are online.
  It does return, without a use of freed memory, if \<open>late\<close> holds: on a machine with nodes no
  construction in the history or in this call has failed in \<open>__visit_domain_allocation_hell\<close> after the array of
  the node groups.  Without this condition the code does use freed memory
  (\<open>late_failure_dangles\<close>); the rest of the claim does not need it.
\<close>

theorem partitions_are_isolated:
  assumes "part_reach late own cs E s" "length cs < 2 ^ 32 - 1" "args_ok late own cs E al n doms"
  shows "(late \<longrightarrow> (\<exists>s'. partition_sched_domains E nt al n doms attrs s = Some s')) \<and>
   (\<forall>s'. partition_sched_domains E nt al n doms attrs s = Some s' \<longrightarrow>
    doms_cur s' = new_masks E n doms \<and>
    (\<forall>m \<in> set (doms_cur s'). (\<exists>r. r \<noteq> def_root E \<and> users cs (rts s') r = set m) \<or>
       (\<not> own \<and> (\<forall>c \<in> set m. rq_rd (rts s') c = Some (def_root E)))) \<and>
    (\<forall>c \<in> set cs. (\<forall>m \<in> set (doms_cur s'). c \<notin> set m) \<longrightarrow> rq_rd (rts s') c = Some (def_root E)) \<and>
    roots_ok cs (def_root E) (rts s'))"
proof -
  note step = partition_ok [OF part_reach_ok [OF assms(1,2)] assms(2,3), of nt attrs]
  show ?thesis
  proof (cases "partition_sched_domains E nt al n doms attrs s")
    case (Some s')
    then have s': "part_ok late own cs E s'" "doms_cur s' = new_masks E n doms" using step by simp_all
    have "part_roots own cs (def_root E) (set ` set (doms_cur s')) (rts s')" using s'(1) by (simp add: part_ok_def part_inv_def)
    from part_rootsD [OF this] show ?thesis using s'(2) Some by (auto simp: own_root_def)
  qed (use step in simp)
qed

definition sample_part_env :: part_env where
  "sample_part_env = \<lparr>ptopo = sample_topology, def_root = 0, relax_level = - 1, cpu_active = [0, 1, 2, 3], cpu_isolated = []\<rparr>"

definition sample_allocs :: alloc_oracle where
  "sample_allocs = \<lparr>block_ok = (\<lambda>_. True), rd_ok = (\<lambda>_. True), group_ok = (\<lambda>_ _. True)\<rparr>"

lemma sample_allocs_ok: "all_ok sample_allocs" "late_ok E sample_allocs"
  by (simp_all add: all_ok_def late_ok_def sample_allocs_def build_ok_def init_rootdomain_def)

lemma topo_ok_subset:
  assumes "topo_ok T cm" "set m \<subseteq> set cm" "m \<noteq> []"
  shows "topo_ok T m"
  unfolding topo_ok_def
proof (intro conjI ballI allI impI)
  fix l i assume l: "l \<in> set (cpu_levels T)" "i \<in> set m"
  then have i: "i \<in> set cm" using assms(2) by blast
  note level = topo_level [OF assms(1) l(1) i]
  show "i \<in> set (mask_at T l i)" by (rule level(1))
  show "case lower T l of None \<Rightarrow> True | Some c \<Rightarrow> set m \<inter> set (mask_at T c i) \<subseteq> set (mask_at T l i)"
    using level(3) assms(2) by (auto split: option.splits)
  fix j assume "j \<in> set m" "j \<in> set (mask_at T l i)"
  then have "set cm \<inter> set (mask_at T l j) = set cm \<inter> set (mask_at T l i)" using level(2) assms(2) by blast
  then show "set m \<inter> set (mask_at T l j) = set m \<inter> set (mask_at T l i)" using assms(2) by blast
qed (use assms in \<open>auto simp: topo_ok_def\<close>)

theorem partitions_are_isolated_witness:
  "\<exists>s s' r. part_reach True True [0, 1, 2, 3] sample_part_env s \<and>
     partition_sched_domains sample_part_env False (\<lambda>_. sample_allocs) 2 (Some (7, [[0, 1], [2, 3]])) None s = Some s' \<and>
     r \<noteq> 0 \<and> users [0, 1, 2, 3] (rts s') r = {2, 3}"
proof -
  let ?cs = "[0, 1, 2, 3] :: nat list" and ?E = sample_part_env and ?doms = "Some (7::nat, [[0, 1], [2, 3::nat]])"
  have topo: "ptopo ?E = sample_topology" by (simp add: sample_part_env_def)
  have one: "masks_ok ?cs (ptopo ?E) [cpumask_andnot ?cs (cpu_isolated ?E)]"
    unfolding topo using sample_topology_ok
    by (simp add: masks_ok_def cpumask_andnot_def sample_part_env_def del: One_nat_def)
  obtain s where s: "part_reach True True ?cs ?E s"
    using part_boot [of ?cs ?E ?cs sample_allocs True] one sample_allocs_ok by auto
  have "masks_ok ?cs (ptopo ?E) [[0, 1], [2, 3]]"
    unfolding topo masks_ok_def
    using topo_ok_subset [OF sample_topology_ok, of "[0, 1]"] topo_ok_subset [OF sample_topology_ok, of "[2, 3]"]
    by (auto simp: less_Suc_eq numeral_2_eq_2)
  then have args: "args_ok True True ?cs ?E (\<lambda>_. sample_allocs) 2 ?doms"
    using sample_allocs_ok by (simp add: args_ok_def new_masks_def del: One_nat_def)
  note outcome = partitions_are_isolated [OF s _ args, of False None]
  have "length ?cs < 2 ^ 32 - 1" by simp
  then obtain s' where s': "partition_sched_domains ?E False (\<lambda>_. sample_allocs) 2 ?doms None s = Some s'"
      "doms_cur s' = new_masks ?E 2 ?doms"
      "\<forall>m \<in> set (doms_cur s'). (\<exists>r. r \<noteq> def_root ?E \<and> users ?cs (rts s') r = set m) \<or>
         (\<not> True \<and> (\<forall>c \<in> set m. rq_rd (rts s') c = Some (def_root ?E)))"
    using outcome by blast
  have "[2, 3] \<in> set (doms_cur s')" unfolding s'(2) by (simp add: new_masks_def)
  then obtain r where "r \<noteq> def_root ?E" "users ?cs (rts s') r = set [2, 3]" using s'(3) by blast
  then show ?thesis using s s'(1) by (auto simp: sample_part_env_def)
qed

section \<open>Memory that is lost or used after it is freed\<close>

text \<open>
  Without a new array \<open>partition_sched_domains\<close> sets \<open>ndoms_cur\<close> to 0 before it frees the old array: the masks in it
  are never freed.
\<close>

lemma fallback_leaks_masks:
  assumes "part_reach late own cs E s" "length cs < 2 ^ 32 - 1" "args_ok late own cs E al n None"
    "partition_sched_domains E nt al n None attrs s = Some s'"
  shows "doms_block s' = None \<and> live_masks s' = live_masks s"
proof -
  have "live_masks s' = (case doms_block s of None \<Rightarrow> live_masks s | Some d \<Rightarrow> live_masks (free_sched_domains d 0 s))"
    using partition_ok [OF part_reach_ok [OF assms(1,2)] assms(2,3), of nt attrs] unfolding assms(4)
    by (cases "doms_block s") simp_all
  moreover have "live_masks (free_sched_domains d 0 s) = live_masks s" for d by (simp add: free_sched_domains_def split_beta)
  moreover have "doms_block s' = None"
    using assms(4) by (auto simp: partition_sched_domains_def Let_def bind_eq_Some_conv split: if_splits)
  ultimately show ?thesis by (auto split: option.splits)
qed

text \<open>
  When an allocation after that of the array of node groups fails, the array is freed but
  \<open>sched_group_nodes_bycpu\<close> still points to it: the next \<open>free_sched_groups\<close> for the processor uses freed memory.
\<close>

lemma late_failure_dangles:
  assumes "CONFIG_NUMA (ptopo E)" "cpumask_first (ptopo E) cm < nr_cpu_ids (ptopo E)"
    "build_ok al Domainspan" "build_ok al Covered" "build_ok al Notcovered" "build_ok al Group_nodes" "\<not> build_ok al Nodemask"
  shows "\<exists>s'. build_sched_domains_with E cm attr al s = Some (- ENOMEM, s') \<and>
    free_cpu_groups (cpumask_first (ptopo E) cm) s' = None"
proof -
  have "visit_domain_allocation_hell True (build_ok al) = (Sa_sched_group_nodes, [Domainspan, Covered, Notcovered, Group_nodes])"
    using assms(3-7) by (simp add: visit_domain_allocation_hell_def alloc_order_def)
  moreover have "freed_blocks True True Sa_sched_group_nodes = [Group_nodes, Notcovered, Covered, Domainspan]"
    by (simp add: freed_blocks_def free_order_def)
  ultimately show ?thesis using assms(1,2)
    by (simp add: build_sched_domains_with_def take_blocks_def free_domain_allocs_def free_cpu_groups_def Let_def)
qed

end
