(* ===== verification/Spec2Isabelle.thy ===== *)
theory Spec2Isabelle
  imports CBufferProps FifoProps KifsProps ModlistProps ProdCons1 ProdCons2 Chardev DumpUtmp
    SchedPolicyProps SchedLoadProps SchedLoadInv SchedCpuLoad SchedGroupsInv SchedWaitProps SchedAffinityProps SchedEvacuate
    SchedPartitionProps
begin

text \<open>
  A verification library for dso-fifo, a collection of Linux kernel exercises in C (2.6 kernels on
  32-bit x86): character devices, /proc files and a system call, and the scheduler of the kernel that
  one of the exercises extends.  A path is relative to src/; a C function keeps its name in the model
  where Isabelle and the other files leave it free.

  \<^bold>\<open>How C is modelled.\<close>
  \<open>unsigned int\<close> and \<open>int\<close> are 32-bit words (\<open>sint\<close> where the sign matters), \<open>unsigned long\<close> too, and
  counters of 64 bits are 64-bit words, so that additions and conversions wrap as they do in the
  code.  Priorities, nice values and error codes, which the code bounds, are \<^typ>\<open>int\<close>.  A block of
  memory is the list of its bytes.  An access outside a block or to a block that is not allocated,
  a division by zero and a \<open>BUG\<close> are the result \<^const>\<open>None\<close> or \<open>Fault\<close>; that they do not happen is
  a theorem; where the code does not test an allocation (the producers), the theorem is for calls
  whose allocation succeeds.  What the environment decides (allocation, signals, what is copied
  from user memory, \<open>sscanf\<close>) is an argument or a choice of a step.  Concurrent code is cut where it
  takes or releases a lock or a semaphore or sleeps; its pieces are the steps of an inductive
  relation, and the theorems are about every reachable state, with any number of processes.

  \<^bold>\<open>Shared theories.\<close>
  Prelude has the machine types, the error codes, block copies and counting lemmas.  Queues has the
  contracts of a ring buffer as locales, one for blocks and one for single items; Tables the contract
  of a bounded table of names; Threads counts and ownership over lists of processors; CStrings the
  functions of string.h.

  \<^bold>\<open>The byte ring buffer\<close> (parteB/cbuffer.c; FicherosP3/cbuffer.c is the same text): CBuffer models every
  operation and proves the bulk and the single-byte operations instances of the two contracts of
  Queues; CBufferProps has the properties, and the input on which the bulk extraction leaves the head
  past the end of the block, against the header file.

  \<^bold>\<open>The FIFO device\<close> (parteB/fifo.c): Fifo has the module's state, the condition-variable idiom on
  semaphores, and the pieces of open, read, write and release; FifoInv the steps and the system
  invariant; FifoProps mutual exclusion, memory safety, delivery in order, exact counts of users and
  the balance of wake-ups, the outcomes of a read and a write, and four executions in which the code
  breaks its contract (a sleeping reader that the last writer leaves asleep among them).  The device
  uses the byte buffer through the contract of Queues.

  \<^bold>\<open>The kifs interface\<close> (opcional2/kernel/kifs.c, include/linux/kifs.h): Kifs has the array of ten
  entries with its two lists, the built-in entries and the system call; KifsInv the invariant and the
  interpretation of the contract of Tables; KifsProps the table as a finite map, concurrent safety,
  the round trip of the clipboard, and the use of an entry after its removal.  The test of a callback and
  the call through it come after the lock is released and are pieces of their own: the call may find
  another callback or none, and nothing else is undefined; with entries that all have both
  callbacks (\<open>complete\<close>) nothing is.

  \<^bold>\<open>The /proc list of integers\<close> (parteA/modlist.c under a spinlock; opcional1/modlist.c, the same code
  under a reader/writer lock): Modlist has the functions on a heap with explicit addresses; ModlistInv
  states the lock as a locale, interpreted by both locks, and proves inside it who owns which element
  and what a reader sees; ModlistProps has the effect of every command, what a read shows, and the
  safety and the snapshot under concurrency.

  \<^bold>\<open>Producers and consumers\<close> (FicherosP3/Ejemplos/ProdCons1 and ProdCons2): PtrBuffer is their ring of
  pointers, ProdCons what the two modules share, ProdCons1 the version with counting semaphores and
  ProdCons2 the monitor: mutual exclusion, exact counting, delivery in order, loading and unloading,
  a wake-up that is lost and items that leak.

  \<^bold>\<open>Two small programs\<close>: Chardev is FicherosP3/Ejemplos/Chardev/chardev.c; DumpUtmp is the user program
  FicherosP3/Ejemplos/DumpUTMP/dump_utmp.c, whose printing through the FIFO is shown to give the text
  of local printing.
\<close>

text \<open>
  \<^bold>\<open>The scheduler\<close> (opcional2/kernel/sched.c, a file of Linux of which the repository has no headers and
  no other file of the scheduler).  The model is that of an SMP kernel with group scheduling;
  statistics and tracing are left out.

  SchedBase has the task, the runqueue and the whole system as records, and two parameters.  \<open>K\<close> are the
  constants of include/linux/sched.h; \<open>consts_ok\<close> states their documented relations and
  \<open>linux_consts\<close> their values.  \<open>H\<close> are the methods of the scheduling classes (sched_fair.c, sched_rt.c)
  and the other functions the code calls.  A method may change what the classes keep, which is the
  opaque field \<open>ext\<close>, and ask for a reschedule; it does not write the fields of tasks and runqueues
  that are modelled.  \<open>hooks_ok\<close>, and \<open>picks_ok\<close> and \<open>fallback_ok\<close> for a processor that goes down, state
  what is documented of them.

  SchedWeight: \<open>calc_delta_mine\<close> and the load weights; the error of its fixed-point arithmetic in both
  branches, with a cached inverse or one that is computed, and the wrap-around beyond its range.
  SchedQueue: the runqueues, wake-up, fork, \<open>schedule\<close>, migration.  SchedPolicy: priorities, nice
  values, the system calls for policies.  SchedAffinity: the affinity calls, \<open>yield_to\<close>, moving tasks,
  idle tasks, emptying a processor.  SchedAcct: what each function does to the counters, silent steps
  collected in \<open>silent\<close>.  SchedMachine: the interleaving of all of these under the locks of the
  runqueues, with exact accounting and the place of every task.  SchedPolicyProps: the parameters of a
  task stay consistent, errors change nothing, limits hold for unprivileged callers; three ways in
  which they do not.  SchedAffinityProps: masks read back what was set.  SchedEvacuate: \<open>migrate_tasks\<close>
  ends and leaves only the stop thread; its loop is a partial function, and that it returns is part
  of the theorem.

  SchedLoad with SchedLoadProps, SchedLoadInv, SchedCpuLoad: the load averages and their fixed-point
  power, the two-stage count of active tasks, the per-processor loads, and the ageing loop that does
  not end for a period of 0.  SchedGroups with SchedGroupsProps, SchedGroupsInv: the tree of task
  groups, its walk with \<open>goto\<close>, and the real-time bandwidth that stays schedulable.  Requests for a
  group and the handler of the system-wide limits, which stores them before it takes the lock and checks
  them, are interleaved; what holds only if no bandwidth was set while the handler ran is stated
  under \<open>alone\<close>, and \<open>refused_limits_stay\<close> and \<open>zero_period_window\<close> are the executions without it.  SchedWait with
  SchedWaitProps: wait queues over the locale \<open>waker\<close>, which \<open>try_to_wake_up\<close> satisfies, and
  completions that lose neither a post nor a wake-up.  SchedDomains with SchedDomainsProps: which
  scheduling domains a processor keeps, and root domains that are freed with their last runqueue.
  SchedTopology with SchedTopologyProps: how the domains and their rings of groups are built from the
  topology, for every setting of the options; the groups of a domain are the spans of its children, at
  the levels of one node, of the neighbouring nodes (whose groups are rings of allocated blocks) and of all nodes.
  SchedPartition with SchedPartitionProps: what a construction allocates and frees, with its error path, and
  the change from one partition of the processors to another; every part keeps a root domain of its own
  whatever allocations fail.  That no freed memory is used holds as long as no late
  allocation of a construction fails on a machine with nodes (\<open>late_ok\<close>); when one does, the code
  leaves a dangling pointer (\<open>late_failure_dangles\<close>).

  \<^bold>\<open>Bounds.\<close>
  The theorems on load averages are for averages and task counts up to 2097151, beyond which the
  32-bit products of the code overflow; those on the load of a processor for weights below \<open>2 ^ 25\<close>,
  for the same reason.  \<open>calc_delta_mine\<close> is accurate while the product of the time, the load and the
  inverse is below \<open>2 ^ 79\<close>; beyond it a 64-bit product wraps, which is shown.  The invariant of the task groups is for fewer than 4096 children of a group:
  with 4096 the sum of the code wraps, which is shown.  Evacuating a processor is for fewer than
  \<open>2 ^ 32\<close> threads, the range of the counter.  A wake-up of all is for fewer than \<open>2 ^ 32\<close> waiters,
  the range of its counter.  A walk over a ring of groups takes at most as many steps as there are
  processors, which is enough for the rings that are built; the chain of domains of a processor is
  followed for six steps, the number of levels.  No other fuel is used: loops that end are recursive
  functions, and the three that may not (\<open>avg_loop\<close>, \<open>walk\<close>, \<open>migrate_loop\<close>) are partial functions
  whose termination is proved.

  \<^bold>\<open>Not modelled.\<close>
  Byte-for-byte copies of a modelled file; log messages and module reference counts; build files,
  the system-call tables, scripts and the assignment text.  Of sched.c: sysctl and
  cgroup registration and \<open>sched_init\<close>, which build tables for the rest of the kernel; time accounting
  and the cpuacct group, additions to counters kept elsewhere; the period timer of the real-time
  bandwidth; lock wrappers, preemption counters, high-resolution ticks, debugging output; the switch
  of stacks and address spaces.  They call code that is not in the repository and have no state or
  decision of their own that the properties depend on.
\<close>

end
